(* ===== verification/Prelude.thy ===== *)
theory Prelude
  imports Main "HOL-Library.Word"
begin

text \<open>
  Shared vocabulary of the development: the Go integer types as machine words, the
  collections of simplification rules the component theories extend, Go's slice
  operations (\<open>make\<close>, \<open>copy\<close>, in-place writes through a sub-slice) on lists, and the
  generic facts about lists and words that several components use.
\<close>

unbundle bit_operations_syntax

section \<open>Go integer types\<close>

type_synonym byte = "8 word"
type_synonym u32 = "32 word"
type_synonym u64 = "64 word"

named_theorems wire_defs \<open>definitions of the wire protocol\<close>
named_theorems slice_simps \<open>facts about Go slices\<close>
named_theorems word_nat_simps \<open>moving word arithmetic to the naturals\<close>

section \<open>Go slices\<close>

text \<open>
  \<open>blit buf pos bs\<close> is the slice \<open>buf\<close> after its positions \<open>pos ..< pos + length bs\<close> were
  overwritten with \<open>bs\<close>; the callers keep \<open>pos + length bs \<le> length buf\<close>. \<open>go_copy\<close> is
  the built-in \<open>copy(buf[pos:], src)\<close>, which stops at the end of the destination.
\<close>

definition blit :: "'a list \<Rightarrow> nat \<Rightarrow> 'a list \<Rightarrow> 'a list" where
  "blit buf pos bs = take pos buf @ bs @ drop (pos + length bs) buf"

definition go_copy :: "'a list \<Rightarrow> nat \<Rightarrow> 'a list \<Rightarrow> 'a list" where
  "go_copy buf pos src = blit buf pos (take (length buf - pos) src)"

lemma length_blit [simp]:
  "pos + length bs \<le> length buf \<Longrightarrow> length (blit buf pos bs) = length buf"
  by (simp add: blit_def)

lemma take_blit [slice_simps]:
  "n \<le> pos \<Longrightarrow> pos + length bs \<le> length buf \<Longrightarrow> take n (blit buf pos bs) = take n buf"
  by (simp add: blit_def min_def)

lemma take_blit_end [slice_simps]:
  "pos + length bs \<le> length buf \<Longrightarrow>
     take (pos + length bs) (blit buf pos bs) = take pos buf @ bs"
  by (simp add: blit_def)

lemma drop_blit [slice_simps]:
  "pos + length bs \<le> n \<Longrightarrow> pos + length bs \<le> length buf \<Longrightarrow>
     drop n (blit buf pos bs) = drop n buf"
  by (simp add: blit_def)

lemma drop_blit_start [slice_simps]:
  "pos + length bs \<le> length buf \<Longrightarrow>
     drop pos (blit buf pos bs) = bs @ drop (pos + length bs) buf"
  by (simp add: blit_def)

lemma blit_append [slice_simps]:
  "length xs = pos \<Longrightarrow> length bs \<le> length ys \<Longrightarrow>
     blit (xs @ ys) pos bs = xs @ bs @ drop (length bs) ys"
  by (simp add: blit_def)

lemma go_copy_exact [slice_simps]:
  "length xs = pos \<Longrightarrow> length src = length ys \<Longrightarrow> go_copy (xs @ ys) pos src = xs @ src"
  by (simp add: go_copy_def blit_def)

section \<open>Words as naturals\<close>

lemma unat_add_no_wrap [word_nat_simps]:
  "unat a + unat b < 2 ^ LENGTH('a) \<Longrightarrow> unat (a + b) = unat a + unat b"
  for a b :: "'a::len word"
  by (simp add: unat_word_ariths)

lemma unat_of_nat_small [word_nat_simps]:
  "n < 2 ^ LENGTH('a) \<Longrightarrow> unat (word_of_nat n :: 'a::len word) = n"
  by (simp add: unat_of_nat take_bit_nat_eq_self)

lemma unat_sub_no_borrow [word_nat_simps]:
  "b \<le> a \<Longrightarrow> unat (a - b) = unat a - unat b" for a b :: "'a::len word"
  by (simp add: unat_sub_if' word_le_nat_alt)

lemma unat_Suc_less [word_nat_simps]:
  "a < b \<Longrightarrow> unat (a + 1) = Suc (unat a)" for a b :: "'a::len word"
proof -
  assume "a < b"
  then have "unat a < unat b" by (simp add: word_less_nat_alt)
  moreover have "unat b < 2 ^ LENGTH('a)" by (rule unsigned_less)
  ultimately have "unat a + 1 < 2 ^ LENGTH('a)" by linarith
  then have "unat a + unat (1 :: 'a word) < 2 ^ LENGTH('a)" by simp
  from unat_add_no_wrap [OF this] show ?thesis by simp
qed

lemma unat_pred_less: "b < n \<Longrightarrow> unat (n - 1) < unat n" for b n :: "'a::len word"
proof -
  assume "b < n"
  then have "n \<noteq> 0" by auto
  then show ?thesis by (simp add: unat_minus_one unat_gt_0)
qed

lemma unat_lt64: "unat (x :: u64) < 18446744073709551616"
  using unsigned_less [of x] by simp

lemma unat_lt32: "unat (x :: u32) < 4294967296"
  using unsigned_less [of x] by simp

section \<open>Simulation\<close>

text \<open>
  The interface of a refinement: every step of the program, from a state related to an abstract
  one, is matched by a run of the specification that ends in a related state. Whole runs are
  then matched too.
\<close>

locale simulation =
  fixes cstep :: "'c \<Rightarrow> 'c \<Rightarrow> bool" and astep :: "'a \<Rightarrow> 'a \<Rightarrow> bool" and rel :: "'c \<Rightarrow> 'a \<Rightarrow> bool"
  assumes step_simulated: "rel c a \<Longrightarrow> cstep c c' \<Longrightarrow> \<exists>a'. astep\<^sup>*\<^sup>* a a' \<and> rel c' a'"
begin

lemma run_simulated:
  assumes "cstep\<^sup>*\<^sup>* c c'" and "rel c a"
  shows "\<exists>a'. astep\<^sup>*\<^sup>* a a' \<and> rel c' a'"
  using assms
proof (induction rule: rtranclp_induct)
  case (step d e)
  then obtain b where b: "astep\<^sup>*\<^sup>* a b" "rel d b" by blast
  obtain b' where "astep\<^sup>*\<^sup>* b b'" "rel e b'" using step_simulated [OF b(2) step.hyps(2)] by blast
  then show ?case using rtranclp_trans [OF b(1)] by blast
qed blast

end

end
