(* ===== verification/Wire.thy ===== *)
theory Wire
  imports Prelude
begin

text \<open>
  The binary wire protocol of \<open>network/binary_protocol.go\<close>: frames of a 17-byte header
  (magic, length, offset, CRC32) and a payload. The part of the Go standard library the
  file uses is modelled here too: \<open>encoding/binary\<close>'s big-endian integers,
  \<open>hash/crc32\<close>'s IEEE checksum (bit by bit, polynomial \<open>0xEDB88320\<close>) and
  \<open>io.ReadFull\<close> over a reader that delivers the stream in arbitrary fragments.
  The lemmas show that decoding inverts encoding and accepts nothing else, that the
  fragmentation of the stream is invisible, and what corruption the checksum detects.
\<close>

section \<open>Big-endian integers\<close>

definition put_u32 :: "u32 \<Rightarrow> byte list" where
  "put_u32 v = [ucast (drop_bit 24 v), ucast (drop_bit 16 v), ucast (drop_bit 8 v), ucast v]"

definition get_u32 :: "byte list \<Rightarrow> u32" where
  "get_u32 b = ucast (b ! 3) OR push_bit 8 (ucast (b ! 2)) OR
     push_bit 16 (ucast (b ! 1)) OR push_bit 24 (ucast (b ! 0))"

definition put_u64 :: "u64 \<Rightarrow> byte list" where
  "put_u64 v =
     [ucast (drop_bit 56 v), ucast (drop_bit 48 v), ucast (drop_bit 40 v),
      ucast (drop_bit 32 v), ucast (drop_bit 24 v), ucast (drop_bit 16 v),
      ucast (drop_bit 8 v), ucast v]"

definition get_u64 :: "byte list \<Rightarrow> u64" where
  "get_u64 b = ucast (b ! 7) OR push_bit 8 (ucast (b ! 6)) OR
     push_bit 16 (ucast (b ! 5)) OR push_bit 24 (ucast (b ! 4)) OR
     push_bit 32 (ucast (b ! 3)) OR push_bit 40 (ucast (b ! 2)) OR
     push_bit 48 (ucast (b ! 1)) OR push_bit 56 (ucast (b ! 0))"

lemma length_put_u32 [simp]: "length (put_u32 v) = 4"
  by (simp add: put_u32_def)

lemma length_put_u64 [simp]: "length (put_u64 v) = 8"
  by (simp add: put_u64_def)

lemma bit_byte_slice:
  "bit (push_bit k (ucast (ucast (drop_bit k v) :: byte)) :: 'a::len word) n \<longleftrightarrow>
     k \<le> n \<and> n < k + 8 \<and> n < LENGTH('a) \<and> bit v n" for v :: "'a::len word"
proof -
  have *: "n < k + 8 \<longleftrightarrow> n - k < 8" if "k \<le> n" using that by arith
  show ?thesis
    by (auto simp: bit_push_bit_iff bit_unsigned_iff bit_drop_bit_eq * dest: bit_imp_le_length)
qed

lemma bit_low_byte:
  "bit (ucast (ucast v :: byte) :: 'a::len word) n \<longleftrightarrow> n < 8 \<and> n < LENGTH('a) \<and> bit v n"
  for v :: "'a::len word"
  using bit_byte_slice [of 0 v n] by simp

lemma get_put_u32 [simp]: "get_u32 (put_u32 v) = v"
proof (rule bit_word_eqI)
  fix n assume "n < LENGTH(32)"
  then have n: "n < 32" by simp
  have "bit (get_u32 (put_u32 v)) n \<longleftrightarrow> bit v n \<and> (n < 8 \<or> 8 \<le> n \<and> n < 16 \<or>
      16 \<le> n \<and> n < 24 \<or> 24 \<le> n \<and> n < 32)"
    using n by (simp only: get_u32_def put_u32_def bit_or_iff bit_byte_slice bit_low_byte
      nth_Cons_numeral nth_Cons_0 nth_Cons_Suc numeral_3_eq_3 numeral_2_eq_2 One_nat_def) auto
  then show "bit (get_u32 (put_u32 v)) n = bit v n"
    using n by arith
qed

lemma nth_octet:
  "[a, b, c, d, e, f, g, h] ! 0 = a" "[a, b, c, d, e, f, g, h] ! 1 = b"
  "[a, b, c, d, e, f, g, h] ! 2 = c" "[a, b, c, d, e, f, g, h] ! 3 = d"
  "[a, b, c, d, e, f, g, h] ! 4 = e" "[a, b, c, d, e, f, g, h] ! 5 = f"
  "[a, b, c, d, e, f, g, h] ! 6 = g" "[a, b, c, d, e, f, g, h] ! 7 = h"
  by simp_all

lemma get_put_u64 [simp]: "get_u64 (put_u64 v) = v"
proof (rule bit_word_eqI)
  fix n assume "n < LENGTH(64)"
  then have n: "n < 64" by simp
  have "bit (get_u64 (put_u64 v)) n \<longleftrightarrow> bit v n \<and> (n < 8 \<or> 8 \<le> n \<and> n < 16 \<or>
      16 \<le> n \<and> n < 24 \<or> 24 \<le> n \<and> n < 32 \<or> 32 \<le> n \<and> n < 40 \<or> 40 \<le> n \<and> n < 48 \<or>
      48 \<le> n \<and> n < 56 \<or> 56 \<le> n \<and> n < 64)"
    using n by (simp only: get_u64_def put_u64_def bit_or_iff bit_byte_slice bit_low_byte
      nth_octet) auto
  then show "bit (get_u64 (put_u64 v)) n = bit v n"
    using n by arith
qed

lemma bit_ucast_byte: "bit (ucast (b :: byte) :: 'a::len word) n \<longleftrightarrow> n < LENGTH('a) \<and> bit b n"
  by (simp add: bit_unsigned_iff)

text \<open>Reading is injective too: four bytes are the big-endian form of what they read as.\<close>

lemma put_get_u32: "length b = 4 \<Longrightarrow> put_u32 (get_u32 b) = b"
proof -
  assume "length b = 4"
  then obtain b0 b1 b2 b3 where b: "b = [b0, b1, b2, b3]"
    by (auto simp: numeral_eq_Suc length_Suc_conv)
  have hi: "\<not> bit x n" if "8 \<le> n" for x :: byte and n
    using that by (auto dest: bit_imp_le_length)
  show ?thesis
    unfolding b put_u32_def get_u32_def
    by (auto intro!: bit_word_eqI simp: bit_unsigned_iff bit_drop_bit_eq bit_or_iff
        bit_push_bit_iff hi simp del: push_bit_numeral)
qed

lemma put_get_u64: "length b = 8 \<Longrightarrow> put_u64 (get_u64 b) = b"
proof -
  assume "length b = 8"
  then obtain b0 b1 b2 b3 b4 b5 b6 b7 where b: "b = [b0, b1, b2, b3, b4, b5, b6, b7]"
    by (auto simp: numeral_eq_Suc length_Suc_conv)
  have hi: "\<not> bit x n" if "8 \<le> n" for x :: byte and n
    using that by (auto dest: bit_imp_le_length)
  show ?thesis
    unfolding b put_u64_def get_u64_def
    by (auto intro!: bit_word_eqI simp: bit_unsigned_iff bit_drop_bit_eq bit_or_iff
        bit_push_bit_iff hi simp del: push_bit_numeral)
qed

section \<open>CRC32 (hash/crc32, IEEE)\<close>

text \<open>
  \<open>crc32.ChecksumIEEE\<close> is the reflected CRC with polynomial \<open>0xEDB88320\<close>, initial value and
  final complement all ones.
\<close>

definition crc_bit :: "u32 \<Rightarrow> u32" where
  "crc_bit c = (if bit c 0 then drop_bit 1 c XOR 0xEDB88320 else drop_bit 1 c)"

definition crc_byte :: "u32 \<Rightarrow> byte \<Rightarrow> u32" where
  "crc_byte c b = (crc_bit ^^ 8) (c XOR ucast b)"

definition checksum_ieee :: "byte list \<Rightarrow> u32" where
  "checksum_ieee bs = NOT (foldl crc_byte (NOT 0) bs)"

lemma crc_byte_unrolled:
  "crc_byte c b = crc_bit (crc_bit (crc_bit (crc_bit (crc_bit (crc_bit (crc_bit (crc_bit
     (c XOR ucast b))))))))"
  by (simp add: crc_byte_def eval_nat_numeral)

text \<open>The check value of the algorithm: the CRC of the ASCII digits 1 to 9.\<close>

lemma checksum_check_value:
  "checksum_ieee [0x31, 0x32, 0x33, 0x34, 0x35, 0x36, 0x37, 0x38, 0x39] = 0xCBF43926"
  by (simp add: checksum_ieee_def crc_byte_unrolled crc_bit_def)

subsection \<open>What the checksum detects\<close>

lemma crc_bit_top: "bit (crc_bit c) 31 = bit c 0"
  by (auto simp: crc_bit_def bit_xor_iff bit_drop_bit_eq dest: bit_imp_le_length)

lemma xor_right_cancel: "a XOR c = b XOR c \<longleftrightarrow> a = b" for a b c :: "'a::len word"
  by (metis xor.assoc xor_self_eq xor.right_neutral)

lemma xor_left_cancel: "c XOR a = c XOR b \<longleftrightarrow> a = b" for a b c :: "'a::len word"
  by (metis xor.commute xor_right_cancel)

lemma crc_bit_inj: "crc_bit a = crc_bit b \<Longrightarrow> a = b"
proof -
  assume eq: "crc_bit a = crc_bit b"
  then have low: "bit a 0 = bit b 0" by (metis crc_bit_top)
  with eq have "drop_bit 1 a = drop_bit 1 b"
    by (simp add: crc_bit_def xor_right_cancel split: if_splits)
  then have "bit a (Suc n) = bit b (Suc n)" for n
    by (metis bit_drop_bit_eq comp_apply plus_1_eq_Suc)
  with low have "bit a n = bit b n" for n by (cases n) auto
  then show ?thesis by (simp add: bit_eq_iff)
qed

lemma crc_bit_xor: "crc_bit (a XOR b) = crc_bit a XOR crc_bit b"
  by (rule bit_word_eqI) (auto simp: crc_bit_def bit_xor_iff bit_drop_bit_eq)

lemma crc_bits_inj: "(crc_bit ^^ k) a = (crc_bit ^^ k) b \<Longrightarrow> a = b"
  by (induction k) (auto dest: crc_bit_inj)

lemma crc_bits_xor: "(crc_bit ^^ k) (a XOR b) = (crc_bit ^^ k) a XOR (crc_bit ^^ k) b"
  by (induction k) (simp_all add: crc_bit_xor)

lemma crc_bits_shift: "(\<And>n. n < k \<Longrightarrow> \<not> bit x n) \<Longrightarrow> (crc_bit ^^ k) x = drop_bit k x"
proof (induction k)
  case (Suc k)
  then have "(crc_bit ^^ Suc k) x = crc_bit (drop_bit k x)" by simp
  also have "\<dots> = drop_bit 1 (drop_bit k x)"
    using Suc.prems [of k] by (simp only: crc_bit_def bit_drop_bit_eq) simp
  finally show ?case by (simp add: drop_bit_drop_bit)
qed simp

text \<open>
  The register after a run of bytes is the register advanced over the bytes read as one
  little-endian number, as long as that number fits the register (four bytes).
\<close>

fun le_word :: "byte list \<Rightarrow> u32" where
  "le_word [] = 0"
| "le_word (b # bs) = ucast b XOR push_bit 8 (le_word bs)"

lemma bit_le_word_high: "8 * length bs \<le> n \<Longrightarrow> \<not> bit (le_word bs) n"
proof (induction bs arbitrary: n)
  case (Cons b bs)
  then have "\<not> bit (le_word bs) (n - 8)" by simp
  with Cons.prems show ?case
    by (auto simp: bit_xor_iff bit_push_bit_iff bit_unsigned_iff dest: bit_imp_le_length)
qed simp

lemma le_word_inj: "length v = length w \<Longrightarrow> length v \<le> 4 \<Longrightarrow> le_word v = le_word w \<Longrightarrow> v = w"
proof (induction v w rule: list_induct2)
  case (Cons x v y w)
  have bits: "bit (le_word (b # bs)) n \<longleftrightarrow> n < 32 \<and> (if n < 8 then bit b n else bit (le_word bs) (n - 8))"
    for b :: byte and bs n
    by (auto simp: bit_xor_iff bit_push_bit_iff bit_unsigned_iff dest: bit_imp_le_length)
  have "bit x n = bit y n" for n
    using bits [of x v n] bits [of y w n] Cons.prems(2)
    by (cases "n < 8") (auto dest: bit_imp_le_length)
  moreover have "bit (le_word v) n = bit (le_word w) n" for n
  proof (cases "n < 24")
    case True
    then show ?thesis using bits [of x v "n + 8"] bits [of y w "n + 8"] Cons.prems(2) by simp
  next
    case False
    then show ?thesis using Cons.prems(1) Cons.hyps bit_le_word_high [of v n] bit_le_word_high [of w n]
      by simp
  qed
  ultimately show ?case using Cons.IH Cons.prems(1) by (simp add: bit_eq_iff)
qed simp

lemma crc_run: "length w \<le> 4 \<Longrightarrow> foldl crc_byte c w = (crc_bit ^^ (8 * length w)) (c XOR le_word w)"
proof (induction w arbitrary: c)
  case (Cons b w)
  have low: "(crc_bit ^^ 8) (push_bit 8 (le_word w)) = le_word w"
  proof -
    have "(crc_bit ^^ 8) (push_bit 8 (le_word w)) = drop_bit 8 (push_bit 8 (le_word w))"
      by (rule crc_bits_shift) (simp add: bit_push_bit_iff)
    also have "\<dots> = le_word w"
    proof (rule bit_word_eqI)
      fix n assume "n < LENGTH(32)"
      moreover have "n < 24" if "bit (le_word w) n"
        using bit_le_word_high [of w n] that Cons.prems by (cases "8 * length w \<le> n") auto
      ultimately show "bit (drop_bit 8 (push_bit 8 (le_word w))) n = bit (le_word w) n"
        by (auto simp: bit_drop_bit_eq bit_push_bit_iff)
    qed
    finally show ?thesis .
  qed
  have "foldl crc_byte c (b # w) = (crc_bit ^^ (8 * length w)) (crc_byte c b XOR le_word w)"
    using Cons by simp
  also have "crc_byte c b XOR le_word w = (crc_bit ^^ 8) (c XOR le_word (b # w))"
    by (simp add: crc_byte_def crc_bits_xor low xor.assoc)
  also have "(crc_bit ^^ (8 * length w)) ((crc_bit ^^ 8) (c XOR le_word (b # w))) =
      (crc_bit ^^ (8 * length (b # w))) (c XOR le_word (b # w))"
    using funpow_add [of "8 * length w" 8 crc_bit] by (simp add: add.commute)
  finally show ?case .
qed simp

lemma crc_fold_inj: "foldl crc_byte a bs = foldl crc_byte b bs \<Longrightarrow> a = b"
proof (induction bs arbitrary: a b)
  case (Cons x bs)
  then have "crc_byte a x = crc_byte b x" by simp
  then show ?case
    unfolding crc_byte_def by (metis crc_bits_inj xor_right_cancel)
qed simp

lemma checksum_detects_burst:
  assumes "length v = length w" and "length w \<le> 4" and "v \<noteq> w"
  shows "checksum_ieee (xs @ v @ ys) \<noteq> checksum_ieee (xs @ w @ ys)"
proof
  assume "checksum_ieee (xs @ v @ ys) = checksum_ieee (xs @ w @ ys)"
  then have "foldl crc_byte (foldl crc_byte (NOT 0) xs) v = foldl crc_byte (foldl crc_byte (NOT 0) xs) w"
    by (auto simp: checksum_ieee_def dest: crc_fold_inj)
  with assms(1,2) have "le_word v = le_word w"
    by (auto simp: crc_run xor_left_cancel dest!: crc_bits_inj)
  with le_word_inj [of v w] assms show False by simp
qed

section \<open>Frames\<close>

text \<open>
  The constants and the \<open>Frame\<close> struct. The two end-of-stream errors are \<open>io.EOF\<close> and
  \<open>io.ErrUnexpectedEOF\<close>, which \<open>io.ReadFull\<close> returns; the others are the three errors of
  the file, with the values their messages print.
\<close>

definition MagicByte :: byte where [wire_defs]: "MagicByte = 0x4B"
definition HeaderSize :: nat where [wire_defs]: "HeaderSize = 1 + 4 + 8 + 4"
definition MaxPayloadSize :: u32 where [wire_defs]: "MaxPayloadSize = 32 * 1024 * 1024"

datatype frame_error =
    ReadEOF
  | ReadUnexpectedEOF
  | ErrInvalidMagic byte
  | ErrCRC32Mismatch u32 u32
  | ErrPayloadTooLarge u32

record frame =
  Magic :: byte
  Length :: u32
  Offset :: u64
  CRC32 :: u32
  Payload :: "byte list"

definition EncodeFrame :: "u64 \<Rightarrow> byte list \<Rightarrow> frame_error + byte list" where
  "EncodeFrame offset payload =
    (let payloadLen = (word_of_nat (length payload) :: u32) in
     if payloadLen > MaxPayloadSize then Inl (ErrPayloadTooLarge payloadLen)
     else
       (let totalLen = HeaderSize + unat payloadLen;
            buf = replicate totalLen 0;
            buf = buf[0 := MagicByte];
            buf = blit buf 1 (put_u32 payloadLen);
            buf = blit buf 5 (put_u64 offset);
            checksum = checksum_ieee payload;
            buf = blit buf 13 (put_u32 checksum);
            buf = go_copy buf 17 payload
        in Inr buf))"

text \<open>
  An \<open>io.Reader\<close> is the list of fragments it will still deliver; one \<open>Read\<close> never crosses a
  fragment. \<open>ReadFull need\<close> calls it until \<open>need\<close> bytes have arrived.
\<close>

type_synonym reader = "byte list list"

fun ReadFull_loop :: "nat \<Rightarrow> byte list \<Rightarrow> reader \<Rightarrow> (frame_error + byte list) \<times> reader" where
  "ReadFull_loop need got [] =
     (if need = 0 then (Inr got, [])
      else (Inl (if got = [] then ReadEOF else ReadUnexpectedEOF), []))"
| "ReadFull_loop need got (c # cs) =
     (if need = 0 then (Inr got, c # cs)
      else if length c \<le> need then ReadFull_loop (need - length c) (got @ c) cs
      else (Inr (got @ take need c), drop need c # cs))"

definition ReadFull :: "nat \<Rightarrow> reader \<Rightarrow> (frame_error + byte list) \<times> reader" where
  "ReadFull n r = ReadFull_loop n [] r"

definition slice :: "'a list \<Rightarrow> nat \<Rightarrow> nat \<Rightarrow> 'a list" where
  "slice xs i j = take (j - i) (drop i xs)"

definition DecodeFrame :: "reader \<Rightarrow> (frame_error + frame) \<times> reader" where
  "DecodeFrame r =
    (case ReadFull HeaderSize r of
       (Inl err, r) \<Rightarrow> (Inl err, r)
     | (Inr headerBuf, r) \<Rightarrow>
         (let magic = headerBuf ! 0 in
          if magic \<noteq> MagicByte then (Inl (ErrInvalidMagic magic), r)
          else
            (let len = get_u32 (slice headerBuf 1 5) in
             if len > MaxPayloadSize then (Inl (ErrPayloadTooLarge len), r)
             else
               (let offset = get_u64 (slice headerBuf 5 13);
                    expectedCRC = get_u32 (slice headerBuf 13 17)
                in case (if len > 0 then ReadFull (unat len) r else (Inr [], r)) of
                     (Inl err, r) \<Rightarrow> (Inl err, r)
                   | (Inr payload, r) \<Rightarrow>
                       (let actualCRC = checksum_ieee payload in
                        if actualCRC \<noteq> expectedCRC
                        then (Inl (ErrCRC32Mismatch expectedCRC actualCRC), r)
                        else (Inr \<lparr>Magic = magic, Length = len, Offset = offset,
                                   CRC32 = expectedCRC, Payload = payload\<rparr>, r))))))"

text \<open>\<open>WriteFrame\<close> over any \<open>io.Writer\<close>, given by what its \<open>Write\<close> does to its state.\<close>

definition WriteFrame ::
  "(byte list \<Rightarrow> 'w \<Rightarrow> 'e option \<times> 'w) \<Rightarrow> 'w \<Rightarrow> u64 \<Rightarrow> byte list \<Rightarrow> (frame_error + 'e) option \<times> 'w"
where
  "WriteFrame write w offset payload =
    (case EncodeFrame offset payload of
       Inl err \<Rightarrow> (Some (Inl err), w)
     | Inr buf \<Rightarrow> (case write buf w of (err, w') \<Rightarrow> (map_option Inr err, w')))"

section \<open>Encoding writes the documented layout\<close>

text \<open>
  The layout of the header comment: magic, length, offset, checksum, payload. \<open>len\<close> and the
  checksum are separate arguments because the encoder computes both from the untruncated
  payload.
\<close>

definition header_bytes :: "u32 \<Rightarrow> u64 \<Rightarrow> u32 \<Rightarrow> byte list" where
  "header_bytes len offset crc = MagicByte # put_u32 len @ put_u64 offset @ put_u32 crc"

definition frame_bytes :: "u64 \<Rightarrow> byte list \<Rightarrow> byte list" where
  "frame_bytes offset payload =
     header_bytes (word_of_nat (length payload)) offset (checksum_ieee payload) @ payload"

abbreviation payload_fits :: "byte list \<Rightarrow> bool" where
  "payload_fits p \<equiv> length p \<le> unat MaxPayloadSize"

lemma HeaderSize_eq [simp]: "HeaderSize = 17"
  by (simp add: HeaderSize_def)

lemma unat_MaxPayloadSize [simp]: "unat MaxPayloadSize = 33554432"
  by (simp add: MaxPayloadSize_def)

lemma length_header_bytes [simp]: "length (header_bytes l off c) = 17"
  by (simp add: header_bytes_def)

lemma length_frame_bytes [simp]: "length (frame_bytes off p) = 17 + length p"
  by (simp add: frame_bytes_def)

lemma frame_bytes_not_Nil [simp]: "frame_bytes off p \<noteq> []"
  by (simp add: frame_bytes_def header_bytes_def)

lemma hd_frame_bytes [simp]: "frame_bytes off p ! 0 = MagicByte"
  by (simp add: frame_bytes_def header_bytes_def)

lemma fill_header:
  assumes "length a = 4" and "length b = 8" and "length c = 4" and "n \<le> length src"
  shows "go_copy (blit (blit (blit ((replicate (17 + n) (0::byte))[0 := m]) 1 a) 5 b) 13 c) 17 src =
    m # a @ b @ c @ take n src"
proof -
  have "(replicate (17 + n) (0::byte))[0 := m] = [m] @ replicate (16 + n) 0"
    by (simp add: eval_nat_numeral)
  moreover have "blit ([m] @ replicate (16 + n) 0) 1 a = ([m] @ a) @ replicate (12 + n) 0"
    using assms by (subst blit_append) simp_all
  moreover have "blit (([m] @ a) @ replicate (12 + n) 0) 5 b = ([m] @ a @ b) @ replicate (4 + n) 0"
    using assms by (subst blit_append) simp_all
  moreover have "blit (([m] @ a @ b) @ replicate (4 + n) 0) 13 c = ([m] @ a @ b @ c) @ replicate n 0"
    using assms by (subst blit_append) simp_all
  moreover have "go_copy (([m] @ a @ b @ c) @ replicate n 0) 17 src = m # a @ b @ c @ take n src"
    using assms by (simp add: go_copy_def blit_def)
  ultimately show ?thesis by simp
qed

lemma EncodeFrame_layout:
  "EncodeFrame off p =
    (let len = word_of_nat (length p) :: u32 in
     if len > MaxPayloadSize then Inl (ErrPayloadTooLarge len)
     else Inr (header_bytes len off (checksum_ieee p) @ take (unat len) p))"
proof -
  let ?len = "word_of_nat (length p) :: u32"
  have "unat ?len \<le> length p"
    by (simp add: unat_of_nat)
  then show ?thesis
    by (simp add: EncodeFrame_def Let_def header_bytes_def fill_header del: One_nat_def)
qed

lemma EncodeFrame_fits: "payload_fits p \<Longrightarrow> EncodeFrame off p = Inr (frame_bytes off p)"
  by (simp add: EncodeFrame_layout frame_bytes_def Let_def word_less_nat_alt unat_of_nat_small not_less)

section \<open>Reading fragments\<close>

lemma ReadFull_loop_concat:
  "(case ReadFull_loop n got r of (res, r') \<Rightarrow> (res, concat r')) =
    (if n \<le> length (concat r) then (Inr (got @ take n (concat r)), drop n (concat r))
     else (Inl (if got = [] \<and> concat r = [] then ReadEOF else ReadUnexpectedEOF), []))"
  by (induction n got r rule: ReadFull_loop.induct) (auto simp: le_diff_conv2)

lemma ReadFull_concat:
  "(case ReadFull n r of (res, r') \<Rightarrow> (res, concat r')) =
    (if n \<le> length (concat r) then (Inr (take n (concat r)), drop n (concat r))
     else (Inl (if concat r = [] then ReadEOF else ReadUnexpectedEOF), []))"
  using ReadFull_loop_concat [of n "[]" r] by (simp add: ReadFull_def)

text \<open>
  Decoding as a function of the bytes alone: what \<open>DecodeFrame\<close> does when the stream is one
  buffer, with its reads replaced by \<open>take\<close> and \<open>drop\<close>.
\<close>

definition decode_bytes :: "byte list \<Rightarrow> (frame_error + frame) \<times> byte list" where
  "decode_bytes bs =
    (if length bs < 17 then (Inl (if bs = [] then ReadEOF else ReadUnexpectedEOF), [])
     else
       (let h = take 17 bs; rest = drop 17 bs;
            len = get_u32 (slice h 1 5); off = get_u64 (slice h 5 13); crc = get_u32 (slice h 13 17);
            p = take (unat len) rest
        in if h ! 0 \<noteq> MagicByte then (Inl (ErrInvalidMagic (h ! 0)), rest)
           else if len > MaxPayloadSize then (Inl (ErrPayloadTooLarge len), rest)
           else if length rest < unat len
             then (Inl (if rest = [] then ReadEOF else ReadUnexpectedEOF), [])
           else if checksum_ieee p \<noteq> crc
             then (Inl (ErrCRC32Mismatch crc (checksum_ieee p)), drop (unat len) rest)
           else (Inr \<lparr>Magic = h ! 0, Length = len, Offset = off, CRC32 = crc, Payload = p\<rparr>,
                 drop (unat len) rest)))"

lemma ReadFull_cases:
  obtains (short) r' where "ReadFull n r = (Inl (if concat r = [] then ReadEOF else ReadUnexpectedEOF), r')"
      and "length (concat r) < n" and "concat r' = []"
    | (full) r' where "ReadFull n r = (Inr (take n (concat r)), r')" and "n \<le> length (concat r)"
      and "concat r' = drop n (concat r)"
  using ReadFull_concat [of n r] by (cases "ReadFull n r") (auto split: if_splits)

lemma DecodeFrame_concat:
  "(case DecodeFrame r of (res, r') \<Rightarrow> (res, concat r')) = decode_bytes (concat r)"
proof (cases rule: ReadFull_cases [of 17 r])
  case (short r')
  then show ?thesis by (simp add: DecodeFrame_def decode_bytes_def)
next
  case (full r1)
  let ?len = "get_u32 (slice (take 17 (concat r)) 1 5)"
  show ?thesis
  proof (cases rule: ReadFull_cases [of "unat ?len" r1])
    case (short r')
    with full show ?thesis
      by (auto simp: DecodeFrame_def decode_bytes_def Let_def word_less_nat_alt)
  next
    case (full r')
    with \<open>ReadFull 17 r = _\<close> \<open>17 \<le> _\<close> \<open>concat r1 = _\<close> show ?thesis
      by (auto simp: DecodeFrame_def decode_bytes_def Let_def word_less_nat_alt)
  qed
qed

lemma DecodeFrame_single: "DecodeFrame [bs] = (res, r) \<Longrightarrow> decode_bytes bs = (res, concat r)"
  using DecodeFrame_concat [of "[bs]"] by simp

lemma fst_DecodeFrame: "fst (DecodeFrame r) = fst (decode_bytes (concat r))"
  using DecodeFrame_concat [of r] by (cases "DecodeFrame r") (simp, metis fst_conv)

section \<open>Decoding inverts encoding\<close>

lemma slice_header:
  "slice (header_bytes len off crc) 1 5 = put_u32 len"
  "slice (header_bytes len off crc) 5 13 = put_u64 off"
  "slice (header_bytes len off crc) 13 17 = put_u32 crc"
  "header_bytes len off crc ! 0 = MagicByte"
  by (simp_all add: slice_def header_bytes_def)

lemma decode_header:
  "decode_bytes (header_bytes len off crc @ rest) =
    (if len > MaxPayloadSize then (Inl (ErrPayloadTooLarge len), rest)
     else if length rest < unat len
       then (Inl (if rest = [] then ReadEOF else ReadUnexpectedEOF), [])
     else if checksum_ieee (take (unat len) rest) \<noteq> crc
       then (Inl (ErrCRC32Mismatch crc (checksum_ieee (take (unat len) rest))), drop (unat len) rest)
     else (Inr \<lparr>Magic = MagicByte, Length = len, Offset = off, CRC32 = crc,
                Payload = take (unat len) rest\<rparr>, drop (unat len) rest))"
  by (simp add: decode_bytes_def Let_def slice_header del: One_nat_def)

lemma decode_frame_bytes:
  "payload_fits p \<Longrightarrow> decode_bytes (frame_bytes off p @ rest) =
    (Inr \<lparr>Magic = MagicByte, Length = word_of_nat (length p), Offset = off,
          CRC32 = checksum_ieee p, Payload = p\<rparr>, rest)"
  by (simp add: frame_bytes_def decode_header unat_of_nat_small word_less_nat_alt)

lemma header_of_bytes:
  assumes "length h = 17" and "h ! 0 = MagicByte"
  shows "h = header_bytes (get_u32 (slice h 1 5)) (get_u64 (slice h 5 13)) (get_u32 (slice h 13 17))"
proof -
  have "h = take 1 h @ slice h 1 5 @ slice h 5 13 @ slice h 13 17"
  proof -
    have "h = take 1 h @ take 4 (drop 1 h) @ take 8 (drop 4 (drop 1 h)) @ drop 8 (drop 4 (drop 1 h))"
      by (simp only: append_take_drop_id append.assoc [symmetric] take_add [symmetric])
    then show ?thesis using assms(1) by (simp add: slice_def)
  qed
  moreover have "take 1 h = [MagicByte]"
    using assms by (cases h) auto
  ultimately show ?thesis
    using assms(1) by (simp add: header_bytes_def put_get_u32 put_get_u64 slice_def)
qed

lemma decode_bytes_Inr:
  assumes "decode_bytes bs = (Inr f, rest)"
  shows "bs = frame_bytes (Offset f) (Payload f) @ rest" and "payload_fits (Payload f)"
    and "Magic f = MagicByte" and "Length f = word_of_nat (length (Payload f))"
    and "CRC32 f = checksum_ieee (Payload f)"
proof -
  let ?h = "take 17 bs"
  have len: "17 \<le> length bs" and magic: "?h ! 0 = MagicByte"
    using assms by (auto simp: decode_bytes_def Let_def split: if_splits)
  let ?len = "get_u32 (slice ?h 1 5)" and ?off = "get_u64 (slice ?h 5 13)"
    and ?crc = "get_u32 (slice ?h 13 17)"
  have "bs = header_bytes ?len ?off ?crc @ drop 17 bs"
    using header_of_bytes [of ?h] len magic by (metis append_take_drop_id length_take min.absorb2)
  then obtain len off crc tl where bs: "bs = header_bytes len off crc @ tl" by blast
  have *: "\<not> len > MaxPayloadSize" "unat len \<le> length tl"
      "f = \<lparr>Magic = MagicByte, Length = len, Offset = off, CRC32 = crc, Payload = take (unat len) tl\<rparr>"
      "crc = checksum_ieee (take (unat len) tl)" "rest = drop (unat len) tl"
    using assms unfolding bs decode_header by (auto split: if_splits)
  have len': "length (Payload f) = unat len"
    using * by simp
  then have len_word: "word_of_nat (length (Payload f)) = len" by simp
  show "bs = frame_bytes (Offset f) (Payload f) @ rest"
    using * len_word by (simp add: bs frame_bytes_def)
  show "payload_fits (Payload f)"
    using len' *(1) by (simp add: word_less_nat_alt)
  show "Magic f = MagicByte" "Length f = word_of_nat (length (Payload f))"
    "CRC32 f = checksum_ieee (Payload f)"
    using * len_word by simp_all
qed

lemma DecodeFrame_of_bytes:
  assumes "decode_bytes (concat r) = (res, rest)"
  obtains r' where "DecodeFrame r = (res, r')" and "concat r' = rest"
  using DecodeFrame_concat [of r] assms by (cases "DecodeFrame r") auto

section \<open>Properties of the protocol\<close>

text \<open>C4. Encoding then decoding returns the frame: whatever fragments the network cuts the
  stream into, reading a stream that starts with an encoded frame yields that offset and
  payload and leaves exactly the bytes after it.\<close>

theorem decode_encode:
  assumes "length p \<le> unat MaxPayloadSize"
    and "EncodeFrame off p = Inr bs" and "concat r = bs @ rest"
  shows "\<exists>f r'. DecodeFrame r = (Inr f, r') \<and> Offset f = off \<and> Payload f = p \<and> concat r' = rest"
proof -
  have "bs = frame_bytes off p" using assms(1,2) by (simp add: EncodeFrame_fits)
  then have "decode_bytes (concat r) = (Inr \<lparr>Magic = MagicByte, Length = word_of_nat (length p),
      Offset = off, CRC32 = checksum_ieee p, Payload = p\<rparr>, rest)"
    using assms by (simp add: decode_frame_bytes)
  then show ?thesis by (rule DecodeFrame_of_bytes) auto
qed

theorem decode_encode_witness:
  "\<exists>f r'. DecodeFrame [take 5 (frame_bytes 9 [1, 2]), [], drop 5 (frame_bytes 9 [1, 2]), [7]] =
     (Inr f, r') \<and> Offset f = 9 \<and> Payload f = [1, 2] \<and> concat r' = [7]"
  by (rule decode_encode [where bs = "frame_bytes 9 [1, 2]"]) (simp_all add: EncodeFrame_fits)

text \<open>C22. Decoding accepts nothing but encoded frames: a frame \<open>DecodeFrame\<close> returns is one
  \<open>EncodeFrame\<close> produces, byte for byte the consumed part of the stream, with a length field
  and a checksum that agree with its payload.\<close>

theorem decode_sound:
  assumes "DecodeFrame r = (Inr f, r')"
  shows "\<exists>bs. EncodeFrame (Offset f) (Payload f) = Inr bs \<and> concat r = bs @ concat r' \<and>
     unat (Length f) = length (Payload f) \<and> CRC32 f = checksum_ieee (Payload f) \<and>
     length (Payload f) \<le> unat MaxPayloadSize"
proof -
  have "decode_bytes (concat r) = (Inr f, concat r')"
    using DecodeFrame_concat [of r] assms by simp
  note f = decode_bytes_Inr [OF this]
  then show ?thesis by (simp add: EncodeFrame_fits unat_of_nat_small)
qed

theorem decode_sound_witness:
  "\<exists>bs. EncodeFrame 3 [] = Inr bs \<and> concat [frame_bytes 3 []] = bs @ concat [] \<and>
     unat (0 :: u32) = length ([] :: byte list) \<and> (0 :: u32) = checksum_ieee [] \<and>
     length ([] :: byte list) \<le> unat MaxPayloadSize"
proof -
  have "DecodeFrame [frame_bytes 3 []] =
      (Inr \<lparr>Magic = 0x4B, Length = 0, Offset = 3, CRC32 = 0, Payload = []\<rparr>, [])"
    by (simp add: DecodeFrame_def ReadFull_def frame_bytes_def slice_header checksum_ieee_def
        MagicByte_def del: One_nat_def)
  from decode_sound [OF this] show ?thesis by simp
qed

text \<open>C23. Fragmentation is invisible: two streams with the same bytes decode to the same result
  (frame or error) and leave the same bytes, however the bytes were split into reads.\<close>

theorem decode_fragmentation:
  assumes "concat r1 = concat r2"
  shows "fst (DecodeFrame r1) = fst (DecodeFrame r2) \<and>
     concat (snd (DecodeFrame r1)) = concat (snd (DecodeFrame r2))"
  using DecodeFrame_concat [of r1] DecodeFrame_concat [of r2] assms
  by (cases "DecodeFrame r1"; cases "DecodeFrame r2") (simp, metis prod.inject)

theorem decode_fragmentation_witness:
  "fst (DecodeFrame [[0x4B, 0], [0x4C]]) = fst (DecodeFrame [[0x4B], [], [0, 0x4C]]) \<and>
     concat (snd (DecodeFrame [[0x4B, 0], [0x4C]])) = concat (snd (DecodeFrame [[0x4B], [], [0, 0x4C]]))"
  by (rule decode_fragmentation) simp

text \<open>C24. Corruption of the payload is detected: if at most four consecutive payload bytes of an
  encoded frame were changed, \<open>DecodeFrame\<close> reports a checksum mismatch, never a frame.\<close>

theorem payload_corruption_detected:
  assumes "length (xs @ v @ ys) \<le> unat MaxPayloadSize"
    and "length w = length v" and "length v \<le> 4" and "w \<noteq> v"
    and "EncodeFrame off (xs @ v @ ys) = Inr bs"
    and "concat r = take (length bs - length (v @ ys)) bs @ w @ ys @ rest"
  shows "\<exists>e a. fst (DecodeFrame r) = Inl (ErrCRC32Mismatch e a)"
proof -
  let ?p = "xs @ v @ ys" and ?q = "xs @ w @ ys"
  have bs: "bs = frame_bytes off ?p"
    using assms(1,5) by (simp add: EncodeFrame_fits)
  have r: "concat r = header_bytes (word_of_nat (length ?p)) off (checksum_ieee ?p) @ ?q @ rest"
    using assms(6) by (simp add: bs frame_bytes_def)
  have "checksum_ieee ?q \<noteq> checksum_ieee ?p"
    using checksum_detects_burst [of w v xs ys] assms by simp
  moreover have len: "unat (word_of_nat (length ?p) :: u32) = length ?q"
    using assms(1,2) by (subst unat_of_nat_small) simp_all
  ultimately show ?thesis
    using assms(1,2) unfolding fst_DecodeFrame r decode_header word_less_nat_alt len
    by (simp del: of_nat_add)
qed

theorem payload_corruption_detected_witness:
  "\<exists>e a. fst (DecodeFrame [header_bytes 3 8 (checksum_ieee [1, 2, 3]) @ [1, 6, 3]]) =
     Inl (ErrCRC32Mismatch e a)"
  by (rule payload_corruption_detected [where xs = "[1]" and v = "[2]" and w = "[6]" and ys = "[3]"
        and rest = "[]" and off = 8 and bs = "frame_bytes 8 [1, 2, 3]"])
    (simp_all add: EncodeFrame_fits frame_bytes_def)

end
