(* ===== verification/RaftState.thy ===== *)
theory RaftState
  imports Prelude "HOL-Library.Monad_Syntax"
begin

text \<open>
  The state and the message types of \<open>raft/consensus.go\<close>, its log accessors, and the
  invariant of the in-memory log. Terms and log indices keep their width (\<open>uint64\<close>); a
  conversion \<open>int(x)\<close> is \<open>sint\<close>, so that it turns negative where Go's does. An index out of
  range panics in Go: the accessors return \<open>None\<close> for it.
\<close>

section \<open>Roles, messages and state\<close>

datatype NodeRole = Follower | Candidate | Leader

fun NodeRole_String :: "NodeRole \<Rightarrow> string" where
  "NodeRole_String Follower = ''LEADER''"
| "NodeRole_String Candidate = ''CANDIDATE''"
| "NodeRole_String Leader = ''LEADER''"

fun RawString :: "NodeRole \<Rightarrow> string" where
  "RawString Follower = ''FOLLOWER''"
| "RawString Candidate = ''CANDIDATE''"
| "RawString Leader = ''LEADER''"

datatype raft_error = ErrNotLeader | ErrProposalFailed | ErrNodeStopped | ErrProposalTimeout

text \<open>A nil payload (\<open>None\<close>) marks the placeholder entries; it is never applied.\<close>

record LogEntry =
  e_Index :: u64
  e_Term :: u64
  e_Data :: "byte list option"

record RequestVoteArgs =
  rv_Term :: u64
  rv_CandidateID :: string
  rv_LastLogIndex :: u64
  rv_LastLogTerm :: u64
  rv_IsPreVote :: bool

record RequestVoteReply =
  rvr_Term :: u64
  rvr_VoteGranted :: bool

record AppendEntriesArgs =
  ae_Term :: u64
  ae_LeaderID :: string
  ae_PrevLogIndex :: u64
  ae_PrevLogTerm :: u64
  ae_Entries :: "LogEntry list"
  ae_LeaderCommit :: u64

record AppendEntriesReply =
  aer_Term :: u64
  aer_Success :: bool
  aer_MatchIndex :: u64

record InstallSnapshotArgs =
  is_Term :: u64
  is_LeaderID :: string
  is_LastIncludedIndex :: u64
  is_LastIncludedTerm :: u64
  is_Data :: "byte list"

record InstallSnapshotReply =
  isr_Term :: u64

text \<open>
  \<open>Config\<close>: durations are in nanoseconds; of the two callbacks only whether they are set is
  kept, since the node's own state never depends on what they do.
\<close>

record Config =
  cfg_ID :: string
  cfg_Peers :: "string list"
  cfg_ElectionMinMs :: int
  cfg_ElectionMaxMs :: int
  cfg_HeartbeatInterval :: int
  cfg_OnCommit :: bool
  cfg_OnRestoreSnapshot :: bool
  cfg_InitialCommitIndex :: u64

text \<open>
  \<open>commitNotify\<close> is the number of tokens in the buffered channel \<open>commitNotifyCh\<close>; a missing
  key of the two progress maps reads as 0.
\<close>

record RaftNode =
  node_id :: string
  peers :: "string list"
  cfg :: Config
  currentTerm :: u64
  votedFor :: string
  rlog :: "LogEntry list"
  commitIndex :: u64
  lastApplied :: u64
  role :: NodeRole
  leaderID :: string
  lastIncludedIndex :: u64
  lastIncludedTerm :: u64
  lastSnapshotData :: "byte list"
  nextIndex :: "string \<rightharpoonup> u64"
  matchIndex :: "string \<rightharpoonup> u64"
  electionResetEvent :: int
  commitNotify :: nat
  isStopped :: bool

definition map_get :: "(string \<rightharpoonup> u64) \<Rightarrow> string \<Rightarrow> u64" where
  "map_get m k = (case m k of None \<Rightarrow> 0 | Some v \<Rightarrow> v)"

definition Millisecond :: int where
  "Millisecond = 1000000"

definition NewRaftNode :: "int \<Rightarrow> Config \<Rightarrow> RaftNode" where
  "NewRaftNode now c =
    (let c = (if cfg_ElectionMinMs c = 0 then c\<lparr>cfg_ElectionMinMs := 150\<rparr> else c);
         c = (if cfg_ElectionMaxMs c = 0 then c\<lparr>cfg_ElectionMaxMs := 300\<rparr> else c);
         c = (if cfg_HeartbeatInterval c = 0 then c\<lparr>cfg_HeartbeatInterval := 50 * Millisecond\<rparr> else c)
     in \<lparr>node_id = cfg_ID c, peers = cfg_Peers c, cfg = c, currentTerm = 0, votedFor = '''',
         rlog = \<lparr>e_Index = 0, e_Term = 0, e_Data = None\<rparr> #
           map (\<lambda>i. \<lparr>e_Index = word_of_nat i, e_Term = 0, e_Data = None\<rparr>)
             [1..<Suc (unat (cfg_InitialCommitIndex c))],
         commitIndex = cfg_InitialCommitIndex c, lastApplied = cfg_InitialCommitIndex c,
         role = Follower, leaderID = '''', lastIncludedIndex = 0, lastIncludedTerm = 0,
         lastSnapshotData = [], nextIndex = Map.empty, matchIndex = Map.empty,
         electionResetEvent = now, commitNotify = 0, isStopped = False\<rparr>)"

definition Stop :: "RaftNode \<Rightarrow> RaftNode" where
  "Stop rn = (if isStopped rn then rn else rn\<lparr>isStopped := True\<rparr>)"

definition GetState :: "RaftNode \<Rightarrow> NodeRole \<times> u64 \<times> u64 \<times> string" where
  "GetState rn = (role rn, currentTerm rn, commitIndex rn, leaderID rn)"

definition GetPeers :: "RaftNode \<Rightarrow> string list" where
  "GetPeers rn = peers rn"

definition GetSnapshotState :: "RaftNode \<Rightarrow> u64 \<times> u64 \<times> nat" where
  "GetSnapshotState rn = (lastIncludedIndex rn, lastIncludedTerm rn, length (rlog rn))"

section \<open>Log accessors\<close>

definition log_at :: "LogEntry list \<Rightarrow> int \<Rightarrow> LogEntry option" where
  "log_at l i = (if 0 \<le> i \<and> i < int (length l) then Some (l ! nat i) else None)"

definition lastLogIndex :: "RaftNode \<Rightarrow> u64 option" where
  "lastLogIndex rn = map_option e_Index (log_at (rlog rn) (int (length (rlog rn)) - 1))"

definition lastLogTerm :: "RaftNode \<Rightarrow> u64 option" where
  "lastLogTerm rn = map_option e_Term (log_at (rlog rn) (int (length (rlog rn)) - 1))"

definition getLogTerm :: "RaftNode \<Rightarrow> u64 \<Rightarrow> u64 option" where
  "getLogTerm rn index =
    (if index < lastIncludedIndex rn then Some 0
     else if index = lastIncludedIndex rn then Some (lastIncludedTerm rn)
     else
       (let sliceIdx = sint (index - lastIncludedIndex rn) in
        if sliceIdx < int (length (rlog rn)) then map_option e_Term (log_at (rlog rn) sliceIdx)
        else Some 0))"

definition getLogSlice :: "RaftNode \<Rightarrow> u64 \<Rightarrow> LogEntry list option" where
  "getLogSlice rn startIndex =
    (if startIndex \<le> lastIncludedIndex rn then Some []
     else
       (let sliceIdx = sint (startIndex - lastIncludedIndex rn) in
        if sliceIdx \<ge> int (length (rlog rn)) then Some []
        else if sliceIdx < 0 then None
        else Some (drop (nat sliceIdx) (rlog rn))))"

definition stepDown :: "int \<Rightarrow> u64 \<Rightarrow> RaftNode \<Rightarrow> RaftNode" where
  "stepDown now newTerm rn =
    rn\<lparr>role := Follower, currentTerm := newTerm, votedFor := '''', leaderID := '''',
       electionResetEvent := now\<rparr>"

text \<open>The non-blocking send to \<open>commitNotifyCh\<close>, whose buffer holds 100 tokens.\<close>

definition notify_commit :: "RaftNode \<Rightarrow> RaftNode" where
  "notify_commit rn = (if commitNotify rn < 100 then rn\<lparr>commitNotify := Suc (commitNotify rn)\<rparr> else rn)"

definition quorum_size :: "RaftNode \<Rightarrow> nat" where
  "quorum_size rn = (length (peers rn) + 1) div 2 + 1"

section \<open>The log invariant\<close>

text \<open>
  \<open>log[0]\<close> is the anchor, with the index and term of the last snapshot; the entries after it
  are contiguous. Positions are counted as naturals; the bound keeps \<open>int(index)\<close>
  non-negative.
\<close>

definition log_base :: "RaftNode \<Rightarrow> nat" where
  "log_base rn = unat (lastIncludedIndex rn)"

definition log_end :: "RaftNode \<Rightarrow> nat" where
  "log_end rn = log_base rn + length (rlog rn) - 1"

definition contiguous :: "nat \<Rightarrow> LogEntry list \<Rightarrow> bool" where
  "contiguous b es \<longleftrightarrow> (\<forall>i < length es. unat (e_Index (es ! i)) = b + i)"

definition log_wf :: "RaftNode \<Rightarrow> bool" where
  "log_wf rn \<longleftrightarrow> rlog rn \<noteq> [] \<and> log_base rn + length (rlog rn) < 2 ^ 63 \<and>
     contiguous (log_base rn) (rlog rn) \<and> e_Term (rlog rn ! 0) = lastIncludedTerm rn"

text \<open>The term held at a position of the whole log, if this node still has it.\<close>

definition term_at :: "RaftNode \<Rightarrow> nat \<Rightarrow> u64 option" where
  "term_at rn i =
    (if log_base rn \<le> i \<and> i \<le> log_end rn then Some (e_Term (rlog rn ! (i - log_base rn))) else None)"

lemma sint_small: "unat (w :: u64) < 2 ^ 63 \<Longrightarrow> sint w = int (unat w)"
proof -
  assume "unat w < 2 ^ 63"
  then have "int (unat w) < int (2 ^ 63)" by (simp only: of_nat_less_iff)
  then have "uint w < 2 ^ 63" by simp
  then have "signed_take_bit 63 (uint w) = uint w"
    by (intro signed_take_bit_int_eq_self) (simp_all add: order_trans [OF _ uint_ge_0])
  then show ?thesis by (simp add: sint_uint)
qed

lemma log_at_last: "l \<noteq> [] \<Longrightarrow> log_at l (int (length l) - 1) = Some (last l)"
proof -
  assume "l \<noteq> []"
  then have "nat (int (length l) - 1) = length l - 1" and "0 < length l" by auto
  with \<open>l \<noteq> []\<close> show ?thesis by (simp add: log_at_def last_conv_nth)
qed

lemma log_at_nat: "i < length l \<Longrightarrow> log_at l (int i) = Some (l ! i)"
  by (simp add: log_at_def)

lemma contiguous_last: "contiguous b es \<Longrightarrow> es \<noteq> [] \<Longrightarrow> unat (e_Index (last es)) = b + length es - 1"
  by (auto simp: contiguous_def last_conv_nth Suc_le_eq)

lemma lastLogIndex_wf:
  assumes "log_wf rn"
  shows "\<exists>w. lastLogIndex rn = Some w \<and> unat w = log_end rn"
proof -
  have "rlog rn \<noteq> []" "contiguous (log_base rn) (rlog rn)"
    using assms by (auto simp: log_wf_def)
  then show ?thesis
    by (simp add: lastLogIndex_def log_at_last contiguous_last log_end_def)
qed

lemma lastLogTerm_wf: "log_wf rn \<Longrightarrow> lastLogTerm rn = Some (e_Term (last (rlog rn)))"
  by (simp add: lastLogTerm_def log_wf_def log_at_last)

lemma log_end_less: "log_wf rn \<Longrightarrow> log_end rn + 1 < 2 ^ 63"
  by (cases "rlog rn") (auto simp: log_wf_def log_end_def)

lemma log_end_ge: "log_wf rn \<Longrightarrow> log_base rn \<le> log_end rn"
  by (cases "rlog rn") (auto simp: log_wf_def log_end_def)

lemma slice_index:
  assumes "lastIncludedIndex rn < idx" and "unat idx < 2 ^ 63"
  obtains d where "sint (idx - lastIncludedIndex rn) = int d" and "unat idx = log_base rn + d" and "0 < d"
proof -
  have less: "log_base rn < unat idx"
    using assms(1) by (simp add: log_base_def word_less_nat_alt)
  have sub: "unat (idx - lastIncludedIndex rn) = unat idx - log_base rn"
    using assms(1) by (simp add: log_base_def unat_sub_no_borrow)
  have "sint (idx - lastIncludedIndex rn) = int (unat (idx - lastIncludedIndex rn))"
    by (rule sint_small) (use assms(2) sub in linarith)
  then show thesis
    unfolding sub using less by (intro that [of "unat idx - log_base rn"]) simp_all
qed

lemma getLogTerm_wf:
  assumes "log_wf rn" and "unat idx < 2 ^ 63"
  shows "getLogTerm rn idx = Some (case term_at rn (unat idx) of Some t \<Rightarrow> t | None \<Rightarrow> 0)"
proof -
  consider (below) "idx < lastIncludedIndex rn" | (anchor) "idx = lastIncludedIndex rn"
    | (above) "lastIncludedIndex rn < idx" by (rule linorder_cases)
  then show ?thesis
  proof cases
    case below
    then show ?thesis by (simp add: getLogTerm_def term_at_def log_base_def word_less_nat_alt)
  next
    case anchor
    then show ?thesis
      using assms(1) log_end_ge [of rn] by (simp add: getLogTerm_def term_at_def log_wf_def log_base_def)
  next
    case above
    from above assms(2) obtain d where d: "sint (idx - lastIncludedIndex rn) = int d"
      "unat idx = log_base rn + d" by (rule slice_index)
    have "d < length (rlog rn) \<longleftrightarrow> log_base rn + d \<le> log_end rn"
      using assms(1) by (cases "rlog rn") (auto simp: log_end_def log_wf_def)
    moreover have "\<not> idx < lastIncludedIndex rn" "idx \<noteq> lastIncludedIndex rn"
      using above by auto
    ultimately show ?thesis
      by (simp add: getLogTerm_def term_at_def d Let_def log_at_nat)
  qed
qed

lemma getLogSlice_wf:
  assumes "log_wf rn" and "unat idx < 2 ^ 63"
  shows "getLogSlice rn idx = Some (if unat idx \<le> log_base rn then [] else drop (unat idx - log_base rn) (rlog rn))"
proof (cases "idx \<le> lastIncludedIndex rn")
  case True
  then show ?thesis by (simp add: getLogSlice_def log_base_def word_le_nat_alt)
next
  case False
  then have "lastIncludedIndex rn < idx" by simp
  then obtain d where "sint (idx - lastIncludedIndex rn) = int d" "unat idx = log_base rn + d" "0 < d"
    using assms(2) by (rule slice_index)
  with False show ?thesis by (simp add: getLogSlice_def Let_def)
qed

subsection \<open>Fields the log facts do not depend on\<close>

lemma log_base_frame [simp]:
  "log_base (rn\<lparr>role := x0\<rparr>) = log_base rn"
  "log_base (rn\<lparr>currentTerm := x1\<rparr>) = log_base rn"
  "log_base (rn\<lparr>votedFor := x2\<rparr>) = log_base rn"
  "log_base (rn\<lparr>leaderID := x3\<rparr>) = log_base rn"
  "log_base (rn\<lparr>electionResetEvent := x4\<rparr>) = log_base rn"
  "log_base (rn\<lparr>commitIndex := x5\<rparr>) = log_base rn"
  "log_base (rn\<lparr>lastApplied := x6\<rparr>) = log_base rn"
  "log_base (rn\<lparr>commitNotify := x7\<rparr>) = log_base rn"
  "log_base (rn\<lparr>nextIndex := x8\<rparr>) = log_base rn"
  "log_base (rn\<lparr>matchIndex := x9\<rparr>) = log_base rn"
  "log_base (rn\<lparr>lastSnapshotData := x10\<rparr>) = log_base rn"
  "log_base (rn\<lparr>isStopped := x11\<rparr>) = log_base rn"
  by (simp_all add: log_base_def)

lemma log_end_frame [simp]:
  "log_end (rn\<lparr>role := x0\<rparr>) = log_end rn"
  "log_end (rn\<lparr>currentTerm := x1\<rparr>) = log_end rn"
  "log_end (rn\<lparr>votedFor := x2\<rparr>) = log_end rn"
  "log_end (rn\<lparr>leaderID := x3\<rparr>) = log_end rn"
  "log_end (rn\<lparr>electionResetEvent := x4\<rparr>) = log_end rn"
  "log_end (rn\<lparr>commitIndex := x5\<rparr>) = log_end rn"
  "log_end (rn\<lparr>lastApplied := x6\<rparr>) = log_end rn"
  "log_end (rn\<lparr>commitNotify := x7\<rparr>) = log_end rn"
  "log_end (rn\<lparr>nextIndex := x8\<rparr>) = log_end rn"
  "log_end (rn\<lparr>matchIndex := x9\<rparr>) = log_end rn"
  "log_end (rn\<lparr>lastSnapshotData := x10\<rparr>) = log_end rn"
  "log_end (rn\<lparr>isStopped := x11\<rparr>) = log_end rn"
  by (simp_all add: log_end_def)

lemma log_wf_frame [simp]:
  "log_wf (rn\<lparr>role := x0\<rparr>) = log_wf rn"
  "log_wf (rn\<lparr>currentTerm := x1\<rparr>) = log_wf rn"
  "log_wf (rn\<lparr>votedFor := x2\<rparr>) = log_wf rn"
  "log_wf (rn\<lparr>leaderID := x3\<rparr>) = log_wf rn"
  "log_wf (rn\<lparr>electionResetEvent := x4\<rparr>) = log_wf rn"
  "log_wf (rn\<lparr>commitIndex := x5\<rparr>) = log_wf rn"
  "log_wf (rn\<lparr>lastApplied := x6\<rparr>) = log_wf rn"
  "log_wf (rn\<lparr>commitNotify := x7\<rparr>) = log_wf rn"
  "log_wf (rn\<lparr>nextIndex := x8\<rparr>) = log_wf rn"
  "log_wf (rn\<lparr>matchIndex := x9\<rparr>) = log_wf rn"
  "log_wf (rn\<lparr>lastSnapshotData := x10\<rparr>) = log_wf rn"
  "log_wf (rn\<lparr>isStopped := x11\<rparr>) = log_wf rn"
  by (simp_all add: log_wf_def)

lemma term_at_frame [simp]:
  "term_at (rn\<lparr>role := x0\<rparr>) = term_at rn"
  "term_at (rn\<lparr>currentTerm := x1\<rparr>) = term_at rn"
  "term_at (rn\<lparr>votedFor := x2\<rparr>) = term_at rn"
  "term_at (rn\<lparr>leaderID := x3\<rparr>) = term_at rn"
  "term_at (rn\<lparr>electionResetEvent := x4\<rparr>) = term_at rn"
  "term_at (rn\<lparr>commitIndex := x5\<rparr>) = term_at rn"
  "term_at (rn\<lparr>lastApplied := x6\<rparr>) = term_at rn"
  "term_at (rn\<lparr>commitNotify := x7\<rparr>) = term_at rn"
  "term_at (rn\<lparr>nextIndex := x8\<rparr>) = term_at rn"
  "term_at (rn\<lparr>matchIndex := x9\<rparr>) = term_at rn"
  "term_at (rn\<lparr>lastSnapshotData := x10\<rparr>) = term_at rn"
  "term_at (rn\<lparr>isStopped := x11\<rparr>) = term_at rn"
  by (simp_all add: fun_eq_iff term_at_def)

lemma stepDown_frame [simp]:
  "log_wf (stepDown now t rn) = log_wf rn" "log_base (stepDown now t rn) = log_base rn"
  "log_end (stepDown now t rn) = log_end rn" "term_at (stepDown now t rn) = term_at rn"
  "rlog (stepDown now t rn) = rlog rn" "commitIndex (stepDown now t rn) = commitIndex rn"
  "lastApplied (stepDown now t rn) = lastApplied rn"
  "lastIncludedIndex (stepDown now t rn) = lastIncludedIndex rn"
  "lastIncludedTerm (stepDown now t rn) = lastIncludedTerm rn"
  "currentTerm (stepDown now t rn) = t" "votedFor (stepDown now t rn) = ''''"
  "role (stepDown now t rn) = Follower" "leaderID (stepDown now t rn) = ''''"
  "peers (stepDown now t rn) = peers rn" "node_id (stepDown now t rn) = node_id rn"
  "cfg (stepDown now t rn) = cfg rn" "isStopped (stepDown now t rn) = isStopped rn"
  "electionResetEvent (stepDown now t rn) = now"
  by (simp_all add: stepDown_def)

lemma notify_commit_frame [simp]:
  "log_wf (notify_commit rn) = log_wf rn" "log_base (notify_commit rn) = log_base rn"
  "log_end (notify_commit rn) = log_end rn" "term_at (notify_commit rn) = term_at rn"
  "rlog (notify_commit rn) = rlog rn" "commitIndex (notify_commit rn) = commitIndex rn"
  "lastApplied (notify_commit rn) = lastApplied rn"
  "lastIncludedIndex (notify_commit rn) = lastIncludedIndex rn"
  "lastIncludedTerm (notify_commit rn) = lastIncludedTerm rn"
  "currentTerm (notify_commit rn) = currentTerm rn" "votedFor (notify_commit rn) = votedFor rn"
  "role (notify_commit rn) = role rn" "leaderID (notify_commit rn) = leaderID rn"
  "peers (notify_commit rn) = peers rn" "node_id (notify_commit rn) = node_id rn"
  "cfg (notify_commit rn) = cfg rn" "isStopped (notify_commit rn) = isStopped rn"
  "nextIndex (notify_commit rn) = nextIndex rn" "matchIndex (notify_commit rn) = matchIndex rn"
  by (simp_all add: notify_commit_def)

subsection \<open>Replacing the tail of the log\<close>

lemma contiguous_append:
  "contiguous b (xs @ ys) \<longleftrightarrow> contiguous b xs \<and> contiguous (b + length xs) ys"
proof
  assume l: "contiguous b (xs @ ys)"
  have "unat (e_Index (ys ! i)) = b + length xs + i" if "i < length ys" for i
    using l [unfolded contiguous_def, rule_format, of "length xs + i"] that by (simp add: nth_append)
  moreover have "unat (e_Index (xs ! i)) = b + i" if "i < length xs" for i
    using l [unfolded contiguous_def, rule_format, of i] that by (simp add: nth_append)
  ultimately show "contiguous b xs \<and> contiguous (b + length xs) ys"
    by (simp add: contiguous_def)
next
  assume r: "contiguous b xs \<and> contiguous (b + length xs) ys"
  show "contiguous b (xs @ ys)"
    unfolding contiguous_def
  proof (intro allI impI)
    fix i assume "i < length (xs @ ys)"
    then show "unat (e_Index ((xs @ ys) ! i)) = b + i"
      using r by (cases "i < length xs") (simp_all add: contiguous_def nth_append)
  qed
qed

lemma contiguous_take: "contiguous b xs \<Longrightarrow> contiguous b (take k xs)"
  by (simp add: contiguous_def)

lemma contiguous_drop: "contiguous b xs \<Longrightarrow> contiguous (b + k) (drop k xs)"
  by (simp add: contiguous_def)

lemma contiguous_Nil [simp]: "contiguous b []"
  by (simp add: contiguous_def)

lemma contiguous_Cons [simp]:
  "contiguous b (e # es) \<longleftrightarrow> unat (e_Index e) = b \<and> contiguous (Suc b) es"
  using contiguous_append [of b "[e]" es] by (simp add: contiguous_def)

lemma log_wf_replace_tail:
  assumes "log_wf rn" and "0 < k" and "k \<le> length (rlog rn)"
    and "contiguous (log_base rn + k) es" and "log_base rn + k + length es < 2 ^ 63"
  shows "log_wf (rn\<lparr>rlog := take k (rlog rn) @ es\<rparr>)"
proof -
  have "rlog rn \<noteq> []" "contiguous (log_base rn) (rlog rn)" "e_Term (rlog rn ! 0) = lastIncludedTerm rn"
    using assms(1) by (simp_all add: log_wf_def)
  with assms(2-5) show ?thesis
    by (simp add: log_wf_def log_base_def contiguous_append contiguous_take nth_append)
qed

lemma term_at_replace_tail:
  assumes "0 < k" and "k \<le> length (rlog rn)"
  shows "term_at (rn\<lparr>rlog := take k (rlog rn) @ es\<rparr>) i =
    (if i < log_base rn then None
     else if i < log_base rn + k then Some (e_Term (rlog rn ! (i - log_base rn)))
     else if i < log_base rn + k + length es then Some (e_Term (es ! (i - log_base rn - k)))
     else None)"
  using assms by (auto simp: term_at_def log_end_def log_base_def nth_append)

section \<open>A concrete node\<close>

text \<open>The node the witnesses run on: member \<open>1\<close> of a cluster of three, freshly created.\<close>

definition example_config :: Config where
  "example_config = \<lparr>cfg_ID = ''1'', cfg_Peers = [''b'', ''c''], cfg_ElectionMinMs = 350,
     cfg_ElectionMaxMs = 700, cfg_HeartbeatInterval = 80 * Millisecond, cfg_OnCommit = True,
     cfg_OnRestoreSnapshot = True, cfg_InitialCommitIndex = 0\<rparr>"

definition example_node :: RaftNode where
  "example_node = NewRaftNode 0 example_config"

lemma example_node_eq:
  "example_node = \<lparr>node_id = ''1'', peers = [''b'', ''c''], cfg = example_config, currentTerm = 0,
     votedFor = '''', rlog = [\<lparr>e_Index = 0, e_Term = 0, e_Data = None\<rparr>], commitIndex = 0,
     lastApplied = 0, role = Follower, leaderID = '''', lastIncludedIndex = 0, lastIncludedTerm = 0,
     lastSnapshotData = [], nextIndex = Map.empty, matchIndex = Map.empty, electionResetEvent = 0,
     commitNotify = 0, isStopped = False\<rparr>"
  by (simp add: example_node_def example_config_def NewRaftNode_def Let_def Millisecond_def)

lemma example_node_wf: "log_wf example_node"
  by (simp add: example_node_eq log_wf_def log_base_def)

lemma update_same [simp]:
  "rn\<lparr>lastApplied := lastApplied rn\<rparr> = rn" "rn\<lparr>commitIndex := commitIndex rn\<rparr> = rn"
  "rn\<lparr>role := role rn\<rparr> = rn" "rn\<lparr>rlog := rlog rn\<rparr> = rn" "rn\<lparr>isStopped := isStopped rn\<rparr> = rn"
  by simp_all

end
