(* ===== verification/RaftHandlers.thy ===== *)
theory RaftHandlers
  imports RaftState
begin

text \<open>
  The three RPC handlers of \<open>raft/consensus.go\<close>, the snapshot operation and the applier loop,
  each as one function of the node state; \<open>now\<close> is the reading of the clock. \<open>None\<close> is a
  run-time panic. The lemmas show that a well-formed log rules panics out and is kept, and
  describe what each handler does to the log, the term, the vote and the commit index.
\<close>

section \<open>HandleRequestVote\<close>

definition HandleRequestVote ::
  "int \<Rightarrow> RequestVoteArgs \<Rightarrow> RaftNode \<Rightarrow> (RaftNode \<times> RequestVoteReply) option" where
  "HandleRequestVote now args rn =
    (let rn = (if \<not> rv_IsPreVote args \<and> rv_Term args > currentTerm rn
               then stepDown now (rv_Term args) rn else rn);
         reply = \<lparr>rvr_Term = currentTerm rn, rvr_VoteGranted = False\<rparr>
     in if rv_Term args < currentTerm rn then Some (rn, reply)
        else if rv_IsPreVote args \<and> leaderID rn \<noteq> '''' \<and>
            now - electionResetEvent rn < cfg_ElectionMinMs (cfg rn) * Millisecond
          then Some (rn, reply)
        else do {
          lastIdx \<leftarrow> lastLogIndex rn;
          lastTerm \<leftarrow> lastLogTerm rn;
          let canVote = (if rv_IsPreVote args then True
                         else votedFor rn = '''' \<or> votedFor rn = rv_CandidateID args);
          let logOk = (rv_LastLogTerm args > lastTerm \<or>
                       rv_LastLogTerm args = lastTerm \<and> rv_LastLogIndex args \<ge> lastIdx);
          Some (if canVote \<and> logOk
                then ((if \<not> rv_IsPreVote args
                       then rn\<lparr>votedFor := rv_CandidateID args, electionResetEvent := now\<rparr> else rn),
                      reply\<lparr>rvr_VoteGranted := True\<rparr>)
                else (rn, reply))
        })"

section \<open>HandleAppendEntries\<close>

text \<open>
  The loop over the entries of a request, \<open>i\<close> its index. \<open>rn.log[:sliceIdx]\<close> is taken within
  the length of the log; the test on \<open>lastLogIndex\<close> above it never lets it reach further.
\<close>

fun append_entries_loop :: "u64 \<Rightarrow> nat \<Rightarrow> LogEntry list \<Rightarrow> RaftNode \<Rightarrow> RaftNode option" where
  "append_entries_loop prev i [] rn = Some rn"
| "append_entries_loop prev i (entry # es) rn = do {
     let idx = prev + 1 + word_of_nat i;
     last \<leftarrow> lastLogIndex rn;
     rn \<leftarrow> (if idx \<le> last then do {
               t \<leftarrow> getLogTerm rn idx;
               if t \<noteq> e_Term entry then
                 (let sliceIdx = sint (idx - lastIncludedIndex rn) in
                  if 0 \<le> sliceIdx \<and> sliceIdx \<le> int (length (rlog rn))
                  then Some (rn\<lparr>rlog := take (nat sliceIdx) (rlog rn) @ [entry]\<rparr>) else None)
               else Some rn }
             else Some (rn\<lparr>rlog := rlog rn @ [entry]\<rparr>));
     append_entries_loop prev (Suc i) es rn
   }"

definition advance_follower_commit :: "AppendEntriesArgs \<Rightarrow> RaftNode \<Rightarrow> RaftNode" where
  "advance_follower_commit args rn =
    (if ae_LeaderCommit args > commitIndex rn then
       (let lastNewIndex = ae_PrevLogIndex args + word_of_nat (length (ae_Entries args))
        in notify_commit (rn\<lparr>commitIndex := min (ae_LeaderCommit args) lastNewIndex\<rparr>))
     else rn)"

text \<open>The part of the handler after the snapshot trimming, on the trimmed request.\<close>

definition append_checked ::
  "AppendEntriesArgs \<Rightarrow> AppendEntriesReply \<Rightarrow> RaftNode \<Rightarrow> (RaftNode \<times> AppendEntriesReply) option" where
  "append_checked args reply rn = do {
     last \<leftarrow> lastLogIndex rn;
     ok \<leftarrow> (if ae_PrevLogIndex args > last then Some False
            else map_option (\<lambda>t. t = ae_PrevLogTerm args) (getLogTerm rn (ae_PrevLogIndex args)));
     if \<not> ok then Some (rn, reply)
     else do {
       rn \<leftarrow> append_entries_loop (ae_PrevLogIndex args) 0 (ae_Entries args) rn;
       Some (advance_follower_commit args rn,
             reply\<lparr>aer_Success := True,
                   aer_MatchIndex := ae_PrevLogIndex args + word_of_nat (length (ae_Entries args))\<rparr>)
     }
   }"

definition HandleAppendEntries ::
  "int \<Rightarrow> AppendEntriesArgs \<Rightarrow> RaftNode \<Rightarrow> (RaftNode \<times> AppendEntriesReply) option" where
  "HandleAppendEntries now args rn =
    (let rn = (if ae_Term args > currentTerm rn then stepDown now (ae_Term args) rn else rn);
         reply = \<lparr>aer_Term = currentTerm rn, aer_Success = False, aer_MatchIndex = 0\<rparr>
     in if ae_Term args < currentTerm rn then Some (rn, reply)
        else
          (let rn = (if role rn \<noteq> Follower then rn\<lparr>role := Follower\<rparr> else rn);
               rn = rn\<lparr>leaderID := ae_LeaderID args, electionResetEvent := now\<rparr>
           in if ae_PrevLogIndex args < lastIncludedIndex rn then
                (let offset = lastIncludedIndex rn - ae_PrevLogIndex args in
                 if word_of_nat (length (ae_Entries args)) \<le> offset
                 then Some (rn, reply\<lparr>aer_Success := True, aer_MatchIndex := lastIncludedIndex rn\<rparr>)
                 else append_checked
                   (args\<lparr>ae_Entries := drop (unat offset) (ae_Entries args),
                         ae_PrevLogIndex := lastIncludedIndex rn,
                         ae_PrevLogTerm := lastIncludedTerm rn\<rparr>) reply rn)
              else append_checked args reply rn))"

section \<open>HandleInstallSnapshot\<close>

text \<open>
  The log the handler builds from the snapshot and the entries it may keep, and the handler
  itself; its third component is the argument of the restore callback, when it is started.
\<close>

definition snapshot_newLog :: "InstallSnapshotArgs \<Rightarrow> RaftNode \<Rightarrow> LogEntry list option" where
  "snapshot_newLog args rn = do {
     let anchor = \<lparr>e_Index = is_LastIncludedIndex args, e_Term = is_LastIncludedTerm args,
                   e_Data = None\<rparr>;
     last \<leftarrow> lastLogIndex rn;
     same \<leftarrow> (if is_LastIncludedIndex args \<le> last
             then map_option (\<lambda>t. t = is_LastIncludedTerm args)
                    (getLogTerm rn (is_LastIncludedIndex args))
             else Some False);
     if same then
       (let sliceIdx = sint (is_LastIncludedIndex args - lastIncludedIndex rn) in
        if sliceIdx + 1 < int (length (rlog rn))
        then (if sliceIdx + 1 < 0 then None
              else Some (anchor # drop (nat (sliceIdx + 1)) (rlog rn)))
        else Some [anchor])
     else Some [anchor]
   }"

definition HandleInstallSnapshot ::
  "int \<Rightarrow> InstallSnapshotArgs \<Rightarrow> RaftNode \<Rightarrow>
    (RaftNode \<times> InstallSnapshotReply \<times> (u64 \<times> u64 \<times> byte list) option) option" where
  "HandleInstallSnapshot now args rn =
    (let reply = \<lparr>isr_Term = currentTerm rn\<rparr> in
     if is_Term args < currentTerm rn then Some (rn, reply, None)
     else
       (let rn = (if is_Term args > currentTerm rn then stepDown now (is_Term args) rn else rn);
            rn = (if role rn \<noteq> Follower then rn\<lparr>role := Follower\<rparr> else rn);
            rn = rn\<lparr>leaderID := is_LeaderID args, electionResetEvent := now\<rparr>
        in if is_LastIncludedIndex args \<le> lastIncludedIndex rn then Some (rn, reply, None)
           else do {
             newLog \<leftarrow> snapshot_newLog args rn;
             let rn = rn\<lparr>rlog := newLog, lastIncludedIndex := is_LastIncludedIndex args,
                         lastIncludedTerm := is_LastIncludedTerm args,
                         lastSnapshotData := is_Data args\<rparr>;
             let rn = (if commitIndex rn < is_LastIncludedIndex args
                       then rn\<lparr>commitIndex := is_LastIncludedIndex args\<rparr> else rn);
             let rn = (if lastApplied rn < is_LastIncludedIndex args
                       then rn\<lparr>lastApplied := is_LastIncludedIndex args\<rparr> else rn);
             Some (rn, reply,
               if cfg_OnRestoreSnapshot (cfg rn) \<and> 0 < length (is_Data args)
               then Some (is_LastIncludedIndex args, is_LastIncludedTerm args, is_Data args)
               else None)
           }))"

section \<open>TakeSnapshot\<close>

datatype snapshot_error = AboveCommit u64 u64 | AlreadyIncluded u64 u64 | BeyondLog u64

definition TakeSnapshot ::
  "u64 \<Rightarrow> byte list \<Rightarrow> RaftNode \<Rightarrow> (RaftNode \<times> snapshot_error option) option" where
  "TakeSnapshot snapshotIndex stateData rn =
    (if snapshotIndex > commitIndex rn
     then Some (rn, Some (AboveCommit snapshotIndex (commitIndex rn)))
     else if snapshotIndex \<le> lastIncludedIndex rn
     then Some (rn, Some (AlreadyIncluded snapshotIndex (lastIncludedIndex rn)))
     else do {
       snapTerm \<leftarrow> getLogTerm rn snapshotIndex;
       let sliceIdx = sint (snapshotIndex - lastIncludedIndex rn);
       if sliceIdx \<ge> int (length (rlog rn)) then Some (rn, Some (BeyondLog snapshotIndex))
       else if sliceIdx < 0 then None
       else do {
         let anchor = \<lparr>e_Index = snapshotIndex, e_Term = snapTerm, e_Data = None\<rparr>;
         let newLog = (if sliceIdx + 1 < int (length (rlog rn))
                       then anchor # drop (nat (sliceIdx + 1)) (rlog rn) else [anchor]);
         let rn = rn\<lparr>rlog := newLog, lastIncludedIndex := snapshotIndex,
                     lastIncludedTerm := snapTerm, lastSnapshotData := stateData\<rparr>;
         Some (if lastApplied rn < snapshotIndex then rn\<lparr>lastApplied := snapshotIndex\<rparr> else rn, None)
       }
     })"

section \<open>The applier loop\<close>

text \<open>
  One pass of \<open>runApplierLoop\<close> after a token arrived: the entries handed to \<open>OnCommit\<close>, in
  order. \<open>lastApplied\<close> grows towards \<open>commitIndex\<close>, so the pass ends.
\<close>

function apply_pass :: "RaftNode \<Rightarrow> (RaftNode \<times> LogEntry list) option" where
  "apply_pass rn =
    (if commitIndex rn > lastApplied rn then
       (let rn' = rn\<lparr>lastApplied := lastApplied rn + 1\<rparr> in
        if lastApplied rn' \<le> lastIncludedIndex rn' then apply_pass rn'
        else
          (let sliceIdx = sint (lastApplied rn' - lastIncludedIndex rn') in
           if sliceIdx < int (length (rlog rn')) then do {
             entry \<leftarrow> log_at (rlog rn') sliceIdx;
             (rn'', out) \<leftarrow> apply_pass rn';
             Some (rn'', (if cfg_OnCommit (cfg rn') \<and> e_Data entry \<noteq> None then entry # out else out))
           }
           else apply_pass rn'))
     else Some (rn, []))"
  by pat_completeness auto
termination
proof (relation "measure (\<lambda>rn. unat (commitIndex rn) - unat (lastApplied rn))")
  show "wf (measure (\<lambda>rn. unat (commitIndex rn) - unat (lastApplied rn)))" by simp
qed (auto simp: word_less_nat_alt unat_Suc_less)

text \<open>One iteration of the loop in which the \<open>select\<close> receives a token (it blocks without one).\<close>

definition runApplierLoop_step :: "RaftNode \<Rightarrow> (RaftNode \<times> LogEntry list) option" where
  "runApplierLoop_step rn =
    (if commitNotify rn = 0 then Some (rn, [])
     else apply_pass (rn\<lparr>commitNotify := commitNotify rn - 1\<rparr>))"

section \<open>The entry loop as a merge of logs\<close>

text \<open>
  The reference for the loop: walk the stored suffix and the received entries in step, keep a
  stored entry as long as the terms agree, and from the first disagreement on keep only what
  was received.
\<close>

fun merge_entries :: "LogEntry list \<Rightarrow> LogEntry list \<Rightarrow> LogEntry list" where
  "merge_entries [] es = es"
| "merge_entries ls [] = ls"
| "merge_entries (l # ls) (e # es) =
     (if e_Term l = e_Term e then l # merge_entries ls es else e # es)"

lemma merge_entries_Nil [simp]: "merge_entries ls [] = ls"
  by (cases ls) simp_all

lemma length_merge_entries_ge: "length es \<le> length (merge_entries ls es)"
  by (induction ls es rule: merge_entries.induct) auto

lemma length_merge_entries_le: "length (merge_entries ls es) \<le> max (length ls) (length es)"
  by (induction ls es rule: merge_entries.induct) auto

lemma merge_entries_terms: "j < length es \<Longrightarrow> e_Term (merge_entries ls es ! j) = e_Term (es ! j)"
  by (induction ls es arbitrary: j rule: merge_entries.induct) (auto simp: nth_Cons split: nat.splits)

lemma merge_entries_nth: "j < length es \<Longrightarrow> merge_entries ls es ! j =
    (if \<forall>m < Suc j. m < length ls \<and> e_Term (ls ! m) = e_Term (es ! m) then ls ! j else es ! j)"
proof (induction ls es arbitrary: j rule: merge_entries.induct)
  case (3 l ls e es)
  then show ?case by (cases j) (auto simp: All_less_Suc2)
qed auto

lemma merge_entries_beyond: "length es \<le> j \<Longrightarrow> j < length (merge_entries ls es) \<longleftrightarrow>
    (\<forall>m < length es. m < length ls \<and> e_Term (ls ! m) = e_Term (es ! m)) \<and> j < length ls"
proof (induction ls es arbitrary: j rule: merge_entries.induct)
  case (3 l ls e es)
  then show ?case by (cases j) (auto simp: All_less_Suc2)
qed auto

lemma merge_entries_rest: "length es \<le> j \<Longrightarrow> j < length (merge_entries ls es) \<Longrightarrow> merge_entries ls es ! j = ls ! j"
proof (induction ls es arbitrary: j rule: merge_entries.induct)
  case (3 l ls e es)
  then show ?case by (cases j) (auto split: if_splits)
qed auto

lemma contiguous_merge_entries:
  "contiguous b ls \<Longrightarrow> contiguous b es \<Longrightarrow> contiguous b (merge_entries ls es)"
  by (induction ls es arbitrary: b rule: merge_entries.induct) auto

lemma merge_entries_agree:
  "\<forall>j < length es. j < length ls \<and> e_Term (ls ! j) = e_Term (es ! j) \<Longrightarrow> merge_entries ls es = ls"
  by (induction ls es rule: merge_entries.induct) (force simp: All_less_Suc2)+

lemma merge_entries_idem: "merge_entries (merge_entries ls es) es = merge_entries ls es"
  by (rule merge_entries_agree)
    (meson length_merge_entries_ge less_le_trans merge_entries_terms)

lemma unat_next_index:
  assumes "unat prev + n < 2 ^ 63" and "i < n"
  shows "unat (prev + 1 + word_of_nat i :: u64) = unat prev + 1 + i"
proof -
  have i: "unat (word_of_nat i :: u64) = i"
    using assms by (intro unat_of_nat_small) simp
  have "unat (prev + 1) = unat prev + 1"
    using assms unat_add_no_wrap [of prev 1] by simp
  with i assms show ?thesis
    using unat_add_no_wrap [of "prev + 1" "word_of_nat i"] by simp
qed

lemma append_entries_loop_merge:
  assumes "log_wf rn" and "0 < k" and "k \<le> length (rlog rn)" and "log_base rn + k = unat prev + 1 + i"
    and "contiguous (log_base rn + k) es" and "unat prev + (i + length es) + 1 < 2 ^ 63"
  shows "append_entries_loop prev i es rn =
    Some (rn\<lparr>rlog := take k (rlog rn) @ merge_entries (drop k (rlog rn)) es\<rparr>)"
  using assms
proof (induction es arbitrary: i k rn)
  case (Cons e es)
  let ?idx = "prev + 1 + word_of_nat i"
  have idx: "unat ?idx = log_base rn + k"
    using Cons.prems unat_next_index [of prev "i + length (e # es)" i] by simp
  then have idx_small: "unat ?idx < 2 ^ 63" using Cons.prems by simp
  obtain last where last: "lastLogIndex rn = Some last" "unat last = log_end rn"
    using lastLogIndex_wf [OF Cons.prems(1)] by blast
  have end_eq: "log_end rn = log_base rn + length (rlog rn) - 1" by (simp add: log_end_def)
  have le: "?idx \<le> last \<longleftrightarrow> k < length (rlog rn)"
    using Cons.prems idx last(2) end_eq by (auto simp: word_le_nat_alt)
  have new: "append_entries_loop prev (Suc i) es (rn\<lparr>rlog := take k (rlog rn) @ [e]\<rparr>) =
      Some (rn\<lparr>rlog := take k (rlog rn) @ e # es\<rparr>)"
  proof -
    let ?rn = "rn\<lparr>rlog := take k (rlog rn) @ [e]\<rparr>"
    have "log_wf ?rn"
      by (rule log_wf_replace_tail) (use Cons.prems in simp_all)
    then have "append_entries_loop prev (Suc i) es ?rn =
        Some (?rn\<lparr>rlog := take (Suc k) (rlog ?rn) @ merge_entries (drop (Suc k) (rlog ?rn)) es\<rparr>)"
      by (rule Cons.IH) (use Cons.prems in \<open>simp_all add: log_base_def\<close>)
    then show ?thesis using Cons.prems by simp
  qed
  show ?case
  proof (cases "k < length (rlog rn)")
    case False
    then have "k = length (rlog rn)" using Cons.prems by simp
    then show ?thesis using new le by (simp add: last)
  next
    case True
    define l where "l = rlog rn ! k"
    have drop_k: "drop k (rlog rn) = l # drop (Suc k) (rlog rn)"
      using True by (simp add: l_def Cons_nth_drop_Suc)
    have "log_base rn + k \<le> log_end rn"
      unfolding end_eq using True by linarith
    then have "getLogTerm rn ?idx = Some (e_Term l)"
      using Cons.prems(1) idx_small
      by (simp only: getLogTerm_wf) (simp add: idx term_at_def l_def)
    moreover have "sint (?idx - lastIncludedIndex rn) = int k"
    proof -
      have "lastIncludedIndex rn < ?idx"
        using idx Cons.prems(2) by (simp add: log_base_def word_less_nat_alt)
      then obtain d where "sint (?idx - lastIncludedIndex rn) = int d" "unat ?idx = log_base rn + d"
        using idx_small by (rule slice_index)
      then show ?thesis using idx by simp
    qed
    moreover have "append_entries_loop prev (Suc i) es rn =
        Some (rn\<lparr>rlog := take (Suc k) (rlog rn) @ merge_entries (drop (Suc k) (rlog rn)) es\<rparr>)"
      by (rule Cons.IH) (use Cons.prems True in simp_all)
    moreover have "take (Suc k) (rlog rn) = take k (rlog rn) @ [l]"
      using True by (simp add: l_def take_Suc_conv_app_nth)
    ultimately show ?thesis
      using True le new by (simp add: last drop_k)
  qed
qed simp

section \<open>What HandleAppendEntries does\<close>

text \<open>Recognising the sender as leader: the state both log RPCs continue from.\<close>

definition follow_leader :: "int \<Rightarrow> u64 \<Rightarrow> string \<Rightarrow> RaftNode \<Rightarrow> RaftNode" where
  "follow_leader now term leader rn =
    (if term > currentTerm rn then stepDown now term rn else rn)
      \<lparr>role := Follower, leaderID := leader, electionResetEvent := now\<rparr>"

lemma follow_leader_frame [simp]:
  "log_wf (follow_leader now t l rn) = log_wf rn" "log_base (follow_leader now t l rn) = log_base rn"
  "log_end (follow_leader now t l rn) = log_end rn" "term_at (follow_leader now t l rn) = term_at rn"
  "rlog (follow_leader now t l rn) = rlog rn" "commitIndex (follow_leader now t l rn) = commitIndex rn"
  "lastApplied (follow_leader now t l rn) = lastApplied rn"
  "lastIncludedIndex (follow_leader now t l rn) = lastIncludedIndex rn"
  "lastIncludedTerm (follow_leader now t l rn) = lastIncludedTerm rn"
  "currentTerm (follow_leader now t l rn) = max (currentTerm rn) t"
  "votedFor (follow_leader now t l rn) = (if currentTerm rn < t then '''' else votedFor rn)"
  "role (follow_leader now t l rn) = Follower" "leaderID (follow_leader now t l rn) = l"
  "peers (follow_leader now t l rn) = peers rn" "node_id (follow_leader now t l rn) = node_id rn"
  "cfg (follow_leader now t l rn) = cfg rn" "isStopped (follow_leader now t l rn) = isStopped rn"
  by (auto simp: follow_leader_def max_def)

lemma set_role_follower:
  "(if role rn \<noteq> Follower then rn\<lparr>role := Follower\<rparr> else rn) = rn\<lparr>role := Follower\<rparr>"
  by (cases rn) auto

lemma HandleAppendEntries_eq:
  "HandleAppendEntries now args rn =
    (if ae_Term args < currentTerm rn
     then Some (rn, \<lparr>aer_Term = currentTerm rn, aer_Success = False, aer_MatchIndex = 0\<rparr>)
     else
       (let rn1 = follow_leader now (ae_Term args) (ae_LeaderID args) rn;
            reply = \<lparr>aer_Term = ae_Term args, aer_Success = False, aer_MatchIndex = 0\<rparr>;
            offset = lastIncludedIndex rn - ae_PrevLogIndex args
        in if ae_PrevLogIndex args < lastIncludedIndex rn then
             (if word_of_nat (length (ae_Entries args)) \<le> offset
              then Some (rn1, reply\<lparr>aer_Success := True, aer_MatchIndex := lastIncludedIndex rn\<rparr>)
              else append_checked
                (args\<lparr>ae_Entries := drop (unat offset) (ae_Entries args),
                      ae_PrevLogIndex := lastIncludedIndex rn,
                      ae_PrevLogTerm := lastIncludedTerm rn\<rparr>) reply rn1)
           else append_checked args reply rn1))"
  unfolding HandleAppendEntries_def set_role_follower
  by (auto simp: Let_def follow_leader_def)

text \<open>
  A well-formed request: its entries continue \<open>PrevLogIndex\<close> without a gap (what
  \<open>broadcastAppendEntries\<close> sends), below the bound of the log invariant.
\<close>

definition ae_wf :: "AppendEntriesArgs \<Rightarrow> bool" where
  "ae_wf args \<longleftrightarrow> contiguous (unat (ae_PrevLogIndex args) + 1) (ae_Entries args) \<and>
     unat (ae_PrevLogIndex args) + length (ae_Entries args) + 1 < 2 ^ 63"

definition ae_end :: "AppendEntriesArgs \<Rightarrow> nat" where
  "ae_end args = unat (ae_PrevLogIndex args) + length (ae_Entries args)"

text \<open>The log after merging entries that follow position \<open>p\<close>.\<close>

definition merged_after :: "nat \<Rightarrow> LogEntry list \<Rightarrow> RaftNode \<Rightarrow> RaftNode" where
  "merged_after p es rn =
    (let k = Suc (p - log_base rn)
     in rn\<lparr>rlog := take k (rlog rn) @ merge_entries (drop k (rlog rn)) es\<rparr>)"

lemma unat_ae_end:
  "ae_wf args \<Longrightarrow> unat (ae_PrevLogIndex args + word_of_nat (length (ae_Entries args))) = ae_end args"
  by (simp add: ae_wf_def ae_end_def unat_add_no_wrap unat_of_nat_small)

lemma append_checked_wf:
  assumes "log_wf rn" and "ae_wf args" and "log_base rn \<le> unat (ae_PrevLogIndex args)"
  shows "append_checked args reply rn =
    Some (if term_at rn (unat (ae_PrevLogIndex args)) = Some (ae_PrevLogTerm args)
          then (advance_follower_commit args
                  (merged_after (unat (ae_PrevLogIndex args)) (ae_Entries args) rn),
                reply\<lparr>aer_Success := True,
                      aer_MatchIndex := ae_PrevLogIndex args + word_of_nat (length (ae_Entries args))\<rparr>)
          else (rn, reply))"
proof -
  let ?prev = "ae_PrevLogIndex args"
  obtain last where last: "lastLogIndex rn = Some last" "unat last = log_end rn"
    using lastLogIndex_wf [OF assms(1)] by blast
  have small: "unat ?prev < 2 ^ 63" using assms(2) by (simp add: ae_wf_def)
  show ?thesis
  proof (cases "?prev > last")
    case True
    then have "term_at rn (unat ?prev) = None"
      using last by (simp add: term_at_def word_less_nat_alt)
    with True last show ?thesis by (simp add: append_checked_def)
  next
    case False
    then have le: "unat ?prev \<le> log_end rn" using last by (simp add: word_less_nat_alt)
    then obtain t where t: "term_at rn (unat ?prev) = Some t"
      using assms(3) by (simp add: term_at_def)
    define k where "k = Suc (unat ?prev - log_base rn)"
    have "append_entries_loop ?prev 0 (ae_Entries args) rn =
        Some (rn\<lparr>rlog := take k (rlog rn) @ merge_entries (drop k (rlog rn)) (ae_Entries args)\<rparr>)"
    proof (rule append_entries_loop_merge)
      show "k \<le> length (rlog rn)" using le assms(1,3)
        by (cases "rlog rn") (auto simp: k_def log_end_def log_wf_def)
    qed (use assms in \<open>auto simp: k_def ae_wf_def\<close>)
    then show ?thesis
      using False last t small
      by (simp add: append_checked_def getLogTerm_wf [OF assms(1)] merged_after_def Let_def k_def)
  qed
qed

lemma merged_after_simps [simp]:
  "lastIncludedIndex (merged_after p es rn) = lastIncludedIndex rn"
  "lastIncludedTerm (merged_after p es rn) = lastIncludedTerm rn"
  "commitIndex (merged_after p es rn) = commitIndex rn"
  "lastApplied (merged_after p es rn) = lastApplied rn"
  "log_base (merged_after p es rn) = log_base rn"
  "currentTerm (merged_after p es rn) = currentTerm rn"
  "votedFor (merged_after p es rn) = votedFor rn" "role (merged_after p es rn) = role rn"
  "leaderID (merged_after p es rn) = leaderID rn" "peers (merged_after p es rn) = peers rn"
  "node_id (merged_after p es rn) = node_id rn" "cfg (merged_after p es rn) = cfg rn"
  "isStopped (merged_after p es rn) = isStopped rn"
  by (simp_all add: merged_after_def Let_def log_base_def)

lemma advance_follower_commit_simps [simp]:
  "rlog (advance_follower_commit args rn) = rlog rn"
  "lastIncludedIndex (advance_follower_commit args rn) = lastIncludedIndex rn"
  "lastIncludedTerm (advance_follower_commit args rn) = lastIncludedTerm rn"
  "lastApplied (advance_follower_commit args rn) = lastApplied rn"
  "log_base (advance_follower_commit args rn) = log_base rn"
  "log_end (advance_follower_commit args rn) = log_end rn"
  "log_wf (advance_follower_commit args rn) = log_wf rn"
  "term_at (advance_follower_commit args rn) = term_at rn"
  "currentTerm (advance_follower_commit args rn) = currentTerm rn"
  "votedFor (advance_follower_commit args rn) = votedFor rn"
  "role (advance_follower_commit args rn) = role rn"
  "leaderID (advance_follower_commit args rn) = leaderID rn"
  "peers (advance_follower_commit args rn) = peers rn"
  "node_id (advance_follower_commit args rn) = node_id rn"
  "cfg (advance_follower_commit args rn) = cfg rn"
  "isStopped (advance_follower_commit args rn) = isStopped rn"
  by (simp_all add: advance_follower_commit_def Let_def)

lemma merged_after_log:
  assumes "log_wf rn" and "log_base rn \<le> p" and "p \<le> log_end rn"
    and "contiguous (p + 1) es" and "p + length es + 1 < 2 ^ 63"
  shows merged_after_wf: "log_wf (merged_after p es rn)"
    and merged_after_before: "q \<le> p \<Longrightarrow> term_at (merged_after p es rn) q = term_at rn q"
    and merged_after_entries: "j < length es \<Longrightarrow>
      term_at (merged_after p es rn) (p + 1 + j) = Some (e_Term (es ! j))"
    and merged_after_end: "p + length es \<le> log_end (merged_after p es rn)"
proof -
  define k where "k = Suc (p - log_base rn)"
  let ?tl = "merge_entries (drop k (rlog rn)) es"
  have rn': "merged_after p es rn = rn\<lparr>rlog := take k (rlog rn) @ ?tl\<rparr>"
    by (simp add: merged_after_def k_def Let_def)
  have bounds: "rlog rn \<noteq> []" "log_base rn + length (rlog rn) < 2 ^ 63" "contiguous (log_base rn) (rlog rn)"
    using assms(1) by (simp_all add: log_wf_def)
  then have k: "0 < k" "k \<le> length (rlog rn)" "log_base rn + k = p + 1"
    using assms(2,3) by (cases "rlog rn"; simp add: k_def log_end_def)+
  have len: "length ?tl \<le> max (length (rlog rn) - k) (length es)"
    using length_merge_entries_le [of "drop k (rlog rn)" es] by simp
  show "log_wf (merged_after p es rn)"
    unfolding rn'
  proof (rule log_wf_replace_tail)
    show "contiguous (log_base rn + k) ?tl"
      using contiguous_drop [OF bounds(3), of k] k(3) assms(4)
      by (simp add: contiguous_merge_entries)
    show "log_base rn + k + length ?tl < 2 ^ 63"
      using bounds(2) k len assms(5) by linarith
  qed (use assms(1) k in auto)
  have in_log: "i - log_base rn < length (rlog rn)" if "log_base rn \<le> i" "i \<le> p" for i
    using that k by linarith
  show "term_at (merged_after p es rn) q = term_at rn q" if "q \<le> p"
    using that assms(3) k unfolding rn' term_at_replace_tail [OF k(1,2)] by (auto simp: term_at_def)
  show "term_at (merged_after p es rn) (p + 1 + j) = Some (e_Term (es ! j))" if "j < length es"
    using that k length_merge_entries_ge [of es "drop k (rlog rn)"]
      merge_entries_terms [OF that, of "drop k (rlog rn)"]
    unfolding rn' term_at_replace_tail [OF k(1,2)] by auto
  show "p + length es \<le> log_end (merged_after p es rn)"
    using k length_merge_entries_ge [of es "drop k (rlog rn)"]
    by (simp add: rn' log_end_def log_base_def)
qed

text \<open>
  The entries themselves: what is stored at a position of the whole log, and whether a node's log
  agrees with the first \<open>n\<close> received entries, those its snapshot covers aside.
\<close>

definition entry_at :: "RaftNode \<Rightarrow> nat \<Rightarrow> LogEntry option" where
  "entry_at rn i = (if log_base rn \<le> i \<and> i \<le> log_end rn then Some (rlog rn ! (i - log_base rn)) else None)"

definition agrees_up_to :: "AppendEntriesArgs \<Rightarrow> RaftNode \<Rightarrow> nat \<Rightarrow> bool" where
  "agrees_up_to args rn n \<longleftrightarrow> (\<forall>m < n. log_base rn < unat (ae_PrevLogIndex args) + 1 + m \<longrightarrow>
     term_at rn (unat (ae_PrevLogIndex args) + 1 + m) = Some (e_Term (ae_Entries args ! m)))"

lemma agrees_beyond:
  assumes "p = max (log_base rn) (unat (ae_PrevLogIndex args))" and "d = p - unat (ae_PrevLogIndex args)" and "n \<le> length (ae_Entries args)"
  shows "agrees_up_to args rn n \<longleftrightarrow>
    (\<forall>m < n - d. term_at rn (p + 1 + m) = Some (e_Term (drop d (ae_Entries args) ! m)))"
proof -
  have p: "p = unat (ae_PrevLogIndex args) + d" using assms(1,2) by simp
  have above: "log_base rn < unat (ae_PrevLogIndex args) + 1 + m \<longleftrightarrow> d \<le> m" for m using assms(1,2) by auto
  have "agrees_up_to args rn n \<longleftrightarrow> (\<forall>m < n. d \<le> m \<longrightarrow>
      term_at rn (unat (ae_PrevLogIndex args) + 1 + m) = Some (e_Term (ae_Entries args ! m)))"
    by (simp only: agrees_up_to_def above)
  also have "\<dots> \<longleftrightarrow> (\<forall>m < n - d. term_at rn (unat (ae_PrevLogIndex args) + 1 + (d + m)) = Some (e_Term (ae_Entries args ! (d + m))))"
    by (metis add.commute le_Suc_ex le_add1 less_diff_conv)
  finally show ?thesis using assms(3) by (auto simp: p add_ac)
qed

lemma entry_at_handler_simps [simp]:
  "entry_at (advance_follower_commit args rn) = entry_at rn"
  "entry_at (follow_leader now t l rn) = entry_at rn"
  by (simp_all add: fun_eq_iff entry_at_def)

lemma entry_at_replace_tail:
  assumes "0 < k" and "k \<le> length (rlog rn)"
  shows "entry_at (rn\<lparr>rlog := take k (rlog rn) @ es\<rparr>) i =
    (if i < log_base rn then None
     else if i < log_base rn + k then Some (rlog rn ! (i - log_base rn))
     else if i < log_base rn + k + length es then Some (es ! (i - log_base rn - k))
     else None)"
  using assms by (auto simp: entry_at_def log_end_def log_base_def nth_append)

lemma merged_after_exact:
  assumes "log_wf rn" and "log_base rn \<le> p" and "p \<le> log_end rn"
  shows merged_keeps: "q \<le> p \<Longrightarrow> entry_at (merged_after p es rn) q = entry_at rn q"
    and merged_stores: "j < length es \<Longrightarrow> entry_at (merged_after p es rn) (p + 1 + j) =
      (if \<forall>m < Suc j. term_at rn (p + 1 + m) = Some (e_Term (es ! m)) then entry_at rn (p + 1 + j) else Some (es ! j))"
    and merged_rest: "p + length es < q \<Longrightarrow> entry_at (merged_after p es rn) q =
      (if \<forall>m < length es. term_at rn (p + 1 + m) = Some (e_Term (es ! m)) then entry_at rn q else None)"
proof -
  define k where "k = Suc (p - log_base rn)"
  let ?ls = "drop k (rlog rn)"
  have rn': "merged_after p es rn = rn\<lparr>rlog := take k (rlog rn) @ merge_entries ?ls es\<rparr>"
    by (simp add: merged_after_def k_def Let_def)
  have "rlog rn \<noteq> []" using assms(1) by (simp add: log_wf_def)
  then have k: "0 < k" "k \<le> length (rlog rn)" "log_base rn + k = p + 1"
    and "end": "log_end rn + 1 = log_base rn + length (rlog rn)"
    using assms(2,3) by (cases "rlog rn"; simp add: k_def log_end_def)+
  have idx: "p + 1 + m - log_base rn = k + m" for m using k(3) by linarith
  have at: "entry_at rn (p + 1 + m) = (if m < length ?ls then Some (?ls ! m) else None)" for m
    using k "end" idx by (auto simp: entry_at_def)
  have agree: "term_at rn (p + 1 + m) = Some v \<longleftrightarrow> m < length ?ls \<and> e_Term (?ls ! m) = v" for m v
    using k "end" idx by (auto simp: term_at_def)
  show "entry_at (merged_after p es rn) q = entry_at rn q" if "q \<le> p"
    using that k "end" unfolding rn' entry_at_replace_tail [OF k(1,2)] by (auto simp: entry_at_def)
  show "entry_at (merged_after p es rn) (p + 1 + j) =
      (if \<forall>m < Suc j. term_at rn (p + 1 + m) = Some (e_Term (es ! m)) then entry_at rn (p + 1 + j) else Some (es ! j))"
    if "j < length es"
    using that k length_merge_entries_ge [of es ?ls] merge_entries_nth [OF that, of ?ls]
    unfolding rn' entry_at_replace_tail [OF k(1,2)] at agree by auto
  show "entry_at (merged_after p es rn) q =
      (if \<forall>m < length es. term_at rn (p + 1 + m) = Some (e_Term (es ! m)) then entry_at rn q else None)"
    if "p + length es < q"
  proof -
    define j where "j = q - (p + 1)"
    have q: "q = p + 1 + j" "length es \<le> j" using that by (simp_all add: j_def)
    show ?thesis
      using q(2) k merge_entries_beyond [OF q(2), of ?ls] merge_entries_rest [OF q(2), of ?ls]
      unfolding q(1) rn' entry_at_replace_tail [OF k(1,2)] at agree by auto
  qed
qed

text \<open>The four outcomes of the handler on a well-formed log and request.\<close>

lemma HandleAppendEntries_cases:
  assumes "log_wf rn" and "ae_wf args"
  obtains
    (stale) "ae_Term args < currentTerm rn" and "HandleAppendEntries now args rn =
        Some (rn, \<lparr>aer_Term = currentTerm rn, aer_Success = False, aer_MatchIndex = 0\<rparr>)"
  | (covered) "currentTerm rn \<le> ae_Term args" and "ae_end args \<le> log_base rn"
      and "unat (ae_PrevLogIndex args) < log_base rn"
      and "HandleAppendEntries now args rn =
        Some (follow_leader now (ae_Term args) (ae_LeaderID args) rn,
          \<lparr>aer_Term = ae_Term args, aer_Success = True, aer_MatchIndex = lastIncludedIndex rn\<rparr>)"
  | (rejected) "currentTerm rn \<le> ae_Term args" and "log_base rn \<le> unat (ae_PrevLogIndex args)"
      and "term_at rn (unat (ae_PrevLogIndex args)) \<noteq> Some (ae_PrevLogTerm args)"
      and "HandleAppendEntries now args rn =
        Some (follow_leader now (ae_Term args) (ae_LeaderID args) rn,
          \<lparr>aer_Term = ae_Term args, aer_Success = False, aer_MatchIndex = 0\<rparr>)"
  | (accepted) args' p where "currentTerm rn \<le> ae_Term args"
      and "p = max (log_base rn) (unat (ae_PrevLogIndex args))" and "p \<le> log_end rn"
      and "ae_Entries args' = drop (p - unat (ae_PrevLogIndex args)) (ae_Entries args)"
      and "ae_LeaderCommit args' = ae_LeaderCommit args"
      and "unat (ae_PrevLogIndex args') = p" and "ae_wf args'" and "ae_end args' = ae_end args"
      and "unat (ae_PrevLogIndex args) < p \<Longrightarrow> p < ae_end args"
      and "p = unat (ae_PrevLogIndex args) \<Longrightarrow> term_at rn p = Some (ae_PrevLogTerm args)"
      and "HandleAppendEntries now args rn =
        Some (advance_follower_commit args' (merged_after p (ae_Entries args')
                (follow_leader now (ae_Term args) (ae_LeaderID args) rn)),
          \<lparr>aer_Term = ae_Term args, aer_Success = True, aer_MatchIndex = word_of_nat (ae_end args)\<rparr>)"
proof (cases "ae_Term args < currentTerm rn")
  case True
  then show thesis by (intro stale) (simp_all add: HandleAppendEntries_eq)
next
  case current: False
  let ?prev = "unat (ae_PrevLogIndex args)"
  let ?rn1 = "follow_leader now (ae_Term args) (ae_LeaderID args) rn"
  have len: "length (ae_Entries args) < 2 ^ 63" and room: "?prev + length (ae_Entries args) + 1 < 2 ^ 63"
    and cont: "contiguous (?prev + 1) (ae_Entries args)"
    using assms(2) by (auto simp: ae_wf_def)
  have end_word: "ae_PrevLogIndex a + word_of_nat (length (ae_Entries a)) = word_of_nat (ae_end a)"
    for a by (simp add: ae_end_def)
  show thesis
  proof (cases "ae_PrevLogIndex args < lastIncludedIndex rn")
    case True
    let ?offset = "lastIncludedIndex rn - ae_PrevLogIndex args"
    have off: "unat ?offset = log_base rn - ?prev"
      using True by (simp add: log_base_def unat_sub_no_borrow)
    have below: "?prev < log_base rn"
      using True by (simp add: log_base_def word_less_nat_alt)
    have le: "word_of_nat (length (ae_Entries args)) \<le> ?offset \<longleftrightarrow> ae_end args \<le> log_base rn"
      using len off below by (auto simp: word_le_nat_alt unat_of_nat_small ae_end_def)
    show thesis
    proof (cases "ae_end args \<le> log_base rn")
      case True
      with \<open>ae_PrevLogIndex args < lastIncludedIndex rn\<close> current below le show thesis
        by (intro covered) (simp_all add: HandleAppendEntries_eq Let_def)
    next
      case False
      define args' where "args' = args\<lparr>ae_Entries := drop (log_base rn - ?prev) (ae_Entries args),
        ae_PrevLogIndex := lastIncludedIndex rn, ae_PrevLogTerm := lastIncludedTerm rn\<rparr>"
      have end': "ae_end args' = ae_end args"
        using False below by (simp add: args'_def ae_end_def log_base_def)
      have wf': "ae_wf args'"
        using contiguous_drop [OF cont, of "log_base rn - ?prev"] below room end'
        by (simp add: ae_wf_def args'_def log_base_def ae_end_def)
      have "append_checked args' \<lparr>aer_Term = ae_Term args, aer_Success = False, aer_MatchIndex = 0\<rparr> ?rn1 =
          Some (advance_follower_commit args' (merged_after (log_base rn) (ae_Entries args') ?rn1),
            \<lparr>aer_Term = ae_Term args, aer_Success = True, aer_MatchIndex = word_of_nat (ae_end args)\<rparr>)"
      proof -
        have prev': "unat (ae_PrevLogIndex args') = log_base rn"
          by (simp add: args'_def log_base_def)
        moreover have "term_at rn (log_base rn) = Some (ae_PrevLogTerm args')"
          using log_end_ge [OF assms(1)] assms(1) by (simp add: args'_def term_at_def log_wf_def)
        ultimately show ?thesis
          using append_checked_wf [of ?rn1 args'] wf' assms(1) by (simp add: end_word end')
      qed
      with True current below le False end' wf' off log_end_ge [OF assms(1)] show thesis
        by (intro accepted [of "log_base rn" args'])
          (simp_all add: HandleAppendEntries_eq Let_def args'_def log_base_def)
    qed
  next
    case False
    then have above: "log_base rn \<le> ?prev"
      by (simp add: log_base_def word_less_nat_alt)
    note checked = append_checked_wf [of ?rn1 args, OF _ assms(2)]
    show thesis
    proof (cases "term_at rn ?prev = Some (ae_PrevLogTerm args)")
      case True
      then have "?prev \<le> log_end rn" by (auto simp: term_at_def split: if_splits)
      with True False current above checked assms show thesis
        by (intro accepted [of ?prev args]) (simp_all add: HandleAppendEntries_eq Let_def end_word)
    next
      case no: False
      with False current above checked assms(1) show thesis
        by (intro rejected) (simp_all add: HandleAppendEntries_eq Let_def)
    qed
  qed
qed

definition merged_log :: "nat \<Rightarrow> LogEntry list \<Rightarrow> LogEntry list \<Rightarrow> LogEntry list" where
  "merged_log k es l = take (Suc k) l @ merge_entries (drop (Suc k) l) es"

lemma rlog_merged_after: "rlog (merged_after p es rn) = merged_log (p - log_base rn) es (rlog rn)"
  by (simp add: merged_after_def merged_log_def Let_def)

lemma merged_log_idem: "k < length l \<Longrightarrow> merged_log k es (merged_log k es l) = merged_log k es l"
  by (simp add: merged_log_def merge_entries_idem)

text \<open>A request the witnesses use: one entry, already committed by the leader.\<close>

definition example_append :: AppendEntriesArgs where
  "example_append = \<lparr>ae_Term = 1, ae_LeaderID = ''2'', ae_PrevLogIndex = 0, ae_PrevLogTerm = 0,
     ae_Entries = [\<lparr>e_Index = 1, e_Term = 1, e_Data = Some [7]\<rparr>], ae_LeaderCommit = 1\<rparr>"

lemma example_append_wf: "ae_wf example_append"
  by (simp add: example_append_def ae_wf_def)

lemma example_append_reply:
  "\<exists>rn'. HandleAppendEntries 5 example_append example_node =
     Some (rn', \<lparr>aer_Term = 1, aer_Success = True, aer_MatchIndex = 1\<rparr>)"
  by (simp add: HandleAppendEntries_def example_append_def example_node_eq
      append_checked_def lastLogIndex_def log_at_def getLogTerm_def stepDown_def Let_def)

section \<open>Properties of HandleAppendEntries\<close>

text \<open>C25. On a well-formed log, \<open>HandleAppendEntries\<close> never panics for a well-formed request
  and keeps the log well-formed (anchor in place, indices contiguous), whichever branch it
  takes.\<close>

theorem append_entries_keeps_log:
  assumes "log_wf rn" and "ae_wf args"
  shows "\<exists>rn' reply. HandleAppendEntries now args rn = Some (rn', reply) \<and> log_wf rn'"
using assms
proof (cases rule: HandleAppendEntries_cases [where now = now])
  case (accepted args' p)
  then show ?thesis
    using assms(1) merged_after_wf [of "follow_leader now (ae_Term args) (ae_LeaderID args) rn" p "ae_Entries args'"]
    by (simp add: ae_wf_def)
qed (use assms in simp_all)

theorem append_entries_keeps_log_witness:
  "\<exists>rn' reply. HandleAppendEntries 5 example_append example_node = Some (rn', reply) \<and> log_wf rn'"
  by (rule append_entries_keeps_log [OF example_node_wf example_append_wf])

text \<open>C26. A successful AppendEntries replicated the request: the stored term at
  \<open>PrevLogIndex\<close> was the leader's (when it is above the snapshot), every entry above the
  snapshot is now stored with the leader's term, and \<open>MatchIndex\<close> is exactly the end of the request
  (or the snapshot, if that is further). The stored entries are pinned one by one, data included: up
  to \<open>PrevLogIndex\<close> and the snapshot they are untouched; from there a received entry is the one
  stored unless the log agreed with the request that far, where what was stored stays; and behind
  the request the log is kept only when it agreed with all of it.\<close>

theorem append_entries_success:
  assumes "log_wf rn" and "ae_wf args"
    and "HandleAppendEntries now args rn = Some (rn', reply)" and "aer_Success reply"
  shows "unat (aer_MatchIndex reply) = max (log_base rn) (ae_end args) \<and>
    unat (aer_MatchIndex reply) \<le> log_end rn' \<and>
    (log_base rn \<le> unat (ae_PrevLogIndex args) \<longrightarrow>
      term_at rn (unat (ae_PrevLogIndex args)) = Some (ae_PrevLogTerm args)) \<and>
    (\<forall>j < length (ae_Entries args). log_base rn < unat (ae_PrevLogIndex args) + 1 + j \<longrightarrow>
      term_at rn' (unat (ae_PrevLogIndex args) + 1 + j) = Some (e_Term (ae_Entries args ! j))) \<and>
    (\<forall>q \<le> max (log_base rn) (unat (ae_PrevLogIndex args)). entry_at rn' q = entry_at rn q) \<and>
    (\<forall>j < length (ae_Entries args). log_base rn < unat (ae_PrevLogIndex args) + 1 + j \<longrightarrow>
      entry_at rn' (unat (ae_PrevLogIndex args) + 1 + j) =
        (if agrees_up_to args rn (Suc j) then entry_at rn (unat (ae_PrevLogIndex args) + 1 + j)
         else Some (ae_Entries args ! j))) \<and>
    (\<forall>q > max (log_base rn) (ae_end args). entry_at rn' q =
      (if agrees_up_to args rn (length (ae_Entries args)) then entry_at rn q else None))"
using assms(1,2)
proof (cases rule: HandleAppendEntries_cases [where now = now])
  case covered
  then have "log_base rn \<le> log_end rn" "unat (lastIncludedIndex rn) = log_base rn"
    using log_end_ge [OF assms(1)] by (simp_all add: log_base_def)
  with covered assms(3) show ?thesis by (auto simp: ae_end_def agrees_up_to_def)
next
  case (accepted args' p)
  let ?rn1 = "follow_leader now (ae_Term args) (ae_LeaderID args) rn"
  let ?prev = "unat (ae_PrevLogIndex args)"
  have es: "contiguous (p + 1) (ae_Entries args')" "p + length (ae_Entries args') + 1 < 2 ^ 63"
    and p_end: "p + length (ae_Entries args') = ae_end args"
    using accepted(6,7,8) by (auto simp: ae_wf_def ae_end_def)
  have rn1: "log_wf ?rn1" "log_base ?rn1 \<le> p" "p \<le> log_end ?rn1"
    using accepted(2,3) assms(1) by auto
  note merged = merged_after_log [OF rn1 es] and exact = merged_after_exact [OF rn1]
  have rn': "rn' = advance_follower_commit args' (merged_after p (ae_Entries args') ?rn1)"
    and reply: "aer_MatchIndex reply = word_of_nat (ae_end args)"
    using accepted(11) assms(3) by auto
  have "unat (word_of_nat (ae_end args) :: u64) = ae_end args"
    using assms(2) by (intro unat_of_nat_small) (simp add: ae_wf_def ae_end_def)
  moreover have max_end: "max (log_base rn) (ae_end args) = ae_end args"
    using accepted(2) p_end by auto
  define d where "d = p - ?prev"
  have p: "p = ?prev + d" and es': "ae_Entries args' = drop d (ae_Entries args)"
    using accepted(2,4) by (simp_all add: d_def)
  have above: "log_base rn < ?prev + 1 + j \<longleftrightarrow> d \<le> j" for j using accepted(2) by (auto simp: d_def)
  note agrees = agrees_beyond [OF accepted(2) d_def, folded es']
  have stored: "term_at rn' (?prev + 1 + j) = Some (e_Term (ae_Entries args ! j)) \<and> entry_at rn' (?prev + 1 + j) =
      (if agrees_up_to args rn (Suc j) then entry_at rn (?prev + 1 + j) else Some (ae_Entries args ! j))"
    if j: "j < length (ae_Entries args)" "log_base rn < ?prev + 1 + j" for j
  proof -
    have dj: "d \<le> j" using j(2) above by blast
    then have "p + 1 + (j - d) = ?prev + 1 + j" "Suc j - d = Suc (j - d)" "j - d < length (ae_Entries args')"
      and "ae_Entries args' ! (j - d) = ae_Entries args ! j"
      using j(1) by (simp_all add: p es')
    then show ?thesis using merged(3) [of "j - d"] exact(2) [of "j - d" "ae_Entries args'"] agrees [of "Suc j"] j(1) by (simp add: rn' cong: if_cong)
  qed
  have "length (ae_Entries args) - d = length (ae_Entries args')" by (simp add: es')
  then have rest: "entry_at rn' q = (if agrees_up_to args rn (length (ae_Entries args)) then entry_at rn q else None)"
    if "ae_end args < q" for q
    using exact(3) [of "ae_Entries args'" q] agrees [of "length (ae_Entries args)"] that p_end by (simp add: rn' cong: if_cong)
  have keeps: "entry_at rn' q = entry_at rn q" if "q \<le> max (log_base rn) ?prev" for q
    using that accepted(2) exact(1) [of q "ae_Entries args'"] by (simp add: rn')
  have "unat (aer_MatchIndex reply) = max (log_base rn) (ae_end args)" "ae_end args \<le> log_end rn'"
    using \<open>unat _ = ae_end args\<close> max_end merged(4) p_end by (simp_all add: reply rn')
  moreover have "log_base rn \<le> ?prev \<longrightarrow> term_at rn ?prev = Some (ae_PrevLogTerm args)"
    using accepted(2,10) by auto
  ultimately show ?thesis using stored rest keeps max_end by simp
qed (use assms in auto)

text \<open>A follower stores the payload it is sent.\<close>

lemma append_entries_success_witness:
  "\<exists>rn' reply. HandleAppendEntries 5 example_append example_node = Some (rn', reply) \<and>
     aer_MatchIndex reply = 1 \<and> term_at rn' 1 = Some 1 \<and> entry_at rn' 1 = Some (ae_Entries example_append ! 0) \<and>
     e_Data (ae_Entries example_append ! 0) = Some [7] \<and> entry_at example_node 1 = None"
proof -
  obtain rn' where h: "HandleAppendEntries 5 example_append example_node =
     Some (rn', \<lparr>aer_Term = 1, aer_Success = True, aer_MatchIndex = 1\<rparr>)"
    using example_append_reply by blast
  have "\<not> agrees_up_to example_append example_node (Suc 0)"
    by (simp add: agrees_up_to_def example_append_def example_node_eq log_base_def term_at_def log_end_def)
  then have "term_at rn' (0 + 1 + 0) = Some 1" "entry_at rn' (0 + 1 + 0) = Some (ae_Entries example_append ! 0)"
    using append_entries_success [OF example_node_wf example_append_wf h]
    by (simp_all add: example_append_def example_node_eq log_base_def ae_end_def)
  with h show ?thesis
    by (simp add: example_append_def entry_at_def example_node_eq log_base_def log_end_def)
qed

text \<open>A refused AppendEntries changes no data: the log, the commit index and the applied
  index are those before the call, and the reply carries no match.\<close>

theorem append_entries_failure:
  assumes "log_wf rn" and "ae_wf args"
    and "HandleAppendEntries now args rn = Some (rn', reply)" and "\<not> aer_Success reply"
  shows "rlog rn' = rlog rn \<and> commitIndex rn' = commitIndex rn \<and> lastApplied rn' = lastApplied rn \<and>
    aer_MatchIndex reply = 0 \<and>
    (ae_Term args < currentTerm rn \<or>
     term_at rn (unat (ae_PrevLogIndex args)) \<noteq> Some (ae_PrevLogTerm args))"
  using assms(1,2)
  by (cases rule: HandleAppendEntries_cases [where now = now]) (use assms in auto)


lemma example_append_refused:
  "HandleAppendEntries 5 (example_append\<lparr>ae_PrevLogTerm := 3\<rparr>) example_node =
     Some (follow_leader 5 1 ''2'' example_node, \<lparr>aer_Term = 1, aer_Success = False, aer_MatchIndex = 0\<rparr>)"
  by (simp add: HandleAppendEntries_eq example_append_def example_node_eq follow_leader_def
      append_checked_def lastLogIndex_def log_at_def getLogTerm_def stepDown_def Let_def)

theorem append_entries_failure_witness:
  "rlog (follow_leader 5 1 ''2'' example_node) = rlog example_node \<and>
     term_at example_node 0 \<noteq> Some (3 :: u64)"
  using append_entries_failure [OF example_node_wf _ example_append_refused]
  by (simp add: example_append_def ae_wf_def example_node_eq)

text \<open>Handling the same request again changes nothing more: after a success, a duplicate
  delivery leaves the log as it is and gets the same reply, so retries and reordered
  duplicates cannot truncate the log.\<close>

theorem append_entries_idempotent:
  assumes "log_wf rn" and "ae_wf args"
    and "HandleAppendEntries now args rn = Some (rn1, reply)" and "aer_Success reply"
  shows "\<exists>rn2. HandleAppendEntries now' args rn1 = Some (rn2, reply) \<and> rlog rn2 = rlog rn1 \<and>
     log_wf rn2"
  using assms(1,2)
proof (cases rule: HandleAppendEntries_cases [where now = now])
  case covered
  then have "log_wf rn1" and rn1: "log_base rn1 = log_base rn" "currentTerm rn1 = ae_Term args"
    "lastIncludedIndex rn1 = lastIncludedIndex rn"
    using assms by auto
  from this(1) assms(2) show ?thesis
    by (cases rule: HandleAppendEntries_cases [where now = now'])
      (use rn1 covered assms(3) \<open>log_wf rn1\<close> in auto)
next
  case (accepted args' p)
  let ?rn = "follow_leader now (ae_Term args) (ae_LeaderID args) rn"
  have es: "contiguous (p + 1) (ae_Entries args')" "p + length (ae_Entries args') + 1 < 2 ^ 63"
    using accepted(6,7) by (auto simp: ae_wf_def)
  have pre: "log_base ?rn \<le> p" "p \<le> log_end ?rn" "log_wf ?rn"
    using accepted(2,3) assms(1) by auto
  note merged = merged_after_log [OF pre(3,1,2) es]
  have rn1: "rn1 = advance_follower_commit args' (merged_after p (ae_Entries args') ?rn)"
    and reply: "reply = \<lparr>aer_Term = ae_Term args, aer_Success = True, aer_MatchIndex = word_of_nat (ae_end args)\<rparr>"
    using accepted(11) assms(3) by auto
  have wf1: "log_wf rn1" and base1: "log_base rn1 = log_base rn" and term1: "currentTerm rn1 = ae_Term args"
    using merged(1) accepted(1) by (simp_all add: rn1)
  have again: "rlog (merged_after p (ae_Entries args') (follow_leader now' t l rn1)) = rlog rn1" for t l
    using pre by (cases "rlog rn")
      (auto simp: rn1 rlog_merged_after log_end_def log_wf_def intro!: merged_log_idem)
  have p_end: "p + length (ae_Entries args') = ae_end args"
    using accepted(6,8) by (simp add: ae_end_def)
  from wf1 assms(2) show ?thesis
  proof (cases rule: HandleAppendEntries_cases [where now = now'])
    case covered
    then show ?thesis using accepted(2,9) base1 by auto
  next
    case rejected
    then have "term_at rn1 p = Some (ae_PrevLogTerm args)"
      using accepted(2,10) base1 merged(2) by (simp add: rn1)
    with rejected accepted(2) base1 show ?thesis by simp
  next
    case acc: (accepted args'' p')
    have "p' = p" using acc(2) accepted(2) base1 by simp
    moreover have "ae_Entries args'' = ae_Entries args'"
      using acc(4) accepted(4) \<open>p' = p\<close> by simp
    ultimately show ?thesis
      using acc(11) reply again wf1
        merged_after_wf [of "follow_leader now' (ae_Term args) (ae_LeaderID args) rn1" p "ae_Entries args'"]
        es base1 accepted(2) acc(3)
      by (simp add: log_base_def)
  qed (use term1 in simp)
qed (use assms in auto)

theorem append_entries_idempotent_witness:
  "\<exists>rn1 rn2 reply. HandleAppendEntries 5 example_append example_node = Some (rn1, reply) \<and>
     HandleAppendEntries 6 example_append rn1 = Some (rn2, reply) \<and> rlog rn2 = rlog rn1"
proof -
  obtain rn1 where h: "HandleAppendEntries 5 example_append example_node =
     Some (rn1, \<lparr>aer_Term = 1, aer_Success = True, aer_MatchIndex = 1\<rparr>)"
    using example_append_reply by blast
  show ?thesis
    using append_entries_idempotent [OF example_node_wf example_append_wf h, of 6] h by auto
qed

text \<open>The entry loop computes the merge of the two logs: stored entries are kept as long as
  their terms agree with the received ones, and everything from the first disagreement on is
  replaced, in one pass and without a panic.\<close>

theorem entry_loop_is_merge:
  assumes "log_wf rn" and "log_base rn \<le> unat prev" and "unat prev \<le> log_end rn"
    and "contiguous (unat prev + 1) es" and "unat prev + length es + 1 < 2 ^ 63"
  shows "append_entries_loop prev 0 es rn =
    Some (rn\<lparr>rlog := take (Suc (unat prev - log_base rn)) (rlog rn) @
       merge_entries (drop (Suc (unat prev - log_base rn)) (rlog rn)) es\<rparr>)"
  by (rule append_entries_loop_merge)
    (use assms in \<open>cases "rlog rn"; auto simp: log_end_def log_wf_def\<close>)+

theorem entry_loop_is_merge_witness:
  "append_entries_loop 0 0 [\<lparr>e_Index = 1, e_Term = 4, e_Data = Some []\<rparr>] example_node =
     Some (example_node\<lparr>rlog := rlog example_node @ [\<lparr>e_Index = 1, e_Term = 4, e_Data = Some []\<rparr>]\<rparr>)"
  using entry_loop_is_merge [OF example_node_wf, of 0 "[\<lparr>e_Index = 1, e_Term = 4, e_Data = Some []\<rparr>]"]
  by (simp add: log_base_def log_end_def example_node_eq)

text \<open>The commit index of a follower never moves back, never passes what the leader
  committed, and never passes the end of its own log, for every request whose
  \<open>LeaderCommit\<close> lies within the log it carries (which is what a leader sends).\<close>

theorem append_entries_commit:
  assumes "log_wf rn" and "ae_wf args" and "unat (ae_LeaderCommit args) \<le> ae_end args"
    and "HandleAppendEntries now args rn = Some (rn', reply)" and "aer_Success reply"
  shows "commitIndex rn \<le> commitIndex rn' \<and>
     commitIndex rn' \<le> max (commitIndex rn) (ae_LeaderCommit args) \<and>
     (commitIndex rn' \<noteq> commitIndex rn \<longrightarrow> unat (commitIndex rn') \<le> log_end rn')"
  using assms(1,2)
proof (cases rule: HandleAppendEntries_cases [where now = now])
  case (accepted args' p)
  let ?rn = "follow_leader now (ae_Term args) (ae_LeaderID args) rn"
  have es: "contiguous (p + 1) (ae_Entries args')" "p + length (ae_Entries args') + 1 < 2 ^ 63"
    using accepted(6,7) by (auto simp: ae_wf_def)
  have "log_base ?rn \<le> p" "p \<le> log_end ?rn" "log_wf ?rn"
    using accepted(2,3) assms(1) by auto
  then have fits: "ae_end args \<le> log_end (merged_after p (ae_Entries args') ?rn)"
    using merged_after_end [of ?rn p "ae_Entries args'"] es accepted(6,8) by (simp add: ae_end_def)
  have rn': "rn' = advance_follower_commit args' (merged_after p (ae_Entries args') ?rn)"
    using accepted(11) assms(4) by auto
  have "unat (ae_LeaderCommit args) \<le> unat (ae_PrevLogIndex args' + word_of_nat (length (ae_Entries args')))"
    using unat_ae_end [OF accepted(7)] accepted(8) assms(3) by simp
  then have "min (ae_LeaderCommit args) (ae_PrevLogIndex args' + word_of_nat (length (ae_Entries args'))) =
      ae_LeaderCommit args"
    by (simp add: word_le_nat_alt min_def)
  then have "commitIndex rn' = max (commitIndex rn) (ae_LeaderCommit args)"
    using accepted(5) by (auto simp: rn' advance_follower_commit_def Let_def max_def)
  moreover have "log_end rn' = log_end (merged_after p (ae_Entries args') ?rn)"
    by (simp add: rn')
  ultimately show ?thesis
    using fits assms(3) by (auto simp: max_def)
qed (use assms in auto)

theorem append_entries_commit_witness:
  "\<exists>rn' reply. HandleAppendEntries 5 example_append example_node = Some (rn', reply) \<and>
     commitIndex example_node \<le> commitIndex rn' \<and> commitIndex rn' \<le> max (commitIndex example_node) 1"
proof -
  obtain rn' where h: "HandleAppendEntries 5 example_append example_node =
     Some (rn', \<lparr>aer_Term = 1, aer_Success = True, aer_MatchIndex = 1\<rparr>)"
    using example_append_reply by blast
  have "unat (ae_LeaderCommit example_append) \<le> ae_end example_append"
    by (simp add: example_append_def ae_end_def)
  from append_entries_commit [OF example_node_wf example_append_wf this h] h show ?thesis
    by (auto simp: example_append_def)
qed

section \<open>Properties of HandleRequestVote\<close>

lemma lastLog_stepDown [simp]:
  "lastLogIndex (stepDown now t rn) = lastLogIndex rn"
  "lastLogTerm (stepDown now t rn) = lastLogTerm rn"
  by (simp_all add: lastLogIndex_def lastLogTerm_def)

text \<open>The handler on a real ballot, with its early returns resolved.\<close>

definition log_up_to_date :: "RequestVoteArgs \<Rightarrow> RaftNode \<Rightarrow> bool" where
  "log_up_to_date args rn \<longleftrightarrow>
    (let lastTerm = e_Term (last (rlog rn)) in
     rv_LastLogTerm args > lastTerm \<or>
     rv_LastLogTerm args = lastTerm \<and> unat (rv_LastLogIndex args) \<ge> log_end rn)"

definition vote_free :: "RequestVoteArgs \<Rightarrow> RaftNode \<Rightarrow> bool" where
  "vote_free args rn \<longleftrightarrow>
    currentTerm rn < rv_Term args \<or> votedFor rn = '''' \<or> votedFor rn = rv_CandidateID args"

lemma HandleRequestVote_ballot:
  assumes "log_wf rn" and "\<not> rv_IsPreVote args"
  shows "HandleRequestVote now args rn = Some
    (let rn1 = (if rv_Term args > currentTerm rn then stepDown now (rv_Term args) rn else rn) in
     if rv_Term args < currentTerm rn then (rn, \<lparr>rvr_Term = currentTerm rn, rvr_VoteGranted = False\<rparr>)
     else if vote_free args rn \<and> log_up_to_date args rn
     then (rn1\<lparr>votedFor := rv_CandidateID args, electionResetEvent := now\<rparr>,
           \<lparr>rvr_Term = rv_Term args, rvr_VoteGranted = True\<rparr>)
     else (rn1, \<lparr>rvr_Term = rv_Term args, rvr_VoteGranted = False\<rparr>))"
proof -
  obtain w where "lastLogIndex rn = Some w" "unat w = log_end rn"
    using lastLogIndex_wf [OF assms(1)] by blast
  moreover from this have "w \<le> i \<longleftrightarrow> log_end rn \<le> unat i" for i
    by (simp add: word_le_nat_alt)
  ultimately show ?thesis
    using assms
    by (cases "rv_Term args" "currentTerm rn" rule: linorder_cases)
      (simp_all add: HandleRequestVote_def Let_def lastLogTerm_wf log_up_to_date_def vote_free_def
        less_not_sym)
qed

text \<open>A granted vote is a safe one: the ballot is of the node's own (new) term, the node
  had not voted for anyone else in it, its vote is recorded, and the candidate's log is at
  least as up to date as the voter's.\<close>

theorem vote_granted_is_safe:
  assumes "log_wf rn" and "\<not> rv_IsPreVote args"
    and "HandleRequestVote now args rn = Some (rn', reply)" and "rvr_VoteGranted reply"
  shows "rvr_Term reply = rv_Term args \<and> currentTerm rn' = rv_Term args \<and>
    votedFor rn' = rv_CandidateID args \<and> currentTerm rn \<le> rv_Term args \<and>
    (currentTerm rn = rv_Term args \<longrightarrow> votedFor rn = '''' \<or> votedFor rn = rv_CandidateID args) \<and>
    (rv_LastLogTerm args > e_Term (last (rlog rn)) \<or>
     rv_LastLogTerm args = e_Term (last (rlog rn)) \<and> unat (rv_LastLogIndex args) \<ge> log_end rn) \<and>
    rlog rn' = rlog rn"
  using assms
  by (cases "rv_Term args" "currentTerm rn" rule: linorder_cases)
    (auto simp: HandleRequestVote_ballot vote_free_def log_up_to_date_def Let_def split: if_splits)

definition example_vote :: RequestVoteArgs where
  "example_vote = \<lparr>rv_Term = 1, rv_CandidateID = ''2'', rv_LastLogIndex = 0, rv_LastLogTerm = 0,
     rv_IsPreVote = False\<rparr>"

theorem vote_granted_is_safe_witness:
  "\<exists>rn' reply. HandleRequestVote 4 example_vote example_node = Some (rn', reply) \<and>
     votedFor rn' = ''2'' \<and> currentTerm rn' = 1"
proof -
  have "\<exists>rn'. HandleRequestVote 4 example_vote example_node =
      Some (rn', \<lparr>rvr_Term = 1, rvr_VoteGranted = True\<rparr>)"
    by (simp add: HandleRequestVote_def example_vote_def example_node_eq stepDown_def Let_def
        lastLogIndex_def lastLogTerm_def log_at_def)
  then obtain rn' where h: "HandleRequestVote 4 example_vote example_node =
      Some (rn', \<lparr>rvr_Term = 1, rvr_VoteGranted = True\<rparr>)" by blast
  show ?thesis
    using vote_granted_is_safe [OF example_node_wf _ h] h by (simp add: example_vote_def)
qed

text \<open>A pre-vote never disturbs the voter: whatever it answers, the node's term, vote,
  role, log and timer are exactly what they were; and it answers no while it hears from a
  leader within the minimum election timeout.\<close>

theorem prevote_is_pure:
  assumes "log_wf rn" and "rv_IsPreVote args"
  shows "\<exists>reply. HandleRequestVote now args rn = Some (rn, reply) \<and> rvr_Term reply = currentTerm rn \<and>
    (rvr_VoteGranted reply \<longrightarrow> rv_Term args \<ge> currentTerm rn \<and>
      (leaderID rn = '''' \<or> now - electionResetEvent rn \<ge> cfg_ElectionMinMs (cfg rn) * Millisecond))"
proof -
  obtain w where "lastLogIndex rn = Some w"
    using lastLogIndex_wf [OF assms(1)] by blast
  with assms show ?thesis
    by (auto simp: HandleRequestVote_def Let_def lastLogTerm_wf)
qed

theorem prevote_is_pure_witness:
  "\<exists>reply. HandleRequestVote 4 (example_vote\<lparr>rv_IsPreVote := True\<rparr>) example_node = Some (example_node, reply) \<and>
     rvr_Term reply = 0"
  using prevote_is_pure [OF example_node_wf, of "example_vote\<lparr>rv_IsPreVote := True\<rparr>" 4]
  by (auto simp: example_node_eq)

section \<open>Properties of the snapshot operations\<close>

text \<open>The state with the log cut at a snapshot: the anchor, then the entries after it.\<close>

definition anchored :: "u64 \<Rightarrow> u64 \<Rightarrow> RaftNode \<Rightarrow> RaftNode" where
  "anchored i t rn = rn\<lparr>rlog := \<lparr>e_Index = i, e_Term = t, e_Data = None\<rparr> #
     drop (Suc (unat i - log_base rn)) (rlog rn), lastIncludedIndex := i, lastIncludedTerm := t\<rparr>"

lemma anchored_log:
  assumes "log_wf rn" and "log_base rn \<le> unat i" and "unat i \<le> log_end rn"
  shows anchored_wf: "log_wf (anchored i t rn)"
    and anchored_end: "log_end (anchored i t rn) = log_end rn"
    and anchored_after: "unat i < q \<Longrightarrow> term_at (anchored i t rn) q = term_at rn q"
    and anchored_at: "term_at (anchored i t rn) (unat i) = Some t"
proof -
  have b: "rlog rn \<noteq> []" "log_base rn + length (rlog rn) < 2 ^ 63" "contiguous (log_base rn) (rlog rn)"
    using assms(1) by (simp_all add: log_wf_def)
  have len: "unat i - log_base rn < length (rlog rn)"
    using b(1) assms(2,3) by (cases "rlog rn") (auto simp: log_end_def)
  have "contiguous (Suc (unat i)) (drop (Suc (unat i - log_base rn)) (rlog rn))"
    using contiguous_drop [OF b(3), of "Suc (unat i - log_base rn)"] assms(2) by simp
  then show "log_wf (anchored i t rn)"
    using b len assms(2) by (simp add: log_wf_def log_base_def anchored_def)
  show end': "log_end (anchored i t rn) = log_end rn"
    using len assms(2) by (simp add: log_end_def log_base_def anchored_def)
  show "term_at (anchored i t rn) q = term_at rn q" if "unat i < q"
  proof (cases "q \<le> log_end rn")
    case True
    then have "q - log_base rn < length (rlog rn)"
      using b(1) by (cases "rlog rn") (auto simp: log_end_def)
    then have "rlog (anchored i t rn) ! (q - unat i) = rlog rn ! (q - log_base rn)"
      using that assms(2) len by (simp add: anchored_def nth_Cons' Suc_diff_Suc)
    then show ?thesis
      using that assms(2) True end' by (simp add: term_at_def log_base_def anchored_def)
  next
    case False
    then show ?thesis using end' by (simp add: term_at_def)
  qed
  show "term_at (anchored i t rn) (unat i) = Some t"
    using end' assms(3) by (simp add: term_at_def log_base_def anchored_def)
qed

lemma TakeSnapshot_cases:
  assumes "log_wf rn" and "unat (commitIndex rn) < 2 ^ 63"
  obtains (refused) e where "TakeSnapshot i data rn = Some (rn, Some e)"
      "\<not> (lastIncludedIndex rn < i \<and> i \<le> commitIndex rn \<and> unat i \<le> log_end rn)"
    | (taken) t where "lastIncludedIndex rn < i" "i \<le> commitIndex rn" "unat i \<le> log_end rn"
      "term_at rn (unat i) = Some t" "TakeSnapshot i data rn =
        Some ((anchored i t rn)\<lparr>lastSnapshotData := data, lastApplied := max (lastApplied rn) i\<rparr>, None)"
proof (cases "lastIncludedIndex rn < i \<and> i \<le> commitIndex rn")
  case False
  then obtain e where "TakeSnapshot i data rn = Some (rn, Some e)"
    by (cases "commitIndex rn < i") (auto simp: TakeSnapshot_def not_le not_less)
  then show ?thesis using False by (intro refused) auto
next
  case True
  then have small: "unat i < 2 ^ 63" using assms(2) by (simp add: word_le_nat_alt)
  obtain d where d: "sint (i - lastIncludedIndex rn) = int d" "unat i = log_base rn + d" "0 < d"
    using True small by (auto elim: slice_index)
  have bounds: "d < length (rlog rn) \<longleftrightarrow> unat i \<le> log_end rn"
    using assms(1) d(2) by (cases "rlog rn") (auto simp: log_end_def log_wf_def)
  show ?thesis
  proof (cases "d < length (rlog rn)")
    case False
    with True bounds d show ?thesis
      using assms(1) small by (intro refused [of "BeyondLog i"]) (auto simp: TakeSnapshot_def Let_def getLogTerm_wf)
  next
    case inside: True
    then obtain t where t: "term_at rn (unat i) = Some t"
      using bounds d(2) by (simp add: term_at_def)
    have "TakeSnapshot i data rn =
        Some ((anchored i t rn)\<lparr>lastSnapshotData := data, lastApplied := max (lastApplied rn) i\<rparr>, None)"
      using True inside d t
      by (auto simp: TakeSnapshot_def Let_def getLogTerm_wf [OF assms(1) small] max_def
          nat_add_distrib anchored_def)
    then show ?thesis using True bounds inside t by (intro taken) simp_all
  qed
qed

lemma take_snapshot_compacts_aux:
  assumes "log_wf rn" and "unat (commitIndex rn) < 2 ^ 63"
  shows "\<exists>rn' err. TakeSnapshot i data rn = Some (rn', err) \<and> log_wf rn' \<and>
    (err = None \<longleftrightarrow> lastIncludedIndex rn < i \<and> i \<le> commitIndex rn \<and> unat i \<le> log_end rn) \<and>
    (err \<noteq> None \<longrightarrow> rn' = rn) \<and>
    (err = None \<longrightarrow> lastIncludedIndex rn' = i \<and> lastSnapshotData rn' = data \<and>
       log_end rn' = log_end rn \<and> (\<forall>q \<ge> unat i. term_at rn' q = term_at rn q) \<and>
       tl (rlog rn') = drop (Suc (unat i - log_base rn)) (rlog rn) \<and>
       commitIndex rn' = commitIndex rn \<and> lastApplied rn' = max (lastApplied rn) i)"
  using assms
proof (cases rule: TakeSnapshot_cases [where i = i and data = data])
  case (refused e)
  then show ?thesis using assms(1) by auto
next
  case (taken t)
  let ?rn1 = "anchored i t rn"
  have "log_base rn \<le> unat i" using taken(1) by (simp add: log_base_def word_less_nat_alt)
  note anchor = anchored_log [OF assms(1) this taken(3), where t = t]
  have "log_wf ?rn1" "log_end ?rn1 = log_end rn" "\<forall>q \<ge> unat i. term_at ?rn1 q = term_at rn q"
    using anchor taken(4) by (auto simp: le_less)
  then show ?thesis using taken by (simp add: anchored_def)
qed

text \<open>\<open>TakeSnapshot\<close> never panics and fails exactly when the index is above the commit
  index, already compacted or beyond the log, changing nothing then. When it succeeds it
  drops the entries up to the index and nothing else: the log stays well-formed with the same
  end, every term from the snapshot on is unchanged, the remaining entries are the stored
  ones, and the commit index is untouched.\<close>

theorem take_snapshot_compacts:
  assumes "log_wf rn" and "unat (commitIndex rn) < 2 ^ 63"
  shows "\<exists>rn' err. TakeSnapshot i data rn = Some (rn', err) \<and> log_wf rn' \<and>
    (err = None \<longleftrightarrow> lastIncludedIndex rn < i \<and> i \<le> commitIndex rn \<and> unat i \<le> log_end rn) \<and>
    (err \<noteq> None \<longrightarrow> rn' = rn) \<and>
    (err = None \<longrightarrow> lastIncludedIndex rn' = i \<and> lastSnapshotData rn' = data \<and>
       log_end rn' = log_end rn \<and> (\<forall>q \<ge> unat i. term_at rn' q = term_at rn q) \<and>
       tl (rlog rn') = drop (Suc (unat i - log_base rn)) (rlog rn) \<and>
       commitIndex rn' = commitIndex rn \<and> lastApplied rn' = max (lastApplied rn) i)"
  by (rule take_snapshot_compacts_aux [OF assms])

theorem take_snapshot_compacts_witness:
  "\<exists>rn' err. TakeSnapshot 1 [9] (example_node\<lparr>commitIndex := 1\<rparr>) = Some (rn', err) \<and> log_wf rn' \<and>
     err \<noteq> None \<and> rn' = example_node\<lparr>commitIndex := 1\<rparr>"
proof -
  have wf: "log_wf (example_node\<lparr>commitIndex := 1\<rparr>)" using example_node_wf by simp
  have "unat (commitIndex (example_node\<lparr>commitIndex := 1\<rparr>)) < 2 ^ 63" by simp
  from take_snapshot_compacts [OF wf this, of 1 "[9]"] show ?thesis
    by (auto simp: log_end_def log_base_def example_node_eq)
qed

lemma raise_commit:
  "(if commitIndex rn < i then rn\<lparr>commitIndex := i\<rparr> else rn) = rn\<lparr>commitIndex := max (commitIndex rn) i\<rparr>"
  by (simp add: max_def not_less)

lemma raise_applied:
  "(if lastApplied rn < i then rn\<lparr>lastApplied := i\<rparr> else rn) = rn\<lparr>lastApplied := max (lastApplied rn) i\<rparr>"
  by (simp add: max_def not_less)

lemma HandleInstallSnapshot_eq:
  "HandleInstallSnapshot now args rn =
    (let reply = \<lparr>isr_Term = currentTerm rn\<rparr>;
         rn1 = follow_leader now (is_Term args) (is_LeaderID args) rn
     in if is_Term args < currentTerm rn then Some (rn, reply, None)
        else if is_LastIncludedIndex args \<le> lastIncludedIndex rn then Some (rn1, reply, None)
        else map_option (\<lambda>newLog.
          (rn1\<lparr>rlog := newLog, lastIncludedIndex := is_LastIncludedIndex args,
               lastIncludedTerm := is_LastIncludedTerm args, lastSnapshotData := is_Data args,
               commitIndex := max (commitIndex rn) (is_LastIncludedIndex args),
               lastApplied := max (lastApplied rn) (is_LastIncludedIndex args)\<rparr>,
           reply,
           if cfg_OnRestoreSnapshot (cfg rn) \<and> 0 < length (is_Data args)
           then Some (is_LastIncludedIndex args, is_LastIncludedTerm args, is_Data args) else None))
          (snapshot_newLog args rn1))"
  unfolding HandleInstallSnapshot_def set_role_follower raise_commit raise_applied Let_def
    follow_leader_def map_conv_bind_option comp_def
  by (cases "is_Term args < currentTerm rn"; cases "currentTerm rn < is_Term args";
      cases "is_LastIncludedIndex args \<le> lastIncludedIndex rn") simp_all

lemma snapshot_newLog_wf:
  assumes "log_wf rn" and "lastIncludedIndex rn < is_LastIncludedIndex args"
    and "unat (is_LastIncludedIndex args) < 2 ^ 63"
  shows "snapshot_newLog args rn = Some
    (\<lparr>e_Index = is_LastIncludedIndex args, e_Term = is_LastIncludedTerm args, e_Data = None\<rparr> #
     (if term_at rn (unat (is_LastIncludedIndex args)) = Some (is_LastIncludedTerm args)
      then drop (Suc (unat (is_LastIncludedIndex args) - log_base rn)) (rlog rn) else []))"
proof -
  obtain lst where lst: "lastLogIndex rn = Some lst" "unat lst = log_end rn"
    using lastLogIndex_wf [OF assms(1)] by auto
  obtain d where d: "sint (is_LastIncludedIndex args - lastIncludedIndex rn) = int d"
    "unat (is_LastIncludedIndex args) = log_base rn + d" "0 < d"
    using assms(2,3) by (rule slice_index)
  show ?thesis
  proof (cases "is_LastIncludedIndex args \<le> lst")
    case False
    then have "term_at rn (unat (is_LastIncludedIndex args)) = None"
      using lst(2) by (simp add: term_at_def word_le_nat_alt)
    with False lst(1) show ?thesis by (simp add: snapshot_newLog_def)
  next
    case True
    then have "log_base rn + d \<le> log_end rn"
      using lst(2) d(2) by (simp add: word_le_nat_alt)
    then obtain t where "term_at rn (log_base rn + d) = Some t" by (simp add: term_at_def)
    then show ?thesis
      using True lst(1) d assms(1,3)
      by (auto simp: snapshot_newLog_def getLogTerm_wf Let_def nat_add_distrib)
  qed
qed

text \<open>C27. Installing a snapshot from the current leader that is newer than the node's own never
  panics and leaves a well-formed log anchored at the snapshot. When the node already held
  that entry with that term, every later entry survives; otherwise the log is the anchor
  alone. The commit and applied indices move up to the snapshot, never down.\<close>

theorem install_snapshot_installs:
  assumes "log_wf rn" and "currentTerm rn \<le> is_Term args"
    and "lastIncludedIndex rn < is_LastIncludedIndex args"
    and "unat (is_LastIncludedIndex args) + 1 < 2 ^ 63"
  shows "\<exists>rn' reply cb. HandleInstallSnapshot now args rn = Some (rn', reply, cb) \<and> log_wf rn' \<and>
    currentTerm rn' = is_Term args \<and> leaderID rn' = is_LeaderID args \<and>
    lastIncludedIndex rn' = is_LastIncludedIndex args \<and>
    lastIncludedTerm rn' = is_LastIncludedTerm args \<and> lastSnapshotData rn' = is_Data args \<and>
    tl (rlog rn') =
      (if term_at rn (unat (is_LastIncludedIndex args)) = Some (is_LastIncludedTerm args)
       then drop (Suc (unat (is_LastIncludedIndex args) - log_base rn)) (rlog rn) else []) \<and>
    commitIndex rn' = max (commitIndex rn) (is_LastIncludedIndex args) \<and>
    lastApplied rn' = max (lastApplied rn) (is_LastIncludedIndex args) \<and>
    (cb \<noteq> None \<longleftrightarrow> cfg_OnRestoreSnapshot (cfg rn) \<and> is_Data args \<noteq> [])"
proof -
  let ?i = "is_LastIncludedIndex args" and ?t = "is_LastIncludedTerm args"
  let ?rn1 = "follow_leader now (is_Term args) (is_LeaderID args) rn"
  define newLog where "newLog = \<lparr>e_Index = ?i, e_Term = ?t, e_Data = None\<rparr> #
    (if term_at rn (unat ?i) = Some ?t then drop (Suc (unat ?i - log_base rn)) (rlog rn) else [])"
  have log: "snapshot_newLog args ?rn1 = Some newLog"
    using snapshot_newLog_wf [of ?rn1 args] assms by (simp add: newLog_def)
  have wf: "log_wf (rn\<lparr>rlog := newLog, lastIncludedIndex := ?i, lastIncludedTerm := ?t\<rparr>)"
  proof (cases "term_at rn (unat ?i) = Some ?t")
    case True
    then have "log_base rn \<le> unat ?i" "unat ?i \<le> log_end rn"
      by (auto simp: term_at_def split: if_splits)
    with anchored_wf [OF assms(1) this, of ?t] True show ?thesis
      by (simp add: anchored_def newLog_def)
  next
    case False
    with assms(4) show ?thesis by (simp add: newLog_def log_wf_def log_base_def)
  qed
  then have "log_wf (?rn1\<lparr>rlog := newLog, lastIncludedIndex := ?i, lastIncludedTerm := ?t\<rparr>)"
    by (simp add: log_wf_def log_base_def)
  moreover have "\<not> is_Term args < currentTerm rn" "\<not> ?i \<le> lastIncludedIndex rn"
    using assms(2,3) by auto
  ultimately show ?thesis
    using assms(2) log by (simp add: HandleInstallSnapshot_eq Let_def) (simp add: newLog_def)
qed

definition example_snapshot :: InstallSnapshotArgs where
  "example_snapshot = \<lparr>is_Term = 2, is_LeaderID = ''2'', is_LastIncludedIndex = 5,
     is_LastIncludedTerm = 1, is_Data = [4]\<rparr>"

theorem install_snapshot_installs_witness:
  "\<exists>rn' reply cb. HandleInstallSnapshot 8 example_snapshot example_node = Some (rn', reply, cb) \<and>
     log_wf rn' \<and> lastIncludedIndex rn' = 5 \<and> commitIndex rn' = 5 \<and> tl (rlog rn') = [] \<and> cb \<noteq> None"
  using install_snapshot_installs [OF example_node_wf, of example_snapshot 8]
  by (auto simp: example_snapshot_def example_node_eq example_config_def term_at_def log_end_def
      log_base_def)

section \<open>Properties of the applier\<close>

text \<open>
  The entries a pass applies: those stored above \<open>lastApplied\<close> up to the commit index, without
  the placeholders.
\<close>

definition unapplied :: "RaftNode \<Rightarrow> LogEntry list" where
  "unapplied rn =
    (if cfg_OnCommit (cfg rn)
     then filter (\<lambda>e. e_Data e \<noteq> None)
       (take (unat (commitIndex rn) - unat (lastApplied rn))
         (drop (Suc (unat (lastApplied rn) - log_base rn)) (rlog rn)))
     else [])"

declare apply_pass.simps [simp del]

lemma unapplied_step:
  assumes "lastIncludedIndex rn \<le> lastApplied rn" and "lastApplied rn < commitIndex rn"
  shows "unapplied rn =
    (let d = Suc (unat (lastApplied rn) - log_base rn);
         rest = unapplied (rn\<lparr>lastApplied := lastApplied rn + 1\<rparr>)
     in if d < length (rlog rn) \<and> cfg_OnCommit (cfg rn) \<and> e_Data (rlog rn ! d) \<noteq> None
        then rlog rn ! d # rest else rest)"
proof -
  define d where "d = Suc (unat (lastApplied rn) - log_base rn)"
  have next_applied: "unat (lastApplied rn + 1) = Suc (unat (lastApplied rn))"
    using assms(2) by (rule unat_Suc_less)
  have base: "log_base rn \<le> unat (lastApplied rn)"
    using assms(1) by (simp add: log_base_def word_le_nat_alt)
  obtain m where m: "unat (commitIndex rn) - unat (lastApplied rn) = Suc m"
    using assms(2) by (cases "unat (commitIndex rn) - unat (lastApplied rn)") (auto simp: word_less_nat_alt)
  have m': "unat (commitIndex rn) - Suc (unat (lastApplied rn)) = m" using m by simp
  have "Suc (Suc (unat (lastApplied rn)) - log_base rn) = Suc d"
    using base by (simp add: d_def Suc_diff_le)
  then have rest: "unapplied (rn\<lparr>lastApplied := lastApplied rn + 1\<rparr>) =
      (if cfg_OnCommit (cfg rn) then filter (\<lambda>e. e_Data e \<noteq> None) (take m (drop (Suc d) (rlog rn))) else [])"
    by (simp add: unapplied_def next_applied m')
  show ?thesis
    unfolding Let_def d_def [symmetric] rest
    by (cases "d < length (rlog rn)")
      (auto simp: unapplied_def m d_def [symmetric] Cons_nth_drop_Suc [symmetric])
qed

lemma apply_pass_unapplied:
  assumes "lastIncludedIndex rn \<le> lastApplied rn" and "unat (commitIndex rn) < 2 ^ 63"
  shows "apply_pass rn = Some (rn\<lparr>lastApplied := max (lastApplied rn) (commitIndex rn)\<rparr>, unapplied rn)"
  using assms
proof (induction "unat (commitIndex rn) - unat (lastApplied rn)" arbitrary: rn rule: less_induct)
  case (less rn)
  let ?rn' = "rn\<lparr>lastApplied := lastApplied rn + 1\<rparr>"
  show ?case
  proof (cases "lastApplied rn < commitIndex rn")
    case False
    then have "max (lastApplied rn) (commitIndex rn) = lastApplied rn" by simp
    moreover have "unapplied rn = []"
      using False by (simp add: unapplied_def word_less_nat_alt)
    ultimately show ?thesis
      using False by (simp add: apply_pass.simps [of rn])
  next
    case True
    have next_applied: "unat (lastApplied rn + 1) = Suc (unat (lastApplied rn))"
      using True by (rule unat_Suc_less)
    have above: "lastIncludedIndex rn < lastApplied rn + 1"
      using less.prems(1) next_applied by (simp add: word_le_nat_alt word_less_nat_alt)
    have "unat (lastApplied rn + 1) < 2 ^ 63"
      using True less.prems(2) next_applied by (simp add: word_less_nat_alt)
    with above obtain d0 where d0: "sint (lastApplied rn + 1 - lastIncludedIndex rn) = int d0"
      "unat (lastApplied rn + 1) = log_base rn + d0" by (rule slice_index)
    define d where "d = Suc (unat (lastApplied rn) - log_base rn)"
    have d: "d0 = d"
      using d0(2) next_applied less.prems(1) by (simp add: d_def log_base_def word_le_nat_alt)
    have raised: "max (lastApplied rn + 1) (commitIndex rn) = max (lastApplied rn) (commitIndex rn)"
      using True next_applied by (simp add: max_def word_le_nat_alt word_less_nat_alt)
    have IH: "apply_pass ?rn' = Some (rn\<lparr>lastApplied := max (lastApplied rn) (commitIndex rn)\<rparr>, unapplied ?rn')"
    proof -
      have "apply_pass ?rn' = Some (?rn'\<lparr>lastApplied := max (lastApplied ?rn') (commitIndex ?rn')\<rparr>, unapplied ?rn')"
        by (rule less.hyps)
          (use True above less.prems next_applied in \<open>auto simp: word_less_nat_alt word_le_nat_alt\<close>)
      then show ?thesis by (simp add: raised)
    qed
    have not_le: "\<not> lastApplied rn + 1 \<le> lastIncludedIndex rn" using above by simp
    show ?thesis
      unfolding unapplied_step [OF less.prems(1) True] Let_def d_def [symmetric]
      using True not_le by (subst apply_pass.simps) (simp add: d0(1) d IH Let_def log_at_nat)
  qed
qed

lemma contiguous_filter_range:
  assumes "contiguous b l" and "b \<le> Suc lo"
  shows "filter (\<lambda>e. lo < unat (e_Index e) \<and> unat (e_Index e) \<le> hi) l = take (hi - lo) (drop (Suc lo - b) l)"
  using assms
proof (induction l arbitrary: b lo)
  case (Cons e l)
  then have e: "unat (e_Index e) = b" and l: "contiguous (Suc b) l" by simp_all
  show ?case
  proof (cases "b = Suc lo")
    case False
    then have "drop (Suc lo - b) (e # l) = drop (Suc lo - Suc b) l"
      using Cons.prems(2) by (simp add: Suc_diff_le)
    then show ?thesis
      using False Cons.prems(2) e Cons.IH [OF l, of lo] by simp
  next
    case True
    have "lo < unat (e_Index x) \<longleftrightarrow> b < unat (e_Index x)" if "x \<in> set l" for x
      using l that True by (auto simp: contiguous_def in_set_conv_nth)
    then have "filter (\<lambda>e. lo < unat (e_Index e) \<and> unat (e_Index e) \<le> hi) l =
        filter (\<lambda>e. b < unat (e_Index e) \<and> unat (e_Index e) \<le> hi) l"
      by (intro filter_cong) auto
    also have "\<dots> = take (hi - b) l"
      using Cons.IH [OF l, of b] by simp
    finally show ?thesis
      using True e by (cases "hi - lo") (auto simp: diff_Suc)
  qed
qed simp

lemma unapplied_range:
  assumes "log_wf rn" and "lastIncludedIndex rn \<le> lastApplied rn"
  shows "unapplied rn = (if cfg_OnCommit (cfg rn)
    then filter (\<lambda>e. lastApplied rn < e_Index e \<and> e_Index e \<le> commitIndex rn \<and> e_Data e \<noteq> None) (rlog rn)
    else [])"
proof -
  have base: "log_base rn \<le> unat (lastApplied rn)" and cont: "contiguous (log_base rn) (rlog rn)"
    using assms by (simp_all add: log_base_def log_wf_def word_le_nat_alt)
  have "filter (\<lambda>e. lastApplied rn < e_Index e \<and> e_Index e \<le> commitIndex rn \<and> e_Data e \<noteq> None) (rlog rn) =
      filter (\<lambda>e. e_Data e \<noteq> None) (filter (\<lambda>e. unat (lastApplied rn) < unat (e_Index e) \<and>
        unat (e_Index e) \<le> unat (commitIndex rn)) (rlog rn))"
    by (simp add: word_le_nat_alt word_less_nat_alt conj_commute conj_left_commute)
  then show ?thesis
    using contiguous_filter_range [OF cont, of "unat (lastApplied rn)"] base
    by (simp add: unapplied_def Suc_diff_le)
qed

lemma apply_pass_applies:
  assumes "log_wf rn" and "lastIncludedIndex rn \<le> lastApplied rn"
    and "lastApplied rn \<le> commitIndex rn" and "unat (commitIndex rn) < 2 ^ 63"
    and "cfg_OnCommit (cfg rn)"
  shows "apply_pass rn = Some (rn\<lparr>lastApplied := commitIndex rn\<rparr>,
      filter (\<lambda>e. lastApplied rn < e_Index e \<and> e_Index e \<le> commitIndex rn \<and> e_Data e \<noteq> None) (rlog rn))"
proof -
  have "max (lastApplied rn) (commitIndex rn) = commitIndex rn"
    using assms(3) by (simp add: max_def)
  then show ?thesis
    using apply_pass_unapplied [OF assms(2,4)] unapplied_range [OF assms(1,2)] assms(5) by simp
qed

text \<open>C28. One pass of the applier hands to \<open>OnCommit\<close> exactly the stored entries above
  \<open>lastApplied\<close> up to the commit index that carry data, each once and in log order, moves
  \<open>lastApplied\<close> to the commit index and changes nothing else; a second pass applies nothing.\<close>

theorem apply_pass_exact:
  assumes "log_wf rn" and "lastIncludedIndex rn \<le> lastApplied rn"
    and "lastApplied rn \<le> commitIndex rn" and "unat (commitIndex rn) < 2 ^ 63"
    and "cfg_OnCommit (cfg rn)"
  shows "apply_pass rn = Some (rn\<lparr>lastApplied := commitIndex rn\<rparr>,
      filter (\<lambda>e. lastApplied rn < e_Index e \<and> e_Index e \<le> commitIndex rn \<and> e_Data e \<noteq> None) (rlog rn)) \<and>
    apply_pass (rn\<lparr>lastApplied := commitIndex rn\<rparr>) = Some (rn\<lparr>lastApplied := commitIndex rn\<rparr>, [])"
  using apply_pass_applies [OF assms] by (simp add: apply_pass.simps)

definition example_committed :: RaftNode where
  "example_committed = example_node\<lparr>rlog := rlog example_node @
     [\<lparr>e_Index = 1, e_Term = 1, e_Data = Some [7]\<rparr>, \<lparr>e_Index = 2, e_Term = 1, e_Data = None\<rparr>],
     commitIndex := 2\<rparr>"

lemma example_committed_wf: "log_wf example_committed"
  by (simp add: example_committed_def example_node_eq log_wf_def log_base_def)

theorem apply_pass_exact_witness:
  "apply_pass example_committed = Some (example_committed\<lparr>lastApplied := 2\<rparr>,
     [\<lparr>e_Index = 1, e_Term = 1, e_Data = Some [7]\<rparr>])"
  using apply_pass_exact [OF example_committed_wf]
  by (simp add: example_committed_def example_node_eq example_config_def)

end
