(* ===== verification/RaftLeader.thy ===== *)
theory RaftLeader
  imports RaftHandlers
begin

text \<open>
  The active side of \<open>raft/consensus.go\<close>: the election timer and pre-vote, elections, the
  leader's broadcast, the goroutines that handle replies, the commit rule and proposals. An
  RPC goroutine is its target and its request; the values its closure captured (the term, the
  snapshot index) are fields of the request. Sending is returning the list of goroutines
  started.
\<close>

datatype rpc =
    SendRequestVote string RequestVoteArgs
  | SendAppendEntries string AppendEntriesArgs
  | SendInstallSnapshot string InstallSnapshotArgs

section \<open>Broadcasting the log\<close>

definition broadcast_to :: "RaftNode \<Rightarrow> string \<Rightarrow> rpc option" where
  "broadcast_to rn peer =
    (let nextIdx = map_get (nextIndex rn) peer;
         nextIdx = (if nextIdx = 0 then 1 else nextIdx)
     in if nextIdx \<le> lastIncludedIndex rn
        then Some (SendInstallSnapshot peer
          \<lparr>is_Term = currentTerm rn, is_LeaderID = node_id rn,
           is_LastIncludedIndex = lastIncludedIndex rn, is_LastIncludedTerm = lastIncludedTerm rn,
           is_Data = lastSnapshotData rn\<rparr>)
        else do {
          let prevLogIndex = nextIdx - 1;
          prevLogTerm \<leftarrow> getLogTerm rn prevLogIndex;
          entries \<leftarrow> getLogSlice rn nextIdx;
          Some (SendAppendEntries peer
            \<lparr>ae_Term = currentTerm rn, ae_LeaderID = node_id rn, ae_PrevLogIndex = prevLogIndex,
             ae_PrevLogTerm = prevLogTerm, ae_Entries = entries, ae_LeaderCommit = commitIndex rn\<rparr>)
        })"

fun broadcast_peers :: "RaftNode \<Rightarrow> string list \<Rightarrow> rpc list option" where
  "broadcast_peers rn [] = Some []"
| "broadcast_peers rn (peer # ps) = do {
     m \<leftarrow> broadcast_to rn peer;
     ms \<leftarrow> broadcast_peers rn ps;
     Some (m # ms)
   }"

definition broadcastAppendEntries :: "RaftNode \<Rightarrow> rpc list option" where
  "broadcastAppendEntries rn = broadcast_peers rn (peers rn)"

text \<open>A tick of \<open>runLeaderHeartbeat\<close>: \<open>None\<close> in the inner option is the loop's return.\<close>

definition heartbeat_tick :: "RaftNode \<Rightarrow> rpc list option option" where
  "heartbeat_tick rn =
    (if role rn \<noteq> Leader \<or> isStopped rn then Some None
     else map_option Some (broadcastAppendEntries rn))"

section \<open>The commit rule\<close>

definition match_count :: "RaftNode \<Rightarrow> u64 \<Rightarrow> nat" where
  "match_count rn n = 1 + length (filter (\<lambda>peer. map_get (matchIndex rn) peer \<ge> n) (peers rn))"

function commit_scan :: "RaftNode \<Rightarrow> u64 \<Rightarrow> u64 option option" where
  "commit_scan rn n =
    (if n > commitIndex rn then do {
       t \<leftarrow> getLogTerm rn n;
       if t \<noteq> currentTerm rn then commit_scan rn (n - 1)
       else if match_count rn n \<ge> quorum_size rn then Some (Some n)
       else commit_scan rn (n - 1)
     } else Some None)"
  by pat_completeness auto
termination
  by (relation "measure (\<lambda>(rn, n). unat n)") (auto intro: unat_pred_less)

definition checkAndUpdateCommitIndex :: "RaftNode \<Rightarrow> (RaftNode \<times> rpc list) option" where
  "checkAndUpdateCommitIndex rn = do {
     lastIdx \<leftarrow> lastLogIndex rn;
     found \<leftarrow> commit_scan rn lastIdx;
     (case found of
        None \<Rightarrow> Some (rn, [])
      | Some n \<Rightarrow> do {
          let rn = notify_commit (rn\<lparr>commitIndex := n\<rparr>);
          out \<leftarrow> broadcastAppendEntries rn;
          Some (rn, out)
        })
   }"

section \<open>Replies to the leader\<close>

definition handle_append_reply ::
  "int \<Rightarrow> string \<Rightarrow> AppendEntriesArgs \<Rightarrow> AppendEntriesReply \<Rightarrow> RaftNode \<Rightarrow> (RaftNode \<times> rpc list) option"
where
  "handle_append_reply now target args reply rn =
    (if aer_Term reply > currentTerm rn then Some (stepDown now (aer_Term reply) rn, [])
     else if role rn \<noteq> Leader \<or> currentTerm rn \<noteq> ae_Term args then Some (rn, [])
     else if aer_Success reply then
       checkAndUpdateCommitIndex
         (rn\<lparr>nextIndex := (nextIndex rn)(target \<mapsto> aer_MatchIndex reply + 1),
             matchIndex := (matchIndex rn)(target \<mapsto> aer_MatchIndex reply)\<rparr>)
     else if map_get (nextIndex rn) target > lastIncludedIndex rn + 1 then
       Some (rn\<lparr>nextIndex := (nextIndex rn)(target \<mapsto> map_get (nextIndex rn) target - 1)\<rparr>, [])
     else Some (rn\<lparr>nextIndex := (nextIndex rn)(target \<mapsto> lastIncludedIndex rn)\<rparr>, []))"

definition handle_snapshot_reply ::
  "int \<Rightarrow> string \<Rightarrow> InstallSnapshotArgs \<Rightarrow> InstallSnapshotReply \<Rightarrow> RaftNode \<Rightarrow> RaftNode"
where
  "handle_snapshot_reply now target args reply rn =
    (if isr_Term reply > currentTerm rn then stepDown now (isr_Term reply) rn
     else if role rn \<noteq> Leader \<or> currentTerm rn \<noteq> is_Term args then rn
     else if is_LastIncludedIndex args \<ge> map_get (nextIndex rn) target then
       rn\<lparr>nextIndex := (nextIndex rn)(target \<mapsto> is_LastIncludedIndex args + 1),
          matchIndex := (matchIndex rn)(target \<mapsto> is_LastIncludedIndex args)\<rparr>
     else rn)"

section \<open>Elections\<close>

definition becomeLeader :: "RaftNode \<Rightarrow> (RaftNode \<times> rpc list) option" where
  "becomeLeader rn = do {
     let rn = rn\<lparr>role := Leader, leaderID := node_id rn\<rparr>;
     lastIndex \<leftarrow> lastLogIndex rn;
     let rn = fold (\<lambda>peer rn. rn\<lparr>nextIndex := (nextIndex rn)(peer \<mapsto> lastIndex + 1),
                                  matchIndex := (matchIndex rn)(peer \<mapsto> 0)\<rparr>) (peers rn) rn;
     out \<leftarrow> broadcastAppendEntries rn;
     Some (rn, out)
   }"

definition startElection :: "int \<Rightarrow> RaftNode \<Rightarrow> (RaftNode \<times> rpc list) option" where
  "startElection now rn = do {
     let rn = rn\<lparr>role := Candidate, currentTerm := currentTerm rn + 1, votedFor := node_id rn,
                 leaderID := '''', electionResetEvent := now\<rparr>;
     lastIdx \<leftarrow> lastLogIndex rn;
     lastTerm \<leftarrow> lastLogTerm rn;
     if 1 \<ge> quorum_size rn then becomeLeader rn
     else Some (rn, map (\<lambda>peer. SendRequestVote peer
       \<lparr>rv_Term = currentTerm rn, rv_CandidateID = node_id rn, rv_LastLogIndex = lastIdx,
        rv_LastLogTerm = lastTerm, rv_IsPreVote = False\<rparr>) (peers rn))
   }"

text \<open>
  The goroutine of a ballot: \<open>term\<close> and \<open>quorum\<close> were captured when the election started,
  \<open>votes\<close> is the shared counter \<open>votesReceived\<close>, returned updated.
\<close>

definition handle_vote_reply ::
  "int \<Rightarrow> u64 \<Rightarrow> nat \<Rightarrow> nat \<Rightarrow> RequestVoteReply \<Rightarrow> RaftNode \<Rightarrow> (RaftNode \<times> nat \<times> rpc list) option"
where
  "handle_vote_reply now term quorum votes reply rn =
    (if rvr_Term reply > currentTerm rn then Some (stepDown now (rvr_Term reply) rn, votes, [])
     else if role rn = Candidate \<and> currentTerm rn = term \<and> rvr_VoteGranted reply then
       (let currentVotes = Suc votes in
        if currentVotes \<ge> quorum \<and> role rn = Candidate
        then map_option (\<lambda>(rn, out). (rn, currentVotes, out)) (becomeLeader rn)
        else Some (rn, currentVotes, []))
     else Some (rn, votes, []))"

section \<open>Pre-vote and the election timer\<close>

text \<open>
  The pre-vote in its three locked parts: the ballots to send (or the immediate yes of a
  cluster of one), a reply, and the verdict once the wait is over.
\<close>

definition prevote_ballots :: "RaftNode \<Rightarrow> (bool + rpc list) option" where
  "prevote_ballots rn = do {
     let prospectiveTerm = currentTerm rn + 1;
     lastIdx \<leftarrow> lastLogIndex rn;
     lastTerm \<leftarrow> lastLogTerm rn;
     if 1 \<ge> quorum_size rn then Some (Inl True)
     else Some (Inr (map (\<lambda>peer. SendRequestVote peer
       \<lparr>rv_Term = prospectiveTerm, rv_CandidateID = node_id rn, rv_LastLogIndex = lastIdx,
        rv_LastLogTerm = lastTerm, rv_IsPreVote = True\<rparr>) (peers rn)))
   }"

definition handle_prevote_reply ::
  "int \<Rightarrow> RequestVoteReply \<Rightarrow> nat \<Rightarrow> RaftNode \<Rightarrow> RaftNode \<times> nat" where
  "handle_prevote_reply now reply preVotesReceived rn =
    ((if rvr_Term reply > currentTerm rn then stepDown now (rvr_Term reply) rn else rn),
     (if rvr_VoteGranted reply then Suc preVotesReceived else preVotesReceived))"

definition prevote_verdict :: "nat \<Rightarrow> nat \<Rightarrow> RaftNode \<Rightarrow> bool" where
  "prevote_verdict quorum preVotesReceived rn =
    (if isStopped rn \<or> role rn = Leader then False else preVotesReceived \<ge> quorum)"

datatype timer_action = TimerReturn | TimerContinue | TimerPreVote

definition election_timer :: "int \<Rightarrow> int \<Rightarrow> RaftNode \<Rightarrow> timer_action" where
  "election_timer now timeout rn =
    (if isStopped rn then TimerReturn
     else if role rn = Leader then TimerContinue
     else if now - electionResetEvent rn \<ge> timeout then TimerPreVote
     else TimerContinue)"

text \<open>\<open>rng.Intn(k)\<close> is a parameter: it panics for \<open>k \<le> 0\<close>, and yields \<open>0 ..< k\<close> otherwise.\<close>

definition randomizedTimeout :: "(int \<Rightarrow> int) \<Rightarrow> RaftNode \<Rightarrow> int option" where
  "randomizedTimeout Intn rn =
    (let spread = cfg_ElectionMaxMs (cfg rn) - cfg_ElectionMinMs (cfg rn) in
     if spread + 1 \<le> 0 then None
     else Some ((cfg_ElectionMinMs (cfg rn) + Intn (spread + 1)) * Millisecond))"

section \<open>Proposals\<close>

text \<open>
  \<open>Propose\<close> up to the unlock (the entry's index and the captured term), and one round of its
  waiting loop; \<open>None\<close> as a verdict means it waits on.
\<close>

definition propose_start ::
  "byte list option \<Rightarrow> RaftNode \<Rightarrow> (raft_error + (RaftNode \<times> u64 \<times> u64 \<times> rpc list)) option" where
  "propose_start payload rn =
    (if role rn \<noteq> Leader then Some (Inl ErrNotLeader)
     else do {
       lastIdx \<leftarrow> lastLogIndex rn;
       let entryIndex = lastIdx + 1;
       let entry = \<lparr>e_Index = entryIndex, e_Term = currentTerm rn, e_Data = payload\<rparr>;
       let rn = rn\<lparr>rlog := rlog rn @ [entry]\<rparr>;
       out \<leftarrow> broadcastAppendEntries rn;
       Some (Inr (rn, entryIndex, currentTerm rn, out))
     })"

datatype wait_event = StopClosed | Timeout | Poll

fun propose_wait :: "u64 \<Rightarrow> u64 \<Rightarrow> wait_event \<Rightarrow> RaftNode \<Rightarrow> (raft_error + u64) option" where
  "propose_wait entryIndex term StopClosed rn = Some (Inl ErrNodeStopped)"
| "propose_wait entryIndex term Timeout rn = Some (Inl ErrProposalTimeout)"
| "propose_wait entryIndex term Poll rn =
    (let isLeader = (role rn = Leader \<and> currentTerm rn = term);
         committed = (commitIndex rn \<ge> entryIndex)
     in if \<not> isLeader then Some (Inl ErrProposalFailed)
        else if committed then Some (Inr entryIndex)
        else None)"

section \<open>What a leader broadcasts\<close>

text \<open>
  The progress map stays within the log: no \<open>nextIndex\<close> is past the entry after the last.
\<close>

definition next_wf :: "RaftNode \<Rightarrow> bool" where
  "next_wf rn \<longleftrightarrow> (\<forall>p \<in> set (peers rn). unat (map_get (nextIndex rn) p) \<le> log_end rn + 1)"

text \<open>What a request of the broadcast says, for the state it was sent from.\<close>

fun sent_ok :: "RaftNode \<Rightarrow> string \<Rightarrow> rpc \<Rightarrow> bool" where
  "sent_ok rn peer (SendRequestVote p a) = False"
| "sent_ok rn peer (SendAppendEntries p a) =
    (p = peer \<and> ae_wf a \<and> ae_Term a = currentTerm rn \<and> ae_LeaderID a = node_id rn \<and>
     log_base rn \<le> unat (ae_PrevLogIndex a) \<and>
     max 1 (unat (map_get (nextIndex rn) peer)) = Suc (unat (ae_PrevLogIndex a)) \<and>
     term_at rn (unat (ae_PrevLogIndex a)) = Some (ae_PrevLogTerm a) \<and>
     ae_Entries a = drop (Suc (unat (ae_PrevLogIndex a) - log_base rn)) (rlog rn) \<and>
     ae_end a = log_end rn \<and> ae_LeaderCommit a = commitIndex rn)"
| "sent_ok rn peer (SendInstallSnapshot p a) =
    (p = peer \<and> is_Term a = currentTerm rn \<and> is_LeaderID a = node_id rn \<and>
     is_LastIncludedIndex a = lastIncludedIndex rn \<and> is_LastIncludedTerm a = lastIncludedTerm rn \<and>
     is_Data a = lastSnapshotData rn \<and> 0 < lastIncludedIndex rn \<and>
     map_get (nextIndex rn) peer \<le> lastIncludedIndex rn)"

lemma broadcast_to_ok:
  assumes "log_wf rn" and "unat (map_get (nextIndex rn) peer) \<le> log_end rn + 1"
  shows "\<exists>m. broadcast_to rn peer = Some m \<and> sent_ok rn peer m"
proof -
  define nextIdx where "nextIdx = (if map_get (nextIndex rn) peer = 0 then 1 else map_get (nextIndex rn) peer)"
  have nz: "nextIdx \<noteq> 0" by (simp add: nextIdx_def)
  have small: "unat nextIdx \<le> log_end rn + 1" using assms(2) by (simp add: nextIdx_def)
  show ?thesis
  proof (cases "nextIdx \<le> lastIncludedIndex rn")
    case True
    then have "0 < lastIncludedIndex rn"
      using nz by (metis le_less_trans neq_iff word_gt_0)
    with True show ?thesis by (auto simp: broadcast_to_def nextIdx_def Let_def split: if_splits)
  next
    case False
    define prev where "prev = nextIdx - 1"
    have prev: "unat nextIdx = Suc (unat prev)"
      using nz by (simp add: prev_def unat_minus_one unat_gt_0)
    have max_next: "max 1 (unat (map_get (nextIndex rn) peer)) = Suc (unat prev)"
      using prev by (simp add: nextIdx_def max_def Suc_le_eq unat_gt_0 split: if_splits)
    have base: "log_base rn \<le> unat prev"
      using False prev by (simp add: log_base_def word_le_nat_alt)
    have "unat prev \<le> log_end rn" using prev small by simp
    then obtain t where t: "term_at rn (unat prev) = Some t"
      using base by (simp add: term_at_def)
    have bound: "unat prev < 2 ^ 63" "unat nextIdx < 2 ^ 63"
      using log_end_less [OF assms(1)] small prev by auto
    have wf: "rlog rn \<noteq> []" "contiguous (log_base rn) (rlog rn)"
      using assms(1) by (auto simp: log_wf_def)
    have slice: "getLogSlice rn nextIdx = Some (drop (Suc (unat prev) - log_base rn) (rlog rn))"
      using base prev by (simp add: getLogSlice_wf [OF assms(1) bound(2)])
    have cont: "contiguous (Suc (unat prev)) (drop (Suc (unat prev) - log_base rn) (rlog rn))"
      using contiguous_drop [OF wf(2), of "Suc (unat prev) - log_base rn"] base by simp
    have len: "unat prev + (length (rlog rn) - (Suc (unat prev) - log_base rn)) = log_end rn"
      using base \<open>unat prev \<le> log_end rn\<close> wf(1) by (cases "rlog rn") (auto simp: log_end_def)
    show ?thesis
      using False t slice base bound(1) cont len max_next log_end_less [OF assms(1)]
      by (simp add: broadcast_to_def nextIdx_def [symmetric] Let_def prev_def [symmetric]
          getLogTerm_wf [OF assms(1)] ae_wf_def ae_end_def Suc_diff_le)
  qed
qed

lemma broadcast_peers_ok:
  assumes "log_wf rn" and "\<forall>p \<in> set ps. unat (map_get (nextIndex rn) p) \<le> log_end rn + 1"
  shows "\<exists>ms. broadcast_peers rn ps = Some ms \<and> list_all2 (sent_ok rn) ps ms"
  using assms(2)
proof (induction ps)
  case (Cons p ps)
  then obtain ms where "broadcast_peers rn ps = Some ms" "list_all2 (sent_ok rn) ps ms" by auto
  moreover obtain m where "broadcast_to rn p = Some m" "sent_ok rn p m"
    using broadcast_to_ok [OF assms(1), of p] Cons.prems by auto
  ultimately show ?case by simp
qed simp

lemma broadcast_ok:
  assumes "log_wf rn" and "next_wf rn"
  obtains ms where "broadcastAppendEntries rn = Some ms" and "list_all2 (sent_ok rn) (peers rn) ms"
  using broadcast_peers_ok [OF assms(1), of "peers rn"] assms(2)
  by (auto simp: broadcastAppendEntries_def next_wf_def)

section \<open>The leader invariant\<close>

text \<open>
  What the leader's operations rely on and keep: a well-formed log, progress within it, and
  a commit index between the snapshot and the end of the log.
\<close>

definition leader_wf :: "RaftNode \<Rightarrow> bool" where
  "leader_wf rn \<longleftrightarrow> log_wf rn \<and> next_wf rn \<and>
     log_base rn \<le> unat (commitIndex rn) \<and> unat (commitIndex rn) \<le> log_end rn"

lemma next_wf_frame [simp]:
  "next_wf (rn\<lparr>role := x0\<rparr>) = next_wf rn" "next_wf (rn\<lparr>leaderID := x1\<rparr>) = next_wf rn"
  "next_wf (rn\<lparr>commitIndex := x2\<rparr>) = next_wf rn" "next_wf (notify_commit rn) = next_wf rn"
  "next_wf (rn\<lparr>matchIndex := x3\<rparr>) = next_wf rn"
  by (simp_all add: next_wf_def)

lemma map_get_upd [simp]: "map_get (m(k \<mapsto> v)) k' = (if k' = k then v else map_get m k')"
  by (simp add: map_get_def)

lemma next_wf_update:
  "next_wf rn \<Longrightarrow> unat v \<le> log_end rn + 1 \<Longrightarrow> next_wf (rn\<lparr>nextIndex := (nextIndex rn)(p \<mapsto> v)\<rparr>)"
  by (simp add: next_wf_def)

lemma next_wf_step: "next_wf (stepDown now t rn) = next_wf rn"
  by (simp add: next_wf_def stepDown_def)

subsection \<open>The commit rule\<close>

text \<open>Position \<open>n\<close> may be committed: an entry of the current term that a majority stores.\<close>

definition committable :: "RaftNode \<Rightarrow> nat \<Rightarrow> bool" where
  "committable rn n \<longleftrightarrow> term_at rn n = Some (currentTerm rn) \<and>
     quorum_size rn \<le> match_count rn (word_of_nat n)"

declare commit_scan.simps [simp del]

text \<open>The outcome of a scan down from \<open>hi\<close>: the greatest position to commit, if there is one.\<close>

definition greatest_committable :: "RaftNode \<Rightarrow> nat \<Rightarrow> u64 option \<Rightarrow> bool" where
  "greatest_committable rn hi r = (case r of
     None \<Rightarrow> \<forall>k. unat (commitIndex rn) < k \<and> k \<le> hi \<longrightarrow> \<not> committable rn k
   | Some m \<Rightarrow> unat (commitIndex rn) < unat m \<and> unat m \<le> hi \<and> committable rn (unat m) \<and>
       (\<forall>k. unat m < k \<and> k \<le> hi \<longrightarrow> \<not> committable rn k))"

lemma greatest_committable_below:
  assumes "greatest_committable rn hi r" and "\<not> committable rn (Suc hi)"
  shows "greatest_committable rn (Suc hi) r"
  using assms by (auto simp: greatest_committable_def le_Suc_eq split: option.splits)

lemma commit_scan_finds:
  assumes "log_wf rn" and "log_base rn \<le> unat (commitIndex rn)" and "unat n \<le> log_end rn"
  shows "\<exists>r. commit_scan rn n = Some r \<and> greatest_committable rn (unat n) r"
  using assms
proof (induction rn n rule: commit_scan.induct [case_names step])
  case (step rn n)
  show ?case
  proof (cases "commitIndex rn < n")
    case False
    then show ?thesis
      by (auto simp: commit_scan.simps [of rn n] greatest_committable_def word_less_nat_alt)
  next
    case True
    have above: "unat (commitIndex rn) < unat n" using True by (simp add: word_less_nat_alt)
    have small: "unat n < 2 ^ 63" using step.prems log_end_less [of rn] by simp
    have "log_base rn \<le> unat n" using step.prems above by linarith
    then obtain t where t: "term_at rn (unat n) = Some t"
      using step.prems(3) by (simp add: term_at_def)
    with getLogTerm_wf [OF step.prems(1) small] have get: "getLogTerm rn n = Some t" by simp
    have pred: "unat n = Suc (unat (n - 1))"
      using above by (subst unat_minus_one) (auto simp: unat_gt_0)
    have IH: "\<exists>r. commit_scan rn (n - 1) = Some r \<and> greatest_committable rn (unat (n - 1)) r"
      if "\<not> committable rn (unat n)"
      using step.IH [OF True get] step.prems that t pred
      by (cases "t = currentTerm rn") (auto simp: committable_def not_le)
    show ?thesis
    proof (cases "committable rn (unat n)")
      case yes: True
      with t get True have "commit_scan rn n = Some (Some n)"
        by (simp add: commit_scan.simps [of rn n] committable_def)
      with above yes show ?thesis by (auto simp: greatest_committable_def)
    next
      case no: False
      then have "commit_scan rn n = commit_scan rn (n - 1)"
        using get t True by (auto simp: commit_scan.simps [of rn n] committable_def)
      with IH [OF no] no show ?thesis
        unfolding pred using greatest_committable_below by auto
    qed
  qed
qed

lemma checkAndUpdateCommitIndex_cases:
  assumes "leader_wf rn"
  obtains (none) "checkAndUpdateCommitIndex rn = Some (rn, [])"
      "\<forall>k. unat (commitIndex rn) < k \<and> k \<le> log_end rn \<longrightarrow> \<not> committable rn k"
    | (commit) n out where
      "checkAndUpdateCommitIndex rn = Some (notify_commit (rn\<lparr>commitIndex := n\<rparr>), out)"
      "list_all2 (sent_ok (notify_commit (rn\<lparr>commitIndex := n\<rparr>))) (peers rn) out"
      "unat (commitIndex rn) < unat n" "unat n \<le> log_end rn" "committable rn (unat n)"
      "\<forall>k. unat n < k \<and> k \<le> log_end rn \<longrightarrow> \<not> committable rn k"
proof -
  have wf: "log_wf rn" "next_wf rn" "log_base rn \<le> unat (commitIndex rn)"
    using assms by (simp_all add: leader_wf_def)
  obtain last where last: "lastLogIndex rn = Some last" "unat last = log_end rn"
    using lastLogIndex_wf [OF wf(1)] by blast
  obtain r where r: "commit_scan rn last = Some r" "greatest_committable rn (log_end rn) r"
    using commit_scan_finds [OF wf(1,3), of last] last(2) by auto
  show thesis
  proof (cases r)
    case None
    with r last show thesis
      by (intro none) (simp_all add: checkAndUpdateCommitIndex_def greatest_committable_def)
  next
    case (Some n)
    define rn' where "rn' = notify_commit (rn\<lparr>commitIndex := n\<rparr>)"
    have "log_wf rn'" "next_wf rn'" "peers rn' = peers rn" using wf by (simp_all add: rn'_def)
    with broadcast_ok obtain out where "broadcastAppendEntries rn' = Some out"
      "list_all2 (sent_ok rn') (peers rn) out" by metis
    with r last Some show thesis
      by (intro commit [of n out]) (simp_all add: checkAndUpdateCommitIndex_def
          greatest_committable_def rn'_def [symmetric] Let_def)
  qed
qed

section \<open>Properties of the leader\<close>

text \<open>What a leader broadcasts: for every peer, in order, exactly one well-formed request.
  It is either an AppendEntries whose previous index and term are those of an entry the leader
  holds and whose entries are the whole rest of its log, or the leader's snapshot when the peer
  is behind it. Nothing panics.\<close>

theorem broadcast_sends:
  assumes "log_wf rn" and "next_wf rn"
  shows "\<exists>ms. broadcastAppendEntries rn = Some ms \<and> list_all2 (sent_ok rn) (peers rn) ms"
  by (rule broadcast_ok [OF assms]) blast

text \<open>A leader of term 2 with two entries of that term, one of them stored by a follower.\<close>

definition example_leader :: RaftNode where
  "example_leader = example_node\<lparr>currentTerm := 2, role := Leader, leaderID := ''1'', votedFor := ''1'',
     rlog := rlog example_node @
       [\<lparr>e_Index = 1, e_Term = 2, e_Data = Some [7]\<rparr>, \<lparr>e_Index = 2, e_Term = 2, e_Data = Some [8]\<rparr>],
     nextIndex := [''b'' \<mapsto> 2, ''c'' \<mapsto> 1], matchIndex := [''b'' \<mapsto> 1, ''c'' \<mapsto> 0]\<rparr>"

lemma example_leader_wf: "leader_wf example_leader"
  by (simp add: leader_wf_def example_leader_def example_node_eq log_wf_def next_wf_def log_base_def
      log_end_def map_get_def)

theorem broadcast_sends_witness:
  "\<exists>ms. broadcastAppendEntries example_leader = Some ms \<and>
     list_all2 (sent_ok example_leader) [''b'', ''c''] ms"
  using broadcast_sends [of example_leader] example_leader_wf
  by (simp add: leader_wf_def) (simp add: example_leader_def example_node_eq)

text \<open>C30. The commit rule: after a successful reply the leader moves its commit index to the
  greatest position above it that holds an entry of its current term and that a majority of the
  cluster stores, or leaves it where it is when there is none; it never moves back, stays
  within the log, and on a move the new index is broadcast to every peer.\<close>

theorem commit_rule:
  assumes "leader_wf rn"
  shows "\<exists>rn' out. checkAndUpdateCommitIndex rn = Some (rn', out) \<and> leader_wf rn' \<and>
    rlog rn' = rlog rn \<and> commitIndex rn \<le> commitIndex rn' \<and>
    (commitIndex rn' \<noteq> commitIndex rn \<longrightarrow> committable rn (unat (commitIndex rn')) \<and>
       list_all2 (sent_ok rn') (peers rn) out) \<and>
    (\<forall>k. unat (commitIndex rn') < k \<and> k \<le> log_end rn \<longrightarrow> \<not> committable rn k)"
  using assms
proof (cases rule: checkAndUpdateCommitIndex_cases)
  case none
  with assms show ?thesis by simp
next
  case (commit n out)
  then show ?thesis
    using assms by (auto simp: leader_wf_def word_le_nat_alt)
qed

theorem commit_rule_witness:
  "\<exists>rn' out. checkAndUpdateCommitIndex example_leader = Some (rn', out) \<and> leader_wf rn' \<and>
     commitIndex rn' \<noteq> 0 \<and> unat (commitIndex rn') < 2"
proof -
  from commit_rule [OF example_leader_wf] obtain rn' out where
    step: "checkAndUpdateCommitIndex example_leader = Some (rn', out)" and wf: "leader_wf rn'"
    and log: "rlog rn' = rlog example_leader"
    and ok: "commitIndex rn' \<noteq> commitIndex example_leader \<longrightarrow> committable example_leader (unat (commitIndex rn'))"
    and no: "\<forall>k. unat (commitIndex rn') < k \<and> k \<le> log_end example_leader \<longrightarrow> \<not> committable example_leader k"
    by blast
  have yes: "committable example_leader 1" and not2: "\<not> committable example_leader 2"
    and ends: "log_end example_leader = 2" "commitIndex example_leader = 0"
    by (simp_all add: committable_def example_leader_def example_node_eq term_at_def log_base_def
        log_end_def match_count_def quorum_size_def map_get_def word_le_nat_alt)
  have "commitIndex rn' \<noteq> 0" using no yes ends by fastforce
  moreover have "unat (commitIndex rn') \<le> 2"
  proof -
    have "unat (commitIndex rn') \<le> log_base rn' + 2" using wf log
      by (simp add: leader_wf_def log_end_def example_leader_def example_node_eq)
    then show ?thesis using ok ends \<open>commitIndex rn' \<noteq> 0\<close>
      by (simp add: committable_def term_at_def split: if_splits)
  qed
  moreover have "unat (commitIndex rn') \<noteq> 2" using ok not2 ends \<open>commitIndex rn' \<noteq> 0\<close> by auto
  ultimately show ?thesis using step wf by auto
qed

subsection \<open>Becoming leader, proposing, and handling replies\<close>

lemma fold_progress:
  "fold (\<lambda>peer rn. rn\<lparr>nextIndex := (nextIndex rn)(peer \<mapsto> a), matchIndex := (matchIndex rn)(peer \<mapsto> b)\<rparr>) ps rn =
    rn\<lparr>nextIndex := (\<lambda>p. if p \<in> set ps then Some a else nextIndex rn p),
       matchIndex := (\<lambda>p. if p \<in> set ps then Some b else matchIndex rn p)\<rparr>"
  by (induction ps arbitrary: rn) (auto simp: fun_eq_iff)

definition fresh_leader :: "RaftNode \<Rightarrow> u64 \<Rightarrow> RaftNode" where
  "fresh_leader rn lastIndex = rn\<lparr>role := Leader, leaderID := node_id rn,
     nextIndex := (\<lambda>p. if p \<in> set (peers rn) then Some (lastIndex + 1) else nextIndex rn p),
     matchIndex := (\<lambda>p. if p \<in> set (peers rn) then Some 0 else matchIndex rn p)\<rparr>"

lemma fresh_leader_frame [simp]:
  "log_wf (fresh_leader rn l) = log_wf rn" "log_base (fresh_leader rn l) = log_base rn"
  "log_end (fresh_leader rn l) = log_end rn" "term_at (fresh_leader rn l) = term_at rn"
  "rlog (fresh_leader rn l) = rlog rn" "commitIndex (fresh_leader rn l) = commitIndex rn"
  "lastIncludedIndex (fresh_leader rn l) = lastIncludedIndex rn"
  "currentTerm (fresh_leader rn l) = currentTerm rn" "votedFor (fresh_leader rn l) = votedFor rn"
  "role (fresh_leader rn l) = Leader" "leaderID (fresh_leader rn l) = node_id rn"
  "peers (fresh_leader rn l) = peers rn" "node_id (fresh_leader rn l) = node_id rn"
  "p \<in> set (peers rn) \<Longrightarrow> map_get (nextIndex (fresh_leader rn l)) p = l + 1"
  "p \<in> set (peers rn) \<Longrightarrow> map_get (matchIndex (fresh_leader rn l)) p = 0"
  by (simp_all add: fresh_leader_def map_get_def)

lemma becomeLeader_state:
  "fold (\<lambda>peer rn. rn\<lparr>nextIndex := (nextIndex rn)(peer \<mapsto> l + 1), matchIndex := (matchIndex rn)(peer \<mapsto> 0)\<rparr>)
     (peers rn) (rn\<lparr>role := Leader, leaderID := node_id rn\<rparr>) = fresh_leader rn l"
  by (simp add: fold_progress fresh_leader_def cong: if_cong)

lemma becomeLeader_eq:
  assumes "log_wf rn"
  obtains l out where "becomeLeader rn = Some (fresh_leader rn l, out)" "unat l = log_end rn"
    "unat (l + 1) = log_end rn + 1" "next_wf (fresh_leader rn l)"
    "list_all2 (sent_ok (fresh_leader rn l)) (peers rn) out"
proof -
  obtain l where l: "lastLogIndex rn = Some l" "unat l = log_end rn"
    using lastLogIndex_wf [OF assms] by blast
  have next_l: "unat (l + 1) = log_end rn + 1"
    using l(2) log_end_less [OF assms] by (simp add: unat_add_no_wrap)
  have wf: "log_wf (fresh_leader rn l)" "next_wf (fresh_leader rn l)"
    by (simp_all add: next_wf_def next_l assms)
  obtain out where out: "broadcastAppendEntries (fresh_leader rn l) = Some out"
    "list_all2 (sent_ok (fresh_leader rn l)) (peers (fresh_leader rn l)) out"
    using broadcast_ok [OF wf] by blast
  have "lastLogIndex (rn\<lparr>role := Leader, leaderID := node_id rn\<rparr>) = Some l"
    using l(1) by (simp add: lastLogIndex_def)
  then have "becomeLeader rn = Some (fresh_leader rn l, out)"
    using out(1) becomeLeader_state [of l rn] by (simp add: becomeLeader_def Let_def)
  with l(2) next_l wf(2) out(2) show thesis by (intro that) simp_all
qed

text \<open>A candidate that wins becomes a leader that has sent, for its term, one heartbeat to
  every peer: an AppendEntries with no entries, whose previous index and term are those of the
  end of its own log. Its log, term and vote are unchanged, every \<open>nextIndex\<close> is one past its
  log and no entry counts as replicated yet.\<close>

theorem become_leader_announces:
  assumes "log_wf rn"
  shows "\<exists>rn' out. becomeLeader rn = Some (rn', out) \<and> role rn' = Leader \<and> leaderID rn' = node_id rn \<and>
    rlog rn' = rlog rn \<and> currentTerm rn' = currentTerm rn \<and> votedFor rn' = votedFor rn \<and>
    (\<forall>p. p \<in> set (peers rn) \<longrightarrow> unat (map_get (nextIndex rn') p) = log_end rn + 1 \<and>
       map_get (matchIndex rn') p = 0) \<and>
    list_all2 (\<lambda>p m. \<exists>a. m = SendAppendEntries p a \<and> ae_Term a = currentTerm rn \<and>
       ae_Entries a = [] \<and> unat (ae_PrevLogIndex a) = log_end rn \<and>
       term_at rn (log_end rn) = Some (ae_PrevLogTerm a)) (peers rn) out"
proof -
  obtain l out where step: "becomeLeader rn = Some (fresh_leader rn l, out)"
    and l: "unat l = log_end rn" "unat (l + 1) = log_end rn + 1"
    and sent: "list_all2 (sent_ok (fresh_leader rn l)) (peers rn) out"
    using becomeLeader_eq [OF assms] by blast
  have len: "length (rlog rn) = Suc (log_end rn - log_base rn)" and base: "log_base rn \<le> log_end rn"
    using assms by (cases "rlog rn"; auto simp: log_end_def log_wf_def)+
  have heartbeat: "\<exists>a. m = SendAppendEntries p a \<and> ae_Term a = currentTerm rn \<and>
       ae_Entries a = [] \<and> unat (ae_PrevLogIndex a) = log_end rn \<and>
       term_at rn (log_end rn) = Some (ae_PrevLogTerm a)"
    if "p \<in> set (peers rn)" "sent_ok (fresh_leader rn l) p m" for p m
  proof (cases m)
    case (SendAppendEntries q a)
    with that l(2) have "unat (ae_PrevLogIndex a) = log_end rn" by auto
    with SendAppendEntries that len show ?thesis by auto
  next
    case (SendInstallSnapshot q a)
    with that have "unat (l + 1) \<le> log_base rn" by (simp add: word_le_nat_alt log_base_def)
    with l(2) base show ?thesis by simp
  qed (use that in simp)
  have "list_all2 (\<lambda>p m. \<exists>a. m = SendAppendEntries p a \<and> ae_Term a = currentTerm rn \<and>
       ae_Entries a = [] \<and> unat (ae_PrevLogIndex a) = log_end rn \<and>
       term_at rn (log_end rn) = Some (ae_PrevLogTerm a)) (peers rn) out"
    by (rule list.rel_mono_strong [OF sent]) (rule heartbeat)
  with step l show ?thesis by simp
qed

theorem become_leader_announces_witness:
  "\<exists>rn' a a'. becomeLeader (example_leader\<lparr>role := Candidate\<rparr>) =
     Some (rn', [SendAppendEntries ''b'' a, SendAppendEntries ''c'' a']) \<and>
     unat (ae_PrevLogIndex a) = 2 \<and> ae_Entries a' = []"
proof -
  have "log_wf (example_leader\<lparr>role := Candidate\<rparr>)" "log_end (example_leader\<lparr>role := Candidate\<rparr>) = 2"
    "peers (example_leader\<lparr>role := Candidate\<rparr>) = [''b'', ''c'']"
    using example_leader_wf
    by (simp_all add: leader_wf_def) (simp_all add: example_leader_def example_node_eq log_end_def log_base_def)
  with become_leader_announces [of "example_leader\<lparr>role := Candidate\<rparr>"] show ?thesis
    by (auto simp: list_all2_Cons1)
qed

definition appended :: "RaftNode \<Rightarrow> LogEntry \<Rightarrow> RaftNode" where
  "appended rn e = rn\<lparr>rlog := rlog rn @ [e]\<rparr>"

lemma appended_frame [simp]:
  "rlog (appended rn e) = rlog rn @ [e]" "peers (appended rn e) = peers rn"
  "log_base (appended rn e) = log_base rn" "role (appended rn e) = role rn"
  "currentTerm (appended rn e) = currentTerm rn" "commitIndex (appended rn e) = commitIndex rn"
  "nextIndex (appended rn e) = nextIndex rn" "matchIndex (appended rn e) = matchIndex rn"
  "votedFor (appended rn e) = votedFor rn" "node_id (appended rn e) = node_id rn"
  "isStopped (appended rn e) = isStopped rn"
  by (simp_all add: appended_def log_base_def)

lemma log_end_appended: "log_wf rn \<Longrightarrow> log_end (appended rn e) = Suc (log_end rn)"
  by (cases "rlog rn") (auto simp: log_end_def log_wf_def)

lemma term_at_appended:
  assumes "log_wf rn"
  shows "term_at (appended rn e) (Suc (log_end rn)) = Some (e_Term e)"
proof -
  have "Suc (log_end rn) - log_base rn = length (rlog rn)" "log_base rn \<le> Suc (log_end rn)"
    using assms by (cases "rlog rn"; auto simp: log_end_def log_wf_def)+
  then show ?thesis by (simp add: term_at_def log_end_appended [OF assms])
qed

lemma log_wf_appended:
  assumes "log_wf rn" and "unat (e_Index e) = log_end rn + 1" and "log_end rn + 2 < 2 ^ 63"
  shows "log_wf (appended rn e)"
proof -
  have len: "log_base rn + length (rlog rn) = log_end rn + 1"
    using assms(1) by (cases "rlog rn") (auto simp: log_end_def log_wf_def)
  show ?thesis
    using log_wf_replace_tail [OF assms(1), of "length (rlog rn)" "[e]"] assms len
    by (simp add: appended_def log_wf_def)
qed

text \<open>The request \<open>m\<close> to \<open>p\<close> brings entry \<open>e\<close> as its last, or the snapshot that must come first.\<close>

definition carries :: "LogEntry \<Rightarrow> nat \<Rightarrow> string \<Rightarrow> rpc \<Rightarrow> bool" where
  "carries e pos p m \<longleftrightarrow>
    (\<exists>a. m = SendAppendEntries p a \<and> ae_wf a \<and> ae_end a = pos \<and> ae_Entries a \<noteq> [] \<and> last (ae_Entries a) = e) \<or>
    (\<exists>a. m = SendInstallSnapshot p a)"

lemma sent_carries:
  assumes "log_wf rn" and "unat (map_get (nextIndex rn) p) \<le> log_end rn + 1" and "sent_ok (appended rn e) p m"
  shows "carries e (log_end rn + 1) p m"
proof (cases m)
  case (SendAppendEntries q a)
  let ?k = "Suc (unat (ae_PrevLogIndex a) - log_base rn)"
  have "unat (ae_PrevLogIndex a) \<le> log_end rn"
    using SendAppendEntries assms(2,3) by (simp add: max_def split: if_splits)
  then have "?k \<le> length (rlog rn)"
    using assms(1) by (cases "rlog rn") (auto simp: log_end_def log_wf_def)
  with SendAppendEntries assms(3) have "ae_Entries a \<noteq> [] \<and> last (ae_Entries a) = e" by simp
  with SendAppendEntries assms(1,3) show ?thesis by (auto simp: carries_def log_end_appended)
qed (use assms in \<open>simp_all add: carries_def\<close>)

lemma propose_leader:
  assumes "leader_wf rn" and "log_end rn + 2 < 2 ^ 63" and "role rn = Leader"
  obtains i e out where "unat i = log_end rn + 1" "e = \<lparr>e_Index = i, e_Term = currentTerm rn, e_Data = payload\<rparr>"
    "propose_start payload rn = Some (Inr (appended rn e, i, currentTerm rn, out))"
    "leader_wf (appended rn e)" "commitIndex rn < i"
    "broadcastAppendEntries (appended rn e) = Some out"
    "list_all2 (carries e (log_end rn + 1)) (peers rn) out"
proof -
  have wf: "log_wf rn" "next_wf rn" "log_base rn \<le> unat (commitIndex rn)" "unat (commitIndex rn) \<le> log_end rn"
    using assms(1) by (simp_all add: leader_wf_def)
  obtain l where l: "lastLogIndex rn = Some l" "unat l = log_end rn"
    using lastLogIndex_wf [OF wf(1)] by blast
  have i: "unat (l + 1) = log_end rn + 1"
    using l(2) log_end_less [OF wf(1)] by (simp add: unat_add_no_wrap)
  define e where "e = \<lparr>e_Index = l + 1, e_Term = currentTerm rn, e_Data = payload\<rparr>"
  have wf': "log_wf (appended rn e)"
    by (rule log_wf_appended) (use wf(1) i assms(2) in \<open>simp_all add: e_def\<close>)
  have next': "next_wf (appended rn e)"
    using wf(1,2) by (auto simp: next_wf_def log_end_appended le_SucI)
  obtain out where out: "broadcastAppendEntries (appended rn e) = Some out"
    "list_all2 (sent_ok (appended rn e)) (peers rn) out"
    using broadcast_ok [OF wf' next'] by auto
  have "list_all2 (carries e (log_end rn + 1)) (peers rn) out"
    using out(2)
  proof (rule list.rel_mono_strong)
    fix p m assume "p \<in> set (peers rn)" and "sent_ok (appended rn e) p m"
    then show "carries e (log_end rn + 1) p m"
      using wf(1,2) by (intro sent_carries) (simp_all add: next_wf_def)
  qed
  moreover have "propose_start payload rn = Some (Inr (appended rn e, l + 1, currentTerm rn, out))"
    using assms(3) l(1) out(1) by (simp add: propose_start_def Let_def e_def appended_def)
  moreover have "leader_wf (appended rn e)"
    using wf' next' wf by (simp add: leader_wf_def log_end_appended)
  moreover have "commitIndex rn < l + 1" using i wf(4) by (simp add: word_less_nat_alt)
  ultimately show thesis using that [OF i e_def] out(1) by blast
qed

text \<open>A proposal at a leader appends exactly one entry, with the payload, the leader's term
  and the index that follows its log, keeps the leader invariant, and sends every peer a
  request that ends with the new entry (or the snapshot, for a peer behind it); its index is
  above the commit index, so the caller has to wait for a majority. At any other node the
  proposal is refused and changes nothing.\<close>

theorem propose_appends:
  assumes "leader_wf rn" and "log_end rn + 2 < 2 ^ 63"
  shows "if role rn \<noteq> Leader then propose_start payload rn = Some (Inl ErrNotLeader)
    else \<exists>i e out. unat i = log_end rn + 1 \<and> e = \<lparr>e_Index = i, e_Term = currentTerm rn, e_Data = payload\<rparr> \<and>
      propose_start payload rn = Some (Inr (rn\<lparr>rlog := rlog rn @ [e]\<rparr>, i, currentTerm rn, out)) \<and>
      leader_wf (rn\<lparr>rlog := rlog rn @ [e]\<rparr>) \<and> commitIndex rn < i \<and>
      list_all2 (carries e (log_end rn + 1)) (peers rn) out"
proof (cases "role rn = Leader")
  case False
  then show ?thesis by (simp add: propose_start_def)
next
  case True
  obtain i e out where "unat i = log_end rn + 1" "e = \<lparr>e_Index = i, e_Term = currentTerm rn, e_Data = payload\<rparr>"
    "propose_start payload rn = Some (Inr (appended rn e, i, currentTerm rn, out))"
    "leader_wf (appended rn e)" "commitIndex rn < i" "list_all2 (carries e (log_end rn + 1)) (peers rn) out"
    by (rule propose_leader [OF assms True])
  then show ?thesis
    unfolding appended_def using True by (simp only: if_False simp_thms) blast
qed

theorem propose_appends_witness:
  "\<exists>i e out. propose_start (Some [9]) example_leader =
     Some (Inr (example_leader\<lparr>rlog := rlog example_leader @ [e]\<rparr>, i, 2, out)) \<and> unat i = 3 \<and>
     e_Data e = Some [9] \<and> list_all2 (carries e 3) [''b'', ''c''] out"
proof -
  have "role example_leader = Leader" "log_end example_leader = 2" "currentTerm example_leader = 2"
    "peers example_leader = [''b'', ''c'']"
    by (simp_all add: example_leader_def example_node_eq log_end_def log_base_def)
  with propose_appends [OF example_leader_wf, of "Some [9]"] obtain i e out where
    "unat i = 3" "e = \<lparr>e_Index = i, e_Term = 2, e_Data = Some [9]\<rparr>"
    "propose_start (Some [9]) example_leader =
       Some (Inr (example_leader\<lparr>rlog := rlog example_leader @ [e]\<rparr>, i, 2, out))"
    "list_all2 (carries e 3) [''b'', ''c''] out" by auto
  then show ?thesis by (intro exI [of _ i] exI [of _ e] exI [of _ out]) simp
qed

subsection \<open>Replies keep the leader invariant\<close>

text \<open>Handling a reply never panics and keeps the leader invariant, whatever the reply says,
  provided a reported match lies within the leader's log; the log is untouched, the commit index
  never moves back, and the term never decreases.\<close>

theorem append_reply_keeps_leader:
  assumes "leader_wf rn" and "unat (aer_MatchIndex reply) \<le> log_end rn"
  shows "\<exists>rn' out. handle_append_reply now target args reply rn = Some (rn', out) \<and> leader_wf rn' \<and>
    rlog rn' = rlog rn \<and> commitIndex rn \<le> commitIndex rn' \<and> currentTerm rn \<le> currentTerm rn'"
proof -
  have wf: "log_wf rn" "next_wf rn" "log_base rn \<le> unat (commitIndex rn)" "unat (commitIndex rn) \<le> log_end rn"
    using assms(1) by (simp_all add: leader_wf_def)
  consider (higher) "currentTerm rn < aer_Term reply"
    | (stale) "\<not> currentTerm rn < aer_Term reply" "role rn \<noteq> Leader \<or> currentTerm rn \<noteq> ae_Term args"
    | (ok) "\<not> currentTerm rn < aer_Term reply" "role rn = Leader" "currentTerm rn = ae_Term args" "aer_Success reply"
    | (refused) "\<not> currentTerm rn < aer_Term reply" "role rn = Leader" "currentTerm rn = ae_Term args" "\<not> aer_Success reply"
    by blast
  then show ?thesis
  proof cases
    case higher
    with wf show ?thesis by (simp add: handle_append_reply_def leader_wf_def next_wf_step)
  next
    case stale
    with assms(1) show ?thesis by (auto simp: handle_append_reply_def)
  next
    case refused
    have "next_wf (rn\<lparr>nextIndex := (nextIndex rn)(target \<mapsto> map_get (nextIndex rn) target - 1)\<rparr>)"
      if "lastIncludedIndex rn + 1 < map_get (nextIndex rn) target"
      using wf(2) unat_pred_less [OF that] by (auto simp: next_wf_def)
    moreover have "next_wf (rn\<lparr>nextIndex := (nextIndex rn)(target \<mapsto> lastIncludedIndex rn)\<rparr>)"
      using wf log_end_ge [OF wf(1)] by (intro next_wf_update) (simp_all add: log_base_def)
    ultimately show ?thesis
      using refused wf by (auto simp: handle_append_reply_def leader_wf_def)
  next
    case ok
    define rn1 where "rn1 = rn\<lparr>nextIndex := (nextIndex rn)(target \<mapsto> aer_MatchIndex reply + 1),
             matchIndex := (matchIndex rn)(target \<mapsto> aer_MatchIndex reply)\<rparr>"
    have "unat (aer_MatchIndex reply + 1) \<le> log_end rn + 1"
      using assms(2) log_end_less [OF wf(1)] by (simp add: unat_add_no_wrap)
    then have wf1: "leader_wf rn1"
      using wf by (simp add: rn1_def leader_wf_def next_wf_update)
    have "\<exists>rn' out. checkAndUpdateCommitIndex rn1 = Some (rn', out) \<and> leader_wf rn' \<and>
      rlog rn' = rlog rn1 \<and> commitIndex rn1 \<le> commitIndex rn' \<and> currentTerm rn1 \<le> currentTerm rn'"
      using wf1
    proof (cases rule: checkAndUpdateCommitIndex_cases)
      case (commit n out)
      then show ?thesis using wf1 by (auto simp: leader_wf_def word_le_nat_alt)
    qed (use wf1 in auto)
    then show ?thesis
      using ok by (simp add: handle_append_reply_def rn1_def)
  qed
qed

theorem append_reply_keeps_leader_witness:
  "\<exists>rn' out. handle_append_reply 0 ''b''
     \<lparr>ae_Term = 2, ae_LeaderID = ''1'', ae_PrevLogIndex = 1, ae_PrevLogTerm = 2, ae_Entries = [], ae_LeaderCommit = 0\<rparr>
     \<lparr>aer_Term = 2, aer_Success = True, aer_MatchIndex = 1\<rparr> example_leader = Some (rn', out) \<and> leader_wf rn'"
  using append_reply_keeps_leader [OF example_leader_wf,
    of "\<lparr>aer_Term = 2, aer_Success = True, aer_MatchIndex = 1\<rparr>" 0 "''b''"]
  by (fastforce simp: example_leader_def example_node_eq log_end_def log_base_def)

text \<open>Every election timeout lies in the configured window, and a window that is not empty
  never makes \<open>rng.Intn\<close> panic.\<close>

theorem timeout_in_window:
  assumes "\<forall>k > 0. 0 \<le> Intn k \<and> Intn k < k"
    and "cfg_ElectionMinMs (cfg rn) \<le> cfg_ElectionMaxMs (cfg rn)"
  shows "\<exists>t. randomizedTimeout Intn rn = Some t \<and> cfg_ElectionMinMs (cfg rn) * Millisecond \<le> t \<and>
    t \<le> cfg_ElectionMaxMs (cfg rn) * Millisecond"
proof -
  define k where "k = cfg_ElectionMaxMs (cfg rn) - cfg_ElectionMinMs (cfg rn) + 1"
  have "0 < k" using assms(2) by (simp add: k_def)
  then have "0 \<le> Intn k" "Intn k < k" using assms(1) by auto
  then show ?thesis
    using \<open>0 < k\<close> by (simp add: randomizedTimeout_def Let_def k_def [symmetric] Millisecond_def)
      (simp add: k_def)
qed

theorem timeout_in_window_witness:
  "\<exists>t. randomizedTimeout (\<lambda>k. k - 1) example_node = Some t \<and> 350 * Millisecond \<le> t \<and> t \<le> 700 * Millisecond"
  using timeout_in_window [of "\<lambda>k. k - 1" example_node]
  by (simp add: example_node_eq example_config_def)

end
