(* ===== verification/RaftVoting.thy ===== *)
theory RaftVoting
  imports RaftLeader
begin

text \<open>
  Everything that can happen to one node of \<open>raft/consensus.go\<close> as a step relation, and the
  voting discipline that follows from it: terms never decrease, a node casts at most one vote
  per term. The discipline is stated as an interface of its own (\<open>vote_keeper\<close>), proved
  for every step of the node.
\<close>

section \<open>The steps of a node\<close>

inductive node_step :: "RaftNode \<Rightarrow> RaftNode \<Rightarrow> bool" where
  vote: "HandleRequestVote now a rn = Some (rn', r) \<Longrightarrow> node_step rn rn'"
| append: "HandleAppendEntries now a rn = Some (rn', r) \<Longrightarrow> node_step rn rn'"
| install: "HandleInstallSnapshot now a rn = Some (rn', r, cb) \<Longrightarrow> node_step rn rn'"
| compact: "TakeSnapshot i d rn = Some (rn', e) \<Longrightarrow> node_step rn rn'"
| apply_entries: "runApplierLoop_step rn = Some (rn', es) \<Longrightarrow> node_step rn rn'"
| prevote_reply: "handle_prevote_reply now r n rn = (rn', n') \<Longrightarrow> node_step rn rn'"
| elect: "role rn \<noteq> Leader \<Longrightarrow> currentTerm rn < currentTerm rn + 1 \<Longrightarrow>
    startElection now rn = Some (rn', out) \<Longrightarrow> node_step rn rn'"
| vote_reply: "handle_vote_reply now t q n r rn = Some (rn', n', out) \<Longrightarrow> node_step rn rn'"
| append_reply: "handle_append_reply now p a r rn = Some (rn', out) \<Longrightarrow> node_step rn rn'"
| snapshot_reply: "node_step rn (handle_snapshot_reply now p sa sr rn)"
| propose: "propose_start d rn = Some (Inr (rn', i, t, out)) \<Longrightarrow> node_step rn rn'"
| stop: "node_step rn (Stop rn)"

section \<open>What a step may do to the term, the vote and the role\<close>

text \<open>
  A passive step casts no vote: it keeps term and vote and does not raise the role, or it
  steps down to a higher term with no vote.
\<close>

definition no_vote :: "RaftNode \<Rightarrow> RaftNode \<Rightarrow> bool" where
  "no_vote rn rn' \<longleftrightarrow> node_id rn' = node_id rn \<and> peers rn' = peers rn \<and>
    (currentTerm rn' = currentTerm rn \<and> votedFor rn' = votedFor rn \<and> (role rn' = role rn \<or> role rn' = Follower) \<or>
     currentTerm rn < currentTerm rn' \<and> votedFor rn' = '''' \<and> role rn' = Follower)"

lemma no_vote_refl [simp, intro]: "no_vote rn rn"
  by (simp add: no_vote_def)

lemma no_vote_trans [trans]: "no_vote a b \<Longrightarrow> no_vote b c \<Longrightarrow> no_vote a c"
  by (auto simp: no_vote_def)

lemma no_vote_updates [simp]:
  "no_vote rn (rn'\<lparr>rlog := x0\<rparr>) = no_vote rn rn'"
  "no_vote rn (rn'\<lparr>commitIndex := x1\<rparr>) = no_vote rn rn'"
  "no_vote rn (rn'\<lparr>lastApplied := x2\<rparr>) = no_vote rn rn'"
  "no_vote rn (rn'\<lparr>leaderID := x3\<rparr>) = no_vote rn rn'"
  "no_vote rn (rn'\<lparr>electionResetEvent := x4\<rparr>) = no_vote rn rn'"
  "no_vote rn (rn'\<lparr>nextIndex := x5\<rparr>) = no_vote rn rn'"
  "no_vote rn (rn'\<lparr>matchIndex := x6\<rparr>) = no_vote rn rn'"
  "no_vote rn (rn'\<lparr>lastIncludedIndex := x7\<rparr>) = no_vote rn rn'"
  "no_vote rn (rn'\<lparr>lastIncludedTerm := x8\<rparr>) = no_vote rn rn'"
  "no_vote rn (rn'\<lparr>lastSnapshotData := x9\<rparr>) = no_vote rn rn'"
  "no_vote rn (rn'\<lparr>commitNotify := x10\<rparr>) = no_vote rn rn'"
  "no_vote rn (rn'\<lparr>isStopped := x11\<rparr>) = no_vote rn rn'"
  "no_vote rn (notify_commit rn') = no_vote rn rn'"
  by (simp_all add: no_vote_def)

lemma no_vote_updates_left [simp]:
  "no_vote (rn\<lparr>rlog := x0\<rparr>) rn' = no_vote rn rn'"
  "no_vote (rn\<lparr>lastApplied := x1\<rparr>) rn' = no_vote rn rn'"
  "no_vote (rn\<lparr>commitNotify := x2\<rparr>) rn' = no_vote rn rn'"
  by (simp_all add: no_vote_def)

lemma no_vote_stepDown: "currentTerm rn < t \<Longrightarrow> no_vote rn (stepDown now t rn)"
  by (simp add: no_vote_def)

lemma no_vote_follow: "currentTerm rn \<le> t \<Longrightarrow> no_vote rn (follow_leader now t l rn)"
  by (auto simp: no_vote_def max_def)

lemma no_vote_follower: "no_vote rn rn' \<Longrightarrow> no_vote rn (rn'\<lparr>role := Follower\<rparr>)"
  by (auto simp: no_vote_def)

named_theorems no_vote_intros \<open>steps that cast no vote\<close>

lemma append_entries_loop_step:
  assumes "append_entries_loop prev i (e # es) rn = Some rn'"
  obtains l where "append_entries_loop prev (Suc i) es (rn\<lparr>rlog := l\<rparr>) = Some rn'"
proof -
  from assms obtain rn1 where rn1: "append_entries_loop prev (Suc i) es rn1 = Some rn'"
    and "rn1 = rn\<lparr>rlog := rlog rn1\<rparr>"
    by (auto simp: bind_eq_Some_conv Let_def split: if_splits)
  then show thesis using that by metis
qed

lemma append_entries_loop_no_vote:
  "append_entries_loop prev i es rn = Some rn' \<Longrightarrow> no_vote rn rn'"
proof (induction es arbitrary: i rn)
  case (Cons e es)
  then obtain l where "append_entries_loop prev (Suc i) es (rn\<lparr>rlog := l\<rparr>) = Some rn'"
    using append_entries_loop_step by blast
  then have "no_vote (rn\<lparr>rlog := l\<rparr>) rn'" by (rule Cons.IH)
  then show ?case by simp
qed simp

lemma append_checked_no_vote: "append_checked a r rn = Some (rn', r') \<Longrightarrow> no_vote rn rn'"
  by (auto simp: append_checked_def advance_follower_commit_def Let_def bind_eq_Some_conv
      dest: append_entries_loop_no_vote split: if_splits)

lemma HandleAppendEntries_no_vote [no_vote_intros]:
  "HandleAppendEntries now a rn = Some (rn', r) \<Longrightarrow> no_vote rn rn'"
  unfolding HandleAppendEntries_eq
  by (auto simp: Let_def not_less dest!: append_checked_no_vote intro: no_vote_follow
      elim: no_vote_trans [rotated] split: if_splits)

lemma HandleInstallSnapshot_no_vote [no_vote_intros]:
  "HandleInstallSnapshot now a rn = Some (rn', r, cb) \<Longrightarrow> no_vote rn rn'"
  by (auto simp: HandleInstallSnapshot_def set_role_follower Let_def bind_eq_Some_conv
      intro!: no_vote_follower no_vote_stepDown split: if_splits)

lemma TakeSnapshot_no_vote [no_vote_intros]: "TakeSnapshot i d rn = Some (rn', e) \<Longrightarrow> no_vote rn rn'"
  by (auto simp: TakeSnapshot_def Let_def bind_eq_Some_conv split: if_splits)

lemma apply_pass_no_vote: "apply_pass rn = Some (rn', es) \<Longrightarrow> no_vote rn rn'"
proof (induction "unat (commitIndex rn) - unat (lastApplied rn)" arbitrary: rn es rule: less_induct)
  case (less rn)
  show ?case
  proof (cases "lastApplied rn < commitIndex rn")
    case False
    with less.prems show ?thesis by (simp add: apply_pass.simps [of rn])
  next
    case True
    let ?rn' = "rn\<lparr>lastApplied := lastApplied rn + 1\<rparr>"
    have "\<exists>es'. apply_pass ?rn' = Some (rn', es')"
      using less.prems True
      by (subst (asm) apply_pass.simps) (auto simp: Let_def bind_eq_Some_conv split: if_splits)
    then obtain es' where "apply_pass ?rn' = Some (rn', es')" by blast
    moreover have "unat (commitIndex ?rn') - unat (lastApplied ?rn') < unat (commitIndex rn) - unat (lastApplied rn)"
      using True unat_Suc_less [OF True] by (simp add: word_less_nat_alt)
    ultimately have "no_vote ?rn' rn'" by (rule less.hyps [rotated])
    then show ?thesis by simp
  qed
qed

lemma runApplierLoop_step_no_vote [no_vote_intros]:
  "runApplierLoop_step rn = Some (rn', es) \<Longrightarrow> no_vote rn rn'"
  by (auto simp: runApplierLoop_step_def dest: apply_pass_no_vote split: if_splits)

lemma handle_prevote_reply_no_vote [no_vote_intros]:
  "handle_prevote_reply now r n rn = (rn', n') \<Longrightarrow> no_vote rn rn'"
  by (auto simp: handle_prevote_reply_def intro: no_vote_stepDown split: if_splits)

lemma checkAndUpdateCommitIndex_no_vote:
  "checkAndUpdateCommitIndex rn = Some (rn', out) \<Longrightarrow> no_vote rn rn'"
  by (auto simp: checkAndUpdateCommitIndex_def Let_def bind_eq_Some_conv split: option.splits)

lemma handle_append_reply_no_vote [no_vote_intros]:
  "handle_append_reply now p a r rn = Some (rn', out) \<Longrightarrow> no_vote rn rn'"
  by (auto simp: handle_append_reply_def intro: no_vote_stepDown split: if_splits
      dest!: checkAndUpdateCommitIndex_no_vote) (simp_all add: no_vote_def)

lemma handle_snapshot_reply_no_vote [no_vote_intros]:
  "no_vote rn (handle_snapshot_reply now p a r rn)"
  by (auto simp: handle_snapshot_reply_def intro: no_vote_stepDown)

lemma propose_start_no_vote [no_vote_intros]:
  "propose_start d rn = Some (Inr (rn', i, t, out)) \<Longrightarrow> no_vote rn rn'"
  by (auto simp: propose_start_def Let_def bind_eq_Some_conv split: if_splits)

lemma Stop_no_vote [no_vote_intros]: "no_vote rn (Stop rn)"
  by (simp add: Stop_def)

subsection \<open>The steps that vote\<close>

text \<open>A ballot handled: either no vote is cast, or the candidate gets the vote of the ballot's term.\<close>

definition casts :: "RaftNode \<Rightarrow> u64 \<Rightarrow> string \<Rightarrow> RaftNode \<Rightarrow> bool" where
  "casts rn t c rn' \<longleftrightarrow> node_id rn' = node_id rn \<and> peers rn' = peers rn \<and>
    currentTerm rn' = t \<and> votedFor rn' = c \<and>
    (currentTerm rn < t \<and> role rn' = Follower \<or>
     currentTerm rn = t \<and> (votedFor rn = '''' \<or> votedFor rn = c) \<and> role rn' = role rn)"

lemma HandleRequestVote_casts:
  assumes "HandleRequestVote now a rn = Some (rn', r)"
  shows "if rvr_VoteGranted r \<and> \<not> rv_IsPreVote a
    then casts rn (rv_Term a) (rv_CandidateID a) rn' \<and> rvr_Term r = rv_Term a
    else no_vote rn rn'"
proof (cases "rv_IsPreVote a")
  case True
  with assms show ?thesis
    by (auto simp: HandleRequestVote_def Let_def bind_eq_Some_conv split: if_splits)
next
  case False
  show ?thesis
  proof (cases "currentTerm rn < rv_Term a")
    case higher: True
    with assms False show ?thesis
      by (auto simp: HandleRequestVote_def casts_def no_vote_def Let_def bind_eq_Some_conv split: if_splits)
  next
    case lower: False
    with assms False show ?thesis
      by (auto simp: HandleRequestVote_def casts_def no_vote_def Let_def bind_eq_Some_conv split: if_splits)
  qed
qed

lemma becomeLeader_frame:
  assumes "becomeLeader rn = Some (rn', out)"
  shows "node_id rn' = node_id rn \<and> peers rn' = peers rn \<and> currentTerm rn' = currentTerm rn \<and>
    votedFor rn' = votedFor rn \<and> role rn' = Leader"
proof -
  obtain l where "rn' = fresh_leader rn l"
    using assms becomeLeader_state by (auto simp: becomeLeader_def Let_def bind_eq_Some_conv)
  then show ?thesis by simp
qed

lemma startElection_frame:
  assumes "startElection now rn = Some (rn', out)"
  shows "node_id rn' = node_id rn \<and> peers rn' = peers rn \<and> currentTerm rn' = currentTerm rn + 1 \<and>
    votedFor rn' = node_id rn \<and> role rn' = (if quorum_size rn \<le> 1 then Leader else Candidate)"
  using assms
  by (auto simp: startElection_def Let_def bind_eq_Some_conv quorum_size_def dest!: becomeLeader_frame
      split: if_splits)

lemma handle_vote_reply_cases:
  assumes "handle_vote_reply now t q v r rn = Some (rn', v', out)"
  obtains (none) "no_vote rn rn'" "v' = v" "out = []"
    | (counted) "rn' = rn" "v' = Suc v" "Suc v < q" "role rn = Candidate" "currentTerm rn = t" "rvr_VoteGranted r" "out = []"
    | (elected) "v' = Suc v" "q \<le> Suc v" "role rn = Candidate" "currentTerm rn = t" "rvr_VoteGranted r"
        "becomeLeader rn = Some (rn', out)"
proof (cases "rvr_Term r > currentTerm rn")
  case True
  with assms show thesis by (intro none) (auto simp: handle_vote_reply_def intro: no_vote_stepDown)
next
  case False
  show thesis
  proof (cases "role rn = Candidate \<and> currentTerm rn = t \<and> rvr_VoteGranted r")
    case False
    with assms \<open>\<not> rvr_Term r > currentTerm rn\<close> show thesis
      by (intro none) (auto simp: handle_vote_reply_def)
  next
    case yes: True
    show thesis
    proof (cases "q \<le> Suc v")
      case True
      with yes assms \<open>\<not> rvr_Term r > currentTerm rn\<close> show thesis
        by (intro elected) (auto simp: handle_vote_reply_def Let_def)
    next
      case no: False
      with yes assms \<open>\<not> rvr_Term r > currentTerm rn\<close> show thesis
        by (intro counted) (auto simp: handle_vote_reply_def Let_def)
    qed
  qed
qed

section \<open>One vote per term\<close>

text \<open>
  The interface a voter owes the election: its term never decreases, and within a term a vote,
  once cast, stays.
\<close>

locale vote_keeper =
  fixes step :: "'s \<Rightarrow> 's \<Rightarrow> bool" and trm :: "'s \<Rightarrow> 't :: linorder" and vote :: "'s \<Rightarrow> string"
  assumes term_mono: "step s s' \<Longrightarrow> trm s \<le> trm s'"
    and vote_kept: "step s s' \<Longrightarrow> trm s' = trm s \<Longrightarrow> vote s \<noteq> '''' \<Longrightarrow> vote s' = vote s"
begin

lemma run_term_mono: "step\<^sup>*\<^sup>* s s' \<Longrightarrow> trm s \<le> trm s'"
  by (induction rule: rtranclp_induct) (auto dest: term_mono order_trans)

lemma run_vote_kept:
  assumes "step\<^sup>*\<^sup>* s s'" and "trm s' = trm s" and "vote s \<noteq> ''''"
  shows "vote s' = vote s"
  using assms
proof (induction rule: rtranclp_induct)
  case (step s1 s2)
  have "trm s1 = trm s"
    using run_term_mono [OF step.hyps(1)] term_mono [OF step.hyps(2)] step.prems(1) by simp
  with step show ?case using vote_kept [OF step.hyps(2)] by simp
qed simp

end

lemma no_vote_keeps:
  "no_vote rn rn' \<Longrightarrow> currentTerm rn \<le> currentTerm rn' \<and> (currentTerm rn' = currentTerm rn \<longrightarrow> votedFor rn' = votedFor rn)"
  by (auto simp: no_vote_def)

lemma no_vote_keeps':
  "no_vote rn rn' \<Longrightarrow> currentTerm rn \<le> currentTerm rn' \<and>
     (currentTerm rn' = currentTerm rn \<longrightarrow> votedFor rn \<noteq> [] \<longrightarrow> votedFor rn' = votedFor rn)"
  by (auto simp: no_vote_def)

lemma node_step_keeps:
  "node_step rn rn' \<Longrightarrow> currentTerm rn \<le> currentTerm rn' \<and>
     (currentTerm rn' = currentTerm rn \<longrightarrow> votedFor rn \<noteq> '''' \<longrightarrow> votedFor rn' = votedFor rn)"
proof (induction rule: node_step.induct)
  case (vote now a rn rn' r)
  then show ?case
    by (cases "rvr_VoteGranted r \<and> \<not> rv_IsPreVote a")
      (auto dest!: HandleRequestVote_casts simp: casts_def dest: no_vote_keeps)
next
  case (elect rn now rn' out)
  then show ?case by (auto dest!: startElection_frame)
next
  case (vote_reply now t q n r rn rn' n' out)
  then show ?case
    by (cases rule: handle_vote_reply_cases) (auto dest: no_vote_keeps becomeLeader_frame)
qed (rule no_vote_keeps', (erule no_vote_intros | rule no_vote_intros))+

interpretation node: vote_keeper node_step currentTerm votedFor
  by unfold_locales (auto dest: node_step_keeps)

text \<open>C20. One vote per term: however a node runs between two ballots it grants (any handlers,
  replies, elections, proposals and snapshots, in any order), if the two ballots are of the
  same term they are for the same candidate.\<close>

theorem one_vote_per_term:
  assumes "HandleRequestVote now1 a rn1 = Some (rn1', r1)" and "rvr_VoteGranted r1" and "\<not> rv_IsPreVote a"
    and "node_step\<^sup>*\<^sup>* rn1' rn2"
    and "HandleRequestVote now2 b rn2 = Some (rn2', r2)" and "rvr_VoteGranted r2" and "\<not> rv_IsPreVote b"
    and "rv_Term a = rv_Term b" and "rv_CandidateID a \<noteq> ''''"
  shows "rv_CandidateID b = rv_CandidateID a"
proof -
  have a: "currentTerm rn1' = rv_Term a" "votedFor rn1' = rv_CandidateID a"
    using HandleRequestVote_casts [OF assms(1)] assms(2,3) by (simp_all add: casts_def)
  have b: "currentTerm rn2' = rv_Term b" "votedFor rn2' = rv_CandidateID b"
    using HandleRequestVote_casts [OF assms(5)] assms(6,7) by (simp_all add: casts_def)
  have "node_step\<^sup>*\<^sup>* rn1' rn2'"
    using assms(4) node_step.vote [OF assms(5)] by (rule rtranclp.rtrancl_into_rtrancl)
  then show ?thesis
    using node.run_vote_kept [of rn1' rn2'] a b assms(8,9) by simp
qed

theorem one_vote_per_term_witness:
  "\<exists>rn r rn' r'. HandleRequestVote 4 example_vote example_node = Some (rn, r) \<and> rvr_VoteGranted r \<and>
     HandleRequestVote 9 example_vote rn = Some (rn', r') \<and> rvr_VoteGranted r' \<and>
     (\<forall>b rn'' r''. rv_Term b = 1 \<and> \<not> rv_IsPreVote b \<and> HandleRequestVote 9 b rn = Some (rn'', r'') \<and>
        rvr_VoteGranted r'' \<longrightarrow> rv_CandidateID b = ''2'')"
proof -
  have "\<exists>rn r. HandleRequestVote 4 example_vote example_node = Some (rn, r) \<and> rvr_VoteGranted r \<and>
      (\<exists>rn' r'. HandleRequestVote 9 example_vote rn = Some (rn', r') \<and> rvr_VoteGranted r')"
    by (simp add: HandleRequestVote_def example_vote_def example_node_eq stepDown_def Let_def
        lastLogIndex_def lastLogTerm_def log_at_def)
  then obtain rn r rn' r' where h: "HandleRequestVote 4 example_vote example_node = Some (rn, r)"
      "rvr_VoteGranted r" "HandleRequestVote 9 example_vote rn = Some (rn', r')" "rvr_VoteGranted r'" by blast
  moreover have "rv_CandidateID b = ''2''" if "rv_Term b = 1" "\<not> rv_IsPreVote b"
      "HandleRequestVote 9 b rn = Some (rn'', r'')" "rvr_VoteGranted r''" for b rn'' r''
    using one_vote_per_term [OF h(1,2) _ rtranclp.rtrancl_refl that(3,4,2)] that(1)
    by (simp add: example_vote_def)
  ultimately show ?thesis by blast
qed

text \<open>C21. Nothing of the vote survives a restart: a node that has voted in a term and is created
  again by \<open>NewRaftNode\<close> grants a second ballot of that term to another candidate, for any
  candidate with a non-empty log.\<close>

theorem restart_forgets_vote:
  assumes "HandleRequestVote now a rn = Some (rn', r)" and "rvr_VoteGranted r" and "\<not> rv_IsPreVote a"
    and "rv_Term b = rv_Term a" and "0 < rv_Term a" and "\<not> rv_IsPreVote b" and "0 < rv_LastLogTerm b"
  shows "votedFor rn' = rv_CandidateID a \<and> currentTerm rn' = rv_Term b \<and>
    (\<exists>rn2 r2. HandleRequestVote later b (NewRaftNode later c) = Some (rn2, r2) \<and> rvr_VoteGranted r2 \<and>
       rvr_Term r2 = rv_Term a)"
proof -
  let ?n = "NewRaftNode later c"
  have fresh: "currentTerm ?n = 0" "e_Term (last (rlog ?n)) = 0" "rlog ?n \<noteq> []"
    by (simp_all add: NewRaftNode_def Let_def last_map)
  then obtain e where e: "log_at (rlog ?n) (int (length (rlog ?n)) - 1) = Some e" "e_Term e = 0"
    using log_at_last by metis
  have "\<exists>rn2 r2. HandleRequestVote later b ?n = Some (rn2, r2) \<and> rvr_VoteGranted r2 \<and> rvr_Term r2 = rv_Term b"
    using assms(4-7) fresh(1) e
    by (simp add: HandleRequestVote_def Let_def lastLogIndex_def lastLogTerm_def)
  then show ?thesis
    using HandleRequestVote_casts [OF assms(1)] assms(2-4) by (simp add: casts_def)
qed

theorem restart_forgets_vote_witness:
  "\<exists>rn2 r2. HandleRequestVote 9 (example_vote\<lparr>rv_CandidateID := ''3'', rv_LastLogTerm := 1\<rparr>)
     (NewRaftNode 9 example_config) = Some (rn2, r2) \<and> rvr_VoteGranted r2 \<and> rvr_Term r2 = 1"
proof -
  have "\<exists>rn r. HandleRequestVote 4 example_vote example_node = Some (rn, r) \<and> rvr_VoteGranted r"
    by (simp add: HandleRequestVote_def example_vote_def example_node_eq stepDown_def Let_def
        lastLogIndex_def lastLogTerm_def log_at_def)
  then obtain rn r where h: "HandleRequestVote 4 example_vote example_node = Some (rn, r)" "rvr_VoteGranted r"
    by blast
  show ?thesis
    using restart_forgets_vote [OF h, of "example_vote\<lparr>rv_CandidateID := ''3'', rv_LastLogTerm := 1\<rparr>" 9 example_config]
    by (simp add: example_vote_def)
qed

end
