(* ===== verification/RaftCluster.thy ===== *)
theory RaftCluster
  imports RaftVoting "HOL-Library.Multiset"
begin

text \<open>
  A cluster of nodes of \<open>raft/consensus.go\<close> and the RPC goroutines between them, as an
  interleaving of their locked sections. A goroutine calls one RPC and hands the answer to the
  code after the call; the network may drop a call, run the handler and lose the answer (so
  that the call is served again), or delay either as long as it likes. Elections start at any
  time, with or without a pre-vote: that covers every timer and every pre-vote outcome. The
  result is election safety: two leaders of the same term are the same node.
\<close>

section \<open>Goroutines, the RPC service and the code after a call\<close>

datatype rpc_reply =
    VoteReply RequestVoteReply
  | AppendReply AppendEntriesReply
  | SnapshotReply InstallSnapshotReply

datatype goroutine = Calling string rpc | Answered string rpc rpc_reply

fun rpc_target :: "rpc \<Rightarrow> string" where
  "rpc_target (SendRequestVote p a) = p"
| "rpc_target (SendAppendEntries p a) = p"
| "rpc_target (SendInstallSnapshot p a) = p"

text \<open>What \<open>handleConnection\<close> does with a decoded request.\<close>

fun serve :: "int \<Rightarrow> rpc \<Rightarrow> RaftNode \<Rightarrow> (RaftNode \<times> rpc_reply) option" where
  "serve now (SendRequestVote p a) rn = map_option (\<lambda>(rn, r). (rn, VoteReply r)) (HandleRequestVote now a rn)"
| "serve now (SendAppendEntries p a) rn = map_option (\<lambda>(rn, r). (rn, AppendReply r)) (HandleAppendEntries now a rn)"
| "serve now (SendInstallSnapshot p a) rn =
     map_option (\<lambda>(rn, r, cb). (rn, SnapshotReply r)) (HandleInstallSnapshot now a rn)"

text \<open>
  The code after the call, with the shared vote counter of the ballot's election. The service
  answers every request in kind; the last equation is never reached.
\<close>

fun resume :: "int \<Rightarrow> rpc \<Rightarrow> rpc_reply \<Rightarrow> nat \<Rightarrow> RaftNode \<Rightarrow> (RaftNode \<times> nat \<times> rpc list) option" where
  "resume now (SendRequestVote p a) (VoteReply r) v rn =
    (if rv_IsPreVote a then Some (fst (handle_prevote_reply now r 0 rn), v, [])
     else handle_vote_reply now (rv_Term a) (quorum_size rn) v r rn)"
| "resume now (SendAppendEntries p a) (AppendReply r) v rn =
    map_option (\<lambda>(rn, out). (rn, v, out)) (handle_append_reply now p a r rn)"
| "resume now (SendInstallSnapshot p a) (SnapshotReply r) v rn =
    Some (handle_snapshot_reply now p a r rn, v, [])"
| "resume now m r v rn = Some (rn, v, [])"

text \<open>The ballot a goroutine is about: its candidate, term and peer.\<close>

fun ballot_of :: "goroutine \<Rightarrow> (string \<times> u64 \<times> string) option" where
  "ballot_of (Calling c (SendRequestVote p a)) = (if rv_IsPreVote a then None else Some (c, rv_Term a, p))"
| "ballot_of (Answered c (SendRequestVote p a) r) = (if rv_IsPreVote a then None else Some (c, rv_Term a, p))"
| "ballot_of g = None"

section \<open>The cluster\<close>

text \<open>
  \<open>tally c t\<close> is the counter \<open>votesReceived\<close> of \<open>c\<close>'s election in term \<open>t\<close>. The last two
  fields are history: the votes cast (voter, term), and the peers whose yes a counter holds.
\<close>

record Cluster =
  members :: "string \<Rightarrow> RaftNode"
  routines :: "goroutine multiset"
  tally :: "string \<Rightarrow> u64 \<Rightarrow> nat"
  cast :: "string \<Rightarrow> u64 \<Rightarrow> string"
  counted :: "string \<Rightarrow> u64 \<Rightarrow> string set"

definition put :: "string \<Rightarrow> RaftNode \<Rightarrow> Cluster \<Rightarrow> Cluster" where
  "put c rn s = s\<lparr>members := (members s)(c := rn),
     cast := (cast s)(c := (cast s c)(currentTerm rn := votedFor rn))\<rparr>"

definition spawn :: "string \<Rightarrow> rpc list \<Rightarrow> Cluster \<Rightarrow> Cluster" where
  "spawn c ms s = s\<lparr>routines := routines s + mset (map (Calling c) ms)\<rparr>"

definition retire :: "goroutine \<Rightarrow> Cluster \<Rightarrow> Cluster" where
  "retire g s = s\<lparr>routines := routines s - {#g#}\<rparr>"

definition open_election :: "string \<Rightarrow> u64 \<Rightarrow> Cluster \<Rightarrow> Cluster" where
  "open_election c t s = s\<lparr>tally := (tally s)(c := (tally s c)(t := 1)),
     counted := (counted s)(c := (counted s c)(t := {}))\<rparr>"

text \<open>The counter after a reply, and the yes it now holds.\<close>

definition tally_reply :: "string \<Rightarrow> rpc \<Rightarrow> nat \<Rightarrow> Cluster \<Rightarrow> Cluster" where
  "tally_reply c m v s = (case ballot_of (Calling c m) of
     None \<Rightarrow> s
   | Some (_, t, p) \<Rightarrow>
       (if v = tally s c t then s
        else s\<lparr>tally := (tally s)(c := (tally s c)(t := v)),
               counted := (counted s)(c := (counted s c)(t := insert p (counted s c t)))\<rparr>))"

definition ballot_term :: "rpc \<Rightarrow> u64" where
  "ballot_term m = (case m of SendRequestVote p a \<Rightarrow> rv_Term a | _ \<Rightarrow> 0)"

text \<open>A step of a node on its own, with the goroutines it starts.\<close>

inductive local_step :: "RaftNode \<Rightarrow> RaftNode \<Rightarrow> rpc list \<Rightarrow> bool" where
  prevote: "prevote_ballots rn = Some (Inr out) \<Longrightarrow> local_step rn rn out"
| heartbeat: "heartbeat_tick rn = Some (Some out) \<Longrightarrow> local_step rn rn out"
| propose: "propose_start d rn = Some (Inr (rn', i, t, out)) \<Longrightarrow> local_step rn rn' out"
| compact: "TakeSnapshot i d rn = Some (rn', e) \<Longrightarrow> local_step rn rn' []"
| apply_entries: "runApplierLoop_step rn = Some (rn', es) \<Longrightarrow> local_step rn rn' []"
| stop: "local_step rn (Stop rn) []"

inductive cluster_step :: "string set \<Rightarrow> (string \<Rightarrow> string) \<Rightarrow> Cluster \<Rightarrow> Cluster \<Rightarrow> bool" for M route where
  elect: "c \<in> M \<Longrightarrow> role (members s c) \<noteq> Leader \<Longrightarrow>
    currentTerm (members s c) < currentTerm (members s c) + 1 \<Longrightarrow>
    startElection now (members s c) = Some (rn', out) \<Longrightarrow>
    cluster_step M route s (spawn c out (open_election c (currentTerm rn') (put c rn' s)))"
| on_its_own: "c \<in> M \<Longrightarrow> local_step (members s c) rn' out \<Longrightarrow>
    cluster_step M route s (spawn c out (put c rn' s))"
| deliver: "Calling c m \<in># routines s \<Longrightarrow>
    serve now m (members s (route (rpc_target m))) = Some (rn', r) \<Longrightarrow>
    cluster_step M route s
      (put (route (rpc_target m)) rn' s
        \<lparr>routines := add_mset (Answered c m r) (routines s - {#Calling c m#})\<rparr>)"
| lose_answer: "Calling c m \<in># routines s \<Longrightarrow>
    serve now m (members s (route (rpc_target m))) = Some (rn', r) \<Longrightarrow>
    cluster_step M route s (put (route (rpc_target m)) rn' s)"
| drop_call: "g \<in># routines s \<Longrightarrow> cluster_step M route s (retire g s)"
| receive: "Answered c m r \<in># routines s \<Longrightarrow>
    resume now m r (tally s c (ballot_term m)) (members s c) = Some (rn', v, out) \<Longrightarrow>
    cluster_step M route s (spawn c out (tally_reply c m v (put c rn' (retire (Answered c m r) s))))"

text \<open>
  The deployment: every member knows the other members and only them, each under one address.
\<close>

definition topology :: "string set \<Rightarrow> (string \<Rightarrow> string) \<Rightarrow> Cluster \<Rightarrow> bool" where
  "topology M route s \<longleftrightarrow> finite M \<and> '''' \<notin> M \<and>
    (\<forall>c \<in> M. node_id (members s c) = c \<and> distinct (peers (members s c)) \<and>
       inj_on route (set (peers (members s c))) \<and> route ` set (peers (members s c)) = M - {c})"

text \<open>Freshly created members, nothing in flight.\<close>

definition fresh_cluster :: "string set \<Rightarrow> Cluster \<Rightarrow> bool" where
  "fresh_cluster M s \<longleftrightarrow> (\<forall>c \<in> M. \<exists>now cf. members s c = NewRaftNode now cf) \<and> routines s = {#} \<and>
     (\<forall>c t. tally s c t = 0 \<and> cast s c t = '''' \<and> counted s c t = {})"

section \<open>The invariant\<close>

text \<open>Votes are recorded as they stand, none is of a future term, and only a node that voted for
  itself campaigns or leads.\<close>

definition votes_recorded :: "string set \<Rightarrow> Cluster \<Rightarrow> bool" where
  "votes_recorded M s \<longleftrightarrow> (\<forall>v \<in> M.
     cast s v (currentTerm (members s v)) = votedFor (members s v) \<and>
     (\<forall>t. currentTerm (members s v) < t \<longrightarrow> cast s v t = '''') \<and>
     (role (members s v) \<noteq> Follower \<longrightarrow> votedFor (members s v) = v))"

text \<open>Goroutines carry true ballots, and a yes on its way is a vote that was cast.\<close>

fun ballot_ok :: "(string \<Rightarrow> string) \<Rightarrow> Cluster \<Rightarrow> goroutine \<Rightarrow> bool" where
  "ballot_ok route s (Calling c (SendRequestVote p a)) = (rv_CandidateID a = c)"
| "ballot_ok route s (Answered c (SendRequestVote p a) (VoteReply r)) =
    (rvr_VoteGranted r \<longrightarrow> cast s (route p) (rv_Term a) = c)"
| "ballot_ok route s g = True"

definition ballots_true :: "string set \<Rightarrow> (string \<Rightarrow> string) \<Rightarrow> Cluster \<Rightarrow> bool" where
  "ballots_true M route s \<longleftrightarrow> (\<forall>g \<in># routines s. \<forall>c t p. ballot_of g = Some (c, t, p) \<longrightarrow>
     c \<in> M \<and> p \<in> set (peers (members s c)) \<and> t \<le> currentTerm (members s c) \<and> ballot_ok route s g)"

text \<open>Of each ballot and peer at most one answer is outstanding or counted.\<close>

definition ballots_unique :: "string set \<Rightarrow> Cluster \<Rightarrow> bool" where
  "ballots_unique M s \<longleftrightarrow> (\<forall>c \<in> M. \<forall>t p.
     size (filter_mset (\<lambda>g. ballot_of g = Some (c, t, p)) (routines s)) + (if p \<in> counted s c t then 1 else 0) \<le> 1)"

definition tallies_true :: "string set \<Rightarrow> (string \<Rightarrow> string) \<Rightarrow> Cluster \<Rightarrow> bool" where
  "tallies_true M route s \<longleftrightarrow> (\<forall>c \<in> M. \<forall>t. tally s c t \<le> Suc (card (counted s c t)) \<and>
     (\<forall>p \<in> counted s c t. p \<in> set (peers (members s c)) \<and> cast s (route p) t = c))"

definition elected :: "string set \<Rightarrow> Cluster \<Rightarrow> string \<Rightarrow> u64 \<Rightarrow> bool" where
  "elected M s c t \<longleftrightarrow> (\<exists>Q \<subseteq> M. quorum_size (members s c) \<le> card Q \<and> (\<forall>q \<in> Q. cast s q t = c))"

definition leaders_elected :: "string set \<Rightarrow> Cluster \<Rightarrow> bool" where
  "leaders_elected M s \<longleftrightarrow> (\<forall>c \<in> M. role (members s c) = Leader \<longrightarrow> elected M s c (currentTerm (members s c)))"

lemmas cluster_inv_defs = votes_recorded_def ballots_true_def ballots_unique_def tallies_true_def leaders_elected_def

definition cluster_inv :: "string set \<Rightarrow> (string \<Rightarrow> string) \<Rightarrow> Cluster \<Rightarrow> bool" where
  "cluster_inv M route s \<longleftrightarrow> topology M route s \<and> votes_recorded M s \<and> ballots_true M route s \<and>
     ballots_unique M s \<and> tallies_true M route s \<and> leaders_elected M s"

lemma topology_route:
  "topology M route s \<Longrightarrow> c \<in> M \<Longrightarrow> p \<in> set (peers (members s c)) \<Longrightarrow> route p \<in> M \<and> route p \<noteq> c"
  by (auto simp: topology_def)

subsection \<open>Replacing the state of a node\<close>

text \<open>What any step of a node satisfies, elections included.\<close>

definition evolves :: "string \<Rightarrow> RaftNode \<Rightarrow> RaftNode \<Rightarrow> bool" where
  "evolves c rn rn' \<longleftrightarrow> node_id rn' = node_id rn \<and> peers rn' = peers rn \<and> currentTerm rn \<le> currentTerm rn' \<and>
     (currentTerm rn' = currentTerm rn \<longrightarrow> votedFor rn \<noteq> '''' \<longrightarrow> votedFor rn' = votedFor rn) \<and>
     (role rn' \<noteq> Follower \<longrightarrow> votedFor rn' = c)"

lemma put_fields [simp]:
  "members (put c rn s) = (members s)(c := rn)" "routines (put c rn s) = routines s"
  "tally (put c rn s) = tally s" "counted (put c rn s) = counted s"
  "cast (put c rn s) v t = (if v = c \<and> t = currentTerm rn then votedFor rn else cast s v t)"
  by (simp_all add: put_def)

lemma cast_put_kept:
  assumes "votes_recorded M s" and "c \<in> M" and "evolves c (members s c) rn'"
    and "v \<in> M" and "cast s v t \<noteq> ''''"
  shows "cast (put c rn' s) v t = cast s v t"
proof (cases "v = c \<and> t = currentTerm rn'")
  case True
  have rec: "cast s c (currentTerm (members s c)) = votedFor (members s c)"
    "\<And>t. currentTerm (members s c) < t \<Longrightarrow> cast s c t = ''''"
    using assms(1,2) by (simp_all add: votes_recorded_def)
  have "currentTerm rn' = currentTerm (members s c)"
    using rec(2) [of "currentTerm rn'"] assms(3,5) True by (auto simp: evolves_def le_less)
  then show ?thesis using assms(3,5) rec(1) True by (simp add: evolves_def)
qed auto

lemma quorum_size_peers: "peers rn' = peers rn \<Longrightarrow> quorum_size rn' = quorum_size rn"
  by (simp add: quorum_size_def)

lemma put_topology:
  "topology M route s \<Longrightarrow> c \<in> M \<Longrightarrow> evolves c (members s c) rn' \<Longrightarrow> topology M route (put c rn' s)"
  by (auto simp: topology_def evolves_def)

lemma put_elected:
  assumes "votes_recorded M s" and "c \<in> M" and "evolves c (members s c) rn'" and "d \<noteq> ''''" and "elected M s d t"
  shows "elected M (put c rn' s) d t"
proof -
  obtain Q where Q: "Q \<subseteq> M" "quorum_size (members s d) \<le> card Q" "\<forall>q \<in> Q. cast s q t = d"
    using assms(5) by (auto simp: elected_def)
  have "\<forall>q \<in> Q. cast (put c rn' s) q t = d"
    using Q assms(1-4) cast_put_kept [OF assms(1-3)] by (metis subsetD)
  moreover have "quorum_size (members (put c rn' s) d) = quorum_size (members s d)"
    using assms(3) by (simp add: evolves_def quorum_size_def)
  ultimately show ?thesis using Q unfolding elected_def by (intro exI [of _ Q]) simp
qed

lemma cluster_inv_put:
  assumes inv: "cluster_inv M route s" and c: "c \<in> M" and ev: "evolves c (members s c) rn'"
    and lead: "role rn' = Leader \<Longrightarrow> role (members s c) = Leader \<and> currentTerm rn' = currentTerm (members s c) \<or>
      elected M (put c rn' s) c (currentTerm rn')"
  shows "cluster_inv M route (put c rn' s)"
proof -
  have top: "topology M route s" and rec: "votes_recorded M s"
    using inv by (simp_all add: cluster_inv_def)
  have ne: "d \<noteq> ''''" if "d \<in> M" for d using top that by (auto simp: topology_def)
  have kept: "v \<in> M \<Longrightarrow> cast s v t = d \<Longrightarrow> d \<in> M \<Longrightarrow> cast (put c rn' s) v t = d" for v t d
    using cast_put_kept [OF rec c ev] ne by metis
  show ?thesis
    unfolding cluster_inv_def
  proof (intro conjI)
    show "topology M route (put c rn' s)" by (rule put_topology [OF top c ev])
    show "votes_recorded M (put c rn' s)"
      using rec c ev by (auto simp: votes_recorded_def evolves_def)
    show "ballots_unique M (put c rn' s)"
      using inv by (simp add: cluster_inv_def ballots_unique_def)
    show "tallies_true M route (put c rn' s)"
      using inv c ev kept topology_route [OF top]
      by (auto simp: cluster_inv_def tallies_true_def evolves_def simp del: put_fields(5))
    show "leaders_elected M (put c rn' s)"
    proof -
      have "elected M (put c rn' s) d (currentTerm (members (put c rn' s) d))"
        if "d \<in> M" "role (members (put c rn' s) d) = Leader" for d
        using that inv lead put_elected [OF rec c ev ne [OF that(1)]]
        by (cases "d = c") (auto simp: cluster_inv_def leaders_elected_def)
      then show ?thesis by (simp add: leaders_elected_def)
    qed
    show "ballots_true M route (put c rn' s)"
      unfolding ballots_true_def
    proof (intro ballI allI impI)
      fix g d t p
      assume g: "g \<in># routines (put c rn' s)" "ballot_of g = Some (d, t, p)"
      then have old: "d \<in> M" "p \<in> set (peers (members s d))" "t \<le> currentTerm (members s d)" "ballot_ok route s g"
        using inv by (auto simp: cluster_inv_def ballots_true_def)
      have "ballot_ok route (put c rn' s) g"
        using old g(2) topology_route [OF top] kept
        by (cases "(route, s, g)" rule: ballot_ok.cases) (auto split: if_splits simp del: put_fields(5))
      with old ev show "d \<in> M \<and> p \<in> set (peers (members (put c rn' s) d)) \<and>
          t \<le> currentTerm (members (put c rn' s) d) \<and> ballot_ok route (put c rn' s) g"
        by (auto simp: evolves_def simp del: put_fields(5))
    qed
  qed
qed

lemma ballot_ok_frame: "cast s' = cast s \<Longrightarrow> ballot_ok route s' g = ballot_ok route s g"
  by (cases "(route, s, g)" rule: ballot_ok.cases) auto

lemma elected_frame:
  "cast s' = cast s \<Longrightarrow> members s' c = members s c \<Longrightarrow> elected M s' c t = elected M s c t"
  by (simp add: elected_def)

lemma cluster_inv_outside:
  assumes "cluster_inv M route s" and "c \<notin> M"
  shows "cluster_inv M route (put c rn s)"
proof -
  have cast: "v \<in> M \<Longrightarrow> cast (put c rn s) v t = cast s v t" for v t using assms(2) by auto
  have mem: "v \<in> M \<Longrightarrow> members (put c rn s) v = members s v" for v using assms(2) by auto
  have top: "topology M route s" using assms(1) by (simp add: cluster_inv_def)
  have "ballot_ok route (put c rn s) g = ballot_ok route s g"
    if "ballot_of g = Some (d, t, p)" "d \<in> M" "p \<in> set (peers (members s d))" for g d t p
    using that topology_route [OF top] cast
    by (cases "(route, s, g)" rule: ballot_ok.cases) (auto split: if_splits simp del: put_fields(5))
  then have "ballots_true M route (put c rn s)"
    using assms(1) mem by (fastforce simp: cluster_inv_def ballots_true_def simp del: put_fields(1,5))
  moreover have "elected M (put c rn s) d t = elected M s d t" if "d \<in> M" for d t
    using cast mem that unfolding elected_def by (metis subsetD)
  then have "leaders_elected M (put c rn s)"
    using assms(1) mem by (simp add: cluster_inv_def leaders_elected_def del: put_fields)
  moreover have "tallies_true M route (put c rn s)"
    using assms(1) topology_route [OF top] cast mem
    by (simp add: cluster_inv_def tallies_true_def del: put_fields(1,5))
  moreover have "topology M route (put c rn s)" "votes_recorded M (put c rn s)" "ballots_unique M (put c rn s)"
    using assms(1) cast mem
    by (simp_all add: cluster_inv_def topology_def votes_recorded_def ballots_unique_def del: put_fields(1,5))
  ultimately show ?thesis by (simp add: cluster_inv_def)
qed

lemma cluster_inv_put_any:
  assumes "cluster_inv M route s"
    and "c \<in> M \<Longrightarrow> evolves c (members s c) rn'"
    and "c \<in> M \<Longrightarrow> role rn' = Leader \<Longrightarrow> role (members s c) = Leader \<and> currentTerm rn' = currentTerm (members s c)"
  shows "cluster_inv M route (put c rn' s)"
proof (cases "c \<in> M")
  case True
  with assms show ?thesis by (intro cluster_inv_put) auto
next
  case False
  with assms(1) show ?thesis by (rule cluster_inv_outside)
qed

subsection \<open>Starting and retiring goroutines\<close>

definition is_ballot :: "rpc \<Rightarrow> bool" where
  "is_ballot m = (case m of SendRequestVote p a \<Rightarrow> \<not> rv_IsPreVote a | _ \<Rightarrow> False)"

lemma ballot_of_Calling: "\<not> is_ballot m \<Longrightarrow> ballot_of (Calling c m) = None"
  by (cases m) (auto simp: is_ballot_def)

lemma spawn_fields [simp]:
  "members (spawn c ms s) = members s" "tally (spawn c ms s) = tally s" "cast (spawn c ms s) = cast s"
  "counted (spawn c ms s) = counted s" "routines (spawn c ms s) = routines s + mset (map (Calling c) ms)"
  by (simp_all add: spawn_def)

lemma retire_fields [simp]:
  "members (retire g s) = members s" "tally (retire g s) = tally s" "cast (retire g s) = cast s"
  "counted (retire g s) = counted s" "routines (retire g s) = routines s - {#g#}"
  by (simp_all add: retire_def)

lemma cluster_inv_routines:
  assumes "cluster_inv M route s" and "members s' = members s" "tally s' = tally s" "cast s' = cast s"
    and "counted s' = counted s"
    and "\<And>c t p. size (filter_mset (\<lambda>g. ballot_of g = Some (c, t, p)) (routines s'))
        \<le> size (filter_mset (\<lambda>g. ballot_of g = Some (c, t, p)) (routines s))"
    and "\<And>g. g \<in># routines s' \<Longrightarrow> ballot_of g \<noteq> None \<Longrightarrow> g \<notin># routines s \<Longrightarrow>
        ballot_ok route s g \<and> (\<exists>h \<in># routines s. ballot_of h = ballot_of g)"
  shows "cluster_inv M route s'"
proof -
  have "ballots_true M route s'"
    unfolding ballots_true_def
  proof (intro ballI allI impI)
    fix g c t p assume g: "g \<in># routines s'" "ballot_of g = Some (c, t, p)"
    then have "ballot_ok route s g \<and> (\<exists>h \<in># routines s. ballot_of h = Some (c, t, p)) \<or> g \<in># routines s"
      using assms(7) [of g] by auto
    then show "c \<in> M \<and> p \<in> set (peers (members s' c)) \<and> t \<le> currentTerm (members s' c) \<and> ballot_ok route s' g"
      using assms(1,2,4) g(2) ballot_ok_frame [of s' s]
      by (auto simp: cluster_inv_def ballots_true_def)
  qed
  moreover have "ballots_unique M s'"
    unfolding ballots_unique_def assms(5)
  proof (intro ballI allI)
    fix c t p assume "c \<in> M"
    then have "size {#g \<in># routines s. ballot_of g = Some (c, t, p)#} + (if p \<in> counted s c t then 1 else 0) \<le> 1"
      using assms(1) by (simp add: cluster_inv_def ballots_unique_def)
    with assms(6) [of c t p]
    show "size {#g \<in># routines s'. ballot_of g = Some (c, t, p)#} + (if p \<in> counted s c t then 1 else 0) \<le> 1"
      by linarith
  qed
  ultimately show ?thesis
    using assms(1-5) by (simp add: cluster_inv_def topology_def votes_recorded_def tallies_true_def
        leaders_elected_def elected_frame [of s' s])
qed

lemma cluster_inv_spawn:
  assumes "cluster_inv M route s" and "\<forall>m \<in> set ms. \<not> is_ballot m"
  shows "cluster_inv M route (spawn c ms s)"
proof (rule cluster_inv_routines [OF assms(1)])
  have "filter_mset (\<lambda>g. ballot_of g = Some b) (mset (map (Calling c) ms)) = {#}" for b
    using assms(2) by (auto simp: filter_mset_eq_conv ballot_of_Calling)
  then show "size (filter_mset (\<lambda>g. ballot_of g = Some (c', t, p)) (routines (spawn c ms s)))
        \<le> size (filter_mset (\<lambda>g. ballot_of g = Some (c', t, p)) (routines s))" for c' t p
    by simp
qed (use assms(2) ballot_of_Calling in auto)

lemma cluster_inv_retire:
  assumes "cluster_inv M route s"
  shows "cluster_inv M route (retire g s)"
proof (rule cluster_inv_routines [OF assms])
  show "size (filter_mset (\<lambda>g. ballot_of g = Some (c', t, p)) (routines (retire g s)))
        \<le> size (filter_mset (\<lambda>g. ballot_of g = Some (c', t, p)) (routines s))" for c' t p
    by (simp add: size_mset_mono multiset_filter_mono)
qed (auto dest: in_diffD)

subsection \<open>What the steps of a node do to the invariant\<close>

definition follows :: "string \<Rightarrow> RaftNode \<Rightarrow> RaftNode \<Rightarrow> bool" where
  "follows c rn rn' \<longleftrightarrow> evolves c rn rn' \<and>
     (role rn' = Leader \<longrightarrow> role rn = Leader \<and> currentTerm rn' = currentTerm rn)"

lemma no_vote_follows: "no_vote rn rn' \<Longrightarrow> (role rn \<noteq> Follower \<Longrightarrow> votedFor rn = c) \<Longrightarrow> follows c rn rn'"
  by (auto simp: no_vote_def follows_def evolves_def)

lemma casts_follows:
  "casts rn t x rn' \<Longrightarrow> (role rn \<noteq> Follower \<Longrightarrow> votedFor rn = c) \<Longrightarrow> c \<noteq> '''' \<Longrightarrow> follows c rn rn'"
  by (cases "role rn = Follower"; cases "currentTerm rn = t") (simp_all add: casts_def follows_def evolves_def, (metis less_imp_le)+)

lemma serve_follows:
  assumes "serve now m rn = Some (rn', r)" and "role rn \<noteq> Follower \<Longrightarrow> votedFor rn = c" and "c \<noteq> ''''"
  shows "follows c rn rn'"
proof (cases m)
  case (SendRequestVote p a)
  with assms(1) obtain v where "HandleRequestVote now a rn = Some (rn', v)" by auto
  then show ?thesis
    using HandleRequestVote_casts assms(2,3) by (metis no_vote_follows casts_follows)
next
  case (SendAppendEntries p a)
  with assms show ?thesis by (auto dest!: HandleAppendEntries_no_vote intro: no_vote_follows)
next
  case (SendInstallSnapshot p a)
  with assms show ?thesis by (auto dest!: HandleInstallSnapshot_no_vote intro: no_vote_follows)
qed

lemma serve_ballot_ok:
  assumes "serve now m rn = Some (rn', r)" and "ballot_ok route s (Calling c m)" and "is_ballot m"
    and "route (rpc_target m) = d"
  shows "ballot_ok route (put d rn' s) (Answered c m r)"
  using assms by (cases m) (auto simp: is_ballot_def casts_def dest!: HandleRequestVote_casts split: if_splits)

lemma broadcast_peers_not_ballot: "broadcast_peers rn ps = Some out \<Longrightarrow> m \<in> set out \<Longrightarrow> \<not> is_ballot m"
proof (induction ps arbitrary: out)
  case (Cons p ps)
  moreover have "broadcast_to rn p = Some m' \<Longrightarrow> \<not> is_ballot m'" for m'
    by (auto simp: broadcast_to_def is_ballot_def Let_def bind_eq_Some_conv split: if_splits)
  ultimately show ?case by (auto simp: bind_eq_Some_conv)
qed simp

lemma broadcast_not_ballot: "broadcastAppendEntries rn = Some out \<Longrightarrow> \<forall>m \<in> set out. \<not> is_ballot m"
  by (auto simp: broadcastAppendEntries_def dest: broadcast_peers_not_ballot)

lemma becomeLeader_not_ballot: "becomeLeader rn = Some (rn', out) \<Longrightarrow> \<forall>m \<in> set out. \<not> is_ballot m"
  by (auto simp: becomeLeader_def Let_def bind_eq_Some_conv dest: broadcast_not_ballot)

lemma handle_append_reply_not_ballot:
  "handle_append_reply now p a r rn = Some (rn', out) \<Longrightarrow> \<forall>m \<in> set out. \<not> is_ballot m"
  by (auto simp: handle_append_reply_def checkAndUpdateCommitIndex_def Let_def bind_eq_Some_conv
      split: if_splits option.splits dest: broadcast_not_ballot)

lemma local_step_no_vote:
  "local_step rn rn' out \<Longrightarrow> no_vote rn rn' \<and> (\<forall>m \<in> set out. \<not> is_ballot m)"
proof (induction rule: local_step.induct)
  case (prevote rn out)
  then show ?case by (auto simp: prevote_ballots_def Let_def bind_eq_Some_conv is_ballot_def split: if_splits)
next
  case (heartbeat rn out)
  then show ?case by (auto simp: heartbeat_tick_def dest: broadcast_not_ballot split: if_splits)
next
  case (propose d rn rn' i t out)
  then have "no_vote rn rn'" by (rule propose_start_no_vote)
  with propose show ?case
    by (auto simp: propose_start_def Let_def bind_eq_Some_conv dest: broadcast_not_ballot split: if_splits)
qed (auto intro: no_vote_intros)

lemma cluster_inv_role:
  "cluster_inv M route s \<Longrightarrow> c \<in> M \<Longrightarrow> role (members s c) \<noteq> Follower \<Longrightarrow> votedFor (members s c) = c"
  by (simp add: cluster_inv_def votes_recorded_def)

lemma cluster_inv_member: "cluster_inv M route s \<Longrightarrow> c \<in> M \<Longrightarrow> c \<noteq> ''''"
  by (auto simp: cluster_inv_def topology_def)

lemma cluster_inv_follows:
  assumes "cluster_inv M route s" and "c \<in> M \<Longrightarrow> follows c (members s c) rn'"
  shows "cluster_inv M route (put c rn' s)"
  using assms by (intro cluster_inv_put_any) (auto simp: follows_def)

lemma cluster_inv_on_its_own:
  assumes "cluster_inv M route s" and "c \<in> M" and "local_step (members s c) rn' out"
  shows "cluster_inv M route (spawn c out (put c rn' s))"
  using assms local_step_no_vote [OF assms(3)]
  by (intro cluster_inv_spawn cluster_inv_follows) (auto intro: no_vote_follows cluster_inv_role)

lemma cluster_inv_serve:
  assumes "cluster_inv M route s" and "serve now m (members s d) = Some (rn', r)"
  shows "cluster_inv M route (put d rn' s)"
proof (rule cluster_inv_follows [OF assms(1)])
  assume "d \<in> M"
  with assms show "follows d (members s d) rn'"
    using cluster_inv_role cluster_inv_member by (intro serve_follows) blast+
qed

lemma ballot_of_Answered: "ballot_of (Answered c m r) = ballot_of (Calling c m)"
  by (cases m) auto

lemma cluster_inv_deliver:
  assumes inv: "cluster_inv M route s" and "Calling c m \<in># routines s"
    and "serve now m (members s (route (rpc_target m))) = Some (rn', r)"
  shows "cluster_inv M route (put (route (rpc_target m)) rn' s
        \<lparr>routines := add_mset (Answered c m r) (routines s - {#Calling c m#})\<rparr>)"
proof -
  let ?d = "route (rpc_target m)"
  have put: "cluster_inv M route (put ?d rn' s)" by (rule cluster_inv_serve [OF inv assms(3)])
  have old: "routines s = add_mset (Calling c m) (routines s - {#Calling c m#})" using assms(2) by simp
  show ?thesis
  proof (rule cluster_inv_routines [OF put])
    fix c' t p
    have split: "filter_mset P (routines s) = filter_mset P (add_mset (Calling c m) (routines s - {#Calling c m#}))" for P
      using old by (rule arg_cong)
    show "size {#g \<in># routines (put ?d rn' s\<lparr>routines := add_mset (Answered c m r) (routines s - {#Calling c m#})\<rparr>).
          ballot_of g = Some (c', t, p)#} \<le> size {#g \<in># routines (put ?d rn' s). ballot_of g = Some (c', t, p)#}"
      unfolding put_fields(2) split by (simp add: ballot_of_Answered)
  next
    fix g assume g: "g \<in># routines (put ?d rn' s\<lparr>routines := add_mset (Answered c m r) (routines s - {#Calling c m#})\<rparr>)"
      "ballot_of g \<noteq> None" "g \<notin># routines (put ?d rn' s)"
    then have eq: "g = Answered c m r" by (auto dest: in_diffD)
    then have "is_ballot m" using g(2) ballot_of_Calling [of m c]
      by (cases "is_ballot m") (auto simp: ballot_of_Answered)
    moreover have "ballot_ok route s (Calling c m)"
      using inv assms(2) g(2) eq by (auto simp: cluster_inv_def ballots_true_def ballot_of_Answered)
    ultimately show "ballot_ok route (put ?d rn' s) g \<and> (\<exists>h \<in># routines (put ?d rn' s). ballot_of h = ballot_of g)"
      using assms(2) serve_ballot_ok [OF assms(3)] eq by (auto simp: ballot_of_Answered simp del: put_fields(5))
  qed simp_all
qed

subsection \<open>Elections and counted votes\<close>

lemma open_election_fields [simp]:
  "members (open_election c t s) = members s" "routines (open_election c t s) = routines s"
  "cast (open_election c t s) = cast s"
  "tally (open_election c t s) d t' = (if d = c \<and> t' = t then 1 else tally s d t')"
  "counted (open_election c t s) d t' = (if d = c \<and> t' = t then {} else counted s d t')"
  by (simp_all add: open_election_def)

lemma cluster_inv_open_election:
  assumes "cluster_inv M route s"
  shows "cluster_inv M route (open_election c t s)"
proof -
  have "ballots_true M route (open_election c t s)"
    using assms ballot_ok_frame [of "open_election c t s" s] by (auto simp: cluster_inv_def ballots_true_def)
  moreover have "ballots_unique M (open_election c t s)"
    unfolding ballots_unique_def open_election_fields
  proof (intro ballI allI)
    fix d t' p assume "d \<in> M"
    with assms have "size {#g \<in># routines s. ballot_of g = Some (d, t', p)#} + (if p \<in> counted s d t' then 1 else 0) \<le> 1"
      by (simp add: cluster_inv_def ballots_unique_def)
    then show "size {#g \<in># routines s. ballot_of g = Some (d, t', p)#} +
        (if p \<in> (if d = c \<and> t' = t then {} else counted s d t') then 1 else 0) \<le> 1"
      by (cases "d = c \<and> t' = t") auto
  qed
  moreover have "tallies_true M route (open_election c t s)"
    using assms by (auto simp: cluster_inv_def tallies_true_def)
  ultimately show ?thesis
    using assms by (simp add: cluster_inv_def topology_def votes_recorded_def leaders_elected_def
        elected_frame [of "open_election c t s" s])
qed

lemma startElection_out:
  assumes "startElection now rn = Some (rn', out)"
  shows "(\<forall>m \<in> set out. \<not> is_ballot m) \<or>
    (\<exists>i lt. out = map (\<lambda>p. SendRequestVote p \<lparr>rv_Term = currentTerm rn', rv_CandidateID = node_id rn,
        rv_LastLogIndex = i, rv_LastLogTerm = lt, rv_IsPreVote = False\<rparr>) (peers rn))"
  using assms
  by (auto simp: startElection_def Let_def bind_eq_Some_conv dest: becomeLeader_not_ballot split: if_splits)

lemma size_ballots_of_map:
  assumes "distinct ps"
  shows "size (filter_mset (\<lambda>g. ballot_of g = Some (d, t, p))
      (mset (map (Calling c) (map (\<lambda>p. SendRequestVote p (f p)) ps)))) \<le> 1"
  using assms
proof (induction ps)
  case (Cons q ps)
  have "filter_mset (\<lambda>g. ballot_of g = Some (d, t, q)) (mset (map (Calling c) (map (\<lambda>p. SendRequestVote p (f p)) ps))) = {#}"
    using Cons.prems by (auto simp: filter_mset_eq_conv split: if_splits)
  with Cons show ?case by (auto split: if_splits)
qed simp

lemma cluster_inv_ballots:
  assumes inv: "cluster_inv M route s" and c: "c \<in> M"
    and t: "t \<le> currentTerm (members s c)" and fresh: "counted s c t = {}"
    and none: "\<And>g p. g \<in># routines s \<Longrightarrow> ballot_of g \<noteq> Some (c, t, p)"
    and f: "\<And>p. rv_Term (f p) = t \<and> rv_CandidateID (f p) = c"
  shows "cluster_inv M route (spawn c (map (\<lambda>p. SendRequestVote p (f p)) (peers (members s c))) s)"
    (is "cluster_inv M route ?s")
proof -
  have ps: "distinct (peers (members s c))" using inv c by (auto simp: cluster_inv_def topology_def)
  have "ballots_true M route ?s"
    unfolding ballots_true_def
  proof (intro ballI allI impI)
    fix g d t' p assume g: "g \<in># routines ?s" "ballot_of g = Some (d, t', p)"
    show "d \<in> M \<and> p \<in> set (peers (members ?s d)) \<and> t' \<le> currentTerm (members ?s d) \<and> ballot_ok route ?s g"
    proof (cases "g \<in># routines s")
      case True
      with inv g ballot_ok_frame [of ?s s] show ?thesis by (auto simp: cluster_inv_def ballots_true_def)
    next
      case False
      with g c t f show ?thesis by (auto split: if_splits)
    qed
  qed
  moreover have "ballots_unique M ?s"
    unfolding ballots_unique_def
  proof (intro ballI allI)
    fix d t' p assume d: "d \<in> M"
    have old: "size {#g \<in># routines s. ballot_of g = Some (d, t', p)#} + (if p \<in> counted s d t' then 1 else 0) \<le> 1"
      using inv d by (auto simp: cluster_inv_def ballots_unique_def)
    let ?new = "mset (map (Calling c) (map (\<lambda>p. SendRequestVote p (f p)) (peers (members s c))))"
    have total: "size {#g \<in># routines ?s. ballot_of g = Some (d, t', p)#} =
        size {#g \<in># routines s. ballot_of g = Some (d, t', p)#} + size {#g \<in># ?new. ballot_of g = Some (d, t', p)#}"
      by (simp del: mset_map map_map)
    show "size {#g \<in># routines ?s. ballot_of g = Some (d, t', p)#} + (if p \<in> counted ?s d t' then 1 else 0) \<le> 1"
    proof (cases "d = c \<and> t' = t")
      case True
      then have "size {#g \<in># routines s. ballot_of g = Some (d, t', p)#} = 0"
        using none by (auto simp: filter_mset_eq_conv)
      moreover have "size {#g \<in># ?new. ballot_of g = Some (d, t', p)#} \<le> 1"
        by (rule size_ballots_of_map [OF ps])
      moreover have "p \<notin> counted ?s d t'" using True fresh by simp
      ultimately show ?thesis using total by (simp only: if_False)
    next
      case False
      then have "size {#g \<in># ?new. ballot_of g = Some (d, t', p)#} = 0"
        using f by (auto simp: filter_mset_eq_conv split: if_splits)
      then show ?thesis using total old by (simp only: spawn_fields)
    qed
  qed
  ultimately show ?thesis
    using inv by (simp add: cluster_inv_def topology_def votes_recorded_def tallies_true_def leaders_elected_def
        elected_frame [of ?s s])
qed

lemma cluster_inv_elect:
  assumes inv: "cluster_inv M route s" and c: "c \<in> M" and wrap: "currentTerm (members s c) < currentTerm (members s c) + 1"
    and step: "startElection now (members s c) = Some (rn', out)"
  shows "cluster_inv M route (spawn c out (open_election c (currentTerm rn') (put c rn' s)))"
proof -
  let ?s1 = "put c rn' s" and ?t = "currentTerm rn'"
  have id: "node_id (members s c) = c" using inv c by (auto simp: cluster_inv_def topology_def)
  have fr: "node_id rn' = c" "peers rn' = peers (members s c)" "currentTerm (members s c) < ?t"
      "votedFor rn' = c" "role rn' = Leader \<Longrightarrow> quorum_size (members s c) \<le> 1"
    using startElection_frame [OF step] id wrap by (auto split: if_splits)
  have "cluster_inv M route ?s1"
  proof (rule cluster_inv_put [OF inv c])
    show "evolves c (members s c) rn'"
      unfolding evolves_def
    proof (intro conjI impI)
      show "node_id rn' = node_id (members s c)" by (simp only: fr(1) id)
      show "peers rn' = peers (members s c)" by (rule fr(2))
      show "votedFor rn' = c" by (rule fr(4))
      show "currentTerm (members s c) \<le> ?t" using fr(3) by (rule less_imp_le)
      assume "?t = currentTerm (members s c)"
      with fr(3) show "votedFor rn' = votedFor (members s c)" by (metis less_irrefl)
    qed
    assume "role rn' = Leader"
    then have "quorum_size (members s c) \<le> 1" by (rule fr(5))
    then have "quorum_size (members ?s1 c) \<le> card {c}" by (simp add: quorum_size_peers [OF fr(2)])
    moreover have "\<forall>q \<in> {c}. cast ?s1 q ?t = c" using fr(4) by simp
    ultimately have "elected M ?s1 c ?t" using c unfolding elected_def by blast
    then show "role (members s c) = Leader \<and> ?t = currentTerm (members s c) \<or> elected M ?s1 c ?t" ..
  qed
  then have inv2: "cluster_inv M route (open_election c ?t ?s1)" by (rule cluster_inv_open_election)
  show ?thesis
    using startElection_out [OF step]
  proof (elim disjE exE)
    assume "\<forall>m \<in> set out. \<not> is_ballot m"
    with inv2 show ?thesis by (rule cluster_inv_spawn)
  next
    fix i lt
    assume out: "out = map (\<lambda>p. SendRequestVote p \<lparr>rv_Term = ?t, rv_CandidateID = node_id (members s c),
        rv_LastLogIndex = i, rv_LastLogTerm = lt, rv_IsPreVote = False\<rparr>) (peers (members s c))"
    have "ballot_of g \<noteq> Some (c, ?t, p)" if "g \<in># routines s" for g p
      using inv that fr(3) by (fastforce simp: cluster_inv_def ballots_true_def)
    then show ?thesis
      using cluster_inv_ballots [OF inv2 c, of ?t "\<lambda>p. \<lparr>rv_Term = ?t, rv_CandidateID = node_id (members s c),
        rv_LastLogIndex = i, rv_LastLogTerm = lt, rv_IsPreVote = False\<rparr>"] fr(2) id
      unfolding out by simp
  qed
qed

lemma resume_quiet:
  assumes "resume now m r v rn = Some (rn', v', out)" and "\<not> is_ballot m"
  shows "no_vote rn rn' \<and> (\<forall>x \<in> set out. \<not> is_ballot x)"
  using assms
  by (cases "(now, m, r, v, rn)" rule: resume.cases)
    (auto simp: is_ballot_def intro: no_vote_intros dest: handle_append_reply_not_ballot
      intro!: handle_prevote_reply_no_vote [OF surjective_pairing])

lemma tally_reply_quiet: "\<not> is_ballot m \<Longrightarrow> tally_reply c m v s = s"
  by (simp add: tally_reply_def ballot_of_Calling)

lemma tally_reply_put: "tally_reply c m v (put d rn s) = put d rn (tally_reply c m v s)"
  by (auto simp: tally_reply_def put_def split: option.splits)

lemma cluster_inv_count_vote:
  assumes inv: "cluster_inv M route s" and g: "Answered c (SendRequestVote p a) (VoteReply x) \<in># routines s"
    and yes: "\<not> rv_IsPreVote a" "rvr_VoteGranted x"
  shows "cluster_inv M route (tally_reply c (SendRequestVote p a) (Suc (tally s c (rv_Term a)))
    (retire (Answered c (SendRequestVote p a) (VoteReply x)) s))" (is "cluster_inv M route ?s")
proof -
  let ?g = "Answered c (SendRequestVote p a) (VoteReply x)" and ?t = "rv_Term a"
  have b: "ballot_of ?g = Some (c, ?t, p)" using yes(1) by simp
  have ok: "c \<in> M" "p \<in> set (peers (members s c))" "cast s (route p) ?t = c"
    using inv g b yes(2) by (auto simp: cluster_inv_def ballots_true_def)
  have fields: "members ?s = members s" "cast ?s = cast s" "routines ?s = routines s - {#?g#}"
    "tally ?s d t = (if d = c \<and> t = ?t then Suc (tally s c ?t) else tally s d t)"
    "counted ?s d t = (if d = c \<and> t = ?t then insert p (counted s c ?t) else counted s d t)" for d t
    using yes(1) by (auto simp: tally_reply_def retire_def)
  have size: "size {#h \<in># routines s - {#?g#}. ballot_of h = Some (d, t, q)#} +
      (if d = c \<and> t = ?t \<and> q = p then 1 else 0) = size {#h \<in># routines s. ballot_of h = Some (d, t, q)#}" for d t q
  proof -
    have "routines s = add_mset ?g (routines s - {#?g#})" using g by simp
    then have "size {#h \<in># routines s. ballot_of h = Some (d, t, q)#} =
        size {#h \<in># add_mset ?g (routines s - {#?g#}). ballot_of h = Some (d, t, q)#}" by (rule arg_cong)
    also have "\<dots> = size {#h \<in># routines s - {#?g#}. ballot_of h = Some (d, t, q)#} +
        (if d = c \<and> t = ?t \<and> q = p then 1 else 0)"
      using b by (simp only: filter_mset_add_mset) auto
    finally show ?thesis by (rule sym)
  qed
  have uniq: "size {#h \<in># routines s. ballot_of h = Some (d, t, q)#} + (if q \<in> counted s d t then 1 else 0) \<le> 1"
    if "d \<in> M" for d t q
    using inv that by (simp add: cluster_inv_def ballots_unique_def)
  have new: "p \<notin> counted s c ?t"
    using uniq [OF ok(1), of ?t p] size [of c ?t p] by (auto split: if_splits)
  have "ballots_true M route ?s"
    using inv in_diffD unfolding cluster_inv_def ballots_true_def fields ballot_ok_frame [OF fields(2)] by metis
  moreover have "ballots_unique M ?s"
    unfolding ballots_unique_def fields
  proof (intro ballI allI)
    fix d t q assume "d \<in> M"
    note old = uniq [OF this, of t q] and moved = size [of d t q]
    show "size {#h \<in># routines s - {#?g#}. ballot_of h = Some (d, t, q)#} +
        (if q \<in> (if d = c \<and> t = ?t then insert p (counted s c ?t) else counted s d t) then 1 else 0) \<le> 1"
    proof (cases "d = c \<and> t = ?t \<and> q = p")
      case True
      with old moved new show ?thesis by (simp only: simp_thms if_True if_False insertI1)
    next
      case False
      then have "q \<in> (if d = c \<and> t = ?t then insert p (counted s c ?t) else counted s d t) \<longleftrightarrow> q \<in> counted s d t"
        by auto
      with old moved False show ?thesis by (simp only: simp_thms if_False add_0_right)
    qed
  qed
  moreover have "tallies_true M route ?s"
  proof -
    have old: "tally s d t \<le> Suc (card (counted s d t))"
      "q \<in> counted s d t \<Longrightarrow> q \<in> set (peers (members s d)) \<and> cast s (route q) t = d" if "d \<in> M" for d t q
      using inv that by (auto simp: cluster_inv_def tallies_true_def)
    have "counted s c ?t \<subseteq> set (peers (members s c))"
      using old(2) [OF ok(1)] by blast
    then have "card (insert p (counted s c ?t)) = Suc (card (counted s c ?t))"
      using new finite_subset by (intro card_insert_disjoint) blast+
    with old ok show ?thesis
      unfolding tallies_true_def fields by simp
  qed
  ultimately show ?thesis
    using inv by (simp add: cluster_inv_def topology_def votes_recorded_def leaders_elected_def fields
        elected_frame [OF fields(2)])
qed

lemma tallied_elected:
  assumes "topology M route s" and "tallies_true M route s" and c: "c \<in> M" and "c \<noteq> ''''"
    and "quorum_size (members s c) \<le> tally s c t"
    and "peers rn' = peers (members s c)" and "currentTerm rn' = t" and "votedFor rn' = c"
  shows "elected M (put c rn' s) c t"
proof -
  let ?Q = "insert c (route ` counted s c t)"
  have old: "tally s c t \<le> Suc (card (counted s c t))" "counted s c t \<subseteq> set (peers (members s c))"
    "\<And>p. p \<in> counted s c t \<Longrightarrow> cast s (route p) t = c"
    using assms(2) c by (auto simp: tallies_true_def)
  have top: "inj_on route (set (peers (members s c)))" "route ` set (peers (members s c)) = M - {c}"
    using assms(1) c by (auto simp: topology_def)
  have sub: "route ` counted s c t \<subseteq> M - {c}" using old(2) top(2) by blast
  have "finite (counted s c t)" using old(2) by (rule finite_subset) simp
  moreover have "card (route ` counted s c t) = card (counted s c t)"
    using top(1) old(2) by (intro card_image) (rule inj_on_subset)
  ultimately have "card ?Q = Suc (card (counted s c t))"
    using sub by (subst card_insert_disjoint) auto
  then have "quorum_size (members (put c rn' s) c) \<le> card ?Q"
    using assms(5) old(1) quorum_size_peers [OF assms(6)] by simp
  moreover have "?Q \<subseteq> M" using sub c by blast
  moreover have "\<forall>q \<in> ?Q. cast (put c rn' s) q t = c"
    using old(3) assms(7,8) by simp
  ultimately show ?thesis unfolding elected_def by blast
qed

lemma cluster_inv_vote_reply:
  assumes inv: "cluster_inv M route s" and g: "Answered c (SendRequestVote p a) (VoteReply x) \<in># routines s"
    and ballot: "\<not> rv_IsPreVote a"
    and step: "handle_vote_reply now (rv_Term a) (quorum_size (members s c)) (tally s c (rv_Term a)) x (members s c)
      = Some (rn', v, out)"
  shows "cluster_inv M route (put c rn' (tally_reply c (SendRequestVote p a) v
      (retire (Answered c (SendRequestVote p a) (VoteReply x)) s)))"
    (is "cluster_inv M route (put c rn' (?tally v))")
  using step
proof (cases rule: handle_vote_reply_cases)
  case none
  then have "?tally v = retire (Answered c (SendRequestVote p a) (VoteReply x)) s"
    using ballot by (simp add: tally_reply_def)
  with cluster_inv_retire [OF inv] none(1) show ?thesis
    by (intro cluster_inv_follows) (auto intro: no_vote_follows cluster_inv_role [OF inv])
next
  case counted
  with cluster_inv_count_vote [OF inv g ballot] have "cluster_inv M route (?tally v)" by simp
  moreover have "members (?tally v) = members s" using ballot by (simp add: tally_reply_def)
  ultimately show ?thesis
    using counted(1) by (intro cluster_inv_follows) (auto intro: no_vote_follows cluster_inv_role [OF inv])
next
  case elected
  have inv1: "cluster_inv M route (?tally v)"
    using cluster_inv_count_vote [OF inv g ballot elected(5)] elected(1) by simp
  have mem: "members (?tally v) = members s" and tal: "tally (?tally v) c (rv_Term a) = v"
    using ballot elected(1) by (simp_all add: tally_reply_def)
  have c: "c \<in> M"
    using inv g ballot by (force simp: cluster_inv_def ballots_true_def)
  have self: "votedFor (members s c) = c"
    using cluster_inv_role [OF inv c] elected(3) by simp
  note fr = becomeLeader_frame [OF elected(6)]
  show ?thesis
  proof (rule cluster_inv_put [OF inv1 c])
    show "evolves c (members (?tally v) c) rn'"
      unfolding mem evolves_def using fr self by (intro conjI impI) (simp_all only: order_refl)
    have "elected M (put c rn' (?tally v)) c (rv_Term a)"
    proof (rule tallied_elected)
      show "topology M route (?tally v)" "tallies_true M route (?tally v)"
        using inv1 by (simp_all add: cluster_inv_def)
      show "c \<noteq> ''''" by (rule cluster_inv_member [OF inv c])
      show "quorum_size (members (?tally v) c) \<le> tally (?tally v) c (rv_Term a)"
        unfolding mem tal using elected(1,2) by simp
    qed (use c fr self mem elected(4) in \<open>simp_all only:\<close>)
    then show "role (members (?tally v) c) = Leader \<and> currentTerm rn' = currentTerm (members (?tally v) c) \<or>
        elected M (put c rn' (?tally v)) c (currentTerm rn')"
      using fr elected(4) by (simp only: simp_thms)
  qed
qed

lemma cluster_inv_receive:
  assumes inv: "cluster_inv M route s" and g: "Answered c m r \<in># routines s"
    and step: "resume now m r (tally s c (ballot_term m)) (members s c) = Some (rn', v, out)"
  shows "cluster_inv M route (spawn c out (tally_reply c m v (put c rn' (retire (Answered c m r) s))))"
proof (cases "is_ballot m \<and> (\<exists>x. r = VoteReply x)")
  case True
  then obtain p a x where m: "m = SendRequestVote p a" "\<not> rv_IsPreVote a" "r = VoteReply x"
    by (auto simp: is_ballot_def split: rpc.splits)
  then have h: "handle_vote_reply now (rv_Term a) (quorum_size (members s c)) (tally s c (rv_Term a)) x (members s c)
      = Some (rn', v, out)"
    using step by (simp add: ballot_term_def)
  have "\<forall>y \<in> set out. \<not> is_ballot y"
    using h by (cases rule: handle_vote_reply_cases) (auto dest: becomeLeader_not_ballot)
  moreover have "cluster_inv M route (tally_reply c m v (put c rn' (retire (Answered c m r) s)))"
    unfolding tally_reply_put m(1,3)
    by (rule cluster_inv_vote_reply [OF inv _ m(2) h]) (use g m in simp)
  ultimately show ?thesis by (intro cluster_inv_spawn)
next
  case False
  have "no_vote (members s c) rn' \<and> (\<forall>y \<in> set out. \<not> is_ballot y) \<and> (is_ballot m \<longrightarrow> v = tally s c (ballot_term m))"
  proof (cases "is_ballot m")
    case True
    with False step show ?thesis by (cases m; cases r) (auto simp: is_ballot_def)
  qed (use resume_quiet [OF step] in simp)
  moreover from this have "tally_reply c m v t = t" if "tally t = tally s" for t
    using that by (cases "is_ballot m") (auto simp: tally_reply_quiet tally_reply_def ballot_term_def is_ballot_def
        split: option.splits rpc.splits)
  ultimately show ?thesis
    using cluster_inv_retire [OF inv]
    by (auto intro!: cluster_inv_spawn cluster_inv_follows no_vote_follows intro: cluster_inv_role [OF inv])
qed

lemma cluster_inv_step: "cluster_step M route s s' \<Longrightarrow> cluster_inv M route s \<Longrightarrow> cluster_inv M route s'"
proof (induction rule: cluster_step.induct)
  case (elect c s now rn' out)
  then show ?case by (intro cluster_inv_elect)
next
  case (on_its_own c s rn' out)
  then show ?case by (intro cluster_inv_on_its_own)
next
  case (deliver c m s now rn' r)
  then show ?case by (intro cluster_inv_deliver)
next
  case (lose_answer c m s now rn' r)
  then show ?case by (intro cluster_inv_serve)
next
  case (drop_call g s)
  then show ?case by (intro cluster_inv_retire)
next
  case (receive c m r s now rn' v out)
  then show ?case by (intro cluster_inv_receive)
qed

lemma fresh_cluster_inv:
  assumes "topology M route s" and "fresh_cluster M s"
  shows "cluster_inv M route s"
proof -
  have mem: "currentTerm (members s c) = 0 \<and> votedFor (members s c) = '''' \<and> role (members s c) = Follower"
    if c: "c \<in> M" for c
  proof -
    obtain now cf where "members s c = NewRaftNode now cf" using assms(2) c by (auto simp: fresh_cluster_def)
    then show ?thesis by (simp add: NewRaftNode_def Let_def)
  qed
  have hist: "routines s = {#}" "tally s c t = 0" "cast s c t = ''''" "counted s c t = {}" for c t
    using assms(2) by (simp_all add: fresh_cluster_def)
  show ?thesis
    using assms(1) mem by (simp add: cluster_inv_def cluster_inv_defs hist)
qed

lemma cluster_inv_reachable:
  "(cluster_step M route)\<^sup>*\<^sup>* s0 s \<Longrightarrow> cluster_inv M route s0 \<Longrightarrow> cluster_inv M route s"
  by (induction rule: rtranclp_induct) (auto intro: cluster_inv_step)

section \<open>Quorums intersect\<close>

text \<open>
  The interface of a quorum system: how many votes a node needs and which nodes it counts
  besides itself. Two sets of voters that are large enough share a member.
\<close>

locale quorum_system =
  fixes need :: "'n \<Rightarrow> nat" and others :: "'n \<Rightarrow> 'p list"
  assumes need_majority: "length (others n) + 1 < 2 * need n"
begin

lemma quorums_meet:
  assumes "finite M" and "card M = length (others a) + 1" and "card M = length (others b) + 1"
    and "P \<subseteq> M" and "Q \<subseteq> M" and "need a \<le> card P" and "need b \<le> card Q"
  shows "\<exists>v. v \<in> P \<and> v \<in> Q"
proof (rule ccontr)
  assume "\<not> ?thesis"
  then have "P \<inter> Q = {}" by blast
  then have "card P + card Q = card (P \<union> Q)"
    using assms(1,4,5) finite_subset by (subst card_Un_disjoint) auto
  also have "\<dots> \<le> card M" using assms(1,4,5) by (intro card_mono) auto
  finally show False
    using need_majority [of a] need_majority [of b] assms(2,3,6,7) by linarith
qed

end

interpretation raft_quorum: quorum_system quorum_size peers
  by unfold_locales (simp add: quorum_size_def)

lemma topology_card:
  assumes "topology M route s" and "c \<in> M"
  shows "card M = length (peers (members s c)) + 1"
proof -
  have top: "distinct (peers (members s c))" "inj_on route (set (peers (members s c)))"
    "route ` set (peers (members s c)) = M - {c}" "finite M"
    using assms by (auto simp: topology_def)
  have "card (M - {c}) = length (peers (members s c))"
    using card_image [OF top(2)] top(1,3) by (simp add: distinct_card)
  moreover have "card M = Suc (card (M - {c}))" by (rule card.remove [OF top(4) assms(2)])
  ultimately show ?thesis by simp
qed

text \<open>C6. Election safety: in a cluster of freshly created nodes, however the nodes, the timers
  and the network interleave, with answers lost, calls served again, delayed or dropped, two
  nodes that lead in the same term are the same node.\<close>

theorem election_safety:
  assumes "topology M route s0" and "fresh_cluster M s0" and "(cluster_step M route)\<^sup>*\<^sup>* s0 s"
    and "a \<in> M" and "b \<in> M" and "role (members s a) = Leader" and "role (members s b) = Leader"
    and "currentTerm (members s a) = currentTerm (members s b)"
  shows "a = b"
proof -
  have inv: "cluster_inv M route s"
    by (rule cluster_inv_reachable [OF assms(3) fresh_cluster_inv [OF assms(1,2)]])
  then have top: "topology M route s" by (simp add: cluster_inv_def)
  have "elected M s a (currentTerm (members s a))" "elected M s b (currentTerm (members s b))"
    using inv assms(4-7) by (simp_all add: cluster_inv_def leaders_elected_def)
  then obtain P Q where
    P: "P \<subseteq> M" "quorum_size (members s a) \<le> card P" "\<forall>q \<in> P. cast s q (currentTerm (members s a)) = a"
    and Q: "Q \<subseteq> M" "quorum_size (members s b) \<le> card Q" "\<forall>q \<in> Q. cast s q (currentTerm (members s b)) = b"
    unfolding elected_def by blast
  have "finite M" using top by (simp add: topology_def)
  then obtain v where "v \<in> P" "v \<in> Q"
    using raft_quorum.quorums_meet [OF _ topology_card [OF top assms(4)] topology_card [OF top assms(5)] P(1) Q(1) P(2) Q(2)]
    by blast
  with P(3) Q(3) assms(8) show ?thesis by auto
qed

subsection \<open>An election that succeeds\<close>

text \<open>Three members; \<open>a\<close> campaigns, \<open>b\<close> votes for it, \<open>a\<close> counts the vote and leads.\<close>

definition example_members :: "string \<Rightarrow> RaftNode" where
  "example_members c = NewRaftNode 0 (example_config\<lparr>cfg_ID := c, cfg_Peers := filter (\<lambda>p. p \<noteq> c) [''a'', ''b'', ''c'']\<rparr>)"

definition example_cluster :: Cluster where
  "example_cluster = \<lparr>members = example_members, routines = {#}, tally = (\<lambda>_ _. 0),
     cast = (\<lambda>_ _. ''''), counted = (\<lambda>_ _. {})\<rparr>"

lemma example_cluster_topology: "topology {''a'', ''b'', ''c''} id example_cluster"
  by (auto simp: topology_def example_cluster_def example_members_def NewRaftNode_def example_config_def Let_def)

lemma example_cluster_fresh: "fresh_cluster {''a'', ''b'', ''c''} example_cluster"
  unfolding fresh_cluster_def by (auto simp: example_cluster_def example_members_def)

definition example_ballot :: RequestVoteArgs where
  "example_ballot = \<lparr>rv_Term = 1, rv_CandidateID = ''a'', rv_LastLogIndex = 0, rv_LastLogTerm = 0, rv_IsPreVote = False\<rparr>"

definition example_candidate :: RaftNode where
  "example_candidate = (example_members ''a'')\<lparr>role := Candidate, currentTerm := 1, votedFor := ''a'',
     leaderID := '''', electionResetEvent := 5\<rparr>"

lemma example_members_eq:
  "example_members c = example_node\<lparr>node_id := c, peers := filter (\<lambda>p. p \<noteq> c) [''a'', ''b'', ''c''],
     cfg := example_config\<lparr>cfg_ID := c, cfg_Peers := filter (\<lambda>p. p \<noteq> c) [''a'', ''b'', ''c'']\<rparr>\<rparr>"
  by (simp add: example_members_def example_node_eq NewRaftNode_def example_config_def Let_def Millisecond_def)

lemma example_campaign:
  "startElection 5 (example_members ''a'') =
     Some (example_candidate, [SendRequestVote ''b'' example_ballot, SendRequestVote ''c'' example_ballot])"
  by (simp add: startElection_def example_candidate_def example_members_eq example_node_eq example_ballot_def
      lastLogIndex_def lastLogTerm_def log_at_def Let_def quorum_size_def)

lemma example_yes:
  "\<exists>rn. serve 6 (SendRequestVote ''b'' example_ballot) (example_members ''b'') =
     Some (rn, VoteReply \<lparr>rvr_Term = 1, rvr_VoteGranted = True\<rparr>)"
  by (simp add: HandleRequestVote_def example_members_eq example_node_eq example_ballot_def stepDown_def
      lastLogIndex_def lastLogTerm_def log_at_def Let_def)

lemma example_win:
  "\<exists>rn out. resume 7 (SendRequestVote ''b'' example_ballot) (VoteReply \<lparr>rvr_Term = 1, rvr_VoteGranted = True\<rparr>) 1
     example_candidate = Some (rn, 2, out) \<and> role rn = Leader \<and> currentTerm rn = 1"
proof -
  have "log_wf example_candidate"
    by (simp add: example_candidate_def example_members_eq example_node_eq log_wf_def log_base_def)
  then obtain l out where l: "becomeLeader example_candidate = Some (fresh_leader example_candidate l, out)"
    using becomeLeader_eq by metis
  have "role example_candidate = Candidate" "currentTerm example_candidate = 1" "quorum_size example_candidate = 2"
    by (simp_all add: example_candidate_def example_members_eq example_node_eq quorum_size_def)
  with l show ?thesis
    by (simp add: handle_vote_reply_def example_ballot_def Let_def)
qed

lemma example_election:
  "\<exists>s. (cluster_step {''a'', ''b'', ''c''} id)\<^sup>*\<^sup>* example_cluster s \<and>
     role (members s ''a'') = Leader \<and> currentTerm (members s ''a'') = 1"
proof -
  let ?M = "{''a'', ''b'', ''c''}" and ?m = "SendRequestVote ''b'' example_ballot"
    and ?yes = "VoteReply \<lparr>rvr_Term = 1, rvr_VoteGranted = True\<rparr>"
  obtain b where b: "serve 6 ?m (example_members ''b'') = Some (b, ?yes)" using example_yes by blast
  obtain a out where a: "resume 7 ?m ?yes 1 example_candidate = Some (a, 2, out)"
    "role a = Leader" "currentTerm a = 1" using example_win by blast
  have cand: "currentTerm example_candidate = 1" by (simp add: example_candidate_def)
  define s1 where "s1 = spawn ''a'' [?m, SendRequestVote ''c'' example_ballot]
    (open_election ''a'' (currentTerm example_candidate) (put ''a'' example_candidate example_cluster))"
  define s2 where "s2 = put (id (rpc_target ?m)) b s1
    \<lparr>routines := add_mset (Answered ''a'' ?m ?yes) (routines s1 - {#Calling ''a'' ?m#})\<rparr>"
  define s3 where "s3 = spawn ''a'' out (tally_reply ''a'' ?m 2 (put ''a'' a (retire (Answered ''a'' ?m ?yes) s2)))"
  have "cluster_step ?M id example_cluster s1"
    unfolding s1_def
    by (rule cluster_step.elect [where now = 5])
      (use example_campaign in \<open>simp_all add: example_cluster_def example_members_eq example_node_eq\<close>)
  moreover have "cluster_step ?M id s1 s2"
    unfolding s2_def
    by (rule cluster_step.deliver [where now = 6]) (use b in \<open>simp_all add: s1_def example_cluster_def del: serve.simps\<close>)
  moreover have "cluster_step ?M id s2 s3"
    unfolding s3_def
    by (rule cluster_step.receive [where now = 7])
      (use a(1) cand in \<open>simp_all add: s2_def s1_def example_ballot_def ballot_term_def del: resume.simps\<close>)
  moreover have "members s3 ''a'' = a"
    by (simp add: s3_def tally_reply_def split: option.split)
  ultimately show ?thesis
    using a(2,3) by (intro exI [of _ s3]) (auto intro: rtranclp.rtrancl_into_rtrancl)
qed

theorem election_safety_witness:
  "\<exists>s. (cluster_step {''a'', ''b'', ''c''} id)\<^sup>*\<^sup>* example_cluster s \<and> role (members s ''a'') = Leader \<and>
     (\<forall>c \<in> {''a'', ''b'', ''c''}. role (members s c) = Leader \<and> currentTerm (members s c) = 1 \<longrightarrow> c = ''a'')"
proof -
  obtain s where s: "(cluster_step {''a'', ''b'', ''c''} id)\<^sup>*\<^sup>* example_cluster s"
    "role (members s ''a'') = Leader" "currentTerm (members s ''a'') = 1"
    using example_election by blast
  have "c = ''a''" if "c \<in> {''a'', ''b'', ''c''}" "role (members s c) = Leader" "currentTerm (members s c) = 1" for c
    using election_safety [OF example_cluster_topology example_cluster_fresh s(1) that(1) _ that(2) s(2)] that(3) s(3)
    by simp
  with s show ?thesis by blast
qed

end
