(* ===== verification/RaftSpec.thy ===== *)
theory RaftSpec
  imports Prelude "HOL-Library.Sublist"
begin

text \<open>
  The abstract specification of the replicated log that \<open>raft/consensus.go\<close> implements: terms,
  whole logs without compaction, and for every term the log of its leader. A node adopts a prefix
  of that log, votes for a candidate whose log is up to date, and learns a commit index that a
  majority has acknowledged. The invariant proved here gives state machine safety and leader
  completeness; the cluster of the code is shown to refine this in \<open>RaftSafety\<close>.
\<close>

section \<open>States and steps\<close>

type_synonym sp_entry = "u64 \<times> byte list option"

text \<open>
  \<open>sp_hist t\<close> is the log of the leader of term \<open>t\<close>, empty while there is none, and \<open>sp_lead t\<close> that
  leader; \<open>sp_ack v t\<close> is the last position \<open>v\<close> has acknowledged in term \<open>t\<close>; \<open>sp_cand c t\<close> is
  the log with which \<open>c\<close> campaigned in \<open>t\<close>.
\<close>

record Spec =
  sp_term :: "string \<Rightarrow> u64"
  sp_log :: "string \<Rightarrow> sp_entry list"
  sp_commit :: "string \<Rightarrow> nat"
  sp_hist :: "u64 \<Rightarrow> sp_entry list"
  sp_lead :: "u64 \<Rightarrow> string"
  sp_ack :: "string \<Rightarrow> u64 \<Rightarrow> nat"
  sp_cand :: "string \<Rightarrow> u64 \<Rightarrow> sp_entry list"
  sp_votes :: "(string \<times> u64 \<times> string) set"

definition majority :: "string set \<Rightarrow> string set \<Rightarrow> bool" where
  "majority M Q \<longleftrightarrow> Q \<subseteq> M \<and> card M < 2 * card Q"

text \<open>Two logs hold position \<open>i\<close> and are the same up to it.\<close>

definition agree :: "nat \<Rightarrow> 'a list \<Rightarrow> 'a list \<Rightarrow> bool" where
  "agree i xs ys \<longleftrightarrow> i < length xs \<and> i < length ys \<and> take (Suc i) xs = take (Suc i) ys"

text \<open>The entry the leader of \<open>t\<close> placed at \<open>i\<close> in its own term, stored by a majority.\<close>

definition owned :: "Spec \<Rightarrow> u64 \<Rightarrow> nat \<Rightarrow> bool" where
  "owned a t i \<longleftrightarrow> i < length (sp_hist a t) \<and> fst (sp_hist a t ! i) = t"

definition chosen :: "string set \<Rightarrow> Spec \<Rightarrow> u64 \<Rightarrow> nat \<Rightarrow> bool" where
  "chosen M a t i \<longleftrightarrow> owned a t i \<and> (\<exists>Q. majority M Q \<and> (\<forall>v \<in> Q. i \<le> sp_ack a v t))"

text \<open>A majority has moved on without acknowledging: the entry can never be chosen.\<close>

definition dead :: "string set \<Rightarrow> Spec \<Rightarrow> u64 \<Rightarrow> nat \<Rightarrow> bool" where
  "dead M a t i \<longleftrightarrow> (\<exists>Q. majority M Q \<and> (\<forall>v \<in> Q. t < sp_term a v \<and> sp_ack a v t < i))"

text \<open>The leader of \<open>t\<close> may announce that everything up to \<open>k\<close> is committed.\<close>

definition settled :: "string set \<Rightarrow> Spec \<Rightarrow> u64 \<Rightarrow> nat \<Rightarrow> bool" where
  "settled M a t k \<longleftrightarrow> sp_hist a t \<noteq> [] \<and> (\<exists>t0 \<le> t. \<exists>i \<ge> k. chosen M a t0 i)"

definition up_to_date :: "sp_entry list \<Rightarrow> sp_entry list \<Rightarrow> bool" where
  "up_to_date k l \<longleftrightarrow> fst (last l) < fst (last k) \<or> fst (last l) = fst (last k) \<and> length l \<le> length k"

definition adopted :: "nat \<Rightarrow> sp_entry list \<Rightarrow> sp_entry list \<Rightarrow> sp_entry list" where
  "adopted m g l = (if agree m l g then l else take (Suc m) g)"

inductive node_does :: "string set \<Rightarrow> string \<Rightarrow> Spec \<Rightarrow> Spec \<Rightarrow> bool" for M where
  bump: "v \<in> M \<Longrightarrow> sp_term a v \<le> t \<Longrightarrow> node_does M v a (a\<lparr>sp_term := (sp_term a)(v := t)\<rparr>)"
| campaign: "c \<in> M \<Longrightarrow> sp_term a c < t \<Longrightarrow>
    node_does M c a (a\<lparr>sp_term := (sp_term a)(c := t), sp_cand := (sp_cand a)(c := (sp_cand a c)(t := sp_log a c)),
      sp_votes := insert (c, t, c) (sp_votes a)\<rparr>)"
| vote: "v \<in> M \<Longrightarrow> sp_term a v \<le> t \<Longrightarrow> sp_cand a c t \<noteq> [] \<Longrightarrow> up_to_date (sp_cand a c t) (sp_log a v) \<Longrightarrow>
    node_does M v a (a\<lparr>sp_term := (sp_term a)(v := t), sp_votes := insert (v, t, c) (sp_votes a)\<rparr>)"
| lead: "c \<in> M \<Longrightarrow> sp_term a c = t \<Longrightarrow> sp_log a c = sp_cand a c t \<Longrightarrow> sp_hist a t = [] \<Longrightarrow>
    majority M Q \<Longrightarrow> \<forall>v \<in> Q. (v, t, c) \<in> sp_votes a \<Longrightarrow>
    node_does M c a (a\<lparr>sp_hist := (sp_hist a)(t := sp_log a c), sp_lead := (sp_lead a)(t := c)\<rparr>)"
| propose: "c \<in> M \<Longrightarrow> sp_term a c = t \<Longrightarrow> sp_lead a t = c \<Longrightarrow> sp_hist a t \<noteq> [] \<Longrightarrow> 0 < t \<Longrightarrow>
    node_does M c a (a\<lparr>sp_hist := (sp_hist a)(t := sp_hist a t @ [(t, x)]),
      sp_log := (sp_log a)(c := sp_log a c @ [(t, x)]),
      sp_ack := (sp_ack a)(c := (sp_ack a c)(t := length (sp_hist a t)))\<rparr>)"
| adopt: "v \<in> M \<Longrightarrow> sp_term a v = t \<Longrightarrow> sp_lead a t \<noteq> v \<Longrightarrow> m < length (sp_hist a t) \<Longrightarrow> 0 < t \<Longrightarrow>
    node_does M v a (a\<lparr>sp_log := (sp_log a)(v := adopted m (sp_hist a t) (sp_log a v)),
      sp_ack := (sp_ack a)(v := (sp_ack a v)(t := max (sp_ack a v t) m))\<rparr>)"
| learn: "v \<in> M \<Longrightarrow> t \<le> sp_term a v \<Longrightarrow> settled M a t k \<Longrightarrow> agree k (sp_log a v) (sp_hist a t) \<Longrightarrow>
    sp_commit a v \<le> k \<Longrightarrow> node_does M v a (a\<lparr>sp_commit := (sp_commit a)(v := k)\<rparr>)"

definition spec_step :: "string set \<Rightarrow> Spec \<Rightarrow> Spec \<Rightarrow> bool" where
  "spec_step M a a' \<longleftrightarrow> (\<exists>v. node_does M v a a')"

text \<open>All nodes start with the same log of entries of term 0, all of it committed.\<close>

definition spec_init :: "string set \<Rightarrow> Spec \<Rightarrow> bool" where
  "spec_init M a \<longleftrightarrow> finite M \<and> M \<noteq> {} \<and> (\<exists>l. l \<noteq> [] \<and> (\<forall>e \<in> set l. fst e = 0) \<and>
     (\<forall>c. sp_term a c = 0 \<and> sp_log a c = l \<and> sp_commit a c = length l - 1) \<and>
     sp_hist a = (\<lambda>t. if t = 0 then l else []) \<and>
     sp_ack a = (\<lambda>v t. if t = 0 then length l - 1 else 0) \<and> sp_cand a = (\<lambda>c t. []) \<and> sp_votes a = {})"

section \<open>Agreement of logs and majorities\<close>

lemma agree_refl [simp]: "agree i xs xs \<longleftrightarrow> i < length xs"
  by (simp add: agree_def)

lemma agree_sym: "agree i xs ys \<Longrightarrow> agree i ys xs"
  by (simp add: agree_def)

lemma agree_trans [trans]: "agree i xs ys \<Longrightarrow> agree i ys zs \<Longrightarrow> agree i xs zs"
  by (simp add: agree_def)

lemma agree_less: "agree i xs ys \<Longrightarrow> j \<le> i \<Longrightarrow> agree j xs ys"
  unfolding agree_def by (metis Suc_le_mono le_less_trans min_absorb1 take_take)

lemma agree_append: "agree i xs ys \<Longrightarrow> agree i xs (ys @ zs)"
  by (simp add: agree_def)

lemma agree_prefix: "agree i xs ys \<Longrightarrow> prefix ys ys' \<Longrightarrow> agree i xs ys'"
  by (auto simp: prefix_def intro: agree_append)

lemma agree_prefix_left: "agree i xs ys \<Longrightarrow> prefix xs xs' \<Longrightarrow> agree i xs' ys"
  by (blast intro: agree_sym agree_prefix)

lemma agree_take: "i \<le> m \<Longrightarrow> m < length xs \<Longrightarrow> agree i (take (Suc m) xs) xs"
  by (simp add: agree_def min_def)

lemma prefix_agree: "prefix xs ys \<Longrightarrow> i < length xs \<Longrightarrow> agree i xs ys"
  by (auto simp: prefix_def agree_def)

lemma agree_nth: "agree i xs ys \<Longrightarrow> j \<le> i \<Longrightarrow> xs ! j = ys ! j"
  unfolding agree_def by (metis le_imp_less_Suc nth_take)

lemma agree_lengthD: "agree i xs ys \<Longrightarrow> i < length xs" "agree i xs ys \<Longrightarrow> i < length ys"
  by (simp_all add: agree_def)

lemma agree_last_prefix: "xs \<noteq> [] \<Longrightarrow> agree (length xs - 1) xs ys \<Longrightarrow> prefix xs ys"
  by (simp add: agree_def) (metis take_is_prefix)

lemma prefix_agree_last: "xs \<noteq> [] \<Longrightarrow> prefix xs ys \<Longrightarrow> agree (length xs - 1) xs ys"
  by (rule prefix_agree) simp_all

lemma majorities_meet:
  assumes "finite M" and "majority M P" and "majority M Q"
  obtains v where "v \<in> P" and "v \<in> Q"
proof -
  have "P \<subseteq> M" "Q \<subseteq> M" "card M < 2 * card P" "card M < 2 * card Q"
    using assms(2,3) by (simp_all add: majority_def)
  moreover from this assms(1) have "card (P \<union> Q) \<le> card M" by (intro card_mono) auto
  moreover have "card (P \<union> Q) = card P + card Q" if "P \<inter> Q = {}"
    using that calculation(1,2) assms(1) finite_subset by (intro card_Un_disjoint) auto
  ultimately have "P \<inter> Q \<noteq> {}" by auto
  then show thesis using that by blast
qed

lemma chosen_not_dead: "finite M \<Longrightarrow> chosen M a t i \<Longrightarrow> \<not> dead M a t i"
  unfolding chosen_def dead_def by (metis majorities_meet not_less)

section \<open>What only grows\<close>

definition grows :: "Spec \<Rightarrow> Spec \<Rightarrow> bool" where
  "grows a a' \<longleftrightarrow> (\<forall>v. sp_term a v \<le> sp_term a' v) \<and> (\<forall>t. prefix (sp_hist a t) (sp_hist a' t)) \<and>
     (\<forall>v t. sp_ack a v t \<le> sp_ack a' v t) \<and> (\<forall>v t. t < sp_term a v \<longrightarrow> sp_ack a' v t = sp_ack a v t)"

lemma grows_refl [simp]: "grows a a"
  by (simp add: grows_def)

lemma grows_term: "grows a a' \<Longrightarrow> sp_term a v \<le> sp_term a' v"
  by (simp add: grows_def)

lemma grows_hist: "grows a a' \<Longrightarrow> prefix (sp_hist a t) (sp_hist a' t)"
  by (simp add: grows_def)

lemma grows_ack: "grows a a' \<Longrightarrow> sp_ack a v t \<le> sp_ack a' v t"
  by (simp add: grows_def)

lemma grows_frozen: "grows a a' \<Longrightarrow> t < sp_term a v \<Longrightarrow> sp_ack a' v t = sp_ack a v t"
  by (simp add: grows_def)

lemma grows_trans:
  assumes "grows a b" and "grows b c"
  shows "grows a c"
  unfolding grows_def
proof (intro conjI allI impI)
  show "sp_term a v \<le> sp_term c v" for v by (rule order_trans [OF grows_term [OF assms(1)] grows_term [OF assms(2)]])
  show "prefix (sp_hist a t) (sp_hist c t)" for t
    by (rule prefix_order.order_trans [OF grows_hist [OF assms(1)] grows_hist [OF assms(2)]])
  show "sp_ack a v t \<le> sp_ack c v t" for v t by (rule order_trans [OF grows_ack [OF assms(1)] grows_ack [OF assms(2)]])
  show "sp_ack c v t = sp_ack a v t" if "t < sp_term a v" for v t
  proof -
    have "t < sp_term b v" by (rule order.strict_trans2 [OF that grows_term [OF assms(1)]])
    then show ?thesis using grows_frozen [OF assms(1) that] grows_frozen [OF assms(2)] by simp
  qed
qed

lemma grows_owned:
  assumes "grows a a'" and "owned a t i"
  shows "owned a' t i"
proof -
  have "agree i (sp_hist a t) (sp_hist a' t)"
    using assms by (intro prefix_agree grows_hist) (simp_all add: owned_def)
  then show ?thesis using assms(2) agree_nth [of i "sp_hist a t" "sp_hist a' t" i] by (simp add: owned_def agree_lengthD)
qed

lemma grows_chosen: "grows a a' \<Longrightarrow> chosen M a t i \<Longrightarrow> chosen M a' t i"
  unfolding chosen_def using grows_owned by (metis grows_def order_trans)

lemma grows_dead:
  assumes "grows a a'" and "dead M a t i"
  shows "dead M a' t i"
proof -
  obtain Q where Q: "majority M Q" "\<forall>v \<in> Q. t < sp_term a v \<and> sp_ack a v t < i"
    using assms(2) by (auto simp: dead_def)
  have "t < sp_term a' v \<and> sp_ack a' v t < i" if "v \<in> Q" for v
    using assms(1) Q(2) that order.strict_trans2 [of t "sp_term a v" "sp_term a' v"] by (simp add: grows_def)
  with Q(1) show ?thesis by (auto simp: dead_def)
qed

lemma grows_settled: "grows a a' \<Longrightarrow> settled M a t k \<Longrightarrow> settled M a' t k"
  using grows_hist [of a a' t] grows_chosen [of a a' M] unfolding settled_def by fastforce

section \<open>The invariant\<close>

text \<open>A log holds what may have been chosen at a place of an earlier term.\<close>

definition covers :: "string set \<Rightarrow> Spec \<Rightarrow> sp_entry list \<Rightarrow> u64 \<Rightarrow> nat \<Rightarrow> bool" where
  "covers M a l u i \<longleftrightarrow> agree i l (sp_hist a u) \<or> dead M a u i"

text \<open>Every log is a prefix of a leader's, and every leader's log takes each entry from its owner.\<close>

definition logs_ok :: "string set \<Rightarrow> Spec \<Rightarrow> bool" where
  "logs_ok M a \<longleftrightarrow> (\<forall>c \<in> M. sp_log a c \<noteq> [] \<and> (\<exists>t \<le> sp_term a c. prefix (sp_log a c) (sp_hist a t)))"

definition cands_ok :: "Spec \<Rightarrow> bool" where
  "cands_ok a \<longleftrightarrow> (\<forall>c t. sp_cand a c t \<noteq> [] \<longrightarrow>
     t \<le> sp_term a c \<and> (\<exists>u < t. prefix (sp_cand a c t) (sp_hist a u)))"

definition hist_ok :: "Spec \<Rightarrow> bool" where
  "hist_ok a \<longleftrightarrow> (\<forall>t i. i < length (sp_hist a t) \<longrightarrow>
     fst (sp_hist a t ! i) \<le> t \<and> agree i (sp_hist a t) (sp_hist a (fst (sp_hist a t ! i)))) \<and>
     (\<forall>t. sorted (map fst (sp_hist a t)) \<and> (sp_hist a t \<noteq> [] \<longrightarrow> fst (sp_hist a t ! 0) = 0))"

definition leaders_ok :: "string set \<Rightarrow> Spec \<Rightarrow> bool" where
  "leaders_ok M a \<longleftrightarrow> (\<forall>t > 0. sp_hist a t \<noteq> [] \<longrightarrow>
     (\<exists>Q. majority M Q \<and> (\<forall>v \<in> Q. t \<le> sp_term a v \<and> (v, t, sp_lead a t) \<in> sp_votes a)) \<and>
     sp_lead a t \<in> M \<and> t \<le> sp_term a (sp_lead a t) \<and>
     (sp_term a (sp_lead a t) = t \<longrightarrow> sp_log a (sp_lead a t) = sp_hist a t))"

definition acks_ok :: "Spec \<Rightarrow> bool" where
  "acks_ok a \<longleftrightarrow> (\<forall>v t. sp_ack a v t \<le> length (sp_hist a t) - 1 \<and> (sp_term a v < t \<longrightarrow> sp_ack a v t = 0))"

text \<open>What a node acknowledged it still has, unless the entry is dead.\<close>

definition kept_ok :: "string set \<Rightarrow> Spec \<Rightarrow> bool" where
  "kept_ok M a \<longleftrightarrow> (\<forall>v \<in> M. \<forall>t i. owned a t i \<longrightarrow> i \<le> sp_ack a v t \<longrightarrow> covers M a (sp_log a v) t i)"

text \<open>A vote: the candidate has what the voter acknowledged before.\<close>

definition vote_ok :: "string set \<Rightarrow> Spec \<Rightarrow> string \<times> u64 \<times> string \<Rightarrow> bool" where
  "vote_ok M a b = (case b of (v, t, c) \<Rightarrow> v \<in> M \<and> t \<le> sp_term a v \<and> sp_cand a c t \<noteq> [] \<and>
     (\<forall>u < t. \<forall>i. owned a u i \<longrightarrow> sp_ack a v u < i \<or> covers M a (sp_cand a c t) u i))"

definition votes_ok :: "string set \<Rightarrow> Spec \<Rightarrow> bool" where
  "votes_ok M a \<longleftrightarrow> (\<forall>b \<in> sp_votes a. vote_ok M a b)"

text \<open>A leader's log holds everything of the earlier terms that may have been chosen.\<close>

definition safe :: "string set \<Rightarrow> Spec \<Rightarrow> bool" where
  "safe M a \<longleftrightarrow> (\<forall>t. sp_hist a t \<noteq> [] \<longrightarrow> (\<forall>u < t. \<forall>i. owned a u i \<longrightarrow> covers M a (sp_hist a t) u i))"

definition commits_ok :: "string set \<Rightarrow> Spec \<Rightarrow> bool" where
  "commits_ok M a \<longleftrightarrow> (\<forall>v \<in> M. \<exists>t \<le> sp_term a v. \<exists>i \<ge> sp_commit a v.
     chosen M a t i \<and> agree (sp_commit a v) (sp_log a v) (sp_hist a t))"

definition spec_inv :: "string set \<Rightarrow> Spec \<Rightarrow> bool" where
  "spec_inv M a \<longleftrightarrow> finite M \<and> logs_ok M a \<and> cands_ok a \<and> hist_ok a \<and> leaders_ok M a \<and> acks_ok a \<and>
     kept_ok M a \<and> votes_ok M a \<and> safe M a \<and> commits_ok M a"

lemma grows_covers:
  assumes "grows a a'" and "covers M a l u i" and "prefix l l'"
  shows "covers M a' l' u i"
  using assms agree_prefix [OF agree_prefix_left] grows_hist [OF assms(1)] grows_dead [OF assms(1)]
  unfolding covers_def by blast

lemma grows_covers_same: "grows a a' \<Longrightarrow> covers M a l u i \<Longrightarrow> covers M a' l u i"
  by (rule grows_covers [OF _ _ prefix_order.refl])

lemma covers_chosen: "finite M \<Longrightarrow> covers M a l u i \<Longrightarrow> chosen M a u i \<Longrightarrow> agree i l (sp_hist a u)"
  by (auto simp: covers_def dest: chosen_not_dead)

lemma chosen_owned: "chosen M a t i \<Longrightarrow> owned a t i"
  by (simp add: chosen_def)

lemma owned_inside: "owned a t i \<Longrightarrow> i < length (sp_hist a t)" "owned a t i \<Longrightarrow> sp_hist a t \<noteq> []"
  by (auto simp: owned_def)

lemma owned_frame: "sp_hist a' = sp_hist a \<Longrightarrow> owned a' = owned a"
  by (simp add: owned_def fun_eq_iff)

lemma covers_alive: "covers M a l u i \<Longrightarrow> \<not> dead M a u i \<Longrightarrow> agree i l (sp_hist a u)"
  by (simp add: covers_def)

lemma inv_kept: "spec_inv M a \<Longrightarrow> v \<in> M \<Longrightarrow> owned a t i \<Longrightarrow> i \<le> sp_ack a v t \<Longrightarrow> covers M a (sp_log a v) t i"
  by (simp add: spec_inv_def kept_ok_def)

lemma inv_safe: "spec_inv M a \<Longrightarrow> sp_hist a t \<noteq> [] \<Longrightarrow> u < t \<Longrightarrow> owned a u i \<Longrightarrow> covers M a (sp_hist a t) u i"
  by (simp add: spec_inv_def safe_def)

text \<open>The leader's log of a later term holds what was chosen.\<close>

lemma safe_chosen:
  assumes "spec_inv M a" and "sp_hist a t \<noteq> []" and "u \<le> t" and "chosen M a u i"
  shows "agree i (sp_hist a t) (sp_hist a u)"
proof (cases "u = t")
  case True
  then show ?thesis using owned_inside(1) [OF chosen_owned [OF assms(4)]] by simp
next
  case False
  then have "u < t" using assms(3) by simp
  then have "covers M a (sp_hist a t) u i"
    using assms chosen_owned by (simp add: spec_inv_def safe_def)
  then show ?thesis using assms by (intro covers_chosen [of M]) (simp_all add: spec_inv_def)
qed

lemma settled_agree:
  assumes "spec_inv M a" and "settled M a t k"
  obtains u i where "u \<le> t" "k \<le> i" "chosen M a u i" "agree i (sp_hist a t) (sp_hist a u)"
  using assms safe_chosen unfolding settled_def by blast

section \<open>Every step keeps the invariant\<close>

text \<open>Steps that leave the leaders' logs as they are keep the facts about them.\<close>

lemma inv_frame:
  assumes "spec_inv M a" and "grows a a'" and "sp_hist a' = sp_hist a"
  shows "hist_ok a'" and "safe M a'"
proof -
  show "hist_ok a'" using assms by (simp add: spec_inv_def hist_ok_def)
  show "safe M a'"
    using assms(1) grows_covers_same [OF assms(2)] by (simp add: spec_inv_def safe_def owned_frame [OF assms(3)] assms(3))
qed

lemma vote_ok_owned:
  assumes "grows a a'" and "sp_cand a' c t = sp_cand a c t" and "vote_ok M a (v, t, c)"
    and new: "\<And>u i. u < t \<Longrightarrow> owned a' u i \<Longrightarrow> \<not> owned a u i \<Longrightarrow> sp_ack a v u < i"
  shows "vote_ok M a' (v, t, c)"
proof -
  have v: "v \<in> M" "t \<le> sp_term a v" "sp_cand a c t \<noteq> []"
    "owned a u i \<Longrightarrow> u < t \<Longrightarrow> sp_ack a v u < i \<or> covers M a (sp_cand a c t) u i" for u i
    using assms(3) by (auto simp: vote_ok_def)
  have frozen: "sp_ack a' v u = sp_ack a v u" if "u < t" for u
    by (rule grows_frozen [OF assms(1) order.strict_trans2 [OF that v(2)]])
  have "sp_ack a' v u < i \<or> covers M a' (sp_cand a c t) u i" if "u < t" "owned a' u i" for u i
    using v(4) [OF _ that(1), of i] new [OF that] frozen [OF that(1)] grows_covers_same [OF assms(1), of M "sp_cand a c t" u i]
    by (cases "owned a u i") auto
  then show ?thesis
    using v(1,3) order_trans [OF v(2) grows_term [OF assms(1)]] by (simp add: vote_ok_def assms(2))
qed

lemma vote_ok_grows:
  assumes "grows a a'" and "sp_hist a' = sp_hist a" and "sp_cand a' c t = sp_cand a c t" and "vote_ok M a (v, t, c)"
  shows "vote_ok M a' (v, t, c)"
  by (rule vote_ok_owned [OF assms(1,3,4)]) (simp add: owned_frame [OF assms(2)])

lemma inv_raise:
  assumes inv: "spec_inv M a" and up: "\<And>v. sp_term a v \<le> sp_term a' v"
    and same: "sp_hist a' = sp_hist a" "sp_log a' = sp_log a" "sp_commit a' = sp_commit a" "sp_ack a' = sp_ack a"
      "sp_lead a' = sp_lead a" "sp_votes a \<subseteq> sp_votes a'"
    and "cands_ok a'" and "votes_ok M a'"
  shows "spec_inv M a'"
proof -
  have gr: "grows a a'" by (simp add: grows_def up same(1-5))
  have "logs_ok M a'"
    using inv order_trans [OF _ up] unfolding spec_inv_def logs_ok_def same(1-5) by blast
  moreover have "leaders_ok M a'"
    unfolding leaders_ok_def same(1-5)
  proof (intro allI impI)
    fix t :: u64 assume t: "0 < t" "sp_hist a t \<noteq> []"
    then obtain Q where Q: "majority M Q" "\<forall>v \<in> Q. t \<le> sp_term a v \<and> (v, t, sp_lead a t) \<in> sp_votes a"
      and l: "sp_lead a t \<in> M" "t \<le> sp_term a (sp_lead a t)"
        "sp_term a (sp_lead a t) = t \<longrightarrow> sp_log a (sp_lead a t) = sp_hist a t"
      using inv by (auto simp: spec_inv_def leaders_ok_def)
    have "\<forall>v \<in> Q. t \<le> sp_term a' v \<and> (v, t, sp_lead a t) \<in> sp_votes a'"
      using Q(2) same(6) order_trans [OF _ up] by blast
    moreover have "sp_term a' (sp_lead a t) = t \<longrightarrow> sp_log a (sp_lead a t) = sp_hist a t"
      using l(2,3) up [of "sp_lead a t"] by (metis order_antisym)
    ultimately show "(\<exists>Q. majority M Q \<and> (\<forall>v \<in> Q. t \<le> sp_term a' v \<and> (v, t, sp_lead a t) \<in> sp_votes a')) \<and>
        sp_lead a t \<in> M \<and> t \<le> sp_term a' (sp_lead a t) \<and> (sp_term a' (sp_lead a t) = t \<longrightarrow> sp_log a (sp_lead a t) = sp_hist a t)"
      using Q(1) l(1,2) order_trans [OF l(2) up] by blast
  qed
  moreover have "acks_ok a'"
    using inv order.strict_trans1 [OF up] unfolding spec_inv_def acks_ok_def same(1-5) by blast
  moreover have "kept_ok M a'"
    using inv grows_covers_same [OF gr] unfolding spec_inv_def kept_ok_def same(1-5) owned_frame [OF same(1)] by blast
  moreover have "commits_ok M a'"
    using inv grows_chosen [OF gr] order_trans [OF _ up] unfolding spec_inv_def commits_ok_def same(1-5) by blast
  ultimately show ?thesis
    using inv assms(9,10) inv_frame [OF inv gr same(1)] by (simp add: spec_inv_def)
qed

lemma inv_bump:
  assumes "spec_inv M a" and "sp_term a v \<le> t"
  shows "spec_inv M (a\<lparr>sp_term := (sp_term a)(v := t)\<rparr>)" (is "spec_inv M ?a")
proof (rule inv_raise [OF assms(1)])
  show up: "sp_term a w \<le> sp_term ?a w" for w using assms(2) by simp
  have gr: "grows a ?a" using up by (simp add: grows_def)
  show "cands_ok ?a"
    using assms(1) order_trans [OF _ up] by (simp add: spec_inv_def cands_ok_def)
  show "votes_ok M ?a"
    using assms(1) vote_ok_grows [OF gr] by (auto simp: spec_inv_def votes_ok_def)
qed auto

lemma inv_campaign:
  assumes inv: "spec_inv M a" and "c \<in> M" and less: "sp_term a c < t"
  shows "spec_inv M (a\<lparr>sp_term := (sp_term a)(c := t), sp_cand := (sp_cand a)(c := (sp_cand a c)(t := sp_log a c)),
      sp_votes := insert (c, t, c) (sp_votes a)\<rparr>)" (is "spec_inv M ?a")
proof (rule inv_raise [OF inv])
  show up: "sp_term a w \<le> sp_term ?a w" for w using less by (simp add: less_imp_le)
  have gr: "grows a ?a" using up by (simp add: grows_def)
  have log: "sp_log a c \<noteq> []" "\<exists>u \<le> sp_term a c. prefix (sp_log a c) (sp_hist a u)"
    using inv assms(2) by (auto simp: spec_inv_def logs_ok_def)
  have cands: "sp_cand a d u \<noteq> [] \<Longrightarrow> u \<le> sp_term a d \<and> (\<exists>w < u. prefix (sp_cand a d u) (sp_hist a w))" for d u
    using inv by (simp add: spec_inv_def cands_ok_def)
  show "cands_ok ?a"
    unfolding cands_ok_def
  proof (intro allI impI)
    fix d u assume ne: "sp_cand ?a d u \<noteq> []"
    show "u \<le> sp_term ?a d \<and> (\<exists>w < u. prefix (sp_cand ?a d u) (sp_hist ?a w))"
    proof (cases "d = c \<and> u = t")
      case True
      with log(2) order.strict_trans1 [OF _ less] show ?thesis by auto
    next
      case False
      then have "sp_cand ?a d u = sp_cand a d u" by auto
      with ne cands [of d u] order_trans [OF _ up [of d]] show ?thesis by auto
    qed
  qed
  have new: "d = c \<and> u = t \<longrightarrow> sp_cand a d u = []" for d u
    using cands [of d u] less leD by blast
  have old: "sp_cand ?a d u = sp_cand a d u" if "vote_ok M a (v, u, d)" for v u d
    using that new by (auto simp: vote_ok_def)
  have "sp_ack a c u < i \<or> covers M ?a (sp_log a c) u i" if "owned ?a u i" for u i
  proof (cases "sp_ack a c u < i")
    case False
    then have "covers M a (sp_log a c) u i"
      using inv assms(2) that owned_frame [of ?a a] by (simp add: spec_inv_def kept_ok_def)
    then show ?thesis using grows_covers_same [OF gr] by blast
  qed simp
  then have "vote_ok M ?a (c, t, c)" using assms(2) log(1) by (simp add: vote_ok_def)
  moreover have "vote_ok M ?a b" if "b \<in> sp_votes a" for b
  proof (cases b)
    case (fields v u d)
    then have "vote_ok M a (v, u, d)" using inv that by (simp add: spec_inv_def votes_ok_def)
    then show ?thesis unfolding fields by (intro vote_ok_grows [OF gr _ old]) simp_all
  qed
  ultimately show "votes_ok M ?a" by (simp add: votes_ok_def)
qed auto

text \<open>An up-to-date candidate has what the voter has of the earlier terms.\<close>

lemma inv_log_agree:
  assumes "spec_inv M a" and "prefix l (sp_hist a t)" and "i < length l"
  shows "agree i l (sp_hist a (fst (l ! i)))" and "fst (l ! i) \<le> t"
proof -
  have p: "agree i l (sp_hist a t)" by (rule prefix_agree [OF assms(2,3)])
  then have "l ! i = sp_hist a t ! i" "i < length (sp_hist a t)" by (auto intro: agree_nth agree_lengthD)
  with assms(1) p show "agree i l (sp_hist a (fst (l ! i)))" "fst (l ! i) \<le> t"
    by (auto simp: spec_inv_def hist_ok_def intro: agree_trans)
qed

lemma inv_log_sorted:
  assumes "spec_inv M a" and "prefix l (sp_hist a t)" and "i \<le> j" and "j < length l"
  shows "fst (l ! i) \<le> fst (l ! j)"
proof -
  have "agree j l (sp_hist a t)" by (rule prefix_agree [OF assms(2,4)])
  then have "l ! i = sp_hist a t ! i" "l ! j = sp_hist a t ! j" "j < length (sp_hist a t)"
    using agree_nth assms(3) agree_lengthD by (blast, blast, blast)
  moreover have "sorted (map fst (sp_hist a t))" using assms(1) by (simp add: spec_inv_def hist_ok_def)
  ultimately show ?thesis using assms(3) by (simp add: sorted_iff_nth_mono)
qed


lemma up_to_date_covers:
  assumes inv: "spec_inv M a" and v: "v \<in> M" and cand: "sp_cand a c t \<noteq> []"
    and utd: "up_to_date (sp_cand a c t) (sp_log a v)" and own: "owned a u i" and ack: "i \<le> sp_ack a v u"
  shows "covers M a (sp_cand a c t) u i"
proof (cases "dead M a u i")
  case False
  let ?K = "sp_cand a c t" and ?l = "sp_log a v"
  let ?tk = "fst (last ?K)" and ?tl = "fst (last ?l)"
  obtain w where w: "prefix ?K (sp_hist a w)" using inv cand by (auto simp: spec_inv_def cands_ok_def)
  obtain x where x: "?l \<noteq> []" "prefix ?l (sp_hist a x)" using inv v by (auto simp: spec_inv_def logs_ok_def)
  have K: "prefix ?K (sp_hist a ?tk)"
    using inv_log_agree(1) [OF inv w, of "length ?K - 1"] cand by (intro agree_last_prefix) (simp_all add: last_conv_nth)
  have l: "prefix ?l (sp_hist a ?tl)"
    using inv_log_agree(1) [OF inv x(2), of "length ?l - 1"] x(1) by (intro agree_last_prefix) (simp_all add: last_conv_nth)
  have at: "agree i ?l (sp_hist a u)"
    by (rule covers_alive [OF inv_kept [OF inv v own ack] False])
  have "fst (?l ! i) = u" using agree_nth [OF at order_refl] own by (simp add: owned_def)
  then have "u \<le> ?tl"
    using inv_log_sorted [OF inv x(2), of i "length ?l - 1"] agree_lengthD(1) [OF at] by (simp add: last_conv_nth x(1))
  show ?thesis
    using utd unfolding up_to_date_def
  proof (elim disjE conjE)
    assume "?tl = ?tk" and "length ?l \<le> length ?K"
    then have "prefix ?l ?K" using K l by (metis prefix_length_prefix)
    then show ?thesis using agree_prefix_left [OF at] by (simp add: covers_def)
  next
    assume "?tl < ?tk"
    with \<open>u \<le> ?tl\<close> have less: "u < ?tk" by simp
    have "sp_hist a ?tk \<noteq> []" using K cand by auto
    then have hist: "agree i (sp_hist a ?tk) (sp_hist a u)"
      by (rule covers_alive [OF inv_safe [OF inv _ less own] False])
    have "i < length ?K"
    proof (rule ccontr)
      let ?j = "length ?K - 1"
      assume "\<not> i < length ?K"
      then have j: "?j \<le> i" by simp
      have "agree ?j ?K (sp_hist a ?tk)" by (rule prefix_agree_last [OF cand K])
      then have "?K ! ?j = sp_hist a ?tk ! ?j" by (rule agree_nth [OF _ order_refl])
      then have "?K ! ?j = sp_hist a u ! ?j" using agree_nth [OF hist j] by (rule trans)
      moreover have "?j < length (sp_hist a u)" using agree_lengthD(2) [OF hist] j by simp
      moreover have "fst (sp_hist a u ! k) \<le> u" if "k < length (sp_hist a u)" for k
        using inv that unfolding spec_inv_def hist_ok_def by blast
      ultimately have "?tk \<le> u" using cand by (simp add: last_conv_nth)
      with less show False by simp
    qed
    then show ?thesis using agree_trans [OF prefix_agree [OF K] hist] by (simp add: covers_def)
  qed
qed (simp add: covers_def)

lemma inv_vote:
  assumes inv: "spec_inv M a" and v: "v \<in> M" "sp_term a v \<le> t" and cand: "sp_cand a c t \<noteq> []"
    and utd: "up_to_date (sp_cand a c t) (sp_log a v)"
  shows "spec_inv M (a\<lparr>sp_term := (sp_term a)(v := t), sp_votes := insert (v, t, c) (sp_votes a)\<rparr>)"
    (is "spec_inv M ?a")
proof (rule inv_raise [OF inv])
  show up: "sp_term a w \<le> sp_term ?a w" for w using v(2) by simp
  have gr: "grows a ?a" using up by (simp add: grows_def)
  show "cands_ok ?a"
    using inv order_trans [OF _ up] by (simp add: spec_inv_def cands_ok_def)
  have "sp_ack a v u < i \<or> covers M ?a (sp_cand a c t) u i" if "owned ?a u i" for u i
  proof (cases "sp_ack a v u < i")
    case False
    then have "covers M a (sp_cand a c t) u i"
      using that owned_frame [of ?a a] by (intro up_to_date_covers [OF inv v(1) cand utd]) simp_all
    then show ?thesis using grows_covers_same [OF gr] by blast
  qed simp
  then have "vote_ok M ?a (v, t, c)" using v(1) cand by (simp add: vote_ok_def)
  moreover have "vote_ok M ?a b" if "b \<in> sp_votes a" for b
  proof (cases b)
    case (fields w u d)
    then have "vote_ok M a (w, u, d)" using inv that by (simp add: spec_inv_def votes_ok_def)
    then show ?thesis unfolding fields by (intro vote_ok_grows [OF gr]) simp_all
  qed
  ultimately show "votes_ok M ?a" by (simp add: votes_ok_def)
qed auto

lemma inv_learn:
  assumes inv: "spec_inv M a" and t: "t \<le> sp_term a v" and set: "settled M a t k" and at: "agree k (sp_log a v) (sp_hist a t)"
  shows "spec_inv M (a\<lparr>sp_commit := (sp_commit a)(v := k)\<rparr>)" (is "spec_inv M ?a")
proof -
  obtain u i where u: "u \<le> t" "k \<le> i" "chosen M a u i" "agree i (sp_hist a t) (sp_hist a u)"
    by (rule settled_agree [OF inv set])
  have "agree k (sp_log a v) (sp_hist a u)" by (rule agree_trans [OF at agree_less [OF u(4,2)]])
  moreover have gr: "grows a ?a" by (simp add: grows_def)
  ultimately have "commits_ok M ?a"
    using inv u(2) grows_chosen [OF gr] order_trans [OF u(1) t] u(3)
    unfolding spec_inv_def commits_ok_def by simp blast
  moreover have "vote_ok M ?a b" if "vote_ok M a b" for b
    using that vote_ok_grows [OF gr] by (cases b) simp
  moreover have "kept_ok M ?a"
    using inv grows_covers_same [OF gr] owned_frame [of ?a a] by (simp add: spec_inv_def kept_ok_def)
  ultimately show ?thesis
    using inv inv_frame [OF inv gr]
    by (simp add: spec_inv_def logs_ok_def cands_ok_def leaders_ok_def acks_ok_def votes_ok_def)
qed


lemma adopted_agree:
  assumes "agree i l (sp_hist a u)" and "agree i g (sp_hist a u)" and "m < length g"
  shows "agree i (adopted m g l) (sp_hist a u)"
proof (cases "agree m l g")
  case False
  have "i \<le> m"
  proof (rule ccontr)
    assume "\<not> i \<le> m"
    moreover have "agree i l g" by (rule agree_trans [OF assms(1) agree_sym [OF assms(2)]])
    ultimately show False using False agree_less [of i l g m] by simp
  qed
  then show ?thesis
    using False agree_trans [OF agree_take assms(2)] assms(3) by (simp add: adopted_def)
qed (simp add: adopted_def assms(1))

lemma adopted_reaches: "i \<le> m \<Longrightarrow> m < length g \<Longrightarrow> agree i (adopted m g l) g"
  by (auto simp: adopted_def intro: agree_take agree_less)

lemma owned_zero: "spec_inv M a \<Longrightarrow> owned a u 0 \<Longrightarrow> u = 0"
  by (auto simp: spec_inv_def hist_ok_def owned_def)

lemma inv_adopt:
  assumes inv: "spec_inv M a" and v: "v \<in> M" and t: "sp_term a v = t" and other: "sp_lead a t \<noteq> v"
    and m: "m < length (sp_hist a t)"
  shows "spec_inv M (a\<lparr>sp_log := (sp_log a)(v := adopted m (sp_hist a t) (sp_log a v)),
      sp_ack := (sp_ack a)(v := (sp_ack a v)(t := max (sp_ack a v t) m))\<rparr>)" (is "spec_inv M ?a")
proof -
  let ?g = "sp_hist a t" and ?l = "adopted m (sp_hist a t) (sp_log a v)"
  have gr: "grows a ?a" using t by (auto simp: grows_def)
  have own: "owned ?a = owned a" by (rule owned_frame) simp
  have g: "?g \<noteq> []" using m by auto
  obtain x where x: "x \<le> t" "prefix (sp_log a v) (sp_hist a x)" "sp_log a v \<noteq> []"
    using inv v t by (auto simp: spec_inv_def logs_ok_def)
  have l: "?l \<noteq> []" "\<exists>x \<le> t. prefix ?l (sp_hist a x)"
    using x m take_is_prefix [of "Suc m" ?g] by (auto simp: adopted_def)
  have "logs_ok M ?a"
    using inv l t by (simp add: spec_inv_def logs_ok_def)
  moreover have "leaders_ok M ?a"
    using inv t other by (auto simp: spec_inv_def leaders_ok_def)
  moreover have "acks_ok ?a"
    using inv t m by (auto simp: spec_inv_def acks_ok_def)
  moreover have "covers M a ?l u i" if own': "owned a u i" and i: "i \<le> sp_ack ?a v u" for u i
  proof (cases u t rule: linorder_cases)
    case less
    then have "i \<le> sp_ack a v u" using i by (simp split: if_splits)
    note old = inv_kept [OF inv v own' this] and inv_safe [OF inv g less own']
    then show ?thesis using adopted_agree [OF _ _ m, of i "sp_log a v" a u] by (auto simp: covers_def)
  next
    case equal
    show ?thesis
    proof (cases "i \<le> m")
      case True
      then show ?thesis using adopted_reaches m equal by (simp add: covers_def)
    next
      case False
      then have "i \<le> sp_ack a v u" using i equal by simp
      then have "covers M a (sp_log a v) u i" by (rule inv_kept [OF inv v own'])
      then show ?thesis
        using adopted_agree [OF _ _ m, of i "sp_log a v" a u] equal owned_inside(1) [OF own'] by (auto simp: covers_def)
    qed
  next
    case greater
    then have "sp_ack a v u = 0" using inv t by (simp add: spec_inv_def acks_ok_def)
    then have "i = 0" using i greater by (auto split: if_splits)
    then have "u = 0" using owned_zero [OF inv] own' by simp
    with greater show ?thesis by simp
  qed
  then have "kept_ok M ?a"
    using inv_kept [OF inv] grows_covers_same [OF gr] unfolding kept_ok_def own by (simp add: fun_upd_def)
  moreover have "commits_ok M ?a"
    unfolding commits_ok_def
  proof
    fix w assume w: "w \<in> M"
    obtain y i where y: "y \<le> sp_term a w" "sp_commit a w \<le> i" "chosen M a y i" "agree (sp_commit a w) (sp_log a w) (sp_hist a y)"
      using inv w by (auto simp: spec_inv_def commits_ok_def)
    have "agree (sp_commit a w) (sp_log ?a w) (sp_hist a y)"
    proof (cases "w = v")
      case True
      then have "agree (sp_commit a w) ?g (sp_hist a y)"
        using y t by (intro agree_less [OF safe_chosen [OF inv g _ y(3)]]) simp_all
      then show ?thesis using adopted_agree [OF y(4) _ m] True by simp
    qed (use y in simp)
    then show "\<exists>t \<le> sp_term ?a w. \<exists>i \<ge> sp_commit ?a w. chosen M ?a t i \<and> agree (sp_commit ?a w) (sp_log ?a w) (sp_hist ?a t)"
      using y(1,2) grows_chosen [OF gr y(3)] by (intro exI [of _ y] conjI exI [of _ i]) simp_all
  qed
  moreover have "vote_ok M ?a b" if "vote_ok M a b" for b
    using that vote_ok_grows [OF gr] by (cases b) simp
  ultimately show ?thesis
    using inv inv_frame [OF inv gr] by (simp add: spec_inv_def cands_ok_def votes_ok_def)
qed


lemma inv_lead:
  assumes inv: "spec_inv M a" and c: "c \<in> M" "sp_term a c = t" and cand: "sp_log a c = sp_cand a c t"
    and none: "sp_hist a t = []" and Q: "majority M Q" "\<forall>v \<in> Q. (v, t, c) \<in> sp_votes a"
  shows "spec_inv M (a\<lparr>sp_hist := (sp_hist a)(t := sp_log a c), sp_lead := (sp_lead a)(t := c)\<rparr>)" (is "spec_inv M ?a")
proof -
  let ?K = "sp_log a c"
  have K: "?K \<noteq> []" using inv c(1) by (simp add: spec_inv_def logs_ok_def)
  obtain w where w: "w < t" "prefix ?K (sp_hist a w)"
    using inv K cand unfolding spec_inv_def cands_ok_def by metis
  have gr: "grows a ?a" using none by (simp add: grows_def)
  have votes: "vote_ok M a (v, t, c)" if "v \<in> Q" for v
    using inv Q(2) that by (simp add: spec_inv_def votes_ok_def)
  have K_nth: "fst (?K ! i) < t" "agree i ?K (sp_hist a (fst (?K ! i)))" if "i < length ?K" for i
    using inv_log_agree [OF inv w(2) that] w(1) by auto
  have own: "owned ?a = owned a"
    using K_nth(1) none by (fastforce simp: owned_def fun_eq_iff)
  have "hist_ok ?a"
    unfolding hist_ok_def
  proof (intro conjI allI impI)
    fix x i assume i: "i < length (sp_hist ?a x)"
    show "fst (sp_hist ?a x ! i) \<le> x"
      using inv i K_nth(1) [of i] by (auto simp: spec_inv_def hist_ok_def)
    show "agree i (sp_hist ?a x) (sp_hist ?a (fst (sp_hist ?a x ! i)))"
    proof (cases "x = t")
      case True
      then show ?thesis using K_nth [of i] i agree_prefix [OF _ grows_hist [OF gr]] by simp
    next
      case False
      then have "agree i (sp_hist a x) (sp_hist a (fst (sp_hist a x ! i)))"
        using inv i by (simp add: spec_inv_def hist_ok_def)
      from agree_prefix [OF this grows_hist [OF gr]] show ?thesis using False by simp
    qed
  next
    fix x
    have "sorted (map fst ?K)"
      using inv_log_sorted [OF inv w(2)] by (simp add: sorted_iff_nth_mono)
    then show "sorted (map fst (sp_hist ?a x))" using inv by (simp add: spec_inv_def hist_ok_def)
    assume "sp_hist ?a x \<noteq> []"
    moreover have "?K ! 0 = sp_hist a w ! 0" "sp_hist a w \<noteq> []"
      using prefix_agree [OF w(2), of 0] K w(2) by (auto dest: agree_nth)
    ultimately show "fst (sp_hist ?a x ! 0) = 0" using inv by (auto simp: spec_inv_def hist_ok_def)
  qed
  moreover have "safe M ?a"
    unfolding safe_def own
  proof (intro allI impI)
    fix x u i assume x: "sp_hist ?a x \<noteq> []" "u < x" "owned a u i"
    have "covers M a (sp_hist ?a x) u i"
    proof (cases "x = t")
      case True
      show ?thesis
      proof (cases "\<forall>v \<in> Q. sp_ack a v u < i")
        case all: True
        have "u < sp_term a v" if "v \<in> Q" for v
          using votes [OF that] x(2) True by (auto simp: vote_ok_def)
        then show ?thesis using all Q(1) by (auto simp: covers_def dead_def)
      next
        case False
        then obtain v where "v \<in> Q" "\<not> sp_ack a v u < i" by blast
        then have "covers M a ?K u i" using votes x(2,3) True cand by (auto simp: vote_ok_def)
        then show ?thesis using True by simp
      qed
    qed (use inv_safe [OF inv _ x(2,3)] x(1) in simp)
    then show "covers M ?a (sp_hist ?a x) u i" by (rule grows_covers_same [OF gr])
  qed
  moreover have "logs_ok M ?a"
    unfolding logs_ok_def
  proof
    fix d assume "d \<in> M"
    then obtain y where "sp_log a d \<noteq> []" "y \<le> sp_term a d" "prefix (sp_log a d) (sp_hist a y)"
      using inv by (auto simp: spec_inv_def logs_ok_def)
    then show "sp_log ?a d \<noteq> [] \<and> (\<exists>t \<le> sp_term ?a d. prefix (sp_log ?a d) (sp_hist ?a t))"
      using none by (cases "y = t") auto
  qed
  moreover have "cands_ok ?a"
    unfolding cands_ok_def
  proof (intro allI impI)
    fix d y assume "sp_cand ?a d y \<noteq> []"
    then obtain u where u: "y \<le> sp_term a d" "u < y" "prefix (sp_cand a d y) (sp_hist a u)"
      using inv by (auto simp: spec_inv_def cands_ok_def)
    from prefix_order.order_trans [OF u(3) grows_hist [OF gr]] u(1,2)
    show "y \<le> sp_term ?a d \<and> (\<exists>u < y. prefix (sp_cand ?a d y) (sp_hist ?a u))"
      by (intro conjI exI [of _ u]) simp_all
  qed
  moreover have "\<forall>v \<in> Q. t \<le> sp_term a v \<and> (v, t, c) \<in> sp_votes a" using votes Q(2) by (simp add: vote_ok_def)
  then have "leaders_ok M ?a"
    using inv c Q(1) by (auto simp: spec_inv_def leaders_ok_def)
  moreover have "acks_ok ?a"
    unfolding acks_ok_def
  proof (intro allI conjI)
    fix v y
    have "sp_ack a v y \<le> length (sp_hist a y) - 1" "sp_term a v < y \<longrightarrow> sp_ack a v y = 0"
      using inv by (simp_all add: spec_inv_def acks_ok_def)
    then show "sp_ack ?a v y \<le> length (sp_hist ?a y) - 1" "sp_term ?a v < y \<longrightarrow> sp_ack ?a v y = 0"
      using none by (cases "y = t"; simp)+
  qed
  moreover have "kept_ok M ?a"
    using inv_kept [OF inv] grows_covers_same [OF gr] by (simp add: kept_ok_def own)
  moreover have "vote_ok M ?a b" if "vote_ok M a b" for b
    using that vote_ok_owned [OF gr] by (cases b) (simp add: own)
  moreover have "commits_ok M ?a"
    using inv grows_chosen [OF gr] agree_prefix [OF _ grows_hist [OF gr]]
    unfolding spec_inv_def commits_ok_def by fastforce
  ultimately show ?thesis
    using inv by (simp add: spec_inv_def votes_ok_def)
qed


lemma inv_propose:
  assumes inv: "spec_inv M a" and c: "c \<in> M" "sp_term a c = t" "sp_lead a t = c" and ne: "sp_hist a t \<noteq> []" and pos: "0 < t"
  shows "spec_inv M (a\<lparr>sp_hist := (sp_hist a)(t := sp_hist a t @ [(t, x)]),
      sp_log := (sp_log a)(c := sp_log a c @ [(t, x)]),
      sp_ack := (sp_ack a)(c := (sp_ack a c)(t := length (sp_hist a t)))\<rparr>)" (is "spec_inv M ?a")
proof -
  let ?n = "length (sp_hist a t)"
  have log: "sp_log a c = sp_hist a t" using inv c ne pos by (auto simp: spec_inv_def leaders_ok_def)
  have ack: "sp_ack a v u \<le> length (sp_hist a u) - 1" "sp_term a v < u \<Longrightarrow> sp_ack a v u = 0" for v u
    using inv by (simp_all add: spec_inv_def acks_ok_def)
  have ack_n: "sp_ack a v t < ?n" for v using ack(1) [of v t] ne by (cases "sp_hist a t") simp_all
  have gr: "grows a ?a" using c(2) ack_n by (auto simp: grows_def less_imp_le)
  have pre: "prefix (sp_log a v) (sp_log ?a v)" for v by simp
  have own: "owned ?a u i \<longleftrightarrow> owned a u i \<or> u = t \<and> i = ?n" for u i
    by (auto simp: owned_def nth_append less_Suc_eq)
  have "hist_ok ?a"
    unfolding hist_ok_def
  proof (intro conjI allI impI)
    fix y i assume i: "i < length (sp_hist ?a y)"
    show "fst (sp_hist ?a y ! i) \<le> y"
      using inv i by (auto simp: spec_inv_def hist_ok_def nth_append less_Suc_eq split: if_splits)
    show "agree i (sp_hist ?a y) (sp_hist ?a (fst (sp_hist ?a y ! i)))"
    proof (cases "i < length (sp_hist a y)")
      case True
      then have "agree i (sp_hist a y) (sp_hist a (fst (sp_hist a y ! i)))"
        using inv by (simp add: spec_inv_def hist_ok_def)
      moreover have "sp_hist ?a y ! i = sp_hist a y ! i" using True by (cases "y = t") (simp_all add: nth_append)
      ultimately show ?thesis
        using agree_prefix [OF agree_prefix_left [OF _ grows_hist [OF gr]] grows_hist [OF gr]] by metis
    next
      case False
      then have "y = t" "i = ?n" using i by (auto split: if_splits)
      then show ?thesis by simp
    qed
  next
    fix y
    have "\<forall>e \<in> set (sp_hist a t). fst e \<le> t"
      using inv by (simp add: spec_inv_def hist_ok_def all_set_conv_all_nth)
    then show "sorted (map fst (sp_hist ?a y))"
      using inv by (simp add: spec_inv_def hist_ok_def sorted_append)
    assume "sp_hist ?a y \<noteq> []"
    then show "fst (sp_hist ?a y ! 0) = 0"
      using inv ne by (auto simp: spec_inv_def hist_ok_def nth_append split: if_splits)
  qed
  moreover have "logs_ok M ?a"
    unfolding logs_ok_def
  proof
    fix d assume d: "d \<in> M"
    then obtain y where y: "sp_log a d \<noteq> []" "y \<le> sp_term a d" "prefix (sp_log a d) (sp_hist a y)"
      using inv by (auto simp: spec_inv_def logs_ok_def)
    show "sp_log ?a d \<noteq> [] \<and> (\<exists>t \<le> sp_term ?a d. prefix (sp_log ?a d) (sp_hist ?a t))"
    proof (cases "d = c")
      case True
      then show ?thesis using c(2) log by (intro conjI exI [of _ t]) simp_all
    next
      case False
      with y prefix_order.order_trans [OF y(3) grows_hist [OF gr]] show ?thesis
        by (intro conjI exI [of _ y]) simp_all
    qed
  qed
  moreover have "cands_ok ?a"
    unfolding cands_ok_def
  proof (intro allI impI)
    fix d y assume "sp_cand ?a d y \<noteq> []"
    then obtain u where u: "y \<le> sp_term a d" "u < y" "prefix (sp_cand a d y) (sp_hist a u)"
      using inv by (auto simp: spec_inv_def cands_ok_def)
    from prefix_order.order_trans [OF u(3) grows_hist [OF gr]] u(1,2)
    show "y \<le> sp_term ?a d \<and> (\<exists>u < y. prefix (sp_cand ?a d y) (sp_hist ?a u))"
      by (intro conjI exI [of _ u]) simp_all
  qed
  moreover have "leaders_ok M ?a"
    unfolding leaders_ok_def
  proof (intro allI impI)
    fix y :: u64 assume "0 < y" "sp_hist ?a y \<noteq> []"
    moreover from this have "sp_hist a y \<noteq> []" using ne by (auto split: if_splits)
    ultimately show "(\<exists>Q. majority M Q \<and> (\<forall>v \<in> Q. y \<le> sp_term ?a v \<and> (v, y, sp_lead ?a y) \<in> sp_votes ?a)) \<and>
        sp_lead ?a y \<in> M \<and> y \<le> sp_term ?a (sp_lead ?a y) \<and>
        (sp_term ?a (sp_lead ?a y) = y \<longrightarrow> sp_log ?a (sp_lead ?a y) = sp_hist ?a y)"
      using inv c log by (simp add: spec_inv_def leaders_ok_def)
  qed
  moreover have "acks_ok ?a"
    using ack c(2) ack_n by (auto simp: acks_ok_def less_imp_le)
  moreover have "kept_ok M ?a"
    unfolding kept_ok_def
  proof (intro ballI allI impI)
    fix v u i assume v: "v \<in> M" "owned ?a u i" "i \<le> sp_ack ?a v u"
    show "covers M ?a (sp_log ?a v) u i"
    proof (cases "v = c \<and> u = t")
      case True
      then show ?thesis using v(2,3) log by (auto simp: covers_def own)
    next
      case False
      then have "i \<le> sp_ack a v u" using v(3) by (auto split: if_splits)
      moreover from this have "owned a u i" using v(2) ack_n [of v] by (auto simp: own)
      ultimately show ?thesis using grows_covers [OF gr inv_kept [OF inv v(1)] pre] by blast
    qed
  qed
  moreover have "vote_ok M ?a (v, y, d)" if b: "vote_ok M a (v, y, d)" for v y d
    by (rule vote_ok_owned [OF gr _ b]) (use ack_n in \<open>auto simp: own\<close>)
  moreover have "safe M ?a"
    unfolding safe_def
  proof (intro allI impI)
    fix y u i assume y: "sp_hist ?a y \<noteq> []" "u < y" "owned ?a u i"
    then have y': "sp_hist a y \<noteq> []" using ne by (auto split: if_splits)
    show "covers M ?a (sp_hist ?a y) u i"
    proof (cases "owned a u i")
      case True
      show ?thesis by (rule grows_covers [OF gr inv_safe [OF inv y' y(2) True] grows_hist [OF gr]])
    next
      case False
      then have u: "u = t" "i = ?n" using y(3) by (simp_all add: own)
      then have "0 < y" using y(2) pos by simp
      then obtain Q where Q: "majority M Q" "\<forall>v \<in> Q. y \<le> sp_term a v"
        using inv y' by (auto simp: spec_inv_def leaders_ok_def)
      then have "\<forall>v \<in> Q. v \<noteq> c \<and> t < sp_term a v" using u y(2) c(2) by (auto dest: order.strict_trans2)
      then show ?thesis using Q(1) ack_n u by (auto simp: covers_def dead_def)
    qed
  qed
  moreover have "commits_ok M ?a"
    unfolding commits_ok_def
  proof
    fix v assume "v \<in> M"
    then obtain y i where y: "y \<le> sp_term a v" "sp_commit a v \<le> i" "chosen M a y i" "agree (sp_commit a v) (sp_log a v) (sp_hist a y)"
      using inv by (auto simp: spec_inv_def commits_ok_def)
    have "agree (sp_commit a v) (sp_log ?a v) (sp_hist ?a y)"
      by (rule agree_prefix [OF agree_prefix_left [OF y(4) pre] grows_hist [OF gr]])
    then show "\<exists>t \<le> sp_term ?a v. \<exists>i \<ge> sp_commit ?a v. chosen M ?a t i \<and> agree (sp_commit ?a v) (sp_log ?a v) (sp_hist ?a t)"
      using y(1,2) grows_chosen [OF gr y(3)] by (intro exI [of _ y] conjI exI [of _ i]) simp_all
  qed
  ultimately show ?thesis
    using inv by (auto simp: spec_inv_def votes_ok_def)
qed

lemma node_does_inv: "node_does M v a a' \<Longrightarrow> spec_inv M a \<Longrightarrow> spec_inv M a'"
proof (induction rule: node_does.induct)
  case (bump v a t)
  then show ?case by (intro inv_bump)
next
  case (campaign c a t)
  then show ?case by (intro inv_campaign)
next
  case (vote v a t c)
  then show ?case by (intro inv_vote)
next
  case (lead c a t Q)
  then show ?case by (intro inv_lead)
next
  case (propose c a t x)
  then show ?case by (intro inv_propose)
next
  case (adopt v a t m)
  then show ?case by (intro inv_adopt)
next
  case (learn v t a k)
  then show ?case by (intro inv_learn)
qed

lemma node_does_grows: "node_does M v a a' \<Longrightarrow> spec_inv M a \<Longrightarrow> grows a a'"
proof (induction rule: node_does.induct)
  case (propose c a t x)
  have "sp_ack a c t \<le> length (sp_hist a t) - 1" using propose.prems by (simp add: spec_inv_def acks_ok_def)
  then show ?case using propose.hyps(2) by (auto simp: grows_def)
qed (auto simp: grows_def)

text \<open>What the steps of one node leave alone.\<close>

definition moved :: "string \<Rightarrow> Spec \<Rightarrow> Spec \<Rightarrow> bool" where
  "moved c a a' \<longleftrightarrow> grows a a' \<and> sp_votes a \<subseteq> sp_votes a' \<and>
     (\<forall>d. d \<noteq> c \<longrightarrow> sp_term a' d = sp_term a d \<and> sp_log a' d = sp_log a d \<and> sp_commit a' d = sp_commit a d \<and>
        sp_cand a' d = sp_cand a d) \<and>
     (\<forall>t. sp_hist a t \<noteq> [] \<longrightarrow> sp_lead a' t = sp_lead a t) \<and>
     (\<forall>t. sp_hist a t = [] \<longrightarrow> sp_hist a' t \<noteq> [] \<longrightarrow> sp_lead a' t = c) \<and>
     (\<forall>t. sp_cand a c t \<noteq> [] \<longrightarrow> sp_cand a' c t = sp_cand a c t)"

lemma moved_refl [simp]: "moved c a a"
  by (simp add: moved_def)

lemma moved_trans:
  assumes "moved c a b" and "moved c b e"
  shows "moved c a e"
  unfolding moved_def
proof (intro conjI allI impI)
  show "grows a e" by (rule grows_trans [of a b]) (use assms in \<open>simp_all add: moved_def\<close>)
  show "sp_votes a \<subseteq> sp_votes e" using assms by (auto simp: moved_def)
  have kept: "sp_hist b t \<noteq> []" if "sp_hist a t \<noteq> []" for t
    using assms(1) that grows_hist [of a b t] by (auto simp: moved_def)
  show "sp_lead e t = sp_lead a t" if "sp_hist a t \<noteq> []" for t
    using assms that kept [OF that] by (simp add: moved_def)
  show "sp_lead e t = c" if "sp_hist a t = []" "sp_hist e t \<noteq> []" for t
    using assms that by (cases "sp_hist b t = []") (simp_all add: moved_def)
  show "sp_cand e c t = sp_cand a c t" if "sp_cand a c t \<noteq> []" for t
  proof -
    have "sp_cand b c t = sp_cand a c t" using assms(1) that by (simp add: moved_def)
    then show ?thesis using assms(2) that by (simp add: moved_def)
  qed
qed (use assms in \<open>simp_all add: moved_def\<close>)

lemma node_does_moved: "node_does M c a a' \<Longrightarrow> spec_inv M a \<Longrightarrow> moved c a a'"
proof (frule (1) node_does_grows, induction rule: node_does.induct)
  case (campaign c a t)
  have "t \<le> sp_term a c" if "sp_cand a c t \<noteq> []" using campaign.prems that by (simp add: spec_inv_def cands_ok_def)
  then have "sp_cand a c t = []" using campaign.hyps(2) leD by blast
  with campaign.prems show ?case by (auto simp: moved_def)
qed (auto simp: moved_def)

lemma node_run_moved:
  assumes "(node_does M c)\<^sup>*\<^sup>* a a'" and "spec_inv M a"
  shows "spec_inv M a' \<and> moved c a a'"
  using assms
proof (induction rule: rtranclp_induct)
  case (step b e)
  then show ?case using node_does_inv node_does_moved moved_trans by metis
qed simp

lemma node_run_spec: "(node_does M c)\<^sup>*\<^sup>* a a' \<Longrightarrow> (spec_step M)\<^sup>*\<^sup>* a a'"
  by (erule rtranclp_mono [THEN predicate2D, rotated]) (auto simp: spec_step_def)

lemma spec_run:
  assumes "(spec_step M)\<^sup>*\<^sup>* a a'" and "spec_inv M a"
  shows "spec_inv M a' \<and> grows a a'"
  using assms
proof (induction rule: rtranclp_induct)
  case (step b c)
  then show ?case using node_does_inv node_does_grows grows_trans unfolding spec_step_def by metis
qed simp

lemma spec_init_inv:
  assumes "spec_init M a"
  shows "spec_inv M a"
proof -
  obtain l where fin: "finite M" "M \<noteq> {}" and l: "l \<noteq> []" "\<forall>e \<in> set l. fst e = 0"
    and st: "\<forall>c. sp_term a c = 0 \<and> sp_log a c = l \<and> sp_commit a c = length l - 1"
      "sp_hist a = (\<lambda>t. if t = 0 then l else [])" "sp_ack a = (\<lambda>v t. if t = 0 then length l - 1 else 0)"
      "sp_cand a = (\<lambda>c t. [])" "sp_votes a = {}"
    using assms unfolding spec_init_def by blast
  have nth: "fst (l ! i) = 0" if "i < length l" for i using l(2) that by simp
  have own: "owned a t i \<longleftrightarrow> t = 0 \<and> i < length l" for t i
    using nth by (auto simp: owned_def st(2))
  have "sorted (map fst l)" using nth by (simp add: sorted_iff_nth_mono)
  then have "hist_ok a" using nth l(1) by (simp add: hist_ok_def st(2))
  moreover have "majority M M" using fin by (simp add: majority_def card_gt_0_iff)
  then have "chosen M a 0 (length l - 1)" using l(1) by (auto simp: chosen_def own st(3))
  then have "commits_ok M a" using l(1) st(1) by (fastforce simp: commits_ok_def st(2))
  ultimately show ?thesis
    using fin(1) l(1) st(1) own
    by (simp add: spec_inv_def logs_ok_def cands_ok_def leaders_ok_def acks_ok_def kept_ok_def votes_ok_def safe_def
        covers_def st(2-5))
qed

section \<open>Safety of the specification\<close>

text \<open>Log matching: entries of the same index and term have the same logs up to them.\<close>

lemma spec_log_matching:
  assumes inv: "spec_inv M a" and "c \<in> M" "d \<in> M" and i: "i < length (sp_log a c)" "i < length (sp_log a d)"
    and same: "fst (sp_log a c ! i) = fst (sp_log a d ! i)"
  shows "agree i (sp_log a c) (sp_log a d)"
proof -
  obtain x y where "prefix (sp_log a c) (sp_hist a x)" "prefix (sp_log a d) (sp_hist a y)"
    using inv assms(2,3) unfolding spec_inv_def logs_ok_def by blast
  note at = inv_log_agree(1) [OF inv this(1) i(1)] inv_log_agree(1) [OF inv this(2) i(2)]
  show ?thesis by (rule agree_trans [OF at(1) [unfolded same] agree_sym [OF at(2)]])
qed

text \<open>State machine safety, across time: what two nodes commit at an index is the same.\<close>

lemma spec_commits_agree:
  assumes inv: "spec_inv M a" and run: "(spec_step M)\<^sup>*\<^sup>* a a'" and v: "v \<in> M" "w \<in> M"
    and j: "j \<le> sp_commit a v" "j \<le> sp_commit a' w"
  shows "agree j (sp_log a v) (sp_log a' w)"
proof -
  have inv': "spec_inv M a'" and gr: "grows a a'" using spec_run [OF run inv] by simp_all
  have commits: "\<exists>t i. sp_commit b x \<le> i \<and> chosen M b t i \<and> agree (sp_commit b x) (sp_log b x) (sp_hist b t)"
    if "spec_inv M b" "x \<in> M" for b x
    using that unfolding spec_inv_def commits_ok_def by blast
  obtain t1 i1 where c1: "sp_commit a v \<le> i1" "chosen M a t1 i1" "agree (sp_commit a v) (sp_log a v) (sp_hist a t1)"
    using commits [OF inv v(1)] by blast
  obtain t2 i2 where c2: "sp_commit a' w \<le> i2" "chosen M a' t2 i2" "agree (sp_commit a' w) (sp_log a' w) (sp_hist a' t2)"
    using commits [OF inv' v(2)] by blast
  note ch1 = grows_chosen [OF gr c1(2)]
  have l1: "agree j (sp_log a v) (sp_hist a' t1)"
    by (rule agree_less [OF agree_prefix [OF c1(3) grows_hist [OF gr]] j(1)])
  have l2: "agree j (sp_log a' w) (sp_hist a' t2)" by (rule agree_less [OF c2(3) j(2)])
  note ne = owned_inside(2) [OF chosen_owned [OF ch1]] owned_inside(2) [OF chosen_owned [OF c2(2)]]
  have "agree j (sp_hist a' t1) (sp_hist a' t2)"
  proof (cases "t1 \<le> t2")
    case True
    then have "agree i1 (sp_hist a' t2) (sp_hist a' t1)" by (rule safe_chosen [OF inv' ne(2) _ ch1])
    then show ?thesis by (rule agree_sym [OF agree_less [OF _ order_trans [OF j(1) c1(1)]]])
  next
    case False
    then have "agree i2 (sp_hist a' t1) (sp_hist a' t2)" by (intro safe_chosen [OF inv' ne(1) _ c2(2)]) simp
    then show ?thesis by (rule agree_less [OF _ order_trans [OF j(2) c2(1)]])
  qed
  then show ?thesis using agree_trans [OF l1 agree_trans [OF _ agree_sym [OF l2]]] by blast
qed

text \<open>Leader completeness: a later leader has everything that was committed.\<close>

lemma spec_leader_complete:
  assumes inv: "spec_inv M a" and run: "(spec_step M)\<^sup>*\<^sup>* a a'" and v: "v \<in> M" and j: "j \<le> sp_commit a v"
    and lead: "sp_lead a' t = c" "sp_term a' c = t" "sp_hist a' t \<noteq> []" "0 < t" and later: "sp_term a v \<le> t"
  shows "agree j (sp_log a v) (sp_log a' c)"
proof -
  have inv': "spec_inv M a'" and gr: "grows a a'" using spec_run [OF run inv] by simp_all
  obtain u i where u: "u \<le> sp_term a v" "sp_commit a v \<le> i" "chosen M a u i" "agree (sp_commit a v) (sp_log a v) (sp_hist a u)"
    using inv v unfolding spec_inv_def commits_ok_def by blast
  have "sp_log a' c = sp_hist a' t" using inv' lead by (auto simp: spec_inv_def leaders_ok_def)
  moreover have "agree i (sp_hist a' t) (sp_hist a' u)"
    by (rule safe_chosen [OF inv' lead(3) order_trans [OF u(1) later] grows_chosen [OF gr u(3)]])
  moreover have "agree (sp_commit a v) (sp_log a v) (sp_hist a' u)"
    by (rule agree_prefix [OF u(4) grows_hist [OF gr]])
  ultimately show ?thesis
    using agree_trans [OF agree_less [OF _ j] agree_sym [OF agree_less [OF _ order_trans [OF j u(2)]]]] by simp
qed

end
