(* ===== verification/RaftLogSim.thy ===== *)
theory RaftLogSim
  imports RaftCluster RaftSpec
begin

text \<open>
  The compacted log of a node (\<open>consensus.go\<close>) against the whole log it stands for in
  \<open>RaftSpec\<close>: what an accessor reads, and what merging a request, taking a snapshot and
  installing one do to the whole log.
\<close>

section \<open>A compacted log and the whole log it stands for\<close>

definition entry_of :: "LogEntry \<Rightarrow> sp_entry" where
  "entry_of e = (e_Term e, e_Data e)"

definition log_sim :: "RaftNode \<Rightarrow> sp_entry list \<Rightarrow> bool" where
  "log_sim rn l \<longleftrightarrow> log_wf rn \<and> length l = log_base rn + length (rlog rn) \<and>
     fst (l ! log_base rn) = lastIncludedTerm rn \<and> map entry_of (tl (rlog rn)) = drop (Suc (log_base rn)) l"

lemma log_sim_frame [simp]:
  "log_sim (rn\<lparr>role := x0\<rparr>) = log_sim rn" "log_sim (rn\<lparr>currentTerm := x1\<rparr>) = log_sim rn"
  "log_sim (rn\<lparr>votedFor := x2\<rparr>) = log_sim rn" "log_sim (rn\<lparr>leaderID := x3\<rparr>) = log_sim rn"
  "log_sim (rn\<lparr>electionResetEvent := x4\<rparr>) = log_sim rn" "log_sim (rn\<lparr>commitIndex := x5\<rparr>) = log_sim rn"
  "log_sim (rn\<lparr>lastApplied := x6\<rparr>) = log_sim rn" "log_sim (rn\<lparr>commitNotify := x7\<rparr>) = log_sim rn"
  "log_sim (rn\<lparr>nextIndex := x8\<rparr>) = log_sim rn" "log_sim (rn\<lparr>matchIndex := x9\<rparr>) = log_sim rn"
  "log_sim (rn\<lparr>lastSnapshotData := x10\<rparr>) = log_sim rn" "log_sim (rn\<lparr>isStopped := x11\<rparr>) = log_sim rn"
  "log_sim (stepDown now t rn) = log_sim rn" "log_sim (follow_leader now t d rn) = log_sim rn"
  "log_sim (notify_commit rn) = log_sim rn" "log_sim (advance_follower_commit args rn) = log_sim rn"
  "log_sim (fresh_leader rn i) = log_sim rn"
  by (simp_all add: log_sim_def fun_eq_iff fresh_leader_def)

lemma log_sim_length:
  assumes "log_sim rn l"
  shows "length l = Suc (log_end rn)" and "log_base rn < length l" and "length l < 2 ^ 63"
  using assms by (cases "rlog rn"; simp add: log_sim_def log_end_def log_wf_def)+

lemma log_sim_entry:
  assumes "log_sim rn l" and "log_base rn < i" and "i < length l"
  shows "entry_of (rlog rn ! (i - log_base rn)) = l ! i"
proof -
  obtain e es where es: "rlog rn = e # es" using assms(1) by (cases "rlog rn") (auto simp: log_sim_def log_wf_def)
  obtain k where k: "i = Suc (log_base rn) + k" using assms(2) by (metis Suc_leI le_Suc_ex)
  have "k < length es" using assms(1,3) k es by (simp add: log_sim_def)
  moreover have "map entry_of es = drop (Suc (log_base rn)) l" using assms(1) es by (simp add: log_sim_def)
  then have "map entry_of es ! k = drop (Suc (log_base rn)) l ! k" by simp
  ultimately show ?thesis using k es assms(3) by simp
qed

lemma log_sim_term:
  assumes "log_sim rn l" and "log_base rn \<le> i" and "i < length l"
  shows "e_Term (rlog rn ! (i - log_base rn)) = fst (l ! i)"
proof (cases "i = log_base rn")
  case True
  then show ?thesis using assms(1) by (simp add: log_sim_def log_wf_def)
next
  case False
  then show ?thesis using log_sim_entry [OF assms(1) _ assms(3)] assms(2) by (simp add: entry_of_def prod_eq_iff)
qed

lemma log_sim_term_at:
  assumes "log_sim rn l"
  shows "term_at rn i = (if log_base rn \<le> i \<and> i < length l then Some (fst (l ! i)) else None)"
  using log_sim_term [OF assms, of i] log_sim_length(1) [OF assms] by (auto simp: term_at_def)

lemma log_sim_last:
  assumes "log_sim rn l"
  shows "e_Term (last (rlog rn)) = fst (last l)" and "l \<noteq> []"
proof -
  have "rlog rn \<noteq> []" using assms by (simp add: log_sim_def log_wf_def)
  moreover have "log_end rn - log_base rn = length (rlog rn) - 1" "log_base rn \<le> log_end rn"
    using calculation by (cases "rlog rn"; simp add: log_end_def)+
  ultimately show "e_Term (last (rlog rn)) = fst (last l)" "l \<noteq> []"
    using log_sim_term [OF assms, of "log_end rn"] log_sim_length(1) [OF assms]
    by (cases "l = []"; simp add: last_conv_nth)+
qed

subsection \<open>Merging a request\<close>

lemma merge_entries_map:
  assumes "\<forall>j < length ls. j < length es \<longrightarrow> (\<forall>i \<le> j. e_Term (ls ! i) = e_Term (es ! i)) \<longrightarrow> entry_of (ls ! j) = entry_of (es ! j)"
  shows "map entry_of (merge_entries ls es) =
    (if length es \<le> length ls \<and> (\<forall>j < length es. e_Term (ls ! j) = e_Term (es ! j)) then map entry_of ls else map entry_of es)"
  using assms
proof (induction ls es rule: merge_entries.induct)
  case (3 l ls e es)
  show ?case
  proof (cases "e_Term l = e_Term e")
    case True
    have "entry_of (ls ! j) = entry_of (es ! j)"
      if "j < length ls" "j < length es" "\<forall>i \<le> j. e_Term (ls ! i) = e_Term (es ! i)" for j
      using "3.prems" [rule_format, of "Suc j"] that True by (auto simp: nth_Cons split: nat.splits)
    with "3.IH" [OF True] have "map entry_of (merge_entries ls es) =
        (if length es \<le> length ls \<and> (\<forall>j < length es. e_Term (ls ! j) = e_Term (es ! j)) then map entry_of ls else map entry_of es)"
      by blast
    moreover have "entry_of l = entry_of e" using "3.prems" [rule_format, of 0] True by simp
    ultimately show ?thesis using True by (auto simp: All_less_Suc2)
  qed (auto simp: All_less_Suc2)
qed simp_all

text \<open>Logs match when equal terms at an index mean equal logs up to it.\<close>

definition matching :: "sp_entry list \<Rightarrow> sp_entry list \<Rightarrow> bool" where
  "matching l g \<longleftrightarrow> (\<forall>j. j < length l \<longrightarrow> j < length g \<longrightarrow> fst (l ! j) = fst (g ! j) \<longrightarrow> agree j l g)"

lemma matchingD: "matching l g \<Longrightarrow> j < length l \<Longrightarrow> j < length g \<Longrightarrow> fst (l ! j) = fst (g ! j) \<Longrightarrow> agree j l g"
  by (simp add: matching_def)

lemma log_sim_merged:
  assumes sim: "log_sim rn l" and p: "log_base rn \<le> p" "agree p l g" and m: "matching l g"
    and es: "map entry_of es = take (length es) (drop (Suc p) g)" and len: "p + length es < length g"
    and cont: "contiguous (p + 1) es" and small: "p + length es + 1 < 2 ^ 63"
  shows "log_sim (merged_after p es rn) (adopted (p + length es) g l)"
proof -
  let ?k = "Suc (p - log_base rn)" and ?m = "p + length es"
  let ?ls = "drop ?k (rlog rn)"
  have wf: "log_wf rn" using sim by (simp add: log_sim_def)
  have pl: "p < length l" by (rule agree_lengthD [OF p(2)])
  have p_end: "p \<le> log_end rn" using pl log_sim_length(1) [OF sim] by simp
  have wf': "log_wf (merged_after p es rn)"
    by (rule merged_after_wf [OF wf p(1) p_end cont small])
  have ne: "rlog rn \<noteq> []" and llen: "length l = log_base rn + length (rlog rn)"
    using sim by (simp_all add: log_sim_def log_wf_def)
  have k: "?k \<le> length (rlog rn)" using pl llen p(1) by simp
  have tl: "tl (rlog rn) = drop 1 (rlog rn)" by (simp add: drop_Suc)
  have ls: "map entry_of ?ls = drop (Suc p) l"
  proof -
    have "map entry_of ?ls = drop (p - log_base rn) (map entry_of (tl (rlog rn)))"
      by (simp add: tl drop_map)
    also have "\<dots> = drop (p - log_base rn) (drop (Suc (log_base rn)) l)" using sim by (simp add: log_sim_def)
    finally show ?thesis using p(1) by simp
  qed
  have e_l: "entry_of (?ls ! j) = l ! (Suc p + j)" if "j < length ?ls" for j
    using arg_cong [OF ls, of "\<lambda>xs. xs ! j"] that k llen p(1) by simp
  have e_g: "entry_of (es ! j) = g ! (Suc p + j)" if "j < length es" for j
    using arg_cong [OF es, of "\<lambda>xs. xs ! j"] that len by simp
  have t_l: "e_Term (?ls ! j) = fst (l ! (Suc p + j))" if "j < length ?ls" for j
    using e_l [OF that] by (simp add: entry_of_def prod_eq_iff)
  have t_g: "e_Term (es ! j) = fst (g ! (Suc p + j))" if "j < length es" for j
    using e_g [OF that] by (simp add: entry_of_def prod_eq_iff)
  have lsl: "length ?ls = length l - Suc p" using k llen p(1) by simp
  have at: "agree (Suc p + j) l g" if "j < length ?ls" "j < length es" "e_Term (?ls ! j) = e_Term (es ! j)" for j
    using that t_l [OF that(1)] t_g [OF that(2)] len lsl by (intro matchingD [OF m]) auto
  have "entry_of (?ls ! j) = entry_of (es ! j)"
    if "j < length ?ls" "j < length es" "\<forall>i \<le> j. e_Term (?ls ! i) = e_Term (es ! i)" for j
    using agree_nth [OF at [OF that(1,2)] order_refl] that e_l e_g by simp
  then have merged: "map entry_of (merge_entries ?ls es) =
      (if length es \<le> length ?ls \<and> (\<forall>j < length es. e_Term (?ls ! j) = e_Term (es ! j)) then map entry_of ?ls else map entry_of es)"
    by (intro merge_entries_map) blast
  have cond: "length es \<le> length ?ls \<and> (\<forall>j < length es. e_Term (?ls ! j) = e_Term (es ! j)) \<longleftrightarrow> agree ?m l g"
  proof
    assume c: "length es \<le> length ?ls \<and> (\<forall>j < length es. e_Term (?ls ! j) = e_Term (es ! j))"
    show "agree ?m l g"
    proof (cases "length es")
      case (Suc n)
      then have "n < length ?ls" "n < length es" "e_Term (?ls ! n) = e_Term (es ! n)"
        using c by (auto simp del: nth_drop length_drop)
      from at [OF this] show ?thesis using Suc by simp
    qed (use p(2) in simp)
  next
    assume a: "agree ?m l g"
    then have "?m < length l" by (rule agree_lengthD)
    moreover from this have "e_Term (?ls ! j) = e_Term (es ! j)" if "j < length es" for j
      using agree_nth [OF a, of "Suc p + j"] that t_l [of j] t_g [of j] lsl by simp
    ultimately show "length es \<le> length ?ls \<and> (\<forall>j < length es. e_Term (?ls ! j) = e_Term (es ! j))"
      using lsl by simp
  qed
  have new: "rlog (merged_after p es rn) = take ?k (rlog rn) @ merge_entries ?ls es"
    by (simp add: merged_after_def Let_def)
  have tl': "map entry_of (tl (rlog (merged_after p es rn))) =
      drop (Suc (log_base rn)) (take (Suc p) l) @ map entry_of (merge_entries ?ls es)"
  proof -
    have "tl (rlog (merged_after p es rn)) = take (p - log_base rn) (tl (rlog rn)) @ merge_entries ?ls es"
      unfolding new using ne by (cases "rlog rn") simp_all
    moreover have "map entry_of (take (p - log_base rn) (tl (rlog rn))) = drop (Suc (log_base rn)) (take (Suc p) l)"
      using sim p(1) by (simp add: take_map [symmetric] log_sim_def drop_take Suc_diff_le)
    ultimately show ?thesis by simp
  qed
  have base: "log_base (merged_after p es rn) = log_base rn" "lastIncludedTerm (merged_after p es rn) = lastIncludedTerm rn"
    by simp_all
  have len': "length (rlog (merged_after p es rn)) = Suc (p - log_base rn) + length (merge_entries ?ls es)"
    unfolding new using k by simp
  show ?thesis
  proof (cases "agree ?m l g")
    case True
    then have me: "map entry_of (merge_entries ?ls es) = drop (Suc p) l" using merged cond ls by simp
    then have "length (merge_entries ?ls es) = length l - Suc p" by (metis length_drop length_map)
    moreover have "drop (Suc (log_base rn)) (take (Suc p) l) @ drop (Suc p) l = drop (Suc (log_base rn)) l"
    proof -
      have "drop (Suc (log_base rn)) l = drop (Suc (log_base rn)) (take (Suc p) l @ drop (Suc p) l)" by simp
      also have "\<dots> = drop (Suc (log_base rn)) (take (Suc p) l) @ drop (Suc p) l"
        using p(1) pl by (subst drop_append) simp
      finally show ?thesis by (rule sym)
    qed
    ultimately show ?thesis
      using True wf' sim tl' me len' pl p(1) by (simp add: log_sim_def adopted_def)
  next
    case False
    then have me: "map entry_of (merge_entries ?ls es) = take (length es) (drop (Suc p) g)"
      using merged [unfolded cond] es by (simp only: if_False)
    then have lme: "length (merge_entries ?ls es) = length es"
      using len by (metis length_map es)
    have g: "take (Suc ?m) g = take (Suc p) l @ take (length es) (drop (Suc p) g)"
      using p(2) take_add [of "Suc p" "length es" g] by (simp add: agree_def)
    have "drop (Suc (log_base rn)) (take (Suc ?m) g) =
        drop (Suc (log_base rn)) (take (Suc p) l) @ take (length es) (drop (Suc p) g)"
      unfolding g using p(1) pl by (subst drop_append) simp
    moreover have "fst (take (Suc ?m) g ! log_base rn) = lastIncludedTerm rn"
      unfolding g using sim p(1) pl by (simp add: nth_append log_sim_def)
    ultimately show ?thesis
      using False wf' tl' me len' lme len p(1) by (simp add: log_sim_def adopted_def)
  qed
qed

subsection \<open>Snapshots\<close>

lemma log_sim_anchored:
  assumes sim: "log_sim rn l" and i: "log_base rn \<le> unat i" "unat i < length l" and t: "fst (l ! unat i) = t"
  shows "log_sim (anchored i t rn) l"
proof -
  have wf: "log_wf rn" using sim by (simp add: log_sim_def)
  have len: "length l = log_base rn + length (rlog rn)" using sim by (simp add: log_sim_def)
  have "unat i \<le> log_end rn" using i(2) log_sim_length(1) [OF sim] by simp
  then have wf': "log_wf (anchored i t rn)" by (intro anchored_wf [OF wf i(1)])
  have "map entry_of (drop (unat i - log_base rn) (tl (rlog rn))) =
      drop (unat i - log_base rn) (drop (Suc (log_base rn)) l)"
    using sim by (simp add: drop_map [symmetric] log_sim_def)
  then have "map entry_of (tl (rlog (anchored i t rn))) = drop (Suc (unat i)) l"
    using i(1) by (simp add: anchored_def drop_Suc tl_drop drop_drop)
  moreover have "length (rlog (anchored i t rn)) = length l - unat i"
    using len i by (simp add: anchored_def Suc_diff_le)
  ultimately show ?thesis
    using wf' i(2) t by (simp add: log_sim_def) (simp add: anchored_def log_base_def)
qed

lemma log_sim_bare:
  assumes "lastIncludedIndex rn = i" and "lastIncludedTerm rn = t" and "unat i < length g" and "fst (g ! unat i) = t"
    and "rlog rn = [\<lparr>e_Index = i, e_Term = t, e_Data = None\<rparr>]" and "unat i + 1 < 2 ^ 63"
  shows "log_sim rn (take (Suc (unat i)) g)"
  using assms by (simp add: log_sim_def log_wf_def log_base_def)

text \<open>Installing a snapshot is adopting the leader's log up to it.\<close>

lemma log_sim_installed:
  assumes sim: "log_sim rn l" and new: "log_base rn < unat i" and i: "unat i < length g" "fst (g ! unat i) = t"
    and m: "matching l g" and small: "unat i + 1 < 2 ^ 63"
    and rn': "rlog rn' = \<lparr>e_Index = i, e_Term = t, e_Data = None\<rparr> #
        (if term_at rn (unat i) = Some t then drop (Suc (unat i - log_base rn)) (rlog rn) else [])"
      "lastIncludedIndex rn' = i" "lastIncludedTerm rn' = t"
  shows "log_sim rn' (adopted (unat i) g l)"
proof (cases "term_at rn (unat i) = Some t")
  case True
  then have l: "unat i < length l" "fst (l ! unat i) = t"
    using log_sim_term_at [OF sim] by (auto split: if_splits)
  then have "agree (unat i) l g" using i by (intro matchingD [OF m]) simp_all
  moreover have "log_sim (anchored i t rn) l" by (rule log_sim_anchored [OF sim less_imp_le [OF new] l])
  then have "log_sim rn' l"
    using rn' True by (simp add: anchored_def log_sim_def log_wf_def log_base_def)
  ultimately show ?thesis by (simp add: adopted_def)
next
  case False
  have "\<not> agree (unat i) l g"
  proof
    assume a: "agree (unat i) l g"
    then have "l ! unat i = g ! unat i" "unat i < length l" by (auto intro: agree_nth agree_lengthD)
    then show False using False log_sim_term_at [OF sim, of "unat i"] new i(2) by simp
  qed
  moreover have "log_sim rn' (take (Suc (unat i)) g)"
    using rn' False by (intro log_sim_bare [OF rn'(2,3) i _ small]) simp
  ultimately show ?thesis by (simp add: adopted_def)
qed

text \<open>Appending an entry.\<close>

lemma log_sim_appended:
  assumes "log_sim rn l" and "unat (e_Index e) = log_end rn + 1" and "log_end rn + 2 < 2 ^ 63"
  shows "log_sim (appended rn e) (l @ [entry_of e])"
proof -
  have wf: "log_wf rn" using assms(1) by (simp add: log_sim_def)
  have "rlog rn \<noteq> []" using wf by (simp add: log_wf_def)
  then have "log_base rn < length l" and "tl (rlog rn @ [e]) = tl (rlog rn) @ [e]" and "Suc 0 - length (rlog rn) = 0"
    using assms(1) log_sim_length(2) by (auto simp: Suc_le_eq)
  moreover have "lastIncludedTerm (appended rn e) = lastIncludedTerm rn" by (simp add: appended_def)
  ultimately show ?thesis
    using assms(1) log_wf_appended [OF wf assms(2,3)] by (simp add: log_sim_def nth_append)
qed

end
