(* ===== verification/RaftSim.thy ===== *)
theory RaftSim
  imports RaftLogSim
begin

text \<open>
  The operations of a node (\<open>consensus.go\<close>) as runs of the specification of \<open>RaftSpec\<close>: the
  relation between a node and its part of the abstract state, between a request in flight and
  the leader's log it was taken from, and one simulation lemma for each operation.
\<close>

section \<open>The relation\<close>

text \<open>Node \<open>c\<close> leads term \<open>t\<close>.\<close>

definition leads :: "Spec \<Rightarrow> string \<Rightarrow> u64 \<Rightarrow> bool" where
  "leads a c t \<longleftrightarrow> 0 < t \<and> sp_hist a t \<noteq> [] \<and> sp_lead a t = c"

text \<open>The progress maps of a leader only claim what the peers have acknowledged.\<close>

definition progress_ok :: "(string \<Rightarrow> string) \<Rightarrow> Spec \<Rightarrow> string \<Rightarrow> RaftNode \<Rightarrow> bool" where
  "progress_ok route a c rn \<longleftrightarrow> next_wf rn \<and>
     (\<forall>p \<in> set (peers rn). unat (map_get (matchIndex rn) p) \<le> sp_ack a (route p) (currentTerm rn)) \<and>
     (\<forall>i. owned a (currentTerm rn) i \<longrightarrow> i \<le> sp_ack a c (currentTerm rn))"

definition node_ok :: "(string \<Rightarrow> string) \<Rightarrow> Spec \<Rightarrow> string \<Rightarrow> RaftNode \<Rightarrow> bool" where
  "node_ok route a c rn \<longleftrightarrow> log_sim rn (sp_log a c) \<and> sp_term a c = currentTerm rn \<and>
     sp_commit a c = unat (commitIndex rn) \<and> log_base rn \<le> unat (commitIndex rn) \<and>
     (role rn = Candidate \<longrightarrow> sp_cand a c (currentTerm rn) = sp_log a c) \<and>
     (role rn = Leader \<longleftrightarrow> leads a c (currentTerm rn)) \<and>
     (role rn = Leader \<longrightarrow> progress_ok route a c rn)"

text \<open>A request carries a piece of the log of its term's leader.\<close>

definition append_ok :: "string set \<Rightarrow> Spec \<Rightarrow> string \<Rightarrow> AppendEntriesArgs \<Rightarrow> bool" where
  "append_ok M a c x \<longleftrightarrow> leads a c (ae_Term x) \<and> ae_wf x \<and> ae_end x < length (sp_hist a (ae_Term x)) \<and>
     fst (sp_hist a (ae_Term x) ! unat (ae_PrevLogIndex x)) = ae_PrevLogTerm x \<and>
     map entry_of (ae_Entries x) =
       take (length (ae_Entries x)) (drop (Suc (unat (ae_PrevLogIndex x))) (sp_hist a (ae_Term x))) \<and>
     unat (ae_LeaderCommit x) \<le> ae_end x \<and> settled M a (ae_Term x) (unat (ae_LeaderCommit x))"

definition snap_ok :: "string set \<Rightarrow> Spec \<Rightarrow> string \<Rightarrow> InstallSnapshotArgs \<Rightarrow> bool" where
  "snap_ok M a c x \<longleftrightarrow> leads a c (is_Term x) \<and> unat (is_LastIncludedIndex x) < length (sp_hist a (is_Term x)) \<and>
     unat (is_LastIncludedIndex x) + 1 < 2 ^ 63 \<and>
     fst (sp_hist a (is_Term x) ! unat (is_LastIncludedIndex x)) = is_LastIncludedTerm x \<and>
     settled M a (is_Term x) (unat (is_LastIncludedIndex x))"

definition ballot_sim :: "Spec \<Rightarrow> string \<Rightarrow> RequestVoteArgs \<Rightarrow> bool" where
  "ballot_sim a c x \<longleftrightarrow> rv_IsPreVote x \<or> sp_cand a c (rv_Term x) \<noteq> [] \<and> rv_CandidateID x = c \<and>
     Suc (unat (rv_LastLogIndex x)) = length (sp_cand a c (rv_Term x)) \<and>
     rv_LastLogTerm x = fst (last (sp_cand a c (rv_Term x)))"

fun request_ok :: "string set \<Rightarrow> Spec \<Rightarrow> string \<Rightarrow> rpc \<Rightarrow> bool" where
  "request_ok M a c (SendRequestVote p x) = ballot_sim a c x"
| "request_ok M a c (SendAppendEntries p x) = append_ok M a c x"
| "request_ok M a c (SendInstallSnapshot p x) = snap_ok M a c x"

text \<open>What an answer to the leader may claim of node \<open>d\<close>.\<close>

fun reply_ok :: "Spec \<Rightarrow> string \<Rightarrow> rpc \<Rightarrow> rpc_reply \<Rightarrow> bool" where
  "reply_ok a d (SendAppendEntries p x) (AppendReply r) =
     (aer_Success r \<longrightarrow> unat (aer_MatchIndex r) \<le> sp_ack a d (ae_Term x))"
| "reply_ok a d (SendInstallSnapshot p x) (SnapshotReply r) =
     (isr_Term r \<le> is_Term x \<longrightarrow> unat (is_LastIncludedIndex x) \<le> sp_ack a d (is_Term x))"
| "reply_ok a d m r = True"

section \<open>What the specification's steps keep\<close>

lemma moved_grows: "moved c a a' \<Longrightarrow> grows a a'"
  by (simp add: moved_def)

lemma moved_hist_kept: "moved d a a' \<Longrightarrow> sp_hist a t \<noteq> [] \<Longrightarrow> sp_hist a' t \<noteq> []"
  using grows_hist [OF moved_grows, of d a a' t] by auto

lemma leads_moved: "moved d a a' \<Longrightarrow> leads a c t \<Longrightarrow> leads a' c t"
  using moved_hist_kept [of d a a' t] by (auto simp: leads_def moved_def)

lemma leads_moved_iff:
  assumes "moved d a a'" and "c \<noteq> d"
  shows "leads a' c t \<longleftrightarrow> leads a c t"
proof (cases "sp_hist a t = []")
  case True
  then show ?thesis using assms by (auto simp: moved_def leads_def)
next
  case False
  then show ?thesis using assms moved_hist_kept [OF assms(1) False] by (simp add: moved_def leads_def)
qed

lemma hist_moved_nth:
  assumes "moved d a a'" and "i < length (sp_hist a t)"
  shows "i < length (sp_hist a' t)" and "sp_hist a' t ! i = sp_hist a t ! i"
    and "i + n < length (sp_hist a t) \<Longrightarrow> take n (drop i (sp_hist a' t)) = take n (drop i (sp_hist a t))"
proof -
  obtain zs where "sp_hist a' t = sp_hist a t @ zs"
    using grows_hist [OF moved_grows [OF assms(1)], of t] by (auto simp: prefix_def)
  with assms(2) show "i < length (sp_hist a' t)" "sp_hist a' t ! i = sp_hist a t ! i"
    "i + n < length (sp_hist a t) \<Longrightarrow> take n (drop i (sp_hist a' t)) = take n (drop i (sp_hist a t))"
    by (simp_all add: nth_append)
qed

lemma settled_moved: "moved d a a' \<Longrightarrow> settled M a t k \<Longrightarrow> settled M a' t k"
  by (rule grows_settled [OF moved_grows])

lemma settled_less: "settled M a t k \<Longrightarrow> j \<le> k \<Longrightarrow> settled M a t j"
  unfolding settled_def by (meson order_trans)

lemma append_ok_moved:
  assumes mv: "moved d a a'" and ok: "append_ok M a c x"
  shows "append_ok M a' c x"
proof -
  let ?h = "sp_hist a (ae_Term x)" and ?p = "unat (ae_PrevLogIndex x)" and ?n = "length (ae_Entries x)"
  have e: "ae_end x < length ?h" "?p < length ?h" using ok by (simp_all add: append_ok_def ae_end_def)
  have "take ?n (drop (Suc ?p) (sp_hist a' (ae_Term x))) = take ?n (drop (Suc ?p) ?h)"
  proof (cases ?n)
    case (Suc k)
    obtain zs where "sp_hist a' (ae_Term x) = ?h @ zs"
      using grows_hist [OF moved_grows [OF mv]] by (auto simp: prefix_def)
    then show ?thesis using e(1) by (simp add: ae_end_def)
  qed simp
  then show ?thesis
    using ok leads_moved [OF mv] settled_moved [OF mv] hist_moved_nth(1) [OF mv e(1)] hist_moved_nth(2) [OF mv e(2)]
    by (simp add: append_ok_def)
qed

lemma snap_ok_moved: "moved d a a' \<Longrightarrow> snap_ok M a c x \<Longrightarrow> snap_ok M a' c x"
  using leads_moved [of d a a'] settled_moved [of d a a'] hist_moved_nth [of d a a'] by (simp add: snap_ok_def)

lemma cand_moved: "moved d a a' \<Longrightarrow> sp_cand a c t \<noteq> [] \<Longrightarrow> sp_cand a' c t = sp_cand a c t"
  by (cases "c = d") (simp_all add: moved_def)

lemma ballot_sim_moved: "moved d a a' \<Longrightarrow> ballot_sim a c x \<Longrightarrow> ballot_sim a' c x"
  using cand_moved [of d a a' c "rv_Term x"] by (auto simp: ballot_sim_def)

lemma request_ok_moved: "moved d a a' \<Longrightarrow> request_ok M a c m \<Longrightarrow> request_ok M a' c m"
  by (cases m) (auto intro: ballot_sim_moved append_ok_moved snap_ok_moved)

lemma reply_ok_moved: "moved e a a' \<Longrightarrow> reply_ok a d m r \<Longrightarrow> reply_ok a' d m r"
  using grows_ack [OF moved_grows, of e a a'] by (cases "(a, d, m, r)" rule: reply_ok.cases) (auto intro: order_trans)

text \<open>A leader's log is the leader's log of its term.\<close>

lemma leads_log:
  assumes "spec_inv M a" and "leads a c t" and "sp_term a c = t"
  shows "sp_log a c = sp_hist a t"
  using assms by (auto simp: spec_inv_def leaders_ok_def leads_def)

lemma leads_term: "spec_inv M a \<Longrightarrow> leads a c t \<Longrightarrow> t \<le> sp_term a c"
  by (auto simp: spec_inv_def leaders_ok_def leads_def)

lemma node_ok_moved:
  assumes mv: "moved d a a'" and inv: "spec_inv M a" "spec_inv M a'" and c: "c \<noteq> d" and ok: "node_ok route a c rn"
  shows "node_ok route a' c rn"
proof -
  have same: "sp_term a' c = sp_term a c" "sp_log a' c = sp_log a c" "sp_commit a' c = sp_commit a c"
    "sp_cand a' c = sp_cand a c"
    using mv c by (simp_all add: moved_def)
  have "progress_ok route a' c rn" if "role rn = Leader" "progress_ok route a c rn"
  proof -
    have t: "sp_term a c = currentTerm rn" "leads a c (currentTerm rn)" using ok that(1) by (simp_all add: node_ok_def)
    have "sp_hist a' (currentTerm rn) = sp_hist a (currentTerm rn)"
      using leads_log [OF inv(1) t(2,1)] leads_log [OF inv(2) leads_moved [OF mv t(2)]] same t(1) by simp
    then have "owned a' (currentTerm rn) i = owned a (currentTerm rn) i" for i by (simp add: owned_def)
    then show ?thesis
      using that(2) grows_ack [OF moved_grows [OF mv]] unfolding progress_ok_def by (meson order_trans)
  qed
  then show ?thesis using ok leads_moved_iff [OF mv c] by (auto simp: node_ok_def same)
qed

section \<open>Steps of a node that no majority is needed for\<close>

text \<open>The node went on to \<open>rn'\<close> by a run of the specification that casts no vote.\<close>

definition node_sim :: "string set \<Rightarrow> (string \<Rightarrow> string) \<Rightarrow> string \<Rightarrow> Spec \<Rightarrow> Spec \<Rightarrow> RaftNode \<Rightarrow> bool" where
  "node_sim M route c a a' rn' \<longleftrightarrow> (node_does M c)\<^sup>*\<^sup>* a a' \<and> node_ok route a' c rn' \<and> sp_votes a' = sp_votes a"

lemma node_sim_refl: "node_ok route a c rn \<Longrightarrow> node_sim M route c a a rn"
  by (simp add: node_sim_def)

lemma node_sim_trans: "node_sim M route c a b rn \<Longrightarrow> node_sim M route c b e rn' \<Longrightarrow> node_sim M route c a e rn'"
  by (auto simp: node_sim_def)

lemma node_sim_inv: "node_sim M route c a a' rn \<Longrightarrow> spec_inv M a \<Longrightarrow> spec_inv M a' \<and> moved c a a'"
  by (auto simp: node_sim_def dest: node_run_moved)

lemma node_ok_simps:
  assumes "node_ok route a c rn"
  shows "log_sim rn (sp_log a c)" "sp_term a c = currentTerm rn" "sp_commit a c = unat (commitIndex rn)"
    "log_base rn \<le> unat (commitIndex rn)" "log_wf rn" "role rn = Leader \<longleftrightarrow> leads a c (currentTerm rn)"
    "role rn = Leader \<Longrightarrow> progress_ok route a c rn"
    "role rn = Candidate \<Longrightarrow> sp_cand a c (currentTerm rn) = sp_log a c"
  using assms by (auto simp: node_ok_def log_sim_def)

lemma node_ok_follower:
  "role rn = Follower \<Longrightarrow> node_ok route a c rn \<longleftrightarrow> log_sim rn (sp_log a c) \<and> sp_term a c = currentTerm rn \<and>
     sp_commit a c = unat (commitIndex rn) \<and> log_base rn \<le> unat (commitIndex rn) \<and> \<not> leads a c (currentTerm rn)"
  by (auto simp: node_ok_def)

text \<open>Stepping down to a term that the node does not lead.\<close>

lemma bump_sim:
  assumes inv: "spec_inv M a" and c: "c \<in> M" and ok: "node_ok route a c rn"
    and t: "currentTerm rn \<le> t" "\<not> leads a c t"
    and rn': "role rn' = Follower" "currentTerm rn' = t" "log_sim rn' = log_sim rn" "commitIndex rn' = commitIndex rn"
      "log_base rn' = log_base rn"
  shows "\<exists>a'. node_sim M route c a a' rn'"
proof
  let ?a = "a\<lparr>sp_term := (sp_term a)(c := t)\<rparr>"
  have "node_does M c a ?a" using t(1) node_ok_simps(2) [OF ok] by (intro node_does.bump [OF c]) simp
  moreover have "node_ok route ?a c rn'"
    using node_ok_simps [OF ok] t(2) rn' by (simp add: node_ok_follower leads_def)
  ultimately show "node_sim M route c a ?a rn'" by (auto simp: node_sim_def)
qed

lemma stepDown_sim:
  assumes "spec_inv M a" and "c \<in> M" and "node_ok route a c rn" and "currentTerm rn < t"
  shows "\<exists>a'. node_sim M route c a a' (stepDown now t rn)"
proof (rule bump_sim [OF assms(1-3)])
  have "sp_term a c < t" using assms(4) node_ok_simps(2) [OF assms(3)] by simp
  then show "\<not> leads a c t" using leads_term [OF assms(1), of c t] by auto
qed (use assms(4) in \<open>simp_all add: less_imp_le\<close>)

lemma follow_sim:
  assumes "spec_inv M a" and "c \<in> M" and "node_ok route a c rn" and "currentTerm rn \<le> t" and "leads a d t" "d \<noteq> c"
  shows "\<exists>a'. node_sim M route c a a' (follow_leader now t l rn)"
  by (rule bump_sim [OF assms(1-4)]) (use assms(4-6) in \<open>simp_all add: leads_def max_def\<close>)

section \<open>Adopting the leader's log\<close>

lemma inv_matching:
  assumes inv: "spec_inv M a" and c: "c \<in> M"
  shows "matching (sp_log a c) (sp_hist a t)"
  unfolding matching_def
proof (intro allI impI)
  fix j assume j: "j < length (sp_log a c)" "j < length (sp_hist a t)" "fst (sp_log a c ! j) = fst (sp_hist a t ! j)"
  obtain u where "prefix (sp_log a c) (sp_hist a u)"
    using inv c unfolding spec_inv_def logs_ok_def by blast
  note l = inv_log_agree(1) [OF inv this j(1)] inv_log_agree(1) [OF inv prefix_order.refl j(2)]
  show "agree j (sp_log a c) (sp_hist a t)" by (rule agree_trans [OF l(1) [unfolded j(3)] agree_sym [OF l(2)]])
qed

lemma committed_agree:
  assumes inv: "spec_inv M a" and c: "c \<in> M" and t: "sp_hist a t \<noteq> []" "sp_term a c \<le> t"
  shows "agree (sp_commit a c) (sp_log a c) (sp_hist a t)" and "settled M a t (sp_commit a c)"
proof -
  obtain u i where u: "u \<le> sp_term a c" "sp_commit a c \<le> i" "chosen M a u i" "agree (sp_commit a c) (sp_log a c) (sp_hist a u)"
    using inv c unfolding spec_inv_def commits_ok_def by blast
  have ut: "u \<le> t" by (rule order_trans [OF u(1) t(2)])
  have "agree i (sp_hist a t) (sp_hist a u)" by (rule safe_chosen [OF inv t(1) ut u(3)])
  from agree_trans [OF u(4) agree_sym [OF agree_less [OF this u(2)]]]
  show "agree (sp_commit a c) (sp_log a c) (sp_hist a t)" .
  show "settled M a t (sp_commit a c)" using t(1) ut u(2,3) unfolding settled_def by blast
qed

lemma agree_adopted: "m < length g \<Longrightarrow> agree m (adopted m g l) g"
  by (simp add: adopted_def agree_take)

lemma adopt_sim:
  assumes inv: "spec_inv M a" and c: "c \<in> M" and ok: "node_ok route a c rn" "currentTerm rn = t"
    and lead: "leads a d t" "d \<noteq> c" and m: "m < length (sp_hist a t)"
    and rn': "role rn' = Follower" "currentTerm rn' = t" "log_base rn' \<le> unat (commitIndex rn')"
      "log_sim rn' (adopted m (sp_hist a t) (sp_log a c))"
    and commit: "commitIndex rn' = commitIndex rn \<or>
      commitIndex rn \<le> commitIndex rn' \<and> unat (commitIndex rn') \<le> m \<and> settled M a t (unat (commitIndex rn'))"
  shows "\<exists>a'. node_sim M route c a a' rn' \<and> m \<le> sp_ack a' c t"
proof -
  let ?b = "a\<lparr>sp_log := (sp_log a)(c := adopted m (sp_hist a t) (sp_log a c)),
      sp_ack := (sp_ack a)(c := (sp_ack a c)(t := max (sp_ack a c t) m))\<rparr>"
  let ?k = "unat (commitIndex rn')"
  let ?e = "?b\<lparr>sp_commit := (sp_commit ?b)(c := ?k)\<rparr>"
  have t: "sp_term a c = t" "sp_commit a c = unat (commitIndex rn)" using node_ok_simps(2,3) [OF ok(1)] ok(2) by simp_all
  have b: "node_does M c a ?b"
    using lead m t by (intro node_does.adopt [OF c]) (auto simp: leads_def)
  have gr: "grows a ?b" by (rule node_does_grows [OF b inv])
  have ok': "node_ok route e c rn'" if "sp_term e = sp_term a" "sp_log e = sp_log ?b" "sp_hist e = sp_hist a"
    "sp_lead e = sp_lead a" "sp_commit e c = ?k" for e
    using that lead rn' t by (simp add: node_ok_follower leads_def)
  show ?thesis
  proof (cases "commitIndex rn' = commitIndex rn")
    case True
    then have "node_ok route ?b c rn'" using t by (intro ok') simp_all
    then show ?thesis using b by (intro exI [of _ ?b]) (auto simp: node_sim_def)
  next
    case False
    then have k: "unat (commitIndex rn) \<le> ?k" "?k \<le> m" "settled M a t ?k" using commit by (auto simp: word_le_nat_alt)
    have "agree ?k (adopted m (sp_hist a t) (sp_log a c)) (sp_hist a t)"
      by (rule agree_less [OF agree_adopted [OF m] k(2)])
    then have "node_does M c ?b ?e"
      using k(1) grows_settled [OF gr k(3)] t by (intro node_does.learn [OF c]) simp_all
    moreover have "node_ok route ?e c rn'" by (rule ok') simp_all
    ultimately show ?thesis
      using b by (intro exI [of _ ?e]) (auto simp: node_sim_def intro: converse_rtranclp_into_rtranclp)
  qed
qed

lemma adopted_same: "agree m l g \<Longrightarrow> adopted m g l = l"
  by (simp add: adopted_def)

text \<open>A node whose snapshot covers the request acknowledges the snapshot.\<close>

lemma covered_sim:
  assumes inv: "spec_inv M a" and c: "c \<in> M" and ok: "node_ok route a c rn" "currentTerm rn = t" "role rn = Follower"
    and lead: "leads a d t" "d \<noteq> c"
  shows "\<exists>a'. node_sim M route c a a' rn \<and> log_base rn \<le> sp_ack a' c t"
proof (rule adopt_sim [OF inv c ok(1,2) lead])
  have "agree (sp_commit a c) (sp_log a c) (sp_hist a t)"
    using lead node_ok_simps(2) [OF ok(1)] ok(2) by (intro committed_agree(1) [OF inv c]) (simp_all add: leads_def)
  then have base: "agree (log_base rn) (sp_log a c) (sp_hist a t)"
    by (rule agree_less) (use node_ok_simps(3,4) [OF ok(1)] in simp)
  then show "log_base rn < length (sp_hist a t)" by (rule agree_lengthD)
  show "log_sim rn (adopted (log_base rn) (sp_hist a t) (sp_log a c))"
    using node_ok_simps(1) [OF ok(1)] adopted_same [OF base] by simp
qed (use ok node_ok_simps(4) [OF ok(1)] in simp_all)

section \<open>The handlers\<close>

lemma merge_step_sim:
  assumes inv: "spec_inv M a" and c: "c \<in> M" and ok: "node_ok route a c rn" "role rn = Follower" "currentTerm rn = ae_Term x"
    and x: "append_ok M a d x" "d \<noteq> c"
    and p: "p = max (log_base rn) (unat (ae_PrevLogIndex x))" "p \<le> log_end rn"
      "unat (ae_PrevLogIndex x) < p \<Longrightarrow> p < ae_end x"
      "p = unat (ae_PrevLogIndex x) \<Longrightarrow> term_at rn p = Some (ae_PrevLogTerm x)"
    and y: "ae_Entries y = drop (p - unat (ae_PrevLogIndex x)) (ae_Entries x)" "ae_LeaderCommit y = ae_LeaderCommit x"
      "unat (ae_PrevLogIndex y) = p" "ae_wf y" "ae_end y = ae_end x"
  shows "\<exists>a'. node_sim M route c a a' (advance_follower_commit y (merged_after p (ae_Entries y) rn)) \<and>
    ae_end x \<le> sp_ack a' c (ae_Term x)"
proof -
  let ?h = "sp_hist a (ae_Term x)" and ?l = "sp_log a c" and ?es = "ae_Entries y"
  let ?q = "unat (ae_PrevLogIndex x)" and ?rn = "merged_after p (ae_Entries y) rn"
  have lead: "leads a d (ae_Term x)" and ex: "ae_end x < length ?h" using x by (simp_all add: append_ok_def)
  have ne: "?h \<noteq> []" using lead by (simp add: leads_def)
  have m: "matching ?l ?h" by (rule inv_matching [OF inv c])
  have len: "ae_end x = p + length ?es" using y(3,5) by (simp add: ae_end_def)
  have "agree p ?l ?h"
  proof (cases "?q < p")
    case True
    have "agree (sp_commit a c) ?l ?h"
      using ne ok(3) node_ok_simps(2) [OF ok(1)] by (intro committed_agree(1) [OF inv c]) simp_all
    then show ?thesis by (rule agree_less) (use True p(1) node_ok_simps(3,4) [OF ok(1)] in simp)
  next
    case False
    then have q: "p = ?q" using p(1) by simp
    have "p < length ?l" "fst (?l ! p) = ae_PrevLogTerm x"
      using p(4) [OF q] log_sim_term_at [OF node_ok_simps(1) [OF ok(1)], of p] by (auto split: if_splits)
    moreover have "fst (?h ! p) = ae_PrevLogTerm x" "p < length ?h" using x q len ex by (simp_all add: append_ok_def)
    ultimately show ?thesis by (intro matchingD [OF m]) simp_all
  qed
  moreover have "map entry_of ?es = take (length ?es) (drop (Suc p) ?h)"
  proof -
    have "map entry_of ?es = drop (p - ?q) (take (length (ae_Entries x)) (drop (Suc ?q) ?h))"
      using x y(1) by (simp add: append_ok_def drop_map [symmetric])
    then show ?thesis using p(1) y(1) by (simp add: drop_take add.commute)
  qed
  ultimately have sim: "log_sim ?rn (adopted (ae_end x) ?h ?l)"
    unfolding len using node_ok_simps(1) [OF ok(1)] p(1) m y(3,4) ex len
    by (intro log_sim_merged) (simp_all add: ae_wf_def)
  have end_y: "unat (ae_PrevLogIndex y + word_of_nat (length ?es)) = ae_end x" using unat_ae_end [OF y(4)] y(5) by simp
  have settled: "settled M a (ae_Term x) (unat (ae_LeaderCommit x))" using x by (simp add: append_ok_def)
  show ?thesis
  proof (rule adopt_sim [OF inv c ok(1,3) lead x(2) ex])
    let ?rn' = "advance_follower_commit y ?rn"
    show "log_sim ?rn' (adopted (ae_end x) ?h ?l)" using sim by simp
    have "commitIndex ?rn' = max (commitIndex rn) (ae_LeaderCommit x)"
    proof -
      have "ae_LeaderCommit x \<le> ae_PrevLogIndex y + word_of_nat (length ?es)"
        using x(1) end_y by (simp add: append_ok_def word_le_nat_alt)
      then show ?thesis using y(2) by (auto simp: advance_follower_commit_def min_def max_def)
    qed
    then have k: "commitIndex ?rn' = commitIndex rn \<or> commitIndex rn \<le> commitIndex ?rn' \<and> commitIndex ?rn' = ae_LeaderCommit x"
      by (simp add: max_def)
    then show "commitIndex ?rn' = commitIndex rn \<or>
      commitIndex rn \<le> commitIndex ?rn' \<and> unat (commitIndex ?rn') \<le> ae_end x \<and>
      settled M a (ae_Term x) (unat (commitIndex ?rn'))"
      using settled x(1) by (auto simp: append_ok_def)
    show "log_base ?rn' \<le> unat (commitIndex ?rn')"
      using k node_ok_simps(4) [OF ok(1)] by (auto simp: word_le_nat_alt)
  qed (use ok in simp_all)
qed

lemma append_entries_sim:
  assumes inv: "spec_inv M a" and c: "c \<in> M" and ok: "node_ok route a c rn" and x: "append_ok M a d x" "d \<noteq> c"
    and step: "HandleAppendEntries now x rn = Some (rn', r)"
  shows "\<exists>a'. node_sim M route c a a' rn' \<and> (aer_Success r \<longrightarrow> unat (aer_MatchIndex r) \<le> sp_ack a' c (ae_Term x))"
proof -
  let ?rn = "follow_leader now (ae_Term x) (ae_LeaderID x) rn"
  have lead: "leads a d (ae_Term x)" and wf: "ae_wf x" using x(1) by (simp_all add: append_ok_def)
  have follow: "\<exists>b. node_sim M route c a b ?rn \<and> spec_inv M b \<and> append_ok M b d x"
    if t: "currentTerm rn \<le> ae_Term x"
  proof -
    obtain b where b: "node_sim M route c a b ?rn" using follow_sim [OF inv c ok t lead x(2)] by blast
    with node_sim_inv [OF b inv] append_ok_moved [OF _ x(1)] show ?thesis by blast
  qed
  from node_ok_simps(5) [OF ok] wf show ?thesis
  proof (cases rule: HandleAppendEntries_cases [where now = now])
    case stale
    then show ?thesis using step node_sim_refl [OF ok] by auto
  next
    case covered
    obtain b where b: "node_sim M route c a b ?rn" "spec_inv M b" "append_ok M b d x" using follow [OF covered(1)] by blast
    have ok': "node_ok route b c ?rn" using b(1) by (simp add: node_sim_def)
    have "leads b d (ae_Term x)" using b(3) by (simp add: append_ok_def)
    then obtain e where "node_sim M route c b e ?rn" "log_base ?rn \<le> sp_ack e c (ae_Term x)"
      using covered_sim [OF b(2) c ok' _ _ _ x(2), of "ae_Term x"] covered(1) by (auto simp: max_def)
    then show ?thesis
      using node_sim_trans [OF b(1)] step covered(4) by (intro exI [of _ e]) (auto simp: log_base_def)
  next
    case rejected
    then show ?thesis using follow step by auto
  next
    case (accepted y p)
    obtain b where b: "node_sim M route c a b ?rn" "spec_inv M b" "append_ok M b d x" using follow [OF accepted(1)] by blast
    have ok': "node_ok route b c ?rn" using b(1) by (simp add: node_sim_def)
    have "\<exists>e. node_sim M route c b e (advance_follower_commit y (merged_after p (ae_Entries y) ?rn)) \<and>
        ae_end x \<le> sp_ack e c (ae_Term x)"
      by (rule merge_step_sim [OF b(2) c ok' _ _ b(3) x(2)]) (use accepted in \<open>simp_all add: max_def\<close>)
    moreover have "ae_end x < 2 ^ 64" using wf by (simp add: ae_wf_def ae_end_def)
    then have "unat (word_of_nat (ae_end x) :: u64) = ae_end x" by (intro unat_of_nat_small) simp
    ultimately show ?thesis
      using node_sim_trans [OF b(1)] step accepted(11) by fastforce
  qed
qed

text \<open>A snapshot that the node's own covers only counts as acknowledged.\<close>

lemma install_snapshot_sim:
  assumes inv: "spec_inv M a" and c: "c \<in> M" and ok: "node_ok route a c rn" and x: "snap_ok M a d x" "d \<noteq> c"
    and step: "HandleInstallSnapshot now x rn = Some (rn', r, cb)"
  shows "\<exists>a'. node_sim M route c a a' rn' \<and>
    (isr_Term r \<le> is_Term x \<longrightarrow> unat (is_LastIncludedIndex x) \<le> sp_ack a' c (is_Term x))"
proof (cases "is_Term x < currentTerm rn")
  case True
  then have "rn' = rn" "isr_Term r = currentTerm rn" using step by (auto simp: HandleInstallSnapshot_eq)
  then show ?thesis using True node_sim_refl [OF ok] by (intro exI [of _ a]) auto
next
  case False
  let ?t = "is_Term x" and ?i = "is_LastIncludedIndex x"
  let ?rn = "follow_leader now ?t (is_LeaderID x) rn"
  have t: "currentTerm rn \<le> ?t" using False by simp
  have lead: "leads a d ?t" using x(1) by (simp add: snap_ok_def)
  obtain b where b: "node_sim M route c a b ?rn" using follow_sim [OF inv c ok t lead x(2)] by blast
  have inv_b: "spec_inv M b" and x_b: "snap_ok M b d x" using node_sim_inv [OF b inv] snap_ok_moved x(1) by blast+
  have ok_b: "node_ok route b c ?rn" "currentTerm ?rn = ?t" using b t by (simp_all add: node_sim_def max_def)
  have lead_b: "leads b d ?t" and i: "unat ?i < length (sp_hist b ?t)" "unat ?i + 1 < 2 ^ 63"
    "fst (sp_hist b ?t ! unat ?i) = is_LastIncludedTerm x" "settled M b ?t (unat ?i)"
    using x_b by (simp_all add: snap_ok_def)
  have "\<exists>e. node_sim M route c b e rn' \<and> unat ?i \<le> sp_ack e c ?t"
  proof (cases "?i \<le> lastIncludedIndex rn")
    case True
    then have "rn' = ?rn" using step False by (simp add: HandleInstallSnapshot_eq Let_def)
    moreover have "unat ?i \<le> log_base ?rn" using True by (simp add: log_base_def word_le_nat_alt)
    ultimately show ?thesis
      using covered_sim [OF inv_b c ok_b _ lead_b x(2)] order_trans by fastforce
  next
    case new: False
    let ?log = "\<lparr>e_Index = ?i, e_Term = is_LastIncludedTerm x, e_Data = None\<rparr> #
      (if term_at ?rn (unat ?i) = Some (is_LastIncludedTerm x) then drop (Suc (unat ?i - log_base ?rn)) (rlog ?rn) else [])"
    have "snapshot_newLog x ?rn = Some ?log"
      using new i(2) node_ok_simps(5) [OF ok_b(1)] by (intro snapshot_newLog_wf) simp_all
    then have rn': "rn' = ?rn\<lparr>rlog := ?log, lastIncludedIndex := ?i, lastIncludedTerm := is_LastIncludedTerm x,
        lastSnapshotData := is_Data x, commitIndex := max (commitIndex rn) ?i, lastApplied := max (lastApplied rn) ?i\<rparr>"
      using step False new by (simp add: HandleInstallSnapshot_eq Let_def)
    have "log_base ?rn < unat ?i" using new by (simp add: log_base_def word_less_nat_alt [symmetric])
    then have sim: "log_sim rn' (adopted (unat ?i) (sp_hist b ?t) (sp_log b c))"
      using rn' by (intro log_sim_installed [OF node_ok_simps(1) [OF ok_b(1)] _ i(1,3) inv_matching [OF inv_b c] i(2)]) simp_all
    show ?thesis
    proof (rule adopt_sim [OF inv_b c ok_b lead_b x(2) i(1) _ _ _ sim])
      show "log_base rn' \<le> unat (commitIndex rn')" using rn' by (simp add: log_base_def word_le_nat_alt [symmetric])
      show "commitIndex rn' = commitIndex ?rn \<or> commitIndex ?rn \<le> commitIndex rn' \<and>
          unat (commitIndex rn') \<le> unat ?i \<and> settled M b ?t (unat (commitIndex rn'))"
        using rn' i(4) by (simp add: max_def)
    qed (use rn' ok_b(2) in simp_all)
  qed
  then show ?thesis using node_sim_trans [OF b] by blast
qed

text \<open>Steps that leave the whole log and everything else the specification sees alone.\<close>

lemma node_ok_same:
  assumes "node_ok route a c rn" and "log_sim rn' (sp_log a c)" and "currentTerm rn' = currentTerm rn" and "role rn' = role rn"
    and "commitIndex rn' = commitIndex rn" and "log_base rn' \<le> unat (commitIndex rn')"
    and "peers rn' = peers rn" "nextIndex rn' = nextIndex rn" "matchIndex rn' = matchIndex rn"
  shows "node_ok route a c rn'"
proof -
  have "log_end rn' = log_end rn"
    using log_sim_length(1) [OF assms(2)] log_sim_length(1) [OF node_ok_simps(1) [OF assms(1)]] by simp
  then show ?thesis using assms by (simp add: node_ok_def progress_ok_def next_wf_def)
qed

lemma node_commit_small:
  assumes "spec_inv M a" and "c \<in> M" and "node_ok route a c rn"
  shows "unat (commitIndex rn) \<le> log_end rn" and "unat (commitIndex rn) < 2 ^ 63"
proof -
  have "sp_commit a c < length (sp_log a c)"
    using assms(1,2) agree_lengthD(1) unfolding spec_inv_def commits_ok_def by blast
  then show "unat (commitIndex rn) \<le> log_end rn" "unat (commitIndex rn) < 2 ^ 63"
    using log_sim_length [OF node_ok_simps(1) [OF assms(3)]] node_ok_simps(3) [OF assms(3)] by simp_all
qed

lemma TakeSnapshot_ok:
  assumes inv: "spec_inv M a" "c \<in> M" and ok: "node_ok route a c rn" and step: "TakeSnapshot i data rn = Some (rn', e)"
  shows "node_ok route a c rn'"
proof -
  note wf = node_ok_simps(5) [OF ok] and sim = node_ok_simps(1) [OF ok]
  from wf node_commit_small(2) [OF inv ok] show ?thesis
  proof (cases rule: TakeSnapshot_cases [where i = i and data = data])
    case refused
    then show ?thesis using step ok by simp
  next
    case (taken t)
    have i: "log_base rn \<le> unat i" "unat i < length (sp_log a c)"
      using taken(1,3) log_sim_length(1) [OF sim] by (simp_all add: log_base_def word_less_nat_alt less_Suc_eq_le)
    have "fst (sp_log a c ! unat i) = t" using taken(4) i log_sim_term_at [OF sim] by simp
    from log_sim_anchored [OF sim i this] show ?thesis
      using taken(2,5) step by (intro node_ok_same [OF ok]) (auto simp: anchored_def log_base_def word_le_nat_alt)
  qed
qed

lemma apply_pass_frame:
  "apply_pass rn = Some (rn', es) \<Longrightarrow> \<exists>k. rn' = rn\<lparr>lastApplied := k\<rparr>"
proof (induction "unat (commitIndex rn) - unat (lastApplied rn)" arbitrary: rn es rule: less_induct)
  case less
  show ?case
  proof (cases "lastApplied rn < commitIndex rn")
    case False
    then show ?thesis using less.prems by (auto simp: apply_pass.simps [of rn] intro: exI [of _ "lastApplied rn"])
  next
    case True
    let ?rn = "rn\<lparr>lastApplied := lastApplied rn + 1\<rparr>"
    obtain out where "apply_pass ?rn = Some (rn', out)"
      using less.prems True by (auto simp: apply_pass.simps [of rn] Let_def bind_eq_Some_conv split: if_splits)
    moreover have "unat (commitIndex ?rn) - unat (lastApplied ?rn) < unat (commitIndex rn) - unat (lastApplied rn)"
      using True by (simp add: unat_Suc_less) (simp add: word_less_nat_alt)
    ultimately have "\<exists>k. rn' = ?rn\<lparr>lastApplied := k\<rparr>" by (intro less.hyps)
    then show ?thesis by simp
  qed
qed

lemma runApplierLoop_step_ok:
  assumes ok: "node_ok route a c rn" and step: "runApplierLoop_step rn = Some (rn', es)"
  shows "node_ok route a c rn'"
proof -
  obtain j k where "rn' = rn\<lparr>commitNotify := j, lastApplied := k\<rparr>"
  proof (cases "commitNotify rn = 0")
    case True
    then have "rn' = rn\<lparr>commitNotify := commitNotify rn, lastApplied := lastApplied rn\<rparr>"
      using step by (simp add: runApplierLoop_step_def)
    then show thesis by (rule that)
  next
    case False
    then show thesis using step apply_pass_frame that by (fastforce simp: runApplierLoop_step_def)
  qed
  then show ?thesis using node_ok_simps(1,4) [OF ok] by (intro node_ok_same [OF ok]) simp_all
qed

lemma Stop_ok:
  assumes "node_ok route a c rn"
  shows "node_ok route a c (Stop rn)"
proof (cases "isStopped rn")
  case False
  then show ?thesis using node_ok_simps(1,4) [OF assms] by (intro node_ok_same [OF assms]) (simp_all add: Stop_def)
qed (use assms in \<open>simp add: Stop_def\<close>)

section \<open>What a leader sends\<close>

lemma sent_request_ok:
  assumes inv: "spec_inv M a" and c: "c \<in> M" and ok: "node_ok route a c rn" "role rn = Leader" "sent_ok rn p m"
  shows "request_ok M a c m \<and> rpc_target m = p"
proof -
  let ?h = "sp_hist a (currentTerm rn)"
  have lead: "leads a c (currentTerm rn)" and t: "sp_term a c = currentTerm rn" using ok(1,2) by (simp_all add: node_ok_def)
  have h: "sp_log a c = ?h" by (rule leads_log [OF inv lead t])
  have sim: "log_sim rn ?h" using node_ok_simps(1) [OF ok(1)] h by simp
  have ne: "?h \<noteq> []" using lead by (simp add: leads_def)
  have settled: "settled M a (currentTerm rn) (unat (commitIndex rn))"
    using committed_agree(2) [OF inv c ne] t node_ok_simps(3) [OF ok(1)] by simp
  note len = log_sim_length [OF sim]
  show ?thesis
  proof (cases m)
    case (SendAppendEntries q x)
    then have x: "q = p" "ae_wf x" "ae_Term x = currentTerm rn" "log_base rn \<le> unat (ae_PrevLogIndex x)"
        "term_at rn (unat (ae_PrevLogIndex x)) = Some (ae_PrevLogTerm x)"
        "ae_Entries x = drop (Suc (unat (ae_PrevLogIndex x) - log_base rn)) (rlog rn)"
        "ae_end x = log_end rn" "ae_LeaderCommit x = commitIndex rn"
      using ok(3) by simp_all
    have "map entry_of (ae_Entries x) = drop (unat (ae_PrevLogIndex x) - log_base rn) (map entry_of (tl (rlog rn)))"
      unfolding x(6) by (simp add: drop_Suc drop_map tl_drop)
    also have "\<dots> = drop (Suc (unat (ae_PrevLogIndex x))) ?h"
      using sim x(4) by (simp add: log_sim_def)
    finally have es: "map entry_of (ae_Entries x) = drop (Suc (unat (ae_PrevLogIndex x))) ?h" .
    then have "length (ae_Entries x) = length (drop (Suc (unat (ae_PrevLogIndex x))) ?h)"
      by (metis length_map)
    moreover have "fst (?h ! unat (ae_PrevLogIndex x)) = ae_PrevLogTerm x"
      using x(5) log_sim_term_at [OF sim] by (simp split: if_splits)
    ultimately have "append_ok M a c x"
      using es x(2,3,7,8) lead len(1) settled node_commit_small(1) [OF inv c ok(1)]
      by (simp add: append_ok_def)
    with SendAppendEntries x(1) show ?thesis by simp
  next
    case (SendInstallSnapshot q x)
    then have x: "q = p" "is_Term x = currentTerm rn" "unat (is_LastIncludedIndex x) = log_base rn"
        "is_LastIncludedTerm x = lastIncludedTerm rn"
      using ok(3) by (simp_all add: log_base_def)
    have "fst (?h ! log_base rn) = lastIncludedTerm rn" using sim by (simp add: log_sim_def)
    moreover have "log_base rn + 1 < 2 ^ 63"
      using node_ok_simps(5) [OF ok(1)] log_end_less [of rn] log_end_ge [of rn] by simp
    ultimately have "snap_ok M a c x"
      using x lead len(2) settled_less [OF settled node_ok_simps(4) [OF ok(1)]] by (simp add: snap_ok_def)
    with SendInstallSnapshot x(1) show ?thesis by simp
  qed (use ok(3) in simp)
qed

text \<open>The requests a node starts are true and go to its peers.\<close>

definition requests_ok :: "string set \<Rightarrow> Spec \<Rightarrow> string \<Rightarrow> string list \<Rightarrow> rpc list \<Rightarrow> bool" where
  "requests_ok M a c ps out \<longleftrightarrow> (\<forall>m \<in> set out. request_ok M a c m \<and> rpc_target m \<in> set ps)"

lemma requests_ok_Nil [simp]: "requests_ok M a c ps []"
  by (simp add: requests_ok_def)

lemma broadcast_requests_ok:
  assumes "spec_inv M a" and "c \<in> M" and "node_ok route a c rn" "role rn = Leader" and "list_all2 (sent_ok rn) ps out"
  shows "requests_ok M a c ps out"
  unfolding requests_ok_def
proof
  fix m assume "m \<in> set out"
  then obtain i where i: "i < length out" "m = out ! i" by (auto simp: in_set_conv_nth)
  then have "i < length ps" "sent_ok rn (ps ! i) m" using assms(5) by (auto simp: list_all2_conv_all_nth)
  then show "request_ok M a c m \<and> rpc_target m \<in> set ps" using sent_request_ok [OF assms(1-4)] by force
qed

lemma leader_broadcast_ok:
  assumes "spec_inv M a" and "c \<in> M" and "node_ok route a c rn" "role rn = Leader" and "broadcastAppendEntries rn = Some out"
  shows "requests_ok M a c (peers rn) out"
proof -
  have "next_wf rn" using assms(3,4) by (simp add: node_ok_def progress_ok_def)
  then obtain ms where "broadcastAppendEntries rn = Some ms" "list_all2 (sent_ok rn) (peers rn) ms"
    by (rule broadcast_ok [OF node_ok_simps(5) [OF assms(3)]])
  then show ?thesis using assms(5) broadcast_requests_ok [OF assms(1-4)] by simp
qed

section \<open>Proposals and elections\<close>

lemma leader_leader_wf:
  assumes "spec_inv M a" and "c \<in> M" and "node_ok route a c rn" and "role rn = Leader"
  shows "leader_wf rn"
  using node_ok_simps [OF assms(3)] node_commit_small(1) [OF assms(1-3)] assms(4)
  by (simp add: leader_wf_def progress_ok_def)

text \<open>The node's own progress facts survive a longer log and larger acknowledgements.\<close>

lemma propose_sim:
  assumes inv: "spec_inv M a" and c: "c \<in> M" and ok: "node_ok route a c rn" and room: "log_end rn + 2 < 2 ^ 63"
    and step: "propose_start d rn = Some (Inr (rn', i, t, out))"
  shows "\<exists>a'. node_sim M route c a a' rn' \<and> requests_ok M a' c (peers rn') out"
proof -
  have lead: "role rn = Leader" using step by (auto simp: propose_start_def split: if_splits)
  obtain i' e out' where e: "unat i' = log_end rn + 1" "e = \<lparr>e_Index = i', e_Term = currentTerm rn, e_Data = d\<rparr>"
    and "propose_start d rn = Some (Inr (appended rn e, i', currentTerm rn, out'))" "leader_wf (appended rn e)"
    and "broadcastAppendEntries (appended rn e) = Some out'"
    by (rule propose_leader [OF leader_leader_wf [OF inv c ok lead] room lead])
  then have rn': "rn' = appended rn e" "broadcastAppendEntries rn' = Some out" "next_wf rn'"
    using step by (simp_all add: leader_wf_def)
  let ?t = "currentTerm rn"
  have leads: "leads a c ?t" and t: "sp_term a c = ?t" using ok lead by (simp_all add: node_ok_def)
  have log: "sp_log a c = sp_hist a ?t" by (rule leads_log [OF inv leads t])
  let ?a = "a\<lparr>sp_hist := (sp_hist a)(?t := sp_hist a ?t @ [(?t, d)]), sp_log := (sp_log a)(c := sp_log a c @ [(?t, d)]),
      sp_ack := (sp_ack a)(c := (sp_ack a c)(?t := length (sp_hist a ?t)))\<rparr>"
  have does: "node_does M c a ?a"
    using leads t by (intro node_does.propose [OF c]) (simp_all add: leads_def)
  have inv': "spec_inv M ?a" by (rule node_does_inv [OF does inv])
  have "sp_ack a (route p) ?t \<le> sp_ack ?a (route p) ?t" for p by (rule grows_ack [OF node_does_grows [OF does inv]])
  moreover have "unat (map_get (matchIndex rn) p) \<le> sp_ack a (route p) ?t" if "p \<in> set (peers rn)" for p
    using node_ok_simps(7) [OF ok lead] that by (simp add: progress_ok_def)
  ultimately have "unat (map_get (matchIndex rn) p) \<le> sp_ack ?a (route p) ?t" if "p \<in> set (peers rn)" for p
    using that order_trans by blast
  moreover have "i \<le> sp_ack ?a c ?t" if "owned ?a ?t i" for i using that by (simp add: owned_def)
  ultimately have "progress_ok route ?a c rn'"
    using rn'(1,3) unfolding progress_ok_def by simp
  moreover have "log_sim rn' (sp_log ?a c)"
    using log_sim_appended [OF node_ok_simps(1) [OF ok] _ room, of e] rn'(1) e by (simp add: entry_of_def)
  moreover have "leads ?a c ?t" using leads by (simp add: leads_def)
  ultimately have ok': "node_ok route ?a c rn'"
    using node_ok_simps(2-4) [OF ok] lead rn'(1) unfolding node_ok_def by simp
  moreover have "requests_ok M ?a c (peers rn') out"
    using lead rn' by (intro leader_broadcast_ok [OF inv' c ok']) simp_all
  ultimately show ?thesis using does by (intro exI [of _ ?a]) (auto simp: node_sim_def)
qed

lemma lead_sim:
  assumes inv: "spec_inv M a" and c: "c \<in> M" and ok: "node_ok route a c rn" "role rn = Candidate"
    and new: "sp_hist a (currentTerm rn) = []" and Q: "majority M Q" "\<forall>v \<in> Q. (v, currentTerm rn, c) \<in> sp_votes a"
    and step: "becomeLeader rn = Some (rn', out)"
  shows "\<exists>a'. node_sim M route c a a' rn' \<and> requests_ok M a' c (peers rn') out"
proof -
  let ?t = "currentTerm rn" and ?l = "sp_log a c"
  have cand: "sp_cand a c ?t = ?l" and t: "sp_term a c = ?t" using ok by (simp_all add: node_ok_def)
  have ne: "?l \<noteq> []" using inv c by (simp add: spec_inv_def logs_ok_def)
  then obtain u where u: "u < ?t" "prefix ?l (sp_hist a u)"
    using inv cand unfolding spec_inv_def cands_ok_def by metis
  obtain i out' where i: "becomeLeader rn = Some (fresh_leader rn i, out')" "next_wf (fresh_leader rn i)"
    "list_all2 (sent_ok (fresh_leader rn i)) (peers rn) out'"
    by (rule becomeLeader_eq [OF node_ok_simps(5) [OF ok(1)]])
  then have rn': "rn' = fresh_leader rn i" "out = out'" using step by simp_all
  let ?a = "a\<lparr>sp_hist := (sp_hist a)(?t := ?l), sp_lead := (sp_lead a)(?t := c)\<rparr>"
  have does: "node_does M c a ?a" using t cand new Q by (intro node_does.lead [OF c]) simp_all
  have inv': "spec_inv M ?a" by (rule node_does_inv [OF does inv])
  have "\<not> owned ?a ?t j" for j
  proof
    assume "owned ?a ?t j"
    then have "j < length ?l" "fst (?l ! j) = ?t" by (simp_all add: owned_def)
    then show False using inv_log_agree(2) [OF inv u(2)] u(1) by (metis leD)
  qed
  then have "progress_ok route ?a c rn'" using i(2) rn'(1) by (simp add: progress_ok_def)
  moreover have "leads ?a c ?t" using ne u(1) by (auto simp: leads_def intro: order.strict_trans1 [OF word_coorder.extremum])
  ultimately have ok': "node_ok route ?a c rn'"
    using node_ok_simps(1-4) [OF ok(1)] rn'(1) unfolding node_ok_def by simp
  moreover have "requests_ok M ?a c (peers rn') out"
    using i(3) rn' by (intro broadcast_requests_ok [OF inv' c ok']) simp_all
  ultimately show ?thesis using does by (intro exI [of _ ?a]) (auto simp: node_sim_def)
qed

text \<open>A new candidacy: the term moves on and the node votes for itself.\<close>

definition candidate :: "int \<Rightarrow> RaftNode \<Rightarrow> RaftNode" where
  "candidate now rn = rn\<lparr>role := Candidate, currentTerm := currentTerm rn + 1, votedFor := node_id rn,
     leaderID := '''', electionResetEvent := now\<rparr>"

lemma startElection_cases:
  assumes "startElection now rn = Some (rn', out)"
  obtains (alone) "quorum_size rn \<le> 1" "becomeLeader (candidate now rn) = Some (rn', out)"
    | (ballots) i t where "rn' = candidate now rn" "1 < quorum_size rn" "lastLogIndex rn = Some i" "lastLogTerm rn = Some t"
        "out = map (\<lambda>p. SendRequestVote p \<lparr>rv_Term = currentTerm rn', rv_CandidateID = node_id rn,
           rv_LastLogIndex = i, rv_LastLogTerm = t, rv_IsPreVote = False\<rparr>) (peers rn)"
  using assms
  by (auto simp: startElection_def Let_def bind_eq_Some_conv candidate_def [symmetric] lastLogIndex_def lastLogTerm_def
      quorum_size_def split: if_splits) (auto simp: candidate_def)

definition campaigned :: "string \<Rightarrow> u64 \<Rightarrow> Spec \<Rightarrow> Spec" where
  "campaigned c t a = a\<lparr>sp_term := (sp_term a)(c := t), sp_cand := (sp_cand a)(c := (sp_cand a c)(t := sp_log a c)),
     sp_votes := insert (c, t, c) (sp_votes a)\<rparr>"

lemma campaign_sim:
  assumes inv: "spec_inv M a" and c: "c \<in> M" and ok: "node_ok route a c rn" and less: "currentTerm rn < currentTerm rn + 1"
  shows "node_does M c a (campaigned c (currentTerm rn + 1) a)"
    and "node_ok route (campaigned c (currentTerm rn + 1) a) c (candidate now rn)"
proof -
  let ?t = "currentTerm rn + 1"
  have t: "sp_term a c < ?t" using less node_ok_simps(2) [OF ok] by simp
  then show "node_does M c a (campaigned c ?t a)" unfolding campaigned_def by (rule node_does.campaign [OF c])
  have "\<not> leads a c ?t" using leads_term [OF inv, of c ?t] t by auto
  then show "node_ok route (campaigned c ?t a) c (candidate now rn)"
    using node_ok_simps(1-4) [OF ok] by (simp add: node_ok_def campaigned_def candidate_def leads_def)
qed

lemma ballots_ok:
  assumes "log_sim rn (sp_log a c)" and "node_id rn = c" and "lastLogIndex rn = Some i" and "lastLogTerm rn = Some lt"
  shows "requests_ok M (campaigned c t a) c ps (map (\<lambda>p. SendRequestVote p \<lparr>rv_Term = t,
    rv_CandidateID = node_id rn, rv_LastLogIndex = i, rv_LastLogTerm = lt, rv_IsPreVote = False\<rparr>) ps)"
proof -
  have wf: "log_wf rn" using assms(1) by (simp add: log_sim_def)
  have "unat i = log_end rn" using lastLogIndex_wf [OF wf] assms(3) by auto
  then have "Suc (unat i) = length (sp_log a c)" using log_sim_length(1) [OF assms(1)] by simp
  moreover have "lt = fst (last (sp_log a c))" using lastLogTerm_wf [OF wf] log_sim_last(1) [OF assms(1)] assms(4) by simp
  ultimately show ?thesis
    using log_sim_last(2) [OF assms(1)] assms(2) by (auto simp: requests_ok_def ballot_sim_def campaigned_def)
qed

section \<open>Ballots and replies\<close>

lemma prevote_keeps:
  "HandleRequestVote now x rn = Some (rn', r) \<Longrightarrow> rv_IsPreVote x \<Longrightarrow> rn' = rn"
  by (auto simp: HandleRequestVote_def Let_def bind_eq_Some_conv split: if_splits)

definition voted :: "string \<Rightarrow> u64 \<Rightarrow> string \<Rightarrow> Spec \<Rightarrow> Spec" where
  "voted v t c a = a\<lparr>sp_term := (sp_term a)(v := t), sp_votes := insert (v, t, c) (sp_votes a)\<rparr>"

lemma request_vote_sim:
  assumes inv: "spec_inv M a" and v: "v \<in> M" and ok: "node_ok route a v rn" and x: "ballot_sim a c x"
    and step: "HandleRequestVote now x rn = Some (rn', r)"
  shows "if rvr_VoteGranted r \<and> \<not> rv_IsPreVote x
    then rv_CandidateID x = c \<and> node_does M v a (voted v (rv_Term x) c a) \<and> node_ok route (voted v (rv_Term x) c a) v rn'
    else \<exists>a'. node_sim M route v a a' rn'"
proof (cases "rv_IsPreVote x \<or> rv_Term x < currentTerm rn")
  case True
  then have "rn' = rn \<and> (rv_IsPreVote x \<or> \<not> rvr_VoteGranted r)"
    using prevote_keeps [OF step] HandleRequestVote_ballot [OF node_ok_simps(5) [OF ok]] step
    by (cases "rv_IsPreVote x") (auto simp: Let_def)
  then show ?thesis using node_sim_refl [OF ok] by auto
next
  case False
  let ?t = "rv_Term x"
  let ?rn = "if ?t > currentTerm rn then stepDown now ?t rn else rn"
  have t: "currentTerm rn \<le> ?t" "\<not> rv_IsPreVote x" using False by auto
  have out: "(rn', r) = (if vote_free x rn \<and> log_up_to_date x rn
      then (?rn\<lparr>votedFor := rv_CandidateID x, electionResetEvent := now\<rparr>, \<lparr>rvr_Term = ?t, rvr_VoteGranted = True\<rparr>)
      else (?rn, \<lparr>rvr_Term = ?t, rvr_VoteGranted = False\<rparr>))"
    using HandleRequestVote_ballot [OF node_ok_simps(5) [OF ok] t(2), of now] step leD [OF t(1)] by (simp add: Let_def)
  have "\<exists>a'. node_sim M route v a a' ?rn"
    using stepDown_sim [OF inv v ok, of ?t now] node_sim_refl [OF ok] by auto
  then obtain b where b: "node_sim M route v a b ?rn" by blast
  show ?thesis
  proof (cases "vote_free x rn \<and> log_up_to_date x rn")
    case False
    then show ?thesis using out b by auto
  next
    case True
    have rn': "rn' = ?rn\<lparr>votedFor := rv_CandidateID x, electionResetEvent := now\<rparr>" "rvr_VoteGranted r"
      using out True by simp_all
    have c: "sp_cand a c ?t \<noteq> []" "rv_CandidateID x = c" "Suc (unat (rv_LastLogIndex x)) = length (sp_cand a c ?t)"
      "rv_LastLogTerm x = fst (last (sp_cand a c ?t))"
      using x t(2) by (simp_all add: ballot_sim_def)
    note sim = node_ok_simps(1) [OF ok]
    have "up_to_date (sp_cand a c ?t) (sp_log a v)"
      using True c(3,4) log_sim_length(1) [OF sim] log_sim_last(1) [OF sim]
      by (auto simp: log_up_to_date_def up_to_date_def Let_def)
    then have does: "node_does M v a (voted v ?t c a)"
      unfolding voted_def using c(1) t(1) node_ok_simps(2) [OF ok] by (intro node_does.vote [OF v]) simp_all
    have "node_ok route (voted v ?t c a) v rn'"
    proof (cases "currentTerm rn < ?t")
      case True
      then have "\<not> leads a v ?t" using leads_term [OF inv, of v ?t] node_ok_simps(2) [OF ok] by auto
      then show ?thesis
        using True rn'(1) node_ok_simps(1-4) [OF ok] by (simp add: node_ok_follower voted_def leads_def)
    next
      case False
      then have eq: "currentTerm rn = ?t" "rn' = rn\<lparr>votedFor := rv_CandidateID x, electionResetEvent := now\<rparr>"
        using t(1) rn'(1) by simp_all
      have "node_ok route (voted v ?t c a) v rn"
        using ok eq(1) by (simp add: node_ok_def voted_def leads_def progress_ok_def owned_def)
      then show ?thesis unfolding eq(2) using node_ok_simps(1-4) [OF ok] by (rule_tac node_ok_same) (simp_all add: voted_def)
    qed
    with does c(2) rn'(2) t(2) show ?thesis by simp
  qed
qed

text \<open>What the deployment says of one node.\<close>

definition placed :: "string set \<Rightarrow> (string \<Rightarrow> string) \<Rightarrow> string \<Rightarrow> RaftNode \<Rightarrow> bool" where
  "placed M route c rn \<longleftrightarrow> finite M \<and> c \<in> M \<and> node_id rn = c \<and> distinct (peers rn) \<and>
     inj_on route (set (peers rn)) \<and> route ` set (peers rn) = M - {c}"

lemma committable_majority:
  assumes pl: "placed M route c rn" and n: "quorum_size rn \<le> match_count rn n"
  shows "majority M (insert c (route ` {p \<in> set (peers rn). n \<le> map_get (matchIndex rn) p}))"
proof -
  let ?P = "{p \<in> set (peers rn). n \<le> map_get (matchIndex rn) p}"
  have top: "finite M" "c \<in> M" "distinct (peers rn)" "inj_on route (set (peers rn))" "route ` set (peers rn) = M - {c}"
    using pl by (simp_all add: placed_def)
  have inj: "inj_on route ?P" by (rule inj_on_subset [OF top(4)]) auto
  have "card ?P = length (filter (\<lambda>p. n \<le> map_get (matchIndex rn) p) (peers rn))"
    using distinct_card [OF distinct_filter [OF top(3)]] by simp
  moreover have "c \<notin> route ` ?P" using top(5) by auto
  then have "card (insert c (route ` ?P)) = Suc (card ?P)" using card_image [OF inj] by simp
  moreover have "card (M - {c}) = length (peers rn)"
    using card_image [OF top(4)] top(3,5) by (simp add: distinct_card)
  then have "card M = Suc (length (peers rn))" using card.remove [OF top(1,2)] by simp
  moreover have "insert c (route ` ?P) \<subseteq> M" using top(2,5) by auto
  ultimately show ?thesis using n by (simp add: majority_def match_count_def quorum_size_def)
qed

text \<open>The commit rule of the leader: an entry of its term, acknowledged by a majority.\<close>

lemma commit_sim:
  assumes inv: "spec_inv M a" and pl: "placed M route c rn" and ok: "node_ok route a c rn" "role rn = Leader"
    and step: "checkAndUpdateCommitIndex rn = Some (rn', out)"
  shows "\<exists>a'. node_sim M route c a a' rn' \<and> requests_ok M a' c (peers rn') out"
proof -
  have c: "c \<in> M" using pl by (simp add: placed_def)
  have leads: "leads a c (currentTerm rn)" and t: "sp_term a c = currentTerm rn" using ok by (simp_all add: node_ok_def)
  have h: "sp_log a c = sp_hist a (currentTerm rn)" by (rule leads_log [OF inv leads t])
  note sim = node_ok_simps(1) [OF ok(1)]
  have prog: "progress_ok route a c rn" by (rule node_ok_simps(7) [OF ok])
  from leader_leader_wf [OF inv c ok] show ?thesis
  proof (cases rule: checkAndUpdateCommitIndex_cases)
    case none
    then show ?thesis using step node_sim_refl [OF ok(1)] by (intro exI [of _ a]) simp
  next
    case (commit n out')
    have n: "unat n < length (sp_log a c)" "term_at rn (unat n) = Some (currentTerm rn)"
      "quorum_size rn \<le> match_count rn n"
      using commit(4,5) log_sim_length(1) [OF sim] by (simp_all add: committable_def)
    have own: "owned a (currentTerm rn) (unat n)"
      using n(1,2) log_sim_term_at [OF sim] h by (simp add: owned_def split: if_splits)
    let ?Q = "insert c (route ` {p \<in> set (peers rn). n \<le> map_get (matchIndex rn) p})"
    have "unat n \<le> sp_ack a v (currentTerm rn)" if "v \<in> ?Q" for v
      using that own prog by (auto simp: progress_ok_def word_le_nat_alt intro: order_trans)
    then have "chosen M a (currentTerm rn) (unat n)"
      using own committable_majority [OF pl n(3)] unfolding chosen_def by blast
    then have settled: "settled M a (currentTerm rn) (unat n)"
      using leads by (auto simp: settled_def leads_def)
    let ?a = "a\<lparr>sp_commit := (sp_commit a)(c := unat n)\<rparr>" and ?rn = "notify_commit (rn\<lparr>commitIndex := n\<rparr>)"
    have does: "node_does M c a ?a"
      using settled n(1) h t commit(3) node_ok_simps(3) [OF ok(1)] by (intro node_does.learn [OF c, where t = "currentTerm rn"]) simp_all
    have inv': "spec_inv M ?a" by (rule node_does_inv [OF does inv])
    have ok': "node_ok route ?a c ?rn"
      using ok commit(3) by (simp add: node_ok_def progress_ok_def leads_def owned_def)
    have "requests_ok M ?a c (peers rn) out'"
      using commit(2) ok(2) by (intro broadcast_requests_ok [OF inv' c ok']) simp_all
    moreover have "rn' = ?rn" "out = out'" using step commit(1) by simp_all
    ultimately show ?thesis using does ok' by (intro exI [of _ ?a]) (auto simp: node_sim_def)
  qed
qed

lemma node_ok_progress:
  assumes "node_ok route a c rn" and "role rn = Leader \<Longrightarrow> progress_ok route a c (rn\<lparr>nextIndex := ni, matchIndex := mi\<rparr>)"
  shows "node_ok route a c (rn\<lparr>nextIndex := ni, matchIndex := mi\<rparr>)"
  using assms by (simp add: node_ok_def)

lemma progress_ok_next:
  assumes "progress_ok route a c rn" and "unat v \<le> log_end rn + 1" and "p \<in> set (peers rn) \<Longrightarrow> unat k \<le> sp_ack a (route p) (currentTerm rn)"
  shows "progress_ok route a c (rn\<lparr>nextIndex := (nextIndex rn)(p \<mapsto> v), matchIndex := (matchIndex rn)(p \<mapsto> k)\<rparr>)"
  using assms by (auto simp: progress_ok_def next_wf_def)

lemma unat_Suc_small: "unat (w :: u64) + 1 < 2 ^ 63 \<Longrightarrow> unat (w + 1) = unat w + 1"
  by (simp add: unat_add_no_wrap)

lemma acked_inside:
  fixes k :: u64
  assumes inv: "spec_inv M a" and c: "c \<in> M" and ok: "node_ok route a c rn" "role rn = Leader"
    and k: "unat k \<le> sp_ack a d (currentTerm rn)"
  shows "unat (k + 1) \<le> log_end rn + 1"
proof -
  have "sp_log a c = sp_hist a (currentTerm rn)" using ok by (intro leads_log [OF inv]) (simp_all add: node_ok_def)
  moreover have "sp_ack a d (currentTerm rn) \<le> length (sp_hist a (currentTerm rn)) - 1"
    using inv by (simp add: spec_inv_def acks_ok_def)
  ultimately have "unat k \<le> log_end rn" using k log_sim_length(1) [OF node_ok_simps(1) [OF ok(1)]] by simp
  moreover from this have "unat k + 1 < 2 ^ 63" using log_end_less [OF node_ok_simps(5) [OF ok(1)]] by simp
  ultimately show ?thesis using unat_Suc_small [of k] by simp
qed

lemma append_reply_sim:
  assumes inv: "spec_inv M a" and pl: "placed M route c rn" and ok: "node_ok route a c rn"
    and r: "reply_ok a (route p) (SendAppendEntries p x) (AppendReply r)"
    and step: "handle_append_reply now p x r rn = Some (rn', out)"
  shows "\<exists>a'. node_sim M route c a a' rn' \<and> requests_ok M a' c (peers rn') out"
proof -
  have c: "c \<in> M" using pl by (simp add: placed_def)
  let ?k = "map_get (nextIndex rn) p"
  consider (down) "currentTerm rn < aer_Term r" "rn' = stepDown now (aer_Term r) rn" "out = []"
    | (same) "rn' = rn" "out = []"
    | (retry) v where "role rn = Leader" "p \<in> set (peers rn) \<Longrightarrow> unat v \<le> log_end rn + 1" "rn' = rn\<lparr>nextIndex := (nextIndex rn)(p \<mapsto> v)\<rparr>" "out = []"
    | (match) "role rn = Leader" "currentTerm rn = ae_Term x" "aer_Success r" "checkAndUpdateCommitIndex
         (rn\<lparr>nextIndex := (nextIndex rn)(p \<mapsto> aer_MatchIndex r + 1), matchIndex := (matchIndex rn)(p \<mapsto> aer_MatchIndex r)\<rparr>)
         = Some (rn', out)"
  proof -
    consider (a) "currentTerm rn < aer_Term r" | (b) "aer_Term r \<le> currentTerm rn" "role rn \<noteq> Leader \<or> currentTerm rn \<noteq> ae_Term x"
      | (c) "aer_Term r \<le> currentTerm rn" "role rn = Leader" "currentTerm rn = ae_Term x" "aer_Success r"
      | (d) "aer_Term r \<le> currentTerm rn" "role rn = Leader" "currentTerm rn = ae_Term x" "\<not> aer_Success r"
      by force
    then show thesis
    proof cases
      case d
      have nw: "p \<in> set (peers rn) \<Longrightarrow> unat ?k \<le> log_end rn + 1"
        using node_ok_simps(7) [OF ok d(2)] by (simp add: progress_ok_def next_wf_def)
      have base: "unat (lastIncludedIndex rn) \<le> log_end rn + 1"
        using log_end_ge [OF node_ok_simps(5) [OF ok]] by (simp add: log_base_def)
      show ?thesis
      proof (cases "?k > lastIncludedIndex rn + 1")
        case True
        then have "unat (?k - 1) < unat ?k" by (rule unat_pred_less)
        moreover have "rn' = rn\<lparr>nextIndex := (nextIndex rn)(p \<mapsto> ?k - 1)\<rparr>" "out = []"
          using step d(2-4) leD [OF d(1)] True by (simp_all add: handle_append_reply_def)
        ultimately show ?thesis using d(2) nw by (intro retry [of "?k - 1"]) auto
      next
        case False
        then have "rn' = rn\<lparr>nextIndex := (nextIndex rn)(p \<mapsto> lastIncludedIndex rn)\<rparr>" "out = []"
          using step d(2-4) leD [OF d(1)] by (simp_all add: handle_append_reply_def)
        then show ?thesis using d(2) base by (intro retry [of "lastIncludedIndex rn"]) auto
      qed
    qed (use step in \<open>auto simp: handle_append_reply_def leD intro: down same match\<close>)
  qed
  then show ?thesis
  proof cases
    case down
    then show ?thesis using stepDown_sim [OF inv c ok down(1)] by auto
  next
    case same
    then show ?thesis using node_sim_refl [OF ok] by (intro exI [of _ a]) simp
  next
    case (retry v)
    have "node_ok route a c rn'"
      using ok retry by (auto simp: node_ok_def progress_ok_def next_wf_def)
    then show ?thesis using retry(4) node_sim_refl by (intro exI [of _ a]) simp
  next
    case match
    let ?k = "aer_MatchIndex r"
    let ?rn = "rn\<lparr>nextIndex := (nextIndex rn)(p \<mapsto> ?k + 1), matchIndex := (matchIndex rn)(p \<mapsto> ?k)\<rparr>"
    have k: "unat ?k \<le> sp_ack a (route p) (currentTerm rn)" using r match(2,3) by simp
    have "node_ok route a c ?rn"
      by (rule node_ok_progress [OF ok progress_ok_next [OF node_ok_simps(7) [OF ok] acked_inside [OF inv c ok match(1) k] k]])
    moreover have "placed M route c ?rn" using pl by (simp add: placed_def)
    ultimately show ?thesis using commit_sim [OF inv _ _ _ match(4)] match(1) by simp
  qed
qed

lemma snapshot_reply_sim:
  assumes inv: "spec_inv M a" and c: "c \<in> M" and ok: "node_ok route a c rn"
    and r: "reply_ok a (route p) (SendInstallSnapshot p x) (SnapshotReply r)"
  shows "\<exists>a'. node_sim M route c a a' (handle_snapshot_reply now p x r rn)"
proof -
  let ?i = "is_LastIncludedIndex x"
  consider "currentTerm rn < isr_Term r" "handle_snapshot_reply now p x r rn = stepDown now (isr_Term r) rn"
    | "handle_snapshot_reply now p x r rn = rn"
    | (match) "isr_Term r \<le> is_Term x" "role rn = Leader" "currentTerm rn = is_Term x"
      "handle_snapshot_reply now p x r rn =
         rn\<lparr>nextIndex := (nextIndex rn)(p \<mapsto> ?i + 1), matchIndex := (matchIndex rn)(p \<mapsto> ?i)\<rparr>"
    by (simp add: handle_snapshot_reply_def not_less split: if_splits) (metis not_less)
  then show ?thesis
  proof cases
    case match
    have k: "unat ?i \<le> sp_ack a (route p) (currentTerm rn)" using r match(1,3) by simp
    have "node_ok route a c (rn\<lparr>nextIndex := (nextIndex rn)(p \<mapsto> ?i + 1), matchIndex := (matchIndex rn)(p \<mapsto> ?i)\<rparr>)"
      by (rule node_ok_progress [OF ok progress_ok_next [OF node_ok_simps(7) [OF ok] acked_inside [OF inv c ok match(2) k] k]])
    then show ?thesis using match(4) node_sim_refl by metis
  qed (use stepDown_sim [OF inv c ok] node_sim_refl [OF ok] in auto)
qed

end
