(* ===== verification/RaftRefine.thy ===== *)
theory RaftRefine
  imports RaftSim
begin

text \<open>
  The cluster of \<open>RaftCluster\<close> (\<open>consensus.go\<close> with its RPC goroutines) simulated by the
  specification of \<open>RaftSpec\<close>: the relation between the two, kept by every step, elections and
  answers in flight included, and established by freshly created members.
\<close>

section \<open>The simulation relation\<close>

text \<open>A request goes from one member to another.\<close>

definition addressed :: "string set \<Rightarrow> (string \<Rightarrow> string) \<Rightarrow> string \<Rightarrow> rpc \<Rightarrow> bool" where
  "addressed M route c m \<longleftrightarrow> c \<in> M \<and> route (rpc_target m) \<in> M \<and> route (rpc_target m) \<noteq> c"

fun routine_ok :: "string set \<Rightarrow> (string \<Rightarrow> string) \<Rightarrow> Spec \<Rightarrow> goroutine \<Rightarrow> bool" where
  "routine_ok M route a (Calling c m) = (addressed M route c m \<and> request_ok M a c m)"
| "routine_ok M route a (Answered c m r) =
    (addressed M route c m \<and> request_ok M a c m \<and> reply_ok a (route (rpc_target m)) m r)"

definition votes_sim :: "string set \<Rightarrow> Cluster \<Rightarrow> Spec \<Rightarrow> bool" where
  "votes_sim M s a \<longleftrightarrow> (\<forall>q t c. (q, t, c) \<in> sp_votes a \<longleftrightarrow> q \<in> M \<and> c \<in> M \<and> cast s q t = c)"

definition sim :: "string set \<Rightarrow> (string \<Rightarrow> string) \<Rightarrow> Cluster \<Rightarrow> Spec \<Rightarrow> bool" where
  "sim M route s a \<longleftrightarrow> spec_inv M a \<and> cluster_inv M route s \<and> votes_sim M s a \<and>
     (\<forall>c \<in> M. node_ok route a c (members s c)) \<and> (\<forall>g \<in># routines s. routine_ok M route a g)"

text \<open>No log outgrows the index type; a Go slice cannot either.\<close>

definition roomy :: "string set \<Rightarrow> Cluster \<Rightarrow> bool" where
  "roomy M s \<longleftrightarrow> (\<forall>c \<in> M. log_base (members s c) + length (rlog (members s c)) < 2 ^ 63)"

lemma sim_simps:
  assumes "sim M route s a"
  shows "spec_inv M a" "cluster_inv M route s" "votes_sim M s a" "c \<in> M \<Longrightarrow> node_ok route a c (members s c)"
    "g \<in># routines s \<Longrightarrow> routine_ok M route a g"
  using assms by (simp_all add: sim_def)

lemma sim_placed: "sim M route s a \<Longrightarrow> c \<in> M \<Longrightarrow> placed M route c (members s c)"
  by (simp add: sim_def cluster_inv_def topology_def placed_def)

lemma routine_ok_moved: "moved d a a' \<Longrightarrow> routine_ok M route a g \<Longrightarrow> routine_ok M route a' g"
  by (cases g) (auto intro: request_ok_moved reply_ok_moved)

lemma sim_put:
  assumes sim: "sim M route s a" and run: "(node_does M d)\<^sup>*\<^sup>* a a'" and ok: "node_ok route a' d rn'"
    and s': "cluster_inv M route s'" "members s' = (members s)(d := rn')" "votes_sim M s' a'"
      "\<And>g. g \<in># routines s' \<Longrightarrow> g \<in># routines s \<or> routine_ok M route a' g"
  shows "sim M route s' a'"
proof -
  note inv = sim_simps(1) [OF sim]
  have inv': "spec_inv M a'" and mv: "moved d a a'" using node_run_moved [OF run inv] by simp_all
  have "node_ok route a' c (members s' c)" if "c \<in> M" for c
    using that ok node_ok_moved [OF mv inv inv'] sim_simps(4) [OF sim that] by (cases "c = d") (simp_all add: s'(2))
  moreover have "routine_ok M route a' g" if "g \<in># routines s'" for g
    using s'(4) [OF that] sim_simps(5) [OF sim] routine_ok_moved [OF mv] by blast
  ultimately show ?thesis using inv' s'(1,3) by (simp add: sim_def)
qed

text \<open>A step of a node that casts no vote.\<close>

lemma cast_no_vote:
  assumes inv: "cluster_inv M route s" and c: "c \<in> M" and nv: "no_vote (members s c) rn'"
  shows "cast (put c rn' s) = cast s"
proof (intro ext)
  fix v t
  have rec: "cast s c (currentTerm (members s c)) = votedFor (members s c)"
    "currentTerm (members s c) < currentTerm rn' \<Longrightarrow> cast s c (currentTerm rn') = ''''"
    using inv c by (simp_all add: cluster_inv_def votes_recorded_def)
  have "currentTerm rn' = currentTerm (members s c) \<and> votedFor rn' = votedFor (members s c) \<or>
      currentTerm (members s c) < currentTerm rn' \<and> votedFor rn' = ''''"
    using nv unfolding no_vote_def by blast
  then have "cast s c (currentTerm rn') = votedFor rn'"
  proof
    assume "currentTerm (members s c) < currentTerm rn' \<and> votedFor rn' = ''''"
    then show ?thesis by (simp only: rec(2))
  qed (simp only: rec(1))
  then show "cast (put c rn' s) v t = cast s v t" by (cases "v = c \<and> t = currentTerm rn'") auto
qed

lemma votes_sim_quiet:
  "votes_sim M s a \<Longrightarrow> cast s' = cast s \<Longrightarrow> sp_votes a' = sp_votes a \<Longrightarrow> votes_sim M s' a'"
  by (simp add: votes_sim_def)

lemma sim_quiet:
  assumes sim: "sim M route s a" and d: "d \<in> M" and ns: "node_sim M route d a a' rn'" and nv: "no_vote (members s d) rn'"
    and s': "cluster_inv M route s'" "members s' = (members s)(d := rn')" "cast s' = cast (put d rn' s)"
      "\<And>g. g \<in># routines s' \<Longrightarrow> g \<in># routines s \<or> routine_ok M route a' g"
  shows "(spec_step M)\<^sup>*\<^sup>* a a' \<and> sim M route s' a'"
proof
  have run: "(node_does M d)\<^sup>*\<^sup>* a a'" "node_ok route a' d rn'" "sp_votes a' = sp_votes a"
    using ns by (simp_all add: node_sim_def)
  then show "(spec_step M)\<^sup>*\<^sup>* a a'" by (rule_tac node_run_spec)
  have "cast s' = cast s" using s'(3) cast_no_vote [OF sim_simps(2) [OF sim] d nv] by simp
  then have "votes_sim M s' a'" by (rule votes_sim_quiet [OF sim_simps(3) [OF sim] _ run(3)])
  then show "sim M route s' a'" using s'(1,2,4) by (intro sim_put [OF sim run(1,2)])
qed

lemma requests_routine_ok:
  assumes "requests_ok M a c ps out" and "c \<in> M" and "route ` set ps = M - {c}" and "m \<in> set out"
  shows "routine_ok M route a (Calling c m)"
  using assms by (force simp: requests_ok_def addressed_def)

lemma spawned:
  "g \<in># routines (spawn c out s) \<Longrightarrow> g \<in># routines s \<or> (\<exists>m \<in> set out. g = Calling c m)"
  by auto

section \<open>Every step of the cluster is simulated\<close>

lemma propose_room:
  assumes "log_wf rn" and "propose_start d rn = Some (Inr (rn', i, t, out))" and "log_base rn' + length (rlog rn') < 2 ^ 63"
  shows "log_end rn + 2 < 2 ^ 63"
proof -
  have "log_base rn' = log_base rn" "length (rlog rn') = Suc (length (rlog rn))"
    using assms(2) by (auto simp: propose_start_def Let_def bind_eq_Some_conv log_base_def split: if_splits)
  then show ?thesis using assms(1,3) by (cases "rlog rn") (simp_all add: log_wf_def log_end_def)
qed

lemma local_step_sim:
  assumes inv: "spec_inv M a" and pl: "placed M route c rn" and ok: "node_ok route a c rn"
    and step: "local_step rn rn' out" and room: "log_base rn' + length (rlog rn') < 2 ^ 63"
  shows "\<exists>a'. node_sim M route c a a' rn' \<and> requests_ok M a' c (peers rn) out"
proof -
  have c: "c \<in> M" using pl by (simp add: placed_def)
  have same: "node_ok route a c rn' \<Longrightarrow> requests_ok M a c (peers rn) out \<Longrightarrow> ?thesis"
    using node_sim_refl by blast
  show ?thesis
    using step
  proof cases
    case prevote
    then have "requests_ok M a c (peers rn) out"
      by (auto simp: prevote_ballots_def Let_def bind_eq_Some_conv requests_ok_def ballot_sim_def split: if_splits)
    then show ?thesis using prevote(1) ok by (intro same) simp_all
  next
    case heartbeat
    then have "role rn = Leader" "broadcastAppendEntries rn = Some out"
      by (auto simp: heartbeat_tick_def split: if_splits)
    then show ?thesis using heartbeat(1) ok leader_broadcast_ok [OF inv c ok] by (intro same) simp_all
  next
    case (propose d i t)
    have "log_end rn + 2 < 2 ^ 63" by (rule propose_room [OF node_ok_simps(5) [OF ok] propose room])
    moreover have "peers rn' = peers rn"
      using propose_start_no_vote [OF propose] by (simp add: no_vote_def)
    ultimately show ?thesis using propose_sim [OF inv c ok _ propose] by simp
  next
    case (compact i d e)
    then show ?thesis using TakeSnapshot_ok [OF inv c ok] by (intro same) auto
  next
    case (apply_entries es)
    then show ?thesis using runApplierLoop_step_ok [OF ok] by (intro same) auto
  next
    case stop
    then show ?thesis using Stop_ok [OF ok] by (intro same) simp_all
  qed
qed

subsection \<open>Requests served\<close>

lemma votes_sim_put:
  assumes "cluster_inv M route s" and "d \<in> M" and "no_vote (members s d) rn'" and "votes_sim M s a" and "sp_votes a' = sp_votes a"
  shows "votes_sim M (put d rn' s) a'"
  by (rule votes_sim_quiet [OF assms(4) cast_no_vote [OF assms(1-3)] assms(5)])

lemma votes_sim_voted:
  assumes inv: "cluster_inv M route s" and v: "v \<in> M" "c \<in> M" and cs: "casts (members s v) t c rn'"
    and votes: "votes_sim M s a" and a': "sp_votes a' = insert (v, t, c) (sp_votes a)"
  shows "votes_sim M (put v rn' s) a'"
proof -
  have ne: "'''' \<notin> M" using inv by (simp add: cluster_inv_def topology_def)
  have rec: "cast s v (currentTerm (members s v)) = votedFor (members s v)"
    "currentTerm (members s v) < t \<Longrightarrow> cast s v t = ''''"
    using inv v by (simp_all add: cluster_inv_def votes_recorded_def)
  have new: "currentTerm rn' = t" "votedFor rn' = c" using cs by (simp_all add: casts_def)
  have old: "cast s v t = '''' \<or> cast s v t = c" using cs rec by (auto simp: casts_def)
  have "(q, u, e) \<in> sp_votes a' \<longleftrightarrow> q \<in> M \<and> e \<in> M \<and> cast (put v rn' s) q u = e" for q u e
  proof (cases "q = v \<and> u = t")
    case True
    then have "(q, u, e) \<in> sp_votes a \<longrightarrow> e = c"
      using votes old ne unfolding votes_sim_def by metis
    then show ?thesis using True v new by (auto simp: a')
  next
    case False
    then have "(q, u, e) \<in> sp_votes a' \<longleftrightarrow> (q, u, e) \<in> sp_votes a" by (auto simp: a')
    moreover have "cast (put v rn' s) q u = cast s q u" using False new(1) by auto
    ultimately show ?thesis using votes by (simp add: votes_sim_def)
  qed
  then show ?thesis by (simp add: votes_sim_def)
qed

lemma serve_sim:
  assumes sim: "sim M route s a" and m: "addressed M route c m" "request_ok M a c m"
    and d: "d = route (rpc_target m)" and step: "serve now m (members s d) = Some (rn', r)"
  shows "\<exists>a'. (node_does M d)\<^sup>*\<^sup>* a a' \<and> node_ok route a' d rn' \<and> reply_ok a' d m r \<and> votes_sim M (put d rn' s) a'"
proof -
  note inv = sim_simps(1,2) [OF sim] and votes = sim_simps(3) [OF sim]
  have M: "d \<in> M" "c \<in> M" "c \<noteq> d" using m(1) d by (auto simp: addressed_def)
  have ok: "node_ok route a d (members s d)" by (rule sim_simps(4) [OF sim M(1)])
  have quiet: ?thesis if "node_sim M route d a a' rn'" "reply_ok a' d m r" "no_vote (members s d) rn'" for a'
    using that votes_sim_put [OF inv(2) M(1) that(3) votes] by (auto simp: node_sim_def)
  show ?thesis
  proof (cases m)
    case (SendRequestVote p x)
    obtain y where y: "HandleRequestVote now x (members s d) = Some (rn', y)" "r = VoteReply y"
      using step SendRequestVote by auto
    have x: "ballot_sim a c x" using m(2) SendRequestVote by simp
    note vs = request_vote_sim [OF inv(1) M(1) ok x y(1)] and cs = HandleRequestVote_casts [OF y(1)]
    show ?thesis
    proof (cases "rvr_VoteGranted y \<and> \<not> rv_IsPreVote x")
      case True
      then have v: "node_does M d a (voted d (rv_Term x) c a)" "node_ok route (voted d (rv_Term x) c a) d rn'"
        and cast: "casts (members s d) (rv_Term x) c rn'"
        using vs cs by simp_all
      have "votes_sim M (put d rn' s) (voted d (rv_Term x) c a)"
        by (rule votes_sim_voted [OF inv(2) M(1,2) cast votes]) (simp add: voted_def)
      then show ?thesis
        using v y(2) SendRequestVote by (intro exI [of _ "voted d (rv_Term x) c a"]) auto
    next
      case False
      then obtain a' where "node_sim M route d a a' rn'" using vs by auto
      moreover have "no_vote (members s d) rn'" using cs False by (simp split: if_splits)
      ultimately show ?thesis using y(2) SendRequestVote by (intro quiet) simp_all
    qed
  next
    case (SendAppendEntries p x)
    obtain y where y: "HandleAppendEntries now x (members s d) = Some (rn', y)" "r = AppendReply y"
      using step SendAppendEntries by auto
    have "append_ok M a c x" using m(2) SendAppendEntries by simp
    then obtain a' where "node_sim M route d a a' rn'" "reply_ok a' d m r"
      using append_entries_sim [OF inv(1) M(1) ok _ M(3) y(1)] y(2) SendAppendEntries by auto
    then show ?thesis by (rule quiet [OF _ _ HandleAppendEntries_no_vote [OF y(1)]])
  next
    case (SendInstallSnapshot p x)
    obtain y cb where y: "HandleInstallSnapshot now x (members s d) = Some (rn', y, cb)" "r = SnapshotReply y"
      using step SendInstallSnapshot by auto
    have "snap_ok M a c x" using m(2) SendInstallSnapshot by simp
    then obtain a' where "node_sim M route d a a' rn'" "reply_ok a' d m r"
      using install_snapshot_sim [OF inv(1) M(1) ok _ M(3) y(1)] y(2) SendInstallSnapshot by auto
    then show ?thesis by (rule quiet [OF _ _ HandleInstallSnapshot_no_vote [OF y(1)]])
  qed
qed

subsection \<open>Elections\<close>

text \<open>A majority that votes for a node that does not lead yet: the term has no leader.\<close>

lemma unled:
  assumes inv: "spec_inv M a" and votes: "votes_sim M s a" and Q: "majority M Q" "\<forall>v \<in> Q. (v, t, c) \<in> sp_votes a"
    and t: "0 < t" "\<not> leads a c t"
  shows "sp_hist a t = []"
proof (rule ccontr)
  assume ne: "sp_hist a t \<noteq> []"
  then obtain P where P: "majority M P" "\<forall>v \<in> P. (v, t, sp_lead a t) \<in> sp_votes a"
    using inv t(1) unfolding spec_inv_def leaders_ok_def by blast
  have "finite M" using inv by (simp add: spec_inv_def)
  then obtain v where "v \<in> P" "v \<in> Q" by (rule majorities_meet [OF _ P(1) Q(1)])
  then have "sp_lead a t = c" using P(2) Q(2) votes unfolding votes_sim_def by metis
  then show False using t ne by (simp add: leads_def)
qed

lemma elected_majority:
  assumes "sim M route s a" and "c \<in> M" and "elected M s' c t" "peers (members s' c) = peers (members s c)" "cast s' = cast s"
  shows "\<exists>Q. majority M Q \<and> (\<forall>v \<in> Q. (v, t, c) \<in> sp_votes a)"
proof -
  obtain Q where Q: "Q \<subseteq> M" "quorum_size (members s' c) \<le> card Q" "\<forall>q \<in> Q. cast s q t = c"
    using assms(3,5) by (auto simp: elected_def)
  have "card M = length (peers (members s c)) + 1"
    using sim_simps(2) [OF assms(1)] assms(2) by (intro topology_card [where route = route]) (simp_all add: cluster_inv_def)
  then have "majority M Q" using Q(1,2) assms(4) by (simp add: majority_def quorum_size_def)
  then show ?thesis
    using Q(1,3) assms(2) sim_simps(3) [OF assms(1)] unfolding votes_sim_def by blast
qed

text \<open>The step from candidate to leader, in whatever state the cluster is left.\<close>

lemma win_sim:
  assumes sim: "sim M route s a" and c: "c \<in> M" and role: "role (members s c) = Candidate"
    and step: "becomeLeader (members s c) = Some (rn', out)"
    and s': "cluster_inv M route s'" "members s' = (members s)(c := rn')" "cast s' = cast (put c rn' s)"
    and routines: "\<And>g. g \<in># routines s' \<Longrightarrow> g \<in># routines s \<or> (\<exists>m \<in> set out. g = Calling c m)"
  shows "\<exists>a'. (spec_step M)\<^sup>*\<^sup>* a a' \<and> sim M route s' a'"
proof -
  let ?t = "currentTerm (members s c)"
  note inv = sim_simps(1) [OF sim] and ok = sim_simps(4) [OF sim c]
  have fr: "peers rn' = peers (members s c)" "currentTerm rn' = ?t" "role rn' = Leader" and nv: "no_vote (members s c) (rn'\<lparr>role := Candidate\<rparr>)"
    using becomeLeader_frame [OF step] role by (simp_all add: no_vote_def)
  have cast: "cast s' = cast s"
    using cast_no_vote [OF sim_simps(2) [OF sim] c nv] s'(3) by (simp add: put_def)
  have "leaders_elected M s'" "role (members s' c) = Leader" using s'(1,2) fr(3) by (simp_all add: cluster_inv_def)
  then have "elected M s' c (currentTerm (members s' c))" using c unfolding leaders_elected_def by blast
  then have "elected M s' c ?t" using s'(2) fr(2) by simp
  then obtain Q where Q: "majority M Q" "\<forall>v \<in> Q. (v, ?t, c) \<in> sp_votes a"
    using elected_majority [OF sim c _ _ cast] s'(2) fr(1) by auto
  have nl: "\<not> leads a c ?t" and cand: "sp_cand a c ?t = sp_log a c" using ok role by (simp_all add: node_ok_def)
  have "sp_log a c \<noteq> []" using inv c by (simp add: spec_inv_def logs_ok_def)
  then have "0 < ?t" using inv cand unfolding spec_inv_def cands_ok_def by (metis order.strict_trans1 word_coorder.extremum)
  then have new: "sp_hist a ?t = []" by (rule unled [OF inv sim_simps(3) [OF sim] Q _ nl])
  obtain a' where a': "node_sim M route c a a' rn'" "requests_ok M a' c (peers rn') out"
    using lead_sim [OF inv c ok role new Q step] by blast
  then have run: "(node_does M c)\<^sup>*\<^sup>* a a'" "node_ok route a' c rn'" "sp_votes a' = sp_votes a" by (simp_all add: node_sim_def)
  have ps: "route ` set (peers rn') = M - {c}" using sim_placed [OF sim c] fr(1) by (simp add: placed_def)
  have "sim M route s' a'"
  proof (rule sim_put [OF sim run(1,2) s'(1,2)])
    show "votes_sim M s' a'" by (rule votes_sim_quiet [OF sim_simps(3) [OF sim] cast run(3)])
    show "g \<in># routines s \<or> routine_ok M route a' g" if "g \<in># routines s'" for g
      using routines [OF that] requests_routine_ok [OF a'(2) c ps] by blast
  qed
  then show ?thesis using node_run_spec [OF run(1)] by blast
qed

lemma candidate_frame [simp]:
  "node_id (candidate now rn) = node_id rn" "peers (candidate now rn) = peers rn"
  "currentTerm (candidate now rn) = currentTerm rn + 1" "votedFor (candidate now rn) = node_id rn"
  "role (candidate now rn) = Candidate"
  by (simp_all add: candidate_def)

lemma candidate_cluster_inv:
  assumes inv: "cluster_inv M route s" and c: "c \<in> M" and wrap: "currentTerm (members s c) < currentTerm (members s c) + 1"
  shows "cluster_inv M route (put c (candidate now (members s c)) s)"
proof (rule cluster_inv_put [OF inv c])
  have "node_id (members s c) = c" using inv c by (simp add: cluster_inv_def topology_def)
  then show "evolves c (members s c) (candidate now (members s c))"
    using wrap by (simp add: evolves_def less_imp_le order.strict_implies_not_eq [symmetric])
qed simp

lemma candidate_sim:
  assumes sim: "sim M route s a" and c: "c \<in> M" and wrap: "currentTerm (members s c) < currentTerm (members s c) + 1"
  shows "node_does M c a (campaigned c (currentTerm (members s c) + 1) a)"
    and "sim M route (put c (candidate now (members s c)) s) (campaigned c (currentTerm (members s c) + 1) a)"
proof -
  let ?t = "currentTerm (members s c) + 1" and ?rn = "candidate now (members s c)"
  note inv = sim_simps(1,2) [OF sim] and ok = sim_simps(4) [OF sim c]
  note camp = campaign_sim [OF inv(1) c ok wrap]
  show does: "node_does M c a (campaigned c ?t a)" by (rule camp(1))
  have id: "node_id (members s c) = c" and ne: "c \<noteq> ''''" using sim_placed [OF sim c] cluster_inv_member [OF inv(2) c] by (simp_all add: placed_def)
  have "casts (members s c) ?t c (?rn\<lparr>role := Follower\<rparr>)"
    using wrap id by (simp add: casts_def candidate_def)
  then have "votes_sim M (put c (?rn\<lparr>role := Follower\<rparr>) s) (campaigned c ?t a)"
    by (rule votes_sim_voted [OF inv(2) c c _ sim_simps(3) [OF sim]]) (simp add: campaigned_def)
  then have votes: "votes_sim M (put c ?rn s) (campaigned c ?t a)"
    by (simp add: votes_sim_def put_def)
  show "sim M route (put c ?rn s) (campaigned c ?t a)"
    by (rule sim_put [OF sim r_into_rtranclp [of "node_does M c", OF does] camp(2) candidate_cluster_inv [OF inv(2) c wrap] _ votes]) simp_all
qed

lemma elect_sim:
  assumes sim: "sim M route s a" and c: "c \<in> M" and wrap: "currentTerm (members s c) < currentTerm (members s c) + 1"
    and step: "startElection now (members s c) = Some (rn', out)"
    and s': "cluster_inv M route s'" "s' = spawn c out (open_election c (currentTerm rn') (put c rn' s))"
  shows "\<exists>a'. (spec_step M)\<^sup>*\<^sup>* a a' \<and> sim M route s' a'"
  using step
proof (cases rule: startElection_cases)
  case alone
  let ?rn = "candidate now (members s c)" and ?b = "campaigned c (currentTerm (members s c) + 1) a"
  let ?s = "put c (candidate now (members s c)) s"
  note cs = candidate_sim(1) [OF sim c wrap] candidate_sim(2) [OF sim c wrap, of now]
  have fr: "currentTerm rn' = currentTerm ?rn" "votedFor rn' = votedFor ?rn" using becomeLeader_frame [OF alone(2)] by simp_all
  have "\<exists>a'. (spec_step M)\<^sup>*\<^sup>* ?b a' \<and> sim M route s' a'"
  proof (rule win_sim [OF cs(2) c _ _ s'(1)])
    show "cast s' = cast (put c rn' ?s)" using fr by (simp add: s'(2) put_def)
    show "members s' = (members ?s)(c := rn')" by (simp add: s'(2))
    show "becomeLeader (members ?s c) = Some (rn', out)" using alone(2) by simp
    show "g \<in># routines ?s \<or> (\<exists>m \<in> set out. g = Calling c m)" if "g \<in># routines s'" for g
      using that by (auto simp: s'(2))
  qed simp
  then show ?thesis
    using node_run_spec [OF r_into_rtranclp [of "node_does M c", OF cs(1)]] rtranclp_trans by meson
next
  case (ballots i lt)
  let ?b = "campaigned c (currentTerm (members s c) + 1) a"
  note cs = candidate_sim(1) [OF sim c wrap] candidate_sim(2) [OF sim c wrap, of now]
  have id: "node_id (members s c) = c" using sim_placed [OF sim c] by (simp add: placed_def)
  have ps: "route ` set (peers (members s c)) = M - {c}" using sim_placed [OF sim c] by (simp add: placed_def)
  have reqs: "requests_ok M ?b c (peers (members s c)) out"
    unfolding ballots(5) ballots(1) candidate_frame
    by (rule ballots_ok [OF node_ok_simps(1) [OF sim_simps(4) [OF sim c]] id ballots(3,4)])
  have "sim M route s' ?b"
  proof (rule sim_put [OF cs(2) rtranclp.rtrancl_refl _ s'(1)])
    show "node_ok route ?b c rn'" using sim_simps(4) [OF cs(2) c] ballots(1) by simp
    show "members s' = (members (put c (candidate now (members s c)) s))(c := rn')" by (simp add: s'(2))
    show "votes_sim M s' ?b" using sim_simps(3) [OF cs(2)] ballots(1) by (simp add: s'(2) votes_sim_def)
    show "g \<in># routines (put c (candidate now (members s c)) s) \<or> routine_ok M route ?b g" if "g \<in># routines s'" for g
      using that requests_routine_ok [OF reqs c ps] by (auto simp: s'(2))
  qed
  then show ?thesis using node_run_spec [OF r_into_rtranclp [of "node_does M c", OF cs(1)]] by blast
qed

subsection \<open>Answers received\<close>

lemma handle_vote_reply_outcomes:
  assumes "handle_vote_reply now t q v r rn = Some (rn', v', out)"
  obtains (down) "currentTerm rn < rvr_Term r" "rn' = stepDown now (rvr_Term r) rn" "out = []"
    | (same) "rn' = rn" "out = []"
    | (won) "role rn = Candidate" "becomeLeader rn = Some (rn', out)"
  using assms by (auto simp: handle_vote_reply_def Let_def split: if_splits)

lemma receive_sim:
  assumes sim: "sim M route s a" and g: "Answered c m r \<in># routines s"
    and step: "resume now m r v (members s c) = Some (rn', v', out)"
    and s': "cluster_inv M route s'" "members s' = (members s)(c := rn')" "cast s' = cast (put c rn' s)"
    and routines: "\<And>g. g \<in># routines s' \<Longrightarrow> g \<in># routines s \<or> (\<exists>m \<in> set out. g = Calling c m)"
  shows "\<exists>a'. (spec_step M)\<^sup>*\<^sup>* a a' \<and> sim M route s' a'"
proof -
  have m: "c \<in> M" "reply_ok a (route (rpc_target m)) m r" using sim_simps(5) [OF sim g] by (simp_all add: addressed_def)
  note inv = sim_simps(1) [OF sim] and ok = sim_simps(4) [OF sim m(1)] and pl = sim_placed [OF sim m(1)]
  have quiet: ?thesis if a': "node_sim M route c a a' rn'" "requests_ok M a' c (peers (members s c)) out"
    and nv: "no_vote (members s c) rn'" for a'
  proof -
    have ps: "route ` set (peers (members s c)) = M - {c}" using pl by (simp add: placed_def)
    have "g \<in># routines s \<or> routine_ok M route a' g" if "g \<in># routines s'" for g
      using routines [OF that] requests_routine_ok [OF a'(2) m(1) ps] by blast
    with sim_quiet [OF sim m(1) a'(1) nv s'] show ?thesis by blast
  qed
  have same: ?thesis if "rn' = members s c" "out = []"
    by (rule quiet [of a]) (use that node_sim_refl [OF ok] in simp_all)
  have down: ?thesis if "currentTerm (members s c) < t" "rn' = stepDown now t (members s c)" "out = []" for t
    using stepDown_sim [OF inv m(1) ok that(1), of now] that no_vote_stepDown [OF that(1)] by (auto intro: quiet)
  consider (vote) p x y where "m = SendRequestVote p x" "r = VoteReply y" | (append) p x y where "m = SendAppendEntries p x" "r = AppendReply y"
    | (snap) p x y where "m = SendInstallSnapshot p x" "r = SnapshotReply y" | (other) "rn' = members s c" "out = []"
    using step by (cases "(now, m, r, v, members s c)" rule: resume.cases) auto
  then show ?thesis
  proof cases
    case (vote p x y)
    show ?thesis
    proof (cases "rv_IsPreVote x")
      case True
      then have "rn' = (if currentTerm (members s c) < rvr_Term y then stepDown now (rvr_Term y) (members s c) else members s c)"
        "out = []"
        using step vote by (auto simp: handle_prevote_reply_def)
      then show ?thesis
        using down [of "rvr_Term y"] same by (cases "currentTerm (members s c) < rvr_Term y") (simp_all only: if_True if_False simp_thms)
    next
      case False
      then have "handle_vote_reply now (rv_Term x) (quorum_size (members s c)) v y (members s c) = Some (rn', v', out)"
        using step vote by simp
      then show ?thesis
      proof (cases rule: handle_vote_reply_outcomes)
        case won
        then show ?thesis by (rule win_sim [OF sim m(1) _ _ s' routines])
      qed (rule down same; assumption)+
    qed
  next
    case (append p x y)
    then have h: "handle_append_reply now p x y (members s c) = Some (rn', out)" and y: "reply_ok a (route p) (SendAppendEntries p x) (AppendReply y)"
      using step m(2) by auto
    note nv = handle_append_reply_no_vote [OF h]
    then have "peers rn' = peers (members s c)" by (simp add: no_vote_def)
    then obtain a' where "node_sim M route c a a' rn'" "requests_ok M a' c (peers (members s c)) out"
      using append_reply_sim [OF inv pl ok y h] by auto
    then show ?thesis by (rule quiet [OF _ _ nv])
  next
    case (snap p x y)
    then have h: "rn' = handle_snapshot_reply now p x y (members s c)" "out = []"
      and y: "reply_ok a (route p) (SendInstallSnapshot p x) (SnapshotReply y)"
      using step m(2) by auto
    obtain a' where "node_sim M route c a a' rn'" using snapshot_reply_sim [OF inv m(1) ok y, of now] h(1) by auto
    then show ?thesis using h by (intro quiet) (simp_all add: handle_snapshot_reply_no_vote)
  qed (rule same)
qed

subsection \<open>The whole cluster\<close>

lemma sim_step:
  assumes step: "cluster_step M route s s'" and sim: "sim M route s a" and room: "roomy M s'"
  shows "\<exists>a'. (spec_step M)\<^sup>*\<^sup>* a a' \<and> sim M route s' a'"
proof -
  note inv = sim_simps(1,2) [OF sim]
  have inv': "cluster_inv M route s'" by (rule cluster_inv_step [OF step inv(2)])
  have served: "\<exists>a'. (spec_step M)\<^sup>*\<^sup>* a a' \<and> sim M route s' a'"
    if g: "Calling c m \<in># routines s" and h: "serve now m (members s (route (rpc_target m))) = Some (rn', r)"
      and t: "members s' = (members s)(route (rpc_target m) := rn')" "cast s' = cast (put (route (rpc_target m)) rn' s)"
      and new: "\<And>h. h \<in># routines s' \<Longrightarrow> h \<in># routines s \<or> h = Answered c m r" for c m now rn' r
  proof -
    have m: "addressed M route c m" "request_ok M a c m" using sim_simps(5) [OF sim g] by simp_all
    obtain a' where a': "(node_does M (route (rpc_target m)))\<^sup>*\<^sup>* a a'" "node_ok route a' (route (rpc_target m)) rn'"
      "reply_ok a' (route (rpc_target m)) m r" "votes_sim M (put (route (rpc_target m)) rn' s) a'"
      using serve_sim [OF sim m refl h] by blast
    have "votes_sim M s' a'" using a'(4) t(2) by (simp add: votes_sim_def)
    moreover have "moved (route (rpc_target m)) a a'" using node_run_moved [OF a'(1) inv(1)] by simp
    then have "routine_ok M route a' (Answered c m r)" using m a'(3) request_ok_moved by auto
    ultimately have "sim M route s' a'" using new by (intro sim_put [OF sim a'(1,2) inv' t(1)]) blast+
    then show ?thesis using node_run_spec [OF a'(1)] by blast
  qed
  show ?thesis
    using step
  proof cases
    case (elect c now rn' out)
    then show ?thesis by (intro elect_sim [OF sim _ _ _ inv'])
  next
    case (on_its_own c rn' out)
    note pl = sim_placed [OF sim on_its_own(2)]
    have "log_base rn' + length (rlog rn') < 2 ^ 63" using room on_its_own(1,2) by (force simp: roomy_def)
    then obtain a' where a': "node_sim M route c a a' rn'" "requests_ok M a' c (peers (members s c)) out"
      using local_step_sim [OF inv(1) pl sim_simps(4) [OF sim on_its_own(2)] on_its_own(3)] by blast
    have ps: "route ` set (peers (members s c)) = M - {c}" using pl by (simp add: placed_def)
    have nv: "no_vote (members s c) rn'" using local_step_no_vote [OF on_its_own(3)] by simp
    have "(spec_step M)\<^sup>*\<^sup>* a a' \<and> sim M route s' a'"
    proof (rule sim_quiet [OF sim on_its_own(2) a'(1) nv inv'])
      show "g \<in># routines s \<or> routine_ok M route a' g" if "g \<in># routines s'" for g
        using that requests_routine_ok [OF a'(2) on_its_own(2) ps] by (auto simp: on_its_own(1))
    qed (simp_all add: on_its_own(1))
    then show ?thesis by blast
  next
    case (deliver c m now rn' r)
    show ?thesis
      by (rule served [OF deliver(2,3)]) (use deliver(1) in \<open>auto simp: put_def dest: in_diffD\<close>)
  next
    case (lose_answer c m now rn' r)
    show ?thesis by (rule served [OF lose_answer(2,3)]) (use lose_answer(1) in simp_all)
  next
    case (drop_call g)
    then have "sim M route s' a"
      using sim inv' by (auto simp: sim_def votes_sim_def dest: in_diffD)
    then show ?thesis by blast
  next
    case (receive c m r now rn' v out)
    have cast: "cast (tally_reply c m v t) = cast t" "members (tally_reply c m v t) = members t"
      "routines (tally_reply c m v t) = routines t" for t
      by (simp_all add: tally_reply_def split: option.split prod.split)
    show ?thesis
    proof (rule receive_sim [OF sim receive(2,3) inv'])
      show "g \<in># routines s \<or> (\<exists>m \<in> set out. g = Calling c m)" if "g \<in># routines s'" for g
        using that by (auto simp: receive(1) cast dest: in_diffD)
    qed (simp_all add: receive(1) cast put_def)
  qed
qed

text \<open>Runs in which no log outgrows the index type.\<close>

definition bounded_step :: "string set \<Rightarrow> (string \<Rightarrow> string) \<Rightarrow> Cluster \<Rightarrow> Cluster \<Rightarrow> bool" where
  "bounded_step M route s s' \<longleftrightarrow> cluster_step M route s s' \<and> roomy M s'"

interpretation raft: simulation "bounded_step M route" "spec_step M" "sim M route" for M route
  by unfold_locales (use sim_step in \<open>auto simp: bounded_step_def\<close>)

text \<open>All members start from the same commit index, the length of the log they recovered.\<close>

definition same_start :: "string set \<Rightarrow> u64 \<Rightarrow> Cluster \<Rightarrow> bool" where
  "same_start M k s \<longleftrightarrow> (\<forall>c \<in> M. commitIndex (members s c) = k) \<and> unat k + 1 < 2 ^ 63"

definition initial_spec :: "nat \<Rightarrow> Spec" where
  "initial_spec n = \<lparr>sp_term = (\<lambda>c. 0), sp_log = (\<lambda>c. replicate (Suc n) (0, None)), sp_commit = (\<lambda>c. n),
     sp_hist = (\<lambda>t. if t = 0 then replicate (Suc n) (0, None) else []), sp_lead = (\<lambda>t. ''''),
     sp_ack = (\<lambda>v t. if t = 0 then n else 0), sp_cand = (\<lambda>c t. []), sp_votes = {}\<rparr>"

lemma initial_spec_init: "finite M \<Longrightarrow> M \<noteq> {} \<Longrightarrow> spec_init M (initial_spec n)"
  unfolding spec_init_def
  by (intro conjI exI [of _ "replicate (Suc n) (0, None)"]) (simp_all add: initial_spec_def fun_eq_iff)

lemma new_node_ok:
  assumes "unat (cfg_InitialCommitIndex c) = n" and "n + 1 < 2 ^ 63"
  shows "node_ok route (initial_spec n) d (NewRaftNode now c)"
proof -
  have idx: "unat (word_of_nat i :: u64) = i" if "i \<le> n" for i
    using that assms(2) by (intro unat_of_nat_small) simp
  have log: "rlog (NewRaftNode now c) = \<lparr>e_Index = 0, e_Term = 0, e_Data = None\<rparr> #
      map (\<lambda>i. \<lparr>e_Index = word_of_nat i, e_Term = 0, e_Data = None\<rparr>) [1..<Suc n]"
    "lastIncludedIndex (NewRaftNode now c) = 0" "lastIncludedTerm (NewRaftNode now c) = 0"
    "role (NewRaftNode now c) = Follower" "currentTerm (NewRaftNode now c) = 0"
    "commitIndex (NewRaftNode now c) = cfg_InitialCommitIndex c"
    using assms(1) by (simp_all add: NewRaftNode_def Let_def del: upt_Suc)
  have "contiguous 1 (map (\<lambda>i. \<lparr>e_Index = word_of_nat i, e_Term = 0, e_Data = None\<rparr>) [1..<Suc n])"
    unfolding contiguous_def
  proof (intro allI impI)
    fix i assume "i < length (map (\<lambda>i. \<lparr>e_Index = word_of_nat i :: u64, e_Term = 0 :: u64, e_Data = None :: byte list option\<rparr>) [1..<Suc n])"
    then have "i < n" by (simp del: upt_Suc)
    moreover from this have "unat (word_of_nat (Suc i) :: u64) = Suc i" by (intro idx) simp
    ultimately show "unat (e_Index (map (\<lambda>i. \<lparr>e_Index = word_of_nat i, e_Term = 0, e_Data = None\<rparr>) [1..<Suc n] ! i)) = 1 + i"
      by (simp add: nth_map_upt del: upt_Suc)
  qed
  moreover have "map (\<lambda>i. (0 :: u64, None :: byte list option)) [1..<Suc n] = replicate n (0, None)"
    by (simp add: map_replicate_const del: upt_Suc)
  ultimately have "log_sim (NewRaftNode now c) (replicate (Suc n) (0, None))"
    using assms(2) by (simp add: log_sim_def log_wf_def log_base_def log entry_of_def comp_def del: upt_Suc)
  then show ?thesis
    using assms(1) by (simp add: node_ok_follower log log_base_def initial_spec_def leads_def)
qed

lemma fresh_sim:
  assumes top: "topology M route s" and fresh: "fresh_cluster M s" and start: "same_start M k s" and ne: "M \<noteq> {}"
  shows "sim M route s (initial_spec (unat k))" and "spec_init M (initial_spec (unat k))"
proof -
  have fin: "finite M" "'''' \<notin> M" using top by (simp_all add: topology_def)
  show init: "spec_init M (initial_spec (unat k))" by (rule initial_spec_init [OF fin(1) ne])
  have "node_ok route (initial_spec (unat k)) c (members s c)" if c: "c \<in> M" for c
  proof -
    obtain now cf where cf: "members s c = NewRaftNode now cf" using fresh c by (auto simp: fresh_cluster_def)
    have "commitIndex (NewRaftNode now cf) = cfg_InitialCommitIndex cf" by (simp add: NewRaftNode_def Let_def)
    then have "cfg_InitialCommitIndex cf = k" using start c cf unfolding same_start_def by metis
    then show ?thesis using new_node_ok [of cf "unat k"] start cf by (simp add: same_start_def)
  qed
  then show "sim M route s (initial_spec (unat k))"
    using spec_init_inv [OF init] fresh_cluster_inv [OF top fresh] fresh fin(2)
    by (auto simp: sim_def votes_sim_def fresh_cluster_def initial_spec_def)
qed

end
