(* ===== verification/RaftSafety.thy ===== *)
theory RaftSafety
  imports RaftRefine
begin

text \<open>
  What a cluster of \<open>consensus.go\<close> guarantees, by its refinement of \<open>RaftSpec\<close>: state machine
  safety, leader completeness and log matching, for every run of freshly deployed members; and
  a concrete run that elects a leader, commits an entry and applies it on two members.
\<close>

section \<open>What the cluster guarantees\<close>

text \<open>The members of a cluster hold what the specification says.\<close>

definition implements :: "string set \<Rightarrow> Cluster \<Rightarrow> Spec \<Rightarrow> bool" where
  "implements M s a \<longleftrightarrow> (\<forall>c \<in> M. log_sim (members s c) (sp_log a c) \<and> sp_term a c = currentTerm (members s c) \<and>
     sp_commit a c = unat (commitIndex (members s c)) \<and>
     (role (members s c) = Leader \<longleftrightarrow> leads a c (currentTerm (members s c))))"

lemma sim_implements: "sim M route s a \<Longrightarrow> implements M s a"
  by (simp add: sim_def implements_def node_ok_def)

text \<open>A deployment: fresh members that know each other and start from the same commit index.\<close>

definition deployed :: "string set \<Rightarrow> (string \<Rightarrow> string) \<Rightarrow> u64 \<Rightarrow> Cluster \<Rightarrow> bool" where
  "deployed M route k s \<longleftrightarrow> M \<noteq> {} \<and> topology M route s \<and> fresh_cluster M s \<and> same_start M k s"

lemma deployed_run:
  assumes "deployed M route k s0" and "(bounded_step M route)\<^sup>*\<^sup>* s0 s" and "(bounded_step M route)\<^sup>*\<^sup>* s s'"
  obtains a0 a a' where "spec_init M a0" "(spec_step M)\<^sup>*\<^sup>* a0 a" "(spec_step M)\<^sup>*\<^sup>* a a'"
    "spec_inv M a" "spec_inv M a'" "implements M s a" "implements M s' a'"
proof -
  let ?a0 = "initial_spec (unat k)"
  have s0: "sim M route s0 ?a0" "spec_init M ?a0" using fresh_sim assms(1) unfolding deployed_def by blast+
  obtain a where a: "(spec_step M)\<^sup>*\<^sup>* ?a0 a" "sim M route s a" using raft.run_simulated [OF assms(2) s0(1)] by blast
  obtain a' where a': "(spec_step M)\<^sup>*\<^sup>* a a'" "sim M route s' a'" using raft.run_simulated [OF assms(3) a(2)] by blast
  show thesis
    by (rule that [OF s0(2) a(1) a'(1) sim_simps(1) [OF a(2)] sim_simps(1) [OF a'(2)] sim_implements [OF a(2)] sim_implements [OF a'(2)]])
qed

text \<open>The stored entries above the snapshot are those of the whole log.\<close>

lemma log_sim_member:
  assumes sim: "log_sim rn l" and e: "e \<in> set (rlog rn)"
  shows "lastIncludedIndex rn \<le> e_Index e" and "unat (e_Index e) < length l" and "fst (l ! unat (e_Index e)) = e_Term e"
    and "lastIncludedIndex rn < e_Index e \<Longrightarrow> l ! unat (e_Index e) = entry_of e"
proof -
  obtain i where i: "i < length (rlog rn)" "e = rlog rn ! i" using e by (auto simp: in_set_conv_nth)
  have cont: "contiguous (log_base rn) (rlog rn)" and len: "length l = log_base rn + length (rlog rn)"
    using sim by (simp_all add: log_sim_def log_wf_def)
  then have idx: "unat (e_Index e) = log_base rn + i" using i by (simp add: contiguous_def)
  then show "lastIncludedIndex rn \<le> e_Index e" "unat (e_Index e) < length l"
    using len i(1) by (simp_all add: word_le_nat_alt log_base_def)
  show "fst (l ! unat (e_Index e)) = e_Term e"
    using log_sim_term [OF sim, of "log_base rn + i"] len i idx by simp
  assume "lastIncludedIndex rn < e_Index e"
  then have "0 < i" using idx by (simp add: word_less_nat_alt log_base_def)
  then show "l ! unat (e_Index e) = entry_of e"
    using log_sim_entry [OF sim, of "log_base rn + i"] len i idx by simp
qed

lemma log_sim_stored:
  assumes sim: "log_sim rn l" and i: "log_base rn < i" "i < length l"
  shows "\<exists>e \<in> set (rlog rn). unat (e_Index e) = i \<and> entry_of e = l ! i"
proof -
  have cont: "contiguous (log_base rn) (rlog rn)" and len: "length l = log_base rn + length (rlog rn)"
    using sim by (simp_all add: log_sim_def log_wf_def)
  let ?j = "i - log_base rn"
  have "?j < length (rlog rn)" using i len by simp
  moreover from this have "unat (e_Index (rlog rn ! ?j)) = i" using cont i(1) by (simp add: contiguous_def)
  ultimately show ?thesis using log_sim_entry [OF sim i] nth_mem by blast
qed

lemma entry_eq: "entry_of e = entry_of f \<Longrightarrow> unat (e_Index e) = unat (e_Index f) \<Longrightarrow> e = f"
  by (cases e; cases f) (simp add: entry_of_def word_unat_eq_iff)

text \<open>What a pass of the applier hands out: stored, committed entries it has not handed out before.\<close>

lemma apply_pass_sound:
  "apply_pass rn = Some (rn', es) \<Longrightarrow> log_wf rn \<Longrightarrow> unat (commitIndex rn) < 2 ^ 63 \<Longrightarrow> e \<in> set es \<Longrightarrow>
     e \<in> set (rlog rn) \<and> lastIncludedIndex rn < e_Index e \<and> e_Index e \<le> commitIndex rn \<and> lastApplied rn < e_Index e"
proof (induction "unat (commitIndex rn) - unat (lastApplied rn)" arbitrary: rn es rule: less_induct)
  case less
  show ?case
  proof (cases "lastApplied rn < commitIndex rn")
    case False
    then show ?thesis using less.prems by (simp add: apply_pass.simps [of rn])
  next
    case True
    let ?k = "lastApplied rn + 1" and ?rn = "rn\<lparr>lastApplied := lastApplied rn + 1\<rparr>"
    have k: "unat ?k = Suc (unat (lastApplied rn))" by (rule unat_Suc_less [OF True])
    then have le: "unat ?k \<le> unat (commitIndex rn)" using True by (simp add: word_less_nat_alt)
    have above: "lastApplied rn < ?k" using k by (simp add: word_less_nat_alt)
    have rest: "e \<in> set (rlog rn) \<and> lastIncludedIndex rn < e_Index e \<and> e_Index e \<le> commitIndex rn \<and> lastApplied rn < e_Index e"
      if "apply_pass ?rn = Some (rn', out)" "e \<in> set out" for out
      using less.hyps [of ?rn out] that less.prems(2,3) k le above by (simp add: order.strict_trans [OF above])
    show ?thesis
    proof (cases "?k \<le> lastIncludedIndex rn")
      case skip: True
      then have "apply_pass ?rn = Some (rn', es)" using less.prems(1) True by (simp add: apply_pass.simps [of rn])
      then show ?thesis by (rule rest [OF _ less.prems(4)])
    next
      case False
      then have "lastIncludedIndex rn < ?k" by simp
      moreover have "unat ?k < 2 ^ 63" using le less.prems(3) by simp
      ultimately obtain d where d: "sint (?k - lastIncludedIndex rn) = int d" "unat ?k = log_base rn + d" "0 < d"
        by (rule slice_index)
      show ?thesis
      proof (cases "d < length (rlog rn)")
        case inside: True
        then obtain out where out: "apply_pass ?rn = Some (rn', out)" "set es \<subseteq> insert (rlog rn ! d) (set out)"
          using less.prems(1) True False d
          by (auto simp: apply_pass.simps [of rn] Let_def bind_eq_Some_conv log_at_nat split: if_splits)
        have "contiguous (log_base rn) (rlog rn)" using less.prems(2) by (simp add: log_wf_def)
        then have "unat (e_Index (rlog rn ! d)) = unat ?k" using inside d(2) by (simp add: contiguous_def)
        then have "e_Index (rlog rn ! d) = ?k" by (simp only: word_unat_eq_iff)
        moreover have "?k \<le> commitIndex rn" using le by (simp only: word_le_nat_alt)
        ultimately have "lastIncludedIndex rn < e_Index (rlog rn ! d)" "e_Index (rlog rn ! d) \<le> commitIndex rn"
          "lastApplied rn < e_Index (rlog rn ! d)"
          using False above by simp_all
        then show ?thesis using out rest less.prems(4) nth_mem [OF inside] by auto
      next
        case False: False
        then have "apply_pass ?rn = Some (rn', es)"
          using less.prems(1) True \<open>\<not> ?k \<le> lastIncludedIndex rn\<close> d by (simp add: apply_pass.simps [of rn] Let_def)
        then show ?thesis by (rule rest [OF _ less.prems(4)])
      qed
    qed
  qed
qed

lemma committed_entry:
  assumes "implements M s a" and "c \<in> M" and e: "e \<in> set (rlog (members s c))"
    "lastIncludedIndex (members s c) < e_Index e" "e_Index e \<le> commitIndex (members s c)"
  shows "unat (e_Index e) \<le> sp_commit a c" and "sp_log a c ! unat (e_Index e) = entry_of e"
proof -
  have sim: "log_sim (members s c) (sp_log a c)" and "sp_commit a c = unat (commitIndex (members s c))"
    using assms(1,2) by (simp_all add: implements_def)
  then show "unat (e_Index e) \<le> sp_commit a c" "sp_log a c ! unat (e_Index e) = entry_of e"
    using e(3) log_sim_member(4) [OF sim e(1,2)] by (simp_all add: word_le_nat_alt)
qed

lemma applied_entry:
  assumes "spec_inv M a" and im: "implements M s a" "c \<in> M" and step: "runApplierLoop_step (members s c) = Some (rn, es)" "e \<in> set es"
  shows "unat (e_Index e) \<le> sp_commit a c" and "sp_log a c ! unat (e_Index e) = entry_of e"
    and "lastApplied (members s c) < e_Index e"
proof -
  let ?rn = "members s c"
  have sim: "log_sim ?rn (sp_log a c)" and com: "sp_commit a c = unat (commitIndex ?rn)"
    using im by (simp_all add: implements_def)
  have "sp_commit a c < length (sp_log a c)"
    using assms(1) im(2) agree_lengthD(1) unfolding spec_inv_def commits_ok_def by blast
  then have "unat (commitIndex ?rn) < 2 ^ 63" using com log_sim_length(3) [OF sim] by simp
  moreover have "log_wf ?rn" using sim by (simp add: log_sim_def)
  moreover have "apply_pass (?rn\<lparr>commitNotify := commitNotify ?rn - 1\<rparr>) = Some (rn, es)"
    using step by (auto simp: runApplierLoop_step_def split: if_splits)
  ultimately have e: "e \<in> set (rlog ?rn)" "lastIncludedIndex ?rn < e_Index e" "e_Index e \<le> commitIndex ?rn"
    and "lastApplied ?rn < e_Index e"
    using apply_pass_sound [OF _ _ _ step(2)] by fastforce+
  then show "lastApplied ?rn < e_Index e" by simp
  from e show "unat (e_Index e) \<le> sp_commit a c" "sp_log a c ! unat (e_Index e) = entry_of e"
    by (rule committed_entry [OF im])+
qed

section \<open>A run that commits\<close>

text \<open>
  Three members: \<open>a\<close> is elected with the vote of \<open>b\<close>, takes a proposal, replicates it to \<open>b\<close>,
  commits it and tells \<open>b\<close>; both apply it.
\<close>

definition entry1 :: LogEntry where
  "entry1 = \<lparr>e_Index = 1, e_Term = 1, e_Data = Some [7]\<rparr>"

definition append_to :: "u64 \<Rightarrow> u64 \<Rightarrow> LogEntry list \<Rightarrow> u64 \<Rightarrow> AppendEntriesArgs" where
  "append_to i t es k = \<lparr>ae_Term = 1, ae_LeaderID = ''a'', ae_PrevLogIndex = i, ae_PrevLogTerm = t,
     ae_Entries = es, ae_LeaderCommit = k\<rparr>"

definition voter_b :: RaftNode where
  "voter_b = (example_members ''b'')\<lparr>currentTerm := 1, votedFor := ''a'', electionResetEvent := 6\<rparr>"

definition leader_a :: RaftNode where
  "leader_a = fresh_leader example_candidate 0"

definition proposed_a :: RaftNode where
  "proposed_a = appended leader_a entry1"

definition stored_b :: RaftNode where
  "stored_b = voter_b\<lparr>rlog := rlog voter_b @ [entry1], leaderID := ''a'', electionResetEvent := 8\<rparr>"

definition committed_a :: RaftNode where
  "committed_a = notify_commit (proposed_a\<lparr>nextIndex := (nextIndex proposed_a)(''b'' \<mapsto> 2),
     matchIndex := (matchIndex proposed_a)(''b'' \<mapsto> 1), commitIndex := 1\<rparr>)"

definition committed_b :: RaftNode where
  "committed_b = notify_commit (stored_b\<lparr>commitIndex := 1, electionResetEvent := 10\<rparr>)"

lemmas run_nodes = example_members_eq example_node_eq example_candidate_def leader_a_def fresh_leader_def voter_b_def
  proposed_a_def stored_b_def committed_a_def committed_b_def notify_commit_def appended_def entry1_def

lemmas run_code = lastLogIndex_def lastLogTerm_def log_at_def Let_def broadcastAppendEntries_def broadcast_to_def
  getLogTerm_def getLogSlice_def map_get_def append_to_def

lemma vote_b: "serve 6 (SendRequestVote ''b'' example_ballot) (example_members ''b'') =
    Some (voter_b, VoteReply \<lparr>rvr_Term = 1, rvr_VoteGranted = True\<rparr>)"
  by (simp add: run_nodes run_code HandleRequestVote_def example_ballot_def stepDown_def)

lemma win_a: "becomeLeader example_candidate = Some (leader_a,
    [SendAppendEntries ''b'' (append_to 0 0 [] 0), SendAppendEntries ''c'' (append_to 0 0 [] 0)])"
  by (simp add: run_nodes run_code becomeLeader_def fun_eq_iff cong: if_cong)

lemma propose_a: "propose_start (Some [7]) leader_a = Some (Inr (proposed_a, 1, 1,
    [SendAppendEntries ''b'' (append_to 0 0 [entry1] 0), SendAppendEntries ''c'' (append_to 0 0 [entry1] 0)]))"
  by (simp add: run_nodes run_code propose_start_def)

lemma store_b: "serve 8 (SendAppendEntries ''b'' (append_to 0 0 [entry1] 0)) voter_b =
    Some (stored_b, AppendReply \<lparr>aer_Term = 1, aer_Success = True, aer_MatchIndex = 1\<rparr>)"
  by (simp add: run_nodes run_code HandleAppendEntries_def append_checked_def advance_follower_commit_def)

lemma commit_a: "resume 9 (SendAppendEntries ''b'' (append_to 0 0 [entry1] 0))
    (AppendReply \<lparr>aer_Term = 1, aer_Success = True, aer_MatchIndex = 1\<rparr>) v proposed_a =
  Some (committed_a, v, [SendAppendEntries ''b'' (append_to 1 1 [] 1), SendAppendEntries ''c'' (append_to 0 0 [entry1] 1)])"
  by (simp add: run_nodes run_code handle_append_reply_def checkAndUpdateCommitIndex_def commit_scan.simps
      match_count_def quorum_size_def)

lemma commit_b: "serve 10 (SendAppendEntries ''b'' (append_to 1 1 [] 1)) stored_b =
    Some (committed_b, AppendReply \<lparr>aer_Term = 1, aer_Success = True, aer_MatchIndex = 1\<rparr>)"
  by (simp add: run_nodes run_code HandleAppendEntries_def append_checked_def advance_follower_commit_def)

lemma apply_a: "runApplierLoop_step committed_a = Some (committed_a\<lparr>lastApplied := 1, commitNotify := 0\<rparr>, [entry1])"
  by (simp add: run_nodes run_code runApplierLoop_step_def apply_pass.simps example_config_def)

lemma apply_b: "runApplierLoop_step committed_b = Some (committed_b\<lparr>lastApplied := 1, commitNotify := 0\<rparr>, [entry1])"
  by (simp add: run_nodes run_code runApplierLoop_step_def apply_pass.simps example_config_def)

subsection \<open>The run of the cluster\<close>

definition trio :: "string set" where
  "trio = {''a'', ''b'', ''c''}"

definition small_log :: "RaftNode \<Rightarrow> bool" where
  "small_log rn \<longleftrightarrow> log_base rn + length (rlog rn) < 2 ^ 63"

text \<open>The members of a state after \<open>s\<close>, and some of the goroutines in it.\<close>

definition reached :: "Cluster \<Rightarrow> Cluster \<Rightarrow> (string \<Rightarrow> RaftNode) \<Rightarrow> goroutine set \<Rightarrow> bool" where
  "reached s0 s f R \<longleftrightarrow> (bounded_step trio id)\<^sup>*\<^sup>* s0 s \<and> members s = f \<and> R \<subseteq> set_mset (routines s) \<and>
     (\<forall>c \<in> trio. small_log (f c))"

lemma reached_step:
  assumes "reached s0 s f R" and "cluster_step trio id s s'" and "members s' = f(c := rn')" and "small_log rn'"
    and "R' \<subseteq> set_mset (routines s')"
  shows "reached s0 s' (f(c := rn')) R'"
proof -
  have "roomy trio s'" using assms(1,3,4) by (auto simp: reached_def roomy_def small_log_def)
  then have "(bounded_step trio id)\<^sup>*\<^sup>* s0 s'"
    using assms(1,2) by (auto simp: reached_def bounded_step_def intro: rtranclp.rtrancl_into_rtrancl)
  then show ?thesis using assms(1,3-5) by (auto simp: reached_def)
qed

lemma reached_deliver:
  assumes "reached s0 s f (insert (Calling c m) R)" and "serve now m (f (rpc_target m)) = Some (rn', r)" and "small_log rn'"
    and "Calling c m \<notin> R"
  shows "\<exists>s'. reached s0 s' (f(rpc_target m := rn')) (insert (Answered c m r) R) \<and> tally s' = tally s"
proof -
  let ?s' = "put (id (rpc_target m)) rn' s\<lparr>routines := add_mset (Answered c m r) (routines s - {#Calling c m#})\<rparr>"
  have s: "members s = f" "Calling c m \<in># routines s" "R \<subseteq> set_mset (routines s)" using assms(1) by (simp_all add: reached_def)
  have "cluster_step trio id s ?s'" by (rule cluster_step.deliver) (use assms(2) s in simp_all)
  moreover have "R \<subseteq> set_mset (routines s - {#Calling c m#})"
  proof
    fix g assume "g \<in> R"
    with s(3) assms(4) have "g \<noteq> Calling c m" "g \<in># routines s" by auto
    then show "g \<in># routines s - {#Calling c m#}" by (simp add: in_diff_count)
  qed
  ultimately show ?thesis using s(1) assms(3) by (intro exI [of _ ?s'] conjI reached_step [OF assms(1)]) auto
qed

lemma reached_receive:
  assumes "reached s0 s f {Answered c m r}" and "resume now m r (tally s c (ballot_term m)) (f c) = Some (rn', v, out)" and "small_log rn'"
  shows "\<exists>s'. reached s0 s' (f(c := rn')) (Calling c ` set out)"
proof -
  let ?s' = "spawn c out (tally_reply c m v (put c rn' (retire (Answered c m r) s)))"
  have s: "members s = f" "Answered c m r \<in># routines s" using assms(1) by (simp_all add: reached_def)
  have "cluster_step trio id s ?s'" by (rule cluster_step.receive) (use assms(2) s in simp_all)
  moreover have "members ?s' = f(c := rn')" using s(1) by (simp add: tally_reply_def split: option.split)
  ultimately show ?thesis using assms(3) by (intro exI [of _ ?s'] reached_step [OF assms(1)]) auto
qed

lemma reached_local:
  assumes "reached s0 s f R" and "c \<in> trio" and "local_step (f c) rn' out" and "small_log rn'"
  shows "\<exists>s'. reached s0 s' (f(c := rn')) (Calling c ` set out)"
proof -
  let ?s' = "spawn c out (put c rn' s)"
  have s: "members s = f" using assms(1) by (simp add: reached_def)
  have "cluster_step trio id s ?s'" by (rule cluster_step.on_its_own) (use assms(2,3) s in simp_all)
  then show ?thesis using s assms(4) by (intro exI [of _ ?s'] reached_step [OF assms(1)]) auto
qed

lemma example_deployed: "deployed trio id 0 example_cluster"
  using example_cluster_topology example_cluster_fresh
  by (auto simp: deployed_def trio_def same_start_def example_cluster_def example_members_eq example_node_eq)

lemma small_logs:
  "small_log (example_members c)" "small_log example_candidate" "small_log voter_b" "small_log leader_a"
  "small_log proposed_a" "small_log stored_b" "small_log committed_a" "small_log committed_b"
  by (simp_all add: small_log_def run_nodes log_base_def)

text \<open>The two members that move; \<open>c\<close> stays as it was.\<close>

definition nodes :: "RaftNode \<Rightarrow> RaftNode \<Rightarrow> string \<Rightarrow> RaftNode" where
  "nodes a b = example_members(''a'' := a, ''b'' := b)"

lemma nodes_simps [simp]:
  "nodes a b ''a'' = a" "nodes a b ''b'' = b" "(nodes a b)(''a'' := x) = nodes x b" "(nodes a b)(''b'' := x) = nodes a x"
  by (auto simp: nodes_def)

lemma reached_some: "reached s0 s f R \<Longrightarrow> R' \<subseteq> R \<Longrightarrow> reached s0 s f R'"
  by (auto simp: reached_def)

lemma reached_self: "reached s0 s f R \<Longrightarrow> reached s s f R"
  by (simp add: reached_def)

lemma run_elected: "\<exists>s. reached example_cluster s (nodes leader_a voter_b) {}"
proof -
  let ?m = "SendRequestVote ''b'' example_ballot" and ?m' = "SendRequestVote ''c'' example_ballot"
  let ?r = "VoteReply \<lparr>rvr_Term = 1, rvr_VoteGranted = True\<rparr>"
  let ?s1 = "spawn ''a'' [?m, ?m'] (open_election ''a'' (currentTerm example_candidate) (put ''a'' example_candidate example_cluster))"
  let ?b = "example_members ''b''"
  have "nodes (example_members ''a'') ?b = example_members" by (simp add: nodes_def)
  then have r0: "reached example_cluster example_cluster (nodes (example_members ''a'') ?b) {}"
    using small_logs(1) by (simp add: reached_def) (simp add: example_cluster_def)
  have h1: "cluster_step trio id example_cluster ?s1"
    by (rule cluster_step.elect [where now = 5])
      (use example_campaign in \<open>simp_all add: trio_def example_cluster_def example_members_eq example_node_eq\<close>)
  have h2: "members ?s1 = (nodes (example_members ''a'') ?b)(''a'' := example_candidate)"
    by (simp add: nodes_def example_cluster_def)
  have r1: "reached example_cluster ?s1 (nodes example_candidate ?b) {Calling ''a'' ?m}"
    using reached_step [OF r0 h1 h2 small_logs(2), of "{Calling ''a'' ?m}"] unfolding nodes_simps by simp
  have "serve 6 ?m (nodes example_candidate ?b (rpc_target ?m)) = Some (voter_b, ?r)"
    using vote_b by (simp del: serve.simps)
  from reached_deliver [OF r1 this small_logs(3)] obtain s2 where
    s2: "reached example_cluster s2 (nodes example_candidate voter_b) {Answered ''a'' ?m ?r}" "tally s2 = tally ?s1"
    unfolding rpc_target.simps nodes_simps by blast
  have "tally s2 ''a'' (ballot_term ?m) = 1"
    unfolding s2(2) by (simp add: example_candidate_def ballot_term_def example_ballot_def)
  then have "resume 7 ?m ?r (tally s2 ''a'' (ballot_term ?m)) (nodes example_candidate voter_b ''a'') =
      Some (leader_a, 2, [SendAppendEntries ''b'' (append_to 0 0 [] 0), SendAppendEntries ''c'' (append_to 0 0 [] 0)])"
    using win_a by (simp add: handle_vote_reply_def example_ballot_def example_candidate_def quorum_size_def example_members_eq)
  from reached_receive [OF s2(1) this small_logs(4)] show ?thesis
    unfolding nodes_simps by (blast intro: reached_some)
qed

lemma run_committed:
  obtains s s' where "(bounded_step trio id)\<^sup>*\<^sup>* example_cluster s" "members s ''a'' = committed_a"
    "(bounded_step trio id)\<^sup>*\<^sup>* s s'" "members s' ''a'' = committed_a" "members s' ''b'' = committed_b"
proof -
  let ?m = "SendAppendEntries ''b'' (append_to 0 0 [entry1] 0)" and ?m2 = "SendAppendEntries ''b'' (append_to 1 1 [] 1)"
  let ?c = "SendAppendEntries ''c'' (append_to 0 0 [entry1] 0)" and ?c2 = "SendAppendEntries ''c'' (append_to 0 0 [entry1] 1)"
  let ?r = "AppendReply \<lparr>aer_Term = 1, aer_Success = True, aer_MatchIndex = 1\<rparr>"
  obtain s3 where s3: "reached example_cluster s3 (nodes leader_a voter_b) {}" using run_elected by blast
  have a: "''a'' \<in> trio" by (simp add: trio_def)
  have "local_step (nodes leader_a voter_b ''a'') proposed_a [?m, ?c]"
    using local_step.propose [OF propose_a] by simp
  from reached_local [OF s3 a this small_logs(5)]
  obtain s4 where "reached example_cluster s4 (nodes proposed_a voter_b) (Calling ''a'' ` set [?m, ?c])"
    unfolding nodes_simps by blast
  then have s4: "reached example_cluster s4 (nodes proposed_a voter_b) {Calling ''a'' ?m}"
    by (rule reached_some) simp
  have "serve 8 ?m (nodes proposed_a voter_b (rpc_target ?m)) = Some (stored_b, ?r)"
    using store_b by (simp del: serve.simps)
  from reached_deliver [OF s4 this small_logs(6)]
  obtain s5 where s5: "reached example_cluster s5 (nodes proposed_a stored_b) {Answered ''a'' ?m ?r}"
    unfolding rpc_target.simps nodes_simps by blast
  have "resume 9 ?m ?r v (nodes proposed_a stored_b ''a'') = Some (committed_a, v, [?m2, ?c2])" for v
    using commit_a [of v] by (simp del: resume.simps)
  from reached_receive [OF s5 this small_logs(7)]
  obtain s6 where "reached example_cluster s6 (nodes committed_a stored_b) (Calling ''a'' ` set [?m2, ?c2])"
    unfolding nodes_simps by blast
  then have s6: "reached example_cluster s6 (nodes committed_a stored_b) {Calling ''a'' ?m2}"
    by (rule reached_some) simp
  have "serve 10 ?m2 (nodes committed_a stored_b (rpc_target ?m2)) = Some (committed_b, ?r)"
    using commit_b by (simp del: serve.simps)
  from reached_deliver [OF reached_self [OF s6] this small_logs(8)]
  obtain s7 where s7: "reached s6 s7 (nodes committed_a committed_b) {Answered ''a'' ?m2 ?r}"
    unfolding rpc_target.simps nodes_simps by blast
  show thesis by (rule that [of s6 s7]) (use s6 s7 in \<open>simp_all add: reached_def\<close>)
qed

section \<open>The theorems\<close>

text \<open>C2. The cluster of the code refines the abstract replicated log: for every run of a freshly
  deployed cluster (elections, lost and repeated calls, compaction, snapshots, proposals, in any
  interleaving) there is a run of the specification whose terms, whole logs, commit indices and
  leaders are those of the program, at every point of the run.\<close>

theorem raft_refines_spec:
  assumes "deployed M route k s0" and "(bounded_step M route)\<^sup>*\<^sup>* s0 s" and "(bounded_step M route)\<^sup>*\<^sup>* s s'"
  shows "\<exists>a0 a a'. spec_init M a0 \<and> (spec_step M)\<^sup>*\<^sup>* a0 a \<and> implements M s a \<and>
    (spec_step M)\<^sup>*\<^sup>* a a' \<and> implements M s' a'"
  by (rule deployed_run [OF assms]) blast

theorem raft_refines_spec_witness:
  "\<exists>s s' a0 a a'. members s ''a'' = committed_a \<and> members s' ''b'' = committed_b \<and> spec_init trio a0 \<and>
     (spec_step trio)\<^sup>*\<^sup>* a0 a \<and> implements trio s a \<and> (spec_step trio)\<^sup>*\<^sup>* a a' \<and> implements trio s' a'"
proof -
  obtain s s' where s: "(bounded_step trio id)\<^sup>*\<^sup>* example_cluster s" "members s ''a'' = committed_a"
    "(bounded_step trio id)\<^sup>*\<^sup>* s s'" "members s' ''b'' = committed_b" by (rule run_committed)
  show ?thesis using raft_refines_spec [OF example_deployed s(1,3)] s(2,4) by blast
qed

text \<open>C1. State machine safety: whatever two members hand to \<open>OnCommit\<close> for the same index, in any
  two states of a run, is the same entry.\<close>

theorem state_machine_safety:
  assumes "deployed M route k s0" and "(bounded_step M route)\<^sup>*\<^sup>* s0 s" and "(bounded_step M route)\<^sup>*\<^sup>* s s'"
    and "c \<in> M" and "d \<in> M"
    and "runApplierLoop_step (members s c) = Some (rn, es)" and "e \<in> set es"
    and "runApplierLoop_step (members s' d) = Some (rn', fs)" and "f \<in> set fs"
    and "e_Index e = e_Index f"
  shows "e = f"
proof -
  obtain a0 a a' where a: "(spec_step M)\<^sup>*\<^sup>* a a'" "spec_inv M a" "spec_inv M a'" "implements M s a" "implements M s' a'"
    by (rule deployed_run [OF assms(1-3)])
  note e = applied_entry [OF a(2,4) assms(4,6,7)] and f = applied_entry [OF a(3,5) assms(5,8,9)]
  have "agree (unat (e_Index e)) (sp_log a c) (sp_log a' d)"
    using e(1) f(1) assms(10) by (intro spec_commits_agree [OF a(2,1) assms(4,5)]) simp_all
  from agree_nth [OF this order_refl] show ?thesis using e(2) f(2) assms(10) by (intro entry_eq) simp_all
qed

theorem state_machine_safety_witness:
  "\<exists>s s' rn rn' es fs. (bounded_step trio id)\<^sup>*\<^sup>* example_cluster s \<and> (bounded_step trio id)\<^sup>*\<^sup>* s s' \<and>
     runApplierLoop_step (members s ''a'') = Some (rn, es) \<and> runApplierLoop_step (members s' ''b'') = Some (rn', fs) \<and>
     es = [entry1] \<and> fs = [entry1] \<and> (\<forall>e \<in> set es. \<forall>f \<in> set fs. e_Index e = e_Index f \<longrightarrow> e = f)"
proof -
  obtain s s' where s: "(bounded_step trio id)\<^sup>*\<^sup>* example_cluster s" "members s ''a'' = committed_a"
    "(bounded_step trio id)\<^sup>*\<^sup>* s s'" "members s' ''b'' = committed_b" by (rule run_committed)
  have trio: "''a'' \<in> trio" "''b'' \<in> trio" by (simp_all add: trio_def)
  have a: "runApplierLoop_step (members s ''a'') = Some (committed_a\<lparr>lastApplied := 1, commitNotify := 0\<rparr>, [entry1])"
    and b: "runApplierLoop_step (members s' ''b'') = Some (committed_b\<lparr>lastApplied := 1, commitNotify := 0\<rparr>, [entry1])"
    using apply_a apply_b s(2,4) by simp_all
  have "\<forall>e \<in> set [entry1]. \<forall>f \<in> set [entry1]. e_Index e = e_Index f \<longrightarrow> e = f"
    using state_machine_safety [OF example_deployed s(1,3) trio a _ b] by blast
  with s(1,3) a b show ?thesis by blast
qed

text \<open>C5. Leader completeness: an entry that some member knows to be committed is held by every
  leader of that member's term or a later one, unless the leader's snapshot already covers it.\<close>

theorem leader_completeness:
  assumes "deployed M route k s0" and "(bounded_step M route)\<^sup>*\<^sup>* s0 s" and "(bounded_step M route)\<^sup>*\<^sup>* s s'"
    and "c \<in> M" and "e \<in> set (rlog (members s c))" and "lastIncludedIndex (members s c) < e_Index e"
    and "e_Index e \<le> commitIndex (members s c)"
    and "d \<in> M" and "role (members s' d) = Leader" and "currentTerm (members s c) \<le> currentTerm (members s' d)"
  shows "e_Index e \<le> lastIncludedIndex (members s' d) \<or> e \<in> set (rlog (members s' d))"
proof -
  obtain a0 a a' where a: "(spec_step M)\<^sup>*\<^sup>* a a'" "spec_inv M a" "implements M s a" "implements M s' a'"
    by (rule deployed_run [OF assms(1-3)])
  let ?i = "unat (e_Index e)" and ?t = "currentTerm (members s' d)"
  note e = committed_entry [OF a(3) assms(4-7)]
  have d: "log_sim (members s' d) (sp_log a' d)" "leads a' d ?t" "sp_term a' d = ?t"
    using a(4) assms(8,9) by (simp_all add: implements_def)
  have "sp_term a c \<le> ?t" using a(3) assms(4,10) by (simp add: implements_def)
  then have ag: "agree ?i (sp_log a c) (sp_log a' d)"
    using d(2,3) by (intro spec_leader_complete [OF a(2,1) assms(4) e(1)]) (simp_all add: leads_def)
  have "\<exists>f \<in> set (rlog (members s' d)). unat (e_Index f) = ?i \<and> entry_of f = sp_log a' d ! ?i"
    if "lastIncludedIndex (members s' d) < e_Index e"
    using that agree_lengthD(2) [OF ag] by (intro log_sim_stored [OF d(1)]) (simp_all add: log_base_def word_less_nat_alt)
  moreover have "sp_log a' d ! ?i = entry_of e" using agree_nth [OF ag order_refl] e(2) by simp
  ultimately show ?thesis using entry_eq by (metis not_less)
qed

theorem leader_completeness_witness:
  "\<exists>s s'. (bounded_step trio id)\<^sup>*\<^sup>* example_cluster s \<and> (bounded_step trio id)\<^sup>*\<^sup>* s s' \<and> members s ''a'' = committed_a \<and>
     role (members s' ''a'') = Leader \<and>
     (e_Index entry1 \<le> lastIncludedIndex (members s' ''a'') \<or> entry1 \<in> set (rlog (members s' ''a'')))"
proof -
  obtain s s' where s: "(bounded_step trio id)\<^sup>*\<^sup>* example_cluster s" "members s ''a'' = committed_a"
    "(bounded_step trio id)\<^sup>*\<^sup>* s s'" "members s' ''a'' = committed_a" by (rule run_committed)
  have a: "''a'' \<in> trio" by (simp add: trio_def)
  have e: "entry1 \<in> set (rlog committed_a)" "lastIncludedIndex committed_a < e_Index entry1" "e_Index entry1 \<le> commitIndex committed_a"
    and l: "role committed_a = Leader" by (simp_all add: run_nodes)
  have "e_Index entry1 \<le> lastIncludedIndex (members s' ''a'') \<or> entry1 \<in> set (rlog (members s' ''a''))"
    by (rule leader_completeness [OF example_deployed s(1,3) a _ _ _ a]) (use e l s(2,4) in simp_all)
  with s l show ?thesis by (intro exI [of _ s] exI [of _ s']) simp
qed

text \<open>C10. Log matching: if two members store entries of the same index and term, then their
  entries at every lower index are the same, as far as both still store them.\<close>

theorem log_matching:
  assumes "deployed M route k s0" and "(bounded_step M route)\<^sup>*\<^sup>* s0 s" and "c \<in> M" and "d \<in> M"
    and "e \<in> set (rlog (members s c))" and "f \<in> set (rlog (members s d))"
    and "e_Index e = e_Index f" and "e_Term e = e_Term f"
    and "e' \<in> set (rlog (members s c))" and "lastIncludedIndex (members s c) < e_Index e'"
    and "f' \<in> set (rlog (members s d))" and "lastIncludedIndex (members s d) < e_Index f'"
    and "e_Index e' = e_Index f'" and "e_Index e' \<le> e_Index e"
  shows "e' = f'"
proof -
  obtain a0 a a' where a: "spec_inv M a" "implements M s a"
    by (rule deployed_run [OF assms(1,2) rtranclp.rtrancl_refl])
  have c: "log_sim (members s c) (sp_log a c)" and d: "log_sim (members s d) (sp_log a d)"
    using a(2) assms(3,4) by (simp_all add: implements_def)
  let ?i = "unat (e_Index e)"
  have "agree ?i (sp_log a c) (sp_log a d)"
    using log_sim_member(2,3) [OF c assms(5)] log_sim_member(2,3) [OF d assms(6)] assms(7,8)
    by (intro spec_log_matching [OF a(1) assms(3,4)]) simp_all
  then have "sp_log a c ! unat (e_Index e') = sp_log a d ! unat (e_Index e')"
    by (rule agree_nth) (use assms(14) in \<open>simp add: word_le_nat_alt\<close>)
  then have "entry_of e' = entry_of f'"
    using log_sim_member(4) [OF c assms(9,10)] log_sim_member(4) [OF d assms(11,12)] assms(13) by simp
  then show ?thesis using assms(13) by (intro entry_eq) simp_all
qed

theorem log_matching_witness:
  "\<exists>s. (bounded_step trio id)\<^sup>*\<^sup>* example_cluster s \<and> members s ''a'' = committed_a \<and> members s ''b'' = committed_b \<and>
     (\<forall>f \<in> set (rlog (members s ''b'')). e_Index f = 1 \<and> e_Term f = 1 \<longrightarrow> f = entry1)"
proof -
  obtain s0 s where s: "(bounded_step trio id)\<^sup>*\<^sup>* example_cluster s0" "(bounded_step trio id)\<^sup>*\<^sup>* s0 s"
    "members s ''a'' = committed_a" "members s ''b'' = committed_b" by (rule run_committed)
  have run: "(bounded_step trio id)\<^sup>*\<^sup>* example_cluster s" by (rule rtranclp_trans [OF s(1,2)])
  have trio: "''a'' \<in> trio" "''b'' \<in> trio" by (simp_all add: trio_def)
  have logs: "entry1 \<in> set (rlog committed_a)" "e_Index entry1 = 1" "e_Term entry1 = 1"
    "lastIncludedIndex committed_a = 0" "lastIncludedIndex committed_b = 0" by (simp_all add: run_nodes)
  have "entry1 = f" if f: "f \<in> set (rlog committed_b)" "e_Index f = 1" "e_Term f = 1" for f
    by (rule log_matching [OF example_deployed run trio, of entry1 f]) (use f s(3,4) logs in simp_all)
  then have "\<forall>f \<in> set (rlog (members s ''b'')). e_Index f = 1 \<and> e_Term f = 1 \<longrightarrow> f = entry1" using s(4) by metis
  then show ?thesis using run s(3,4) by (intro exI [of _ s] conjI)
qed

end
