(* ===== verification/RaftRuns.thy ===== *)
theory RaftRuns
  imports RaftSafety
begin

text \<open>
  What goes wrong over whole runs of a cluster of \<open>consensus.go\<close>: a snapshot taken ahead of the
  applier drops entries for good, and a cluster of one never commits. Both follow a relation or an
  invariant along every step of \<open>RaftCluster\<close>.
\<close>

section \<open>Relations that every step of a member keeps\<close>

text \<open>
  A transitive relation between the states of a member that holds across its own steps, the
  handlers it runs and the code after its calls holds from any state of a run to any later one.
\<close>

locale member_order =
  fixes R :: "RaftNode \<Rightarrow> RaftNode \<Rightarrow> bool"
  assumes reflexive: "R rn rn"
    and transitive: "R rn rn' \<Longrightarrow> R rn' rn'' \<Longrightarrow> R rn rn''"
    and elects: "startElection now rn = Some (rn', out) \<Longrightarrow> R rn rn'"
    and moves: "local_step rn rn' out \<Longrightarrow> R rn rn'"
    and serves: "serve now m rn = Some (rn', r) \<Longrightarrow> R rn rn'"
    and resumes: "resume now m r v rn = Some (rn', v', out) \<Longrightarrow> R rn rn'"
begin

lemma along_step: "cluster_step M route s s' \<Longrightarrow> R (members s c) (members s' c)"
  by (induction rule: cluster_step.induct)
    (auto simp: tally_reply_def reflexive split: option.splits intro: elects moves serves resumes)

lemma along_run: "(bounded_step M route)\<^sup>*\<^sup>* s s' \<Longrightarrow> R (members s c) (members s' c)"
proof (induction rule: rtranclp_induct)
  case (step s' s'')
  then show ?case using along_step transitive by (metis bounded_step_def)
qed (rule reflexive)

end

section \<open>The applied index\<close>

text \<open>The applied index of a member never moves back.\<close>

definition applied_le :: "RaftNode \<Rightarrow> RaftNode \<Rightarrow> bool" where
  "applied_le rn rn' \<longleftrightarrow> lastApplied rn \<le> lastApplied rn'"

lemma append_entries_loop_applied: "append_entries_loop prev i es rn = Some rn' \<Longrightarrow> lastApplied rn' = lastApplied rn"
  by (induction es arbitrary: i rn) (fastforce simp: Let_def bind_eq_Some_conv split: if_splits)+

lemma HandleAppendEntries_applied: "HandleAppendEntries now a rn = Some (rn', r) \<Longrightarrow> lastApplied rn' = lastApplied rn"
  unfolding HandleAppendEntries_eq append_checked_def
  by (auto simp: Let_def bind_eq_Some_conv dest!: append_entries_loop_applied split: if_splits)

lemma serve_applied: "serve now m rn = Some (rn', r) \<Longrightarrow> applied_le rn rn'"
proof (cases m)
  case (SendRequestVote p a)
  assume "serve now m rn = Some (rn', r)"
  then show ?thesis unfolding SendRequestVote
    by (auto simp: applied_le_def HandleRequestVote_def Let_def bind_eq_Some_conv split: if_splits)
next
  case (SendInstallSnapshot p a)
  assume "serve now m rn = Some (rn', r)"
  then show ?thesis unfolding SendInstallSnapshot
    by (auto simp: applied_le_def HandleInstallSnapshot_def Let_def bind_eq_Some_conv split: if_splits)
qed (auto simp: applied_le_def HandleAppendEntries_applied)

lemma apply_pass_moves: "apply_pass rn = Some (rn', es) \<Longrightarrow>
    lastApplied rn \<le> lastApplied rn' \<and> commitIndex rn' = commitIndex rn \<and> peers rn' = peers rn"
proof (induction "unat (commitIndex rn) - unat (lastApplied rn)" arbitrary: rn es rule: less_induct)
  case (less rn)
  show ?case
  proof (cases "lastApplied rn < commitIndex rn")
    case False
    with less.prems show ?thesis by (simp add: apply_pass.simps [of rn])
  next
    case True
    let ?rn' = "rn\<lparr>lastApplied := lastApplied rn + 1\<rparr>"
    have up: "unat (lastApplied rn + 1) = Suc (unat (lastApplied rn))" by (rule unat_Suc_less [OF True])
    have "\<exists>es'. apply_pass ?rn' = Some (rn', es')"
      using less.prems True
      by (subst (asm) apply_pass.simps) (auto simp: Let_def bind_eq_Some_conv split: if_splits)
    then obtain es' where "apply_pass ?rn' = Some (rn', es')" by blast
    moreover have "unat (commitIndex ?rn') - unat (lastApplied ?rn') < unat (commitIndex rn) - unat (lastApplied rn)"
      using True up by (simp add: word_less_nat_alt)
    ultimately have "lastApplied ?rn' \<le> lastApplied rn' \<and> commitIndex rn' = commitIndex ?rn' \<and> peers rn' = peers ?rn'"
      by (rule less.hyps [rotated])
    then show ?thesis using up by (auto simp: word_le_nat_alt)
  qed
qed

lemma runApplierLoop_step_moves: "runApplierLoop_step rn = Some (rn', es) \<Longrightarrow>
    lastApplied rn \<le> lastApplied rn' \<and> commitIndex rn' = commitIndex rn \<and> peers rn' = peers rn"
  by (auto simp: runApplierLoop_step_def dest: apply_pass_moves split: if_splits)

lemma TakeSnapshot_moves: "TakeSnapshot i d rn = Some (rn', e) \<Longrightarrow>
    lastApplied rn \<le> lastApplied rn' \<and> commitIndex rn' = commitIndex rn \<and> peers rn' = peers rn"
  by (auto simp: TakeSnapshot_def Let_def bind_eq_Some_conv split: if_splits)

lemma local_step_applied: "local_step rn rn' out \<Longrightarrow> applied_le rn rn'"
  by (induction rule: local_step.induct)
    (auto simp: applied_le_def propose_start_def Stop_def Let_def bind_eq_Some_conv
      dest: runApplierLoop_step_moves TakeSnapshot_moves split: if_splits)

lemma becomeLeader_moves: "becomeLeader rn = Some (rn', out) \<Longrightarrow>
    lastApplied rn' = lastApplied rn \<and> commitIndex rn' = commitIndex rn \<and> peers rn' = peers rn"
  by (auto simp: becomeLeader_def Let_def bind_eq_Some_conv becomeLeader_state fresh_leader_def)

lemma startElection_moves: "startElection now rn = Some (rn', out) \<Longrightarrow>
    lastApplied rn' = lastApplied rn \<and> commitIndex rn' = commitIndex rn \<and> peers rn' = peers rn"
  by (auto simp: startElection_def Let_def bind_eq_Some_conv dest!: becomeLeader_moves split: if_splits)

lemma resume_applied: "resume now m r v rn = Some (rn', v', out) \<Longrightarrow> applied_le rn rn'"
  by (cases "(now, m, r, v, rn)" rule: resume.cases)
    (auto simp: applied_le_def handle_prevote_reply_def handle_vote_reply_def handle_append_reply_def handle_snapshot_reply_def
      checkAndUpdateCommitIndex_def Let_def bind_eq_Some_conv dest!: becomeLeader_moves split: if_splits option.splits)

interpretation applied: member_order applied_le
  by unfold_locales
    (auto simp: startElection_moves intro: local_step_applied serve_applied resume_applied, simp_all add: applied_le_def startElection_moves)

section \<open>A snapshot ahead of the applier\<close>

lemma run_roomy: "(bounded_step M route)\<^sup>*\<^sup>* s0 s \<Longrightarrow> roomy M s0 \<Longrightarrow> roomy M s"
  by (induction rule: rtranclp_induct) (simp_all add: bounded_step_def)

lemma taken_snapshot:
  assumes "TakeSnapshot i d rn = Some (rn', None)"
  shows "lastIncludedIndex rn < i" and "i \<le> commitIndex rn" and "i \<le> lastApplied rn'"
  using assms by (auto simp: TakeSnapshot_def Let_def bind_eq_Some_conv split: if_splits)

text \<open>C29. A snapshot taken ahead of the applier drops entries for good: a member of a running cluster
  compacts its log at an index the applier has not come to yet. There is an entry of that index and
  it is committed, as all below it; but in whatever state of the run after the snapshot the applier
  makes a pass, it hands out none of the entries up to the snapshot, so those that it had not applied
  before never reach \<open>OnCommit\<close> on this member.\<close>

theorem snapshot_drops_entries:
  assumes "deployed M route k s0" and "(bounded_step M route)\<^sup>*\<^sup>* s0 s" and "c \<in> M"
    and "TakeSnapshot i d (members s c) = Some (rn', None)" and "lastApplied (members s c) < i"
    and "bounded_step M route s s1" and "members s1 c = rn'" and "(bounded_step M route)\<^sup>*\<^sup>* s1 s2"
    and "runApplierLoop_step (members s2 c) = Some (rn, es)"
  shows "(\<exists>e \<in> set (rlog (members s c)). e_Index e = i) \<and>
    (\<forall>e \<in> set (rlog (members s c)). lastApplied (members s c) < e_Index e \<and> e_Index e \<le> i \<longrightarrow>
       e_Index e \<le> commitIndex (members s c) \<and> e \<notin> set es) \<and>
    (\<forall>e \<in> set es. i < e_Index e)"
proof -
  have run: "(bounded_step M route)\<^sup>*\<^sup>* s s2" using assms(6,8) by (rule converse_rtranclp_into_rtranclp)
  obtain a a' where a: "implements M s a" "spec_inv M a" and a': "implements M s2 a'" "spec_inv M a'"
    by (rule deployed_run [OF assms(1,2) run])
  note snap = taken_snapshot [OF assms(4)]
  have "lastApplied rn' \<le> lastApplied (members s2 c)"
    using applied.along_run [OF assms(8), of c] assms(7) by (simp add: applied_le_def)
  then have late: "i < e_Index e" if "e \<in> set es" for e
    using applied_entry(3) [OF a'(2,1) assms(3,9) that] snap(3) by simp
  have sim: "log_sim (members s c) (sp_log a c)" and com: "sp_commit a c = unat (commitIndex (members s c))"
    using a(1) assms(3) by (simp_all add: implements_def)
  have "sp_commit a c < length (sp_log a c)"
    using a(2) assms(3) agree_lengthD(1) unfolding spec_inv_def commits_ok_def by blast
  then have "unat i < length (sp_log a c)" using snap(2) com by (simp add: word_le_nat_alt)
  moreover have "log_base (members s c) < unat i" using snap(1) by (simp add: log_base_def word_less_nat_alt)
  ultimately obtain e where "e \<in> set (rlog (members s c))" "e_Index e = i"
    using log_sim_stored [OF sim, of "unat i"] by (auto simp: word_unat_eq_iff)
  then show ?thesis using late snap(2) by (fastforce simp: not_less)
qed

text \<open>The leader of the run that commits takes a snapshot at its commit index before it applied.\<close>

lemma snapshot_drops_entries_witness:
  "\<exists>s s1 rn'. (bounded_step trio id)\<^sup>*\<^sup>* example_cluster s \<and> members s ''a'' = committed_a \<and>
     TakeSnapshot 1 [] committed_a = Some (rn', None) \<and> bounded_step trio id s s1 \<and> members s1 ''a'' = rn' \<and>
     lastApplied committed_a < e_Index entry1 \<and> e_Index entry1 \<le> commitIndex committed_a \<and> entry1 \<in> set (rlog committed_a) \<and>
     (\<forall>s2 rn es. (bounded_step trio id)\<^sup>*\<^sup>* s1 s2 \<longrightarrow> runApplierLoop_step (members s2 ''a'') = Some (rn, es) \<longrightarrow> entry1 \<notin> set es)"
proof -
  obtain s s' where s: "(bounded_step trio id)\<^sup>*\<^sup>* example_cluster s" "members s ''a'' = committed_a"
    "(bounded_step trio id)\<^sup>*\<^sup>* s s'" "members s' ''a'' = committed_a" by (rule run_committed)
  let ?rn = "committed_a\<lparr>rlog := [\<lparr>e_Index = 1, e_Term = 1, e_Data = None\<rparr>], lastIncludedIndex := 1, lastIncludedTerm := 1,
      lastSnapshotData := [], lastApplied := 1\<rparr>"
  have snap: "TakeSnapshot 1 [] committed_a = Some (?rn, None)"
    by (simp add: run_nodes run_code TakeSnapshot_def)
  have a: "''a'' \<in> trio" by (simp add: trio_def)
  let ?s1 = "spawn ''a'' [] (put ''a'' ?rn s)"
  have "roomy trio s" by (rule run_roomy [OF s(1)]) (use small_logs(1) in \<open>simp add: roomy_def small_log_def example_cluster_def\<close>)
  then have "roomy trio ?s1" by (simp add: roomy_def log_base_def)
  moreover have "cluster_step trio id s ?s1"
    by (rule cluster_step.on_its_own [OF a]) (use local_step.compact [OF snap] s(2) in simp)
  ultimately have s1: "bounded_step trio id s ?s1" "members ?s1 ''a'' = ?rn" by (simp_all add: bounded_step_def)
  have e: "lastApplied committed_a < e_Index entry1" "e_Index entry1 = 1" "e_Index entry1 \<le> commitIndex committed_a"
    "entry1 \<in> set (rlog committed_a)" by (simp_all add: run_nodes)
  have "entry1 \<notin> set es"
    if "(bounded_step trio id)\<^sup>*\<^sup>* ?s1 s2" "runApplierLoop_step (members s2 ''a'') = Some (rn, es)" for s2 rn es
    using snapshot_drops_entries [OF example_deployed s(1) a _ _ s1 that, of 1 "[]"] snap s(2) e by simp
  then show ?thesis using s(1,2) snap s1 e by blast
qed

section \<open>A cluster of one\<close>

text \<open>The only member has no peers, and there is never a goroutine.\<close>

definition alone :: "string \<Rightarrow> Cluster \<Rightarrow> bool" where
  "alone c s \<longleftrightarrow> peers (members s c) = [] \<and> routines s = {#}"

lemma alone_quorum: "peers rn = [] \<Longrightarrow> quorum_size rn = 1"
  by (simp add: quorum_size_def)

lemma alone_local_step:
  "local_step rn rn' out \<Longrightarrow> peers rn = [] \<Longrightarrow> peers rn' = [] \<and> out = [] \<and> commitIndex rn' = commitIndex rn"
  by (induction rule: local_step.induct)
    (auto simp: prevote_ballots_def alone_quorum heartbeat_tick_def broadcastAppendEntries_def propose_start_def Stop_def
      Let_def bind_eq_Some_conv dest: runApplierLoop_step_moves TakeSnapshot_moves split: if_splits)

lemma alone_election:
  assumes "startElection now rn = Some (rn', out)" and "peers rn = []"
  shows "peers rn' = [] \<and> out = [] \<and> commitIndex rn' = commitIndex rn"
  using assms startElection_moves [OF assms(1)]
  by (auto simp: startElection_def becomeLeader_def alone_quorum broadcastAppendEntries_def Let_def bind_eq_Some_conv split: if_splits)

lemma alone_step:
  "cluster_step {c} route s s' \<Longrightarrow> alone c s \<Longrightarrow> alone c s' \<and> commitIndex (members s' c) = commitIndex (members s c)"
  by (induction rule: cluster_step.induct) (auto simp: alone_def open_election_def dest: alone_local_step alone_election)

lemma alone_run:
  "(bounded_step {c} route)\<^sup>*\<^sup>* s s' \<Longrightarrow> alone c s \<Longrightarrow> alone c s' \<and> commitIndex (members s' c) = commitIndex (members s c)"
  by (induction rule: rtranclp_induct) (auto simp: bounded_step_def dest: alone_step)

lemma deployed_alone: "deployed {c} route k s \<Longrightarrow> alone c s"
  by (auto simp: deployed_def topology_def fresh_cluster_def alone_def)

text \<open>C31. A cluster of one never commits: whatever it does, its commit index stays where it was when the
  node was started. A proposal of its leader is stored, and at once it is where the commit rule
  would commit it, since a leader alone is a quorum; but the rule is only run on replies, and there
  is nobody to send to. So in every later state of the run, whatever else is proposed, the wait of
  \<open>Propose\<close> does not return the index of the entry.\<close>

theorem solo_never_commits:
  assumes "deployed {c} route k s0" and "(bounded_step {c} route)\<^sup>*\<^sup>* s0 s"
    and "propose_start payload (members s c) = Some (Inr (rn', i, t, out))"
    and "bounded_step {c} route s s1" and "members s1 c = rn'" and "(bounded_step {c} route)\<^sup>*\<^sup>* s1 s2"
  shows "out = [] \<and> committable rn' (unat i) \<and>
    commitIndex (members s2 c) = commitIndex (members s0 c) \<and> commitIndex (members s2 c) < i \<and>
    (\<forall>ev j. propose_wait i t ev (members s2 c) \<noteq> Some (Inr j))"
proof -
  let ?rn = "members s c"
  have run: "(bounded_step {c} route)\<^sup>*\<^sup>* s s2" using assms(4,6) by (rule converse_rtranclp_into_rtranclp)
  have one: "alone c s" "commitIndex (members s2 c) = commitIndex ?rn" "commitIndex ?rn = commitIndex (members s0 c)"
    using alone_run [OF assms(2) deployed_alone [OF assms(1)]] alone_run [OF run] by simp_all
  obtain a a' where a: "implements {c} s a" "spec_inv {c} a" by (rule deployed_run [OF assms(1,2) run])
  have sim: "log_sim ?rn (sp_log a c)" and com: "sp_commit a c = unat (commitIndex ?rn)"
    using a(1) by (simp_all add: implements_def)
  have wf: "log_wf ?rn" using sim by (simp add: log_sim_def)
  obtain l where l: "lastLogIndex ?rn = Some l" "unat l = log_end ?rn" using lastLogIndex_wf [OF wf] by blast
  have i: "unat (l + 1) = Suc (log_end ?rn)"
    using l(2) log_end_less [OF wf] by (simp add: unat_add_no_wrap)
  define e where "e = \<lparr>e_Index = l + 1, e_Term = currentTerm ?rn, e_Data = payload\<rparr>"
  have started: "i = l + 1" "rn' = appended ?rn e" "out = []" "role ?rn = Leader"
    using assms(3) l(1) one(1)
    by (auto simp: propose_start_def alone_def broadcastAppendEntries_def appended_def e_def Let_def split: if_splits)
  have "term_at rn' (unat i) = Some (currentTerm ?rn)"
    using term_at_appended [OF wf, of e] i by (simp add: started e_def)
  then have "committable rn' (unat i)"
    using one(1) by (simp add: committable_def started appended_def alone_def alone_quorum match_count_def)
  moreover have "sp_commit a c < length (sp_log a c)"
    using a(2) agree_lengthD(1) unfolding spec_inv_def commits_ok_def by blast
  then have below: "commitIndex (members s2 c) < i"
    using one(2) com log_sim_length(1) [OF sim] i started(1) by (simp add: word_less_nat_alt)
  moreover have "propose_wait i t ev (members s2 c) \<noteq> Some (Inr j)" for ev j
    using below by (cases ev) (auto simp: Let_def)
  ultimately show ?thesis using one started(3) by simp
qed

text \<open>A member alone that elects itself and takes a proposal, which it never commits.\<close>

definition solo_node :: RaftNode where
  "solo_node = example_node\<lparr>node_id := ''a'', peers := [], cfg := example_config\<lparr>cfg_ID := ''a'', cfg_Peers := []\<rparr>\<rparr>"

definition solo_leader :: RaftNode where
  "solo_leader = solo_node\<lparr>role := Leader, currentTerm := 1, votedFor := ''a'', leaderID := ''a'', electionResetEvent := 5\<rparr>"

definition solo_cluster :: Cluster where
  "solo_cluster = \<lparr>members = (\<lambda>c. solo_node), routines = {#}, tally = (\<lambda>_ _. 0), cast = (\<lambda>_ _. ''''), counted = (\<lambda>_ _. {})\<rparr>"

lemmas solo_code = solo_node_def solo_leader_def example_node_eq lastLogIndex_def lastLogTerm_def log_at_def Let_def
  broadcastAppendEntries_def entry1_def quorum_size_def

lemma solo_new: "solo_node = NewRaftNode 0 (example_config\<lparr>cfg_ID := ''a'', cfg_Peers := []\<rparr>)"
  by (simp add: solo_node_def example_node_eq NewRaftNode_def example_config_def Let_def Millisecond_def)

lemma solo_deployed: "deployed {''a''} id 0 solo_cluster"
proof -
  have fields: "node_id solo_node = ''a''" "peers solo_node = []" "commitIndex solo_node = 0"
    by (simp_all add: solo_node_def example_node_eq)
  have "\<exists>now cf. solo_node = NewRaftNode now cf" using solo_new by blast
  then show ?thesis
    using fields by (simp add: deployed_def topology_def fresh_cluster_def same_start_def solo_cluster_def)
qed

lemma solo_elects: "startElection 5 solo_node = Some (solo_leader, [])"
  by (simp add: solo_code startElection_def becomeLeader_def)

lemma solo_proposes: "propose_start (Some [7]) solo_leader = Some (Inr (solo_leader\<lparr>rlog := rlog solo_leader @ [entry1]\<rparr>, 1, 1, []))"
  by (simp add: solo_code propose_start_def)

lemma solo_never_commits_witness:
  "\<exists>s s1. (bounded_step {''a''} id)\<^sup>*\<^sup>* solo_cluster s \<and> members s ''a'' = solo_leader \<and> bounded_step {''a''} id s s1 \<and>
     entry1 \<in> set (rlog (members s1 ''a'')) \<and>
     (\<forall>s2. (bounded_step {''a''} id)\<^sup>*\<^sup>* s1 s2 \<longrightarrow> commitIndex (members s2 ''a'') = 0 \<and>
        (\<forall>ev j. propose_wait 1 1 ev (members s2 ''a'') \<noteq> Some (Inr j)))"
proof -
  let ?s = "spawn ''a'' [] (open_election ''a'' (currentTerm solo_leader) (put ''a'' solo_leader solo_cluster))"
  let ?rn = "solo_leader\<lparr>rlog := rlog solo_leader @ [entry1]\<rparr>"
  let ?s1 = "spawn ''a'' [] (put ''a'' ?rn ?s)"
  have "cluster_step {''a''} id solo_cluster ?s"
    by (rule cluster_step.elect [where now = 5])
      (use solo_elects in \<open>simp_all add: solo_cluster_def\<close>, simp_all add: solo_node_def example_node_eq)
  then have s: "(bounded_step {''a''} id)\<^sup>*\<^sup>* solo_cluster ?s" "members ?s ''a'' = solo_leader"
    by (auto intro!: r_into_rtranclp simp: bounded_step_def roomy_def open_election_def)
      (simp add: solo_code log_base_def)
  have "cluster_step {''a''} id ?s ?s1"
    by (rule cluster_step.on_its_own) (use local_step.propose [OF solo_proposes] s(2) in simp_all)
  then have s1: "bounded_step {''a''} id ?s ?s1" "members ?s1 ''a'' = ?rn"
    by (auto simp: bounded_step_def roomy_def) (simp add: solo_code log_base_def)
  have "commitIndex (members s2 ''a'') = 0 \<and> (\<forall>ev j. propose_wait 1 1 ev (members s2 ''a'') \<noteq> Some (Inr j))"
    if "(bounded_step {''a''} id)\<^sup>*\<^sup>* ?s1 s2" for s2
    using solo_never_commits [OF solo_deployed s(1) _ s1 that, of "Some [7]" 1 1 "[]"] solo_proposes s(2)
    by (simp add: solo_cluster_def) (simp add: solo_node_def example_node_eq)
  then show ?thesis using s s1 by (intro exI [of _ ?s] exI [of _ ?s1]) simp
qed

end
