(* ===== verification/Mmap.thy ===== *)
theory Mmap
  imports Wire "HOL-Library.Char_ord" "HOL-Library.List_Lexorder"
begin

text \<open>
  The operating system as the storage engine uses it, and the memory-mapped files of
  \<open>storage/mmap_windows.go\<close>. A file is its bytes; a mapped view is those bytes themselves, so
  that a write through a view is at once the content of the file. An \<open>*os.File\<close> is a number in
  a table of open files: closing it through one holder closes it for the others. Every system
  call may fail: which calls do is the parameter \<open>sys\<close> (the number of the call and the call),
  so that any pattern of failures is covered.
\<close>

section \<open>Files and system calls\<close>

text \<open>A path is the directory and the name that \<open>filepath.Join\<close> joins and \<open>filepath.Dir\<close> splits.\<close>

type_synonym path = "string \<times> string"

text \<open>A write that fails may have written a part: \<open>PartialWrite\<close> carries the number of bytes.\<close>

datatype os_error = AlreadyExists | FileClosed | PartialWrite nat | SysError string

datatype syscall =
    SysMkdirAll string | SysReadDir string | SysOpenFile path | SysStat path | SysTruncate path nat
  | SysClose path | SysOpen path | SysRead path | SysWrite path nat | SysSync path | CreateFileMapping path u32 u32 | MapViewOfFile path nat | FlushViewOfFile path nat
  | FlushFileBuffers path | UnmapViewOfFile path | CloseHandle path

type_synonym sys = "nat \<Rightarrow> syscall \<Rightarrow> os_error option"

record OS =
  files :: "path \<rightharpoonup> byte list"
  dirents :: "(path \<times> bool) list"
  fds :: "(path \<times> bool) list"
  calls :: nat

text \<open>The entries of the directories, each with the flag \<open>IsDir\<close>.\<close>

definition add_entry :: "path \<Rightarrow> (path \<times> bool) list \<Rightarrow> (path \<times> bool) list" where
  "add_entry p ds = (if p \<in> fst ` set ds then ds else ds @ [(p, False)])"

definition file_bytes :: "OS \<Rightarrow> path \<Rightarrow> byte list" where
  "file_bytes os p = (case files os p of None \<Rightarrow> [] | Some bs \<Rightarrow> bs)"

definition fd_path :: "OS \<Rightarrow> nat \<Rightarrow> path" where
  "fd_path os fd = fst (fds os ! fd)"

definition fd_open :: "OS \<Rightarrow> nat \<Rightarrow> bool" where
  "fd_open os fd \<longleftrightarrow> fd < length (fds os) \<and> snd (fds os ! fd)"

definition do_call :: "sys \<Rightarrow> syscall \<Rightarrow> OS \<Rightarrow> os_error option \<times> OS" where
  "do_call sys c os = (sys (calls os) c, os\<lparr>calls := Suc (calls os)\<rparr>)"

text \<open>\<open>os.ReadDir\<close> lists a directory in the order of the names, bytewise.\<close>

definition ReadDir :: "sys \<Rightarrow> string \<Rightarrow> OS \<Rightarrow> (os_error + (string \<times> bool) list) \<times> OS" where
  "ReadDir sys dir os =
    (case do_call sys (SysReadDir dir) os of
       (Some e, os) \<Rightarrow> (Inl e, os)
     | (None, os) \<Rightarrow>
         (Inr (sort_key fst (map (\<lambda>(p, d). (snd p, d)) (filter (\<lambda>(p, d). fst p = dir) (dirents os)))), os))"

text \<open>\<open>os.OpenFile(path, O_CREATE|O_RDWR, 0644)\<close>, \<open>Stat().Size()\<close>, \<open>Truncate\<close> and \<open>Close\<close>.\<close>

definition OpenFile :: "sys \<Rightarrow> path \<Rightarrow> OS \<Rightarrow> (os_error + nat) \<times> OS" where
  "OpenFile sys p os =
    (case do_call sys (SysOpenFile p) os of
       (Some e, os) \<Rightarrow> (Inl e, os)
     | (None, os) \<Rightarrow>
         (Inr (length (fds os)),
          os\<lparr>files := (files os)(p \<mapsto> file_bytes os p), dirents := add_entry p (dirents os),
             fds := fds os @ [(p, True)]\<rparr>))"

definition Stat_Size :: "sys \<Rightarrow> nat \<Rightarrow> OS \<Rightarrow> (os_error + nat) \<times> OS" where
  "Stat_Size sys fd os =
    (if \<not> fd_open os fd then (Inl FileClosed, os)
     else (case do_call sys (SysStat (fd_path os fd)) os of
       (Some e, os) \<Rightarrow> (Inl e, os)
     | (None, os) \<Rightarrow> (Inr (length (file_bytes os (fd_path os fd))), os)))"

definition Truncate :: "sys \<Rightarrow> nat \<Rightarrow> nat \<Rightarrow> OS \<Rightarrow> os_error option \<times> OS" where
  "Truncate sys fd n os =
    (if \<not> fd_open os fd then (Some FileClosed, os)
     else (case do_call sys (SysTruncate (fd_path os fd) n) os of
       (Some e, os) \<Rightarrow> (Some e, os)
     | (None, os) \<Rightarrow>
         (let bs = file_bytes os (fd_path os fd)
          in (None, os\<lparr>files := (files os)(fd_path os fd \<mapsto> take n bs @ replicate (n - length bs) 0)\<rparr>))))"

definition File_Close :: "sys \<Rightarrow> nat \<Rightarrow> OS \<Rightarrow> os_error option \<times> OS" where
  "File_Close sys fd os =
    (if \<not> fd_open os fd then (Some FileClosed, os)
     else (case do_call sys (SysClose (fd_path os fd)) os of
       (e, os) \<Rightarrow> (e, os\<lparr>fds := (fds os)[fd := (fd_path os fd, False)]\<rparr>)))"

section \<open>Memory-mapped files\<close>

text \<open>
  \<open>addr\<close> and \<open>hMap\<close> are non-zero exactly while the view is mapped: one flag, \<open>mapped\<close>. The
  slice \<open>data\<close> is \<open>view\<close>.
\<close>

datatype mmap_error =
    CreateFileMappingFailed os_error | MapViewOfFileFailed os_error | FlushViewOfFileFailed os_error
  | FlushFileBuffersFailed os_error | UnmapViewOfFileFailed os_error | CloseHandleFailed os_error
  | FileCloseFailed os_error

record mmapHandle =
  mh_file :: nat
  mh_size :: nat
  mapped :: bool
  isOpen :: bool

definition mapFileWin32 :: "sys \<Rightarrow> nat \<Rightarrow> nat \<Rightarrow> bool \<Rightarrow> OS \<Rightarrow> (mmap_error + mmapHandle) \<times> OS" where
  "mapFileWin32 sys file sz readOnly os =
    (let p = fd_path os file;
         highSize = word_of_nat (sz div 2 ^ 32) :: u32;
         lowSize = word_of_nat (sz mod 2 ^ 32) :: u32
     in case do_call sys (CreateFileMapping p highSize lowSize) os of (err, os) \<Rightarrow>
       (if err \<noteq> None \<and> err \<noteq> Some AlreadyExists
        then (Inl (CreateFileMappingFailed (the err)), os)
        else case do_call sys (MapViewOfFile p sz) os of
            (Some e, os) \<Rightarrow> (Inl (MapViewOfFileFailed e), snd (do_call sys (CloseHandle p) os))
          | (None, os) \<Rightarrow> (Inr \<lparr>mh_file = file, mh_size = sz, mapped = True, isOpen = True\<rparr>, os)))"

definition mmap_Flush :: "sys \<Rightarrow> mmapHandle \<Rightarrow> OS \<Rightarrow> mmap_error option \<times> OS" where
  "mmap_Flush sys m os =
    (if \<not> isOpen m \<or> \<not> mapped m then (None, os)
     else case do_call sys (FlushViewOfFile (fd_path os (mh_file m)) (mh_size m)) os of
         (Some e, os) \<Rightarrow> (Some (FlushViewOfFileFailed e), os)
       | (None, os) \<Rightarrow>
           (case do_call sys (FlushFileBuffers (fd_path os (mh_file m))) os of
              (Some e, os) \<Rightarrow> (Some (FlushFileBuffersFailed e), os)
            | (None, os) \<Rightarrow> (None, os)))"

text \<open>The first error of a sequence is the one reported.\<close>

definition first_error :: "'e option \<Rightarrow> 'e option \<Rightarrow> 'e option" where
  "first_error firstErr err = (if err \<noteq> None \<and> firstErr = None then err else firstErr)"

definition mmap_Close :: "sys \<Rightarrow> mmapHandle \<Rightarrow> OS \<Rightarrow> mmap_error option \<times> mmapHandle \<times> OS" where
  "mmap_Close sys m os =
    (if \<not> isOpen m then (None, m, os)
     else
       (let m = m\<lparr>isOpen := False\<rparr>; p = fd_path os (mh_file m);
            (err, os) = (if mapped m then do_call sys (UnmapViewOfFile p) os else (None, os));
            firstErr = first_error None (map_option UnmapViewOfFileFailed err);
            (err, os) = (if mapped m then do_call sys (CloseHandle p) os else (None, os));
            firstErr = first_error firstErr (map_option CloseHandleFailed err);
            m = m\<lparr>mapped := False\<rparr>;
            (err, os) = File_Close sys (mh_file m) os;
            firstErr = first_error firstErr (map_option FileCloseFailed err)
        in (firstErr, m, os)))"

text \<open>The mapped bytes, and a write \<open>data[pos:] = bs\<close> through the view.\<close>

definition view :: "OS \<Rightarrow> mmapHandle \<Rightarrow> byte list" where
  "view os m = take (mh_size m) (file_bytes os (fd_path os (mh_file m)))"

definition write_view :: "mmapHandle \<Rightarrow> nat \<Rightarrow> byte list \<Rightarrow> OS \<Rightarrow> OS" where
  "write_view m pos bs os =
    (let p = fd_path os (mh_file m) in os\<lparr>files := (files os)(p \<mapsto> blit (file_bytes os p) pos bs)\<rparr>)"

section \<open>Facts about files and views\<close>

lemma do_call_simps [simp]:
  "fst (do_call sys c os) = sys (calls os) c" "snd (do_call sys c os) = os\<lparr>calls := Suc (calls os)\<rparr>"
  by (simp_all add: do_call_def)

lemma file_bytes_frame [simp]:
  "file_bytes (os\<lparr>calls := n\<rparr>) p = file_bytes os p" "file_bytes (os\<lparr>fds := l\<rparr>) p = file_bytes os p"
  "file_bytes (os\<lparr>dirents := ds\<rparr>) p = file_bytes os p"
  "file_bytes (os\<lparr>files := (files os)(q \<mapsto> bs)\<rparr>) p = (if p = q then bs else file_bytes os p)"
  by (simp_all add: file_bytes_def)

lemma fd_frame [simp]:
  "fd_path (os\<lparr>calls := n\<rparr>) = fd_path os" "fd_path (os\<lparr>files := f\<rparr>) = fd_path os"
  "fd_open (os\<lparr>calls := n\<rparr>) = fd_open os" "fd_open (os\<lparr>files := f\<rparr>) = fd_open os"
  "fd_path (os\<lparr>dirents := ds\<rparr>) = fd_path os" "fd_open (os\<lparr>dirents := ds\<rparr>) = fd_open os"
  by (simp_all add: fun_eq_iff fd_path_def fd_open_def)

lemma fd_of_table [simp]:
  "fd_path (os\<lparr>fds := l\<rparr>) fd = fst (l ! fd)"
  "fd_open (os\<lparr>fds := l\<rparr>) fd \<longleftrightarrow> fd < length l \<and> snd (l ! fd)"
  by (simp_all add: fd_path_def fd_open_def)

lemma view_frame [simp]: "view (os\<lparr>calls := n\<rparr>) m = view os m"
  by (simp add: view_def)

lemma view_write_other:
  "fd_path os (mh_file m') \<noteq> fd_path os (mh_file m) \<Longrightarrow> view (write_view m pos bs os) m' = view os m'"
  by (simp add: view_def write_view_def Let_def)

lemma take_blit_inside:
  "pos + length bs \<le> n \<Longrightarrow> n \<le> length xs \<Longrightarrow> take n (blit xs pos bs) = blit (take n xs) pos bs"
  by (cases "n = pos") (auto simp: blit_def min_def drop_take)

lemma view_write:
  assumes "pos + length bs \<le> length (view os m)"
  shows "view (write_view m pos bs os) m = blit (view os m) pos bs"
proof (cases "mh_size m \<le> length (file_bytes os (fd_path os (mh_file m)))")
  case True
  with assms show ?thesis
    by (simp add: view_def write_view_def Let_def take_blit_inside)
next
  case False
  with assms show ?thesis
    by (simp add: view_def write_view_def Let_def)
qed

text \<open>Faultless calls: the hypothesis under which the storage theorems speak of success.\<close>

definition no_faults :: "sys \<Rightarrow> bool" where
  "no_faults sys \<longleftrightarrow> (\<forall>n c. sys n c = None)"

lemma do_call_ok [simp]: "no_faults sys \<Longrightarrow> do_call sys c os = (None, os\<lparr>calls := Suc (calls os)\<rparr>)"
  by (simp add: do_call_def no_faults_def)

lemma fd_open_lt: "fd_open os fd \<Longrightarrow> fd < length (fds os)"
  by (simp add: fd_open_def)

lemma mmap_Close_files [simp]: "files (snd (snd (mmap_Close sys m os))) = files os"
  "dirents (snd (snd (mmap_Close sys m os))) = dirents os"
  by (auto simp: mmap_Close_def File_Close_def do_call_def Let_def)

lemma mmap_Close_closes:
  assumes "isOpen m"
  shows "\<not> fd_open (snd (snd (mmap_Close sys m os))) (mh_file m)"
  using assms by (auto simp: mmap_Close_def File_Close_def do_call_def Let_def fd_open_def)

lemma mmap_Flush_files [simp]: "files (snd (mmap_Flush sys m os)) = files os" "fds (snd (mmap_Flush sys m os)) = fds os"
  "dirents (snd (mmap_Flush sys m os)) = dirents os"
  by (auto simp: mmap_Flush_def do_call_def split: option.split)


subsection \<open>Calls that succeed\<close>

lemma OpenFile_ok:
  assumes "no_faults sys"
  obtains os' where "OpenFile sys p os = (Inr (length (fds os)), os')" and "fds os' = fds os @ [(p, True)]"
    and "files os' = (files os)(p \<mapsto> file_bytes os p)" and "dirents os' = add_entry p (dirents os)"
  using assms by (simp add: OpenFile_def)

lemma Stat_Size_ok:
  assumes "no_faults sys" and "fd_open os fd"
  obtains os' where "Stat_Size sys fd os = (Inr (length (file_bytes os (fd_path os fd))), os')"
    and "fds os' = fds os" and "files os' = files os" and "dirents os' = dirents os"
  using assms by (simp add: Stat_Size_def)

lemma Truncate_ok:
  assumes "no_faults sys" and "fd_open os fd"
  obtains os' where "Truncate sys fd n os = (None, os')" and "fds os' = fds os" and "dirents os' = dirents os"
    and "files os' = (files os)(fd_path os fd \<mapsto>
      take n (file_bytes os (fd_path os fd)) @ replicate (n - length (file_bytes os (fd_path os fd))) 0)"
  using assms by (simp add: Truncate_def Let_def)

lemma mapFileWin32_ok:
  assumes "no_faults sys"
  obtains os' where "mapFileWin32 sys fd n readOnly os =
      (Inr \<lparr>mh_file = fd, mh_size = n, mapped = True, isOpen = True\<rparr>, os')"
    and "fds os' = fds os" and "files os' = files os" and "dirents os' = dirents os"
  using assms by (simp add: mapFileWin32_def Let_def)

text \<open>The bytes a file is preallocated to.\<close>

definition padded :: "nat \<Rightarrow> byte list \<Rightarrow> byte list" where
  "padded n bs = bs @ replicate (n - length bs) 0"

lemma preallocate_ok:
  assumes sys: "no_faults sys" and "fd_open os fd" and p: "fd_path os fd = p" and "files os p \<noteq> None"
  obtains os' where "(if length (file_bytes os p) < n then Truncate sys fd n os else (None, os)) = (None, os')"
    and "fds os' = fds os" and "files os' = (files os)(p \<mapsto> padded n (file_bytes os p))" and "dirents os' = dirents os"
proof (cases "length (file_bytes os p) < n")
  case True
  obtain os' where "Truncate sys fd n os = (None, os')" "fds os' = fds os" "dirents os' = dirents os"
    "files os' = (files os)(p \<mapsto> padded n (file_bytes os p))"
    using Truncate_ok [OF assms(1,2), of n] True p by (auto simp: padded_def)
  then show thesis using True by (intro that [of os']) simp_all
next
  case False
  show thesis
    by (rule that [of os]) (use False assms(4) in \<open>auto simp: padded_def file_bytes_def fun_upd_idem\<close>)
qed

text \<open>An empty disk and a system that never fails, for concrete runs.\<close>

definition empty_os :: OS where
  "empty_os = \<lparr>files = Map.empty, dirents = [], fds = [], calls = 0\<rparr>"

definition faultless :: sys where
  "faultless n c = None"

lemma no_faults_faultless: "no_faults faultless"
  by (simp add: no_faults_def faultless_def)

end
