(* ===== verification/SparseIndex.thy ===== *)
theory SparseIndex
  imports Mmap
begin

text \<open>
  The sparse offset index of \<open>storage/index.go\<close>: a memory-mapped array of entries (relative
  offset, position in the log), appended in order and searched by bisection. The lemmas show
  that a lookup is sound for any entries that are true, sorted or not, that an append keeps
  them true, and what closing and reopening an index does to its entry count.
\<close>

section \<open>The index\<close>

definition IndexEntrySize :: nat where
  "IndexEntrySize = 8"

text \<open>\<open>ix_mmap\<close> and \<open>ix_file\<close> are \<open>None\<close> where the code has nil.\<close>

record SparseIndex =
  ix_file :: "nat option"
  ix_mmap :: "mmapHandle option"
  entryCount :: nat
  maxEntries :: nat
  ix_path :: path

datatype index_error =
    IndexMkdir os_error | IndexOpen os_error | IndexStat os_error | IndexPreallocate os_error
  | IndexMap mmap_error | IndexFull nat

definition OpenSparseIndex :: "sys \<Rightarrow> path \<Rightarrow> nat \<Rightarrow> OS \<Rightarrow> (index_error + SparseIndex) \<times> OS" where
  "OpenSparseIndex sys p maxEnts os =
    (case do_call sys (SysMkdirAll (fst p)) os of
       (Some e, os) \<Rightarrow> (Inl (IndexMkdir e), os)
     | (None, os) \<Rightarrow>
         (let totalSize = maxEnts * IndexEntrySize in
          case OpenFile sys p os of
            (Inl e, os) \<Rightarrow> (Inl (IndexOpen e), os)
          | (Inr file, os) \<Rightarrow>
              (case Stat_Size sys file os of
                 (Inl e, os) \<Rightarrow> (Inl (IndexStat e), snd (File_Close sys file os))
               | (Inr fsize, os) \<Rightarrow>
                   (let actualEntries = fsize div IndexEntrySize in
                    case (if fsize < totalSize then Truncate sys file totalSize os else (None, os)) of
                      (Some e, os) \<Rightarrow> (Inl (IndexPreallocate e), snd (File_Close sys file os))
                    | (None, os) \<Rightarrow>
                        (case mapFileWin32 sys file totalSize False os of
                           (Inl e, os) \<Rightarrow> (Inl (IndexMap e), snd (File_Close sys file os))
                         | (Inr mh, os) \<Rightarrow>
                             (Inr \<lparr>ix_file = Some file, ix_mmap = Some mh, entryCount = actualEntries,
                                   maxEntries = maxEnts, ix_path = p\<rparr>, os))))))"

text \<open>\<open>None\<close> is a panic: a nil or unmapped view, or an index out of its range.\<close>

definition mapped_view :: "SparseIndex \<Rightarrow> mmapHandle option" where
  "mapped_view idx = (case ix_mmap idx of Some m \<Rightarrow> (if mapped m then Some m else None) | None \<Rightarrow> None)"

definition Index_Append :: "u32 \<Rightarrow> u32 \<Rightarrow> SparseIndex \<Rightarrow> OS \<Rightarrow> (index_error option \<times> SparseIndex \<times> OS) option" where
  "Index_Append relOffset physicalPos idx os =
    (if entryCount idx \<ge> maxEntries idx then Some (Some (IndexFull (entryCount idx)), idx, os)
     else
       (let entryOffset = entryCount idx * IndexEntrySize in
        case mapped_view idx of
          None \<Rightarrow> None
        | Some m \<Rightarrow>
            (if entryOffset + 8 \<le> length (view os m)
             then Some (None, idx\<lparr>entryCount := entryCount idx + 1\<rparr>,
               write_view m (entryOffset + 4) (put_u32 physicalPos)
                 (write_view m entryOffset (put_u32 relOffset) os))
             else None)))"

text \<open>\<open>sort.Search(n, f)\<close>: the bisection of the standard library.\<close>

function sort_Search :: "(nat \<Rightarrow> bool) \<Rightarrow> nat \<Rightarrow> nat \<Rightarrow> nat" where
  "sort_Search f i j =
    (if i < j then
       (let h = (i + j) div 2 in if \<not> f h then sort_Search f (h + 1) j else sort_Search f i h)
     else i)"
  by pat_completeness auto
termination
  by (relation "measure (\<lambda>(f, i, j). j - i)") auto

declare sort_Search.simps [simp del]

definition entry_rel :: "byte list \<Rightarrow> nat \<Rightarrow> u32" where
  "entry_rel data i = get_u32 (slice data (i * IndexEntrySize) (i * IndexEntrySize + 4))"

definition entry_pos :: "byte list \<Rightarrow> nat \<Rightarrow> u32" where
  "entry_pos data i = get_u32 (slice data (i * IndexEntrySize + 4) (i * IndexEntrySize + 8))"

definition Lookup :: "u32 \<Rightarrow> SparseIndex \<Rightarrow> OS \<Rightarrow> (u32 \<times> bool) option" where
  "Lookup targetRelOffset idx os =
    (if entryCount idx = 0 then Some (0, False)
     else case mapped_view idx of
         None \<Rightarrow> None
       | Some m \<Rightarrow>
           (let data = view os m in
            if entryCount idx * IndexEntrySize > length data then None
            else
              (let i = sort_Search (\<lambda>i. entry_rel data i > targetRelOffset) 0 (entryCount idx) in
               if i = 0 then
                 (let firstOffset = entry_rel data 0 in
                  if targetRelOffset \<ge> firstOffset then Some (entry_pos data 0, True) else Some (0, False))
               else Some (entry_pos data (i - 1), True))))"

definition Index_Close :: "sys \<Rightarrow> SparseIndex \<Rightarrow> OS \<Rightarrow> mmap_error option \<times> SparseIndex \<times> OS" where
  "Index_Close sys idx os =
    (case ix_mmap idx of
       None \<Rightarrow> (None, idx, os)
     | Some m \<Rightarrow>
         (let (err, os) = mmap_Flush sys m os;
              firstErr = first_error None err;
              usedBytes = entryCount idx * IndexEntrySize;
              (err, m, os) = mmap_Close sys m os;
              firstErr = first_error firstErr err;
              idx = idx\<lparr>ix_mmap := None\<rparr>
          in case ix_file idx of
               None \<Rightarrow> (firstErr, idx, os)
             | Some file \<Rightarrow>
                 (let os = snd (Truncate sys file usedBytes os);
                      os = snd (File_Close sys file os)
                  in (firstErr, idx\<lparr>ix_file := None\<rparr>, os))))"

section \<open>Bisection and lookup\<close>

lemma sort_Search_bounds: "i \<le> j \<Longrightarrow> i \<le> sort_Search f i j \<and> sort_Search f i j \<le> j"
proof (induction f i j rule: sort_Search.induct [case_names step])
  case (step f i j)
  show ?case
  proof (cases "i < j")
    case True
    then have "(i + j) div 2 < j" "i \<le> (i + j) div 2" by auto
    with step True show ?thesis
      unfolding sort_Search.simps [of f i j] Let_def by (cases "f ((i + j) div 2)") fastforce+
  next
    case False
    with step.prems show ?thesis unfolding sort_Search.simps [of f i j] by simp
  qed
qed

text \<open>No order is assumed: the position found is preceded by one where \<open>f\<close> is false.\<close>

lemma sort_Search_before:
  "i < sort_Search f i j \<Longrightarrow> \<not> f (sort_Search f i j - 1)"
proof (induction f i j rule: sort_Search.induct)
  case (1 f i j)
  show ?case
  proof (cases "i < j")
    case True
    let ?h = "(i + j) div 2"
    show ?thesis
    proof (cases "f ?h")
      case fh: True
      then have eq: "sort_Search f i j = sort_Search f i ?h"
        using True by (subst sort_Search.simps) (simp add: Let_def)
      from "1.IH"(2) [OF True refl] fh "1.prems" show ?thesis unfolding eq by simp
    next
      case fh: False
      then have eq: "sort_Search f i j = sort_Search f (?h + 1) j"
        using True by (subst sort_Search.simps) (simp add: Let_def)
      show ?thesis
      proof (cases "?h + 1 < sort_Search f (?h + 1) j")
        case True
        with "1.IH"(1) [OF \<open>i < j\<close> refl fh] show ?thesis unfolding eq by simp
      next
        case False
        then have "sort_Search f (?h + 1) j = ?h + 1"
          using sort_Search_bounds [of "?h + 1" j f] \<open>i < j\<close> by auto
        with fh show ?thesis unfolding eq by simp
      qed
    qed
  next
    case False
    with "1.prems" show ?thesis by (subst (asm) sort_Search.simps) simp
  qed
qed

section \<open>True entries\<close>

text \<open>
  \<open>bnd j\<close> is the position of the \<open>j\<close>-th record of the log, of \<open>n\<close> records. An entry is true
  if it points at a record that is not past the one its relative offset names; the preallocated
  entries count too (an entry of zeros points at the first record). No order between the entries is asked for.
\<close>

definition entry_true :: "(nat \<Rightarrow> nat) \<Rightarrow> nat \<Rightarrow> byte list \<Rightarrow> nat \<Rightarrow> bool" where
  "entry_true bnd n data k \<longleftrightarrow>
    (\<exists>j. j \<le> n \<and> j \<le> unat (entry_rel data k) \<and> unat (entry_pos data k) = bnd j)"

definition index_ok :: "(nat \<Rightarrow> nat) \<Rightarrow> nat \<Rightarrow> SparseIndex \<Rightarrow> OS \<Rightarrow> bool" where
  "index_ok bnd n idx os \<longleftrightarrow> entryCount idx \<le> maxEntries idx \<and>
     (\<exists>m. mapped_view idx = Some m \<and> length (view os m) = maxEntries idx * IndexEntrySize \<and>
       (\<forall>k < maxEntries idx. entry_true bnd n (view os m) k))"

text \<open>The view and the index hold the same open file, as \<open>OpenSparseIndex\<close> leaves them.\<close>

definition index_open :: "SparseIndex \<Rightarrow> OS \<Rightarrow> bool" where
  "index_open idx os \<longleftrightarrow> (\<exists>m fd. ix_mmap idx = Some m \<and> ix_file idx = Some fd \<and> mh_file m = fd \<and>
     isOpen m \<and> mapped m \<and> fd_open os fd \<and> fd_path os fd = ix_path idx)"

lemma Lookup_sound:
  assumes "index_ok bnd n idx os" and "bnd 0 = 0"
  shows "\<exists>pos found j. Lookup t idx os = Some (pos, found) \<and> unat pos = bnd j \<and> j \<le> n \<and> j \<le> unat t"
proof (cases "entryCount idx = 0")
  case True
  with assms(2) show ?thesis by (intro exI [of _ 0] exI [of _ False]) (simp add: Lookup_def)
next
  case False
  obtain m where m: "mapped_view idx = Some m" "entryCount idx \<le> maxEntries idx"
    "length (view os m) = maxEntries idx * IndexEntrySize"
    and entries: "\<forall>k < maxEntries idx. entry_true bnd n (view os m) k"
    using assms(1) by (auto simp: index_ok_def)
  have len: "\<not> entryCount idx * IndexEntrySize > length (view os m)"
    using m(2,3) by (simp add: IndexEntrySize_def)
  define i where "i = sort_Search (\<lambda>i. entry_rel (view os m) i > t) 0 (entryCount idx)"
  have below: "\<exists>j. j \<le> n \<and> j \<le> unat t \<and> unat (entry_pos (view os m) k) = bnd j"
    if "k < entryCount idx" "entry_rel (view os m) k \<le> t" for k
  proof -
    have "k < maxEntries idx" using that(1) m(2) by simp
    then obtain j where "j \<le> n" "j \<le> unat (entry_rel (view os m) k)" "unat (entry_pos (view os m) k) = bnd j"
      using entries unfolding entry_true_def by blast
    moreover have "unat (entry_rel (view os m) k) \<le> unat t" using that(2) by (simp add: word_le_nat_alt)
    ultimately show ?thesis by (intro exI [of _ j]) simp
  qed
  show ?thesis
  proof (cases "i = 0")
    case zero: True
    then show ?thesis
      using False m(1) len below [of 0] assms(2) unfolding i_def
      by (cases "entry_rel (view os m) 0 \<le> t") (auto simp: Lookup_def Let_def)
  next
    case pos: False
    have "i - 1 < entryCount idx"
      using sort_Search_bounds [of 0 "entryCount idx"] pos False by (simp add: i_def Suc_le_eq [symmetric])
    moreover have "entry_rel (view os m) (i - 1) \<le> t"
      using sort_Search_before [of 0 "\<lambda>i. entry_rel (view os m) i > t" "entryCount idx"] pos
      by (simp add: i_def not_less)
    ultimately obtain j where "j \<le> n" "j \<le> unat t" "unat (entry_pos (view os m) (i - 1)) = bnd j"
      using below by blast
    then show ?thesis
      using False m(1) len pos unfolding i_def
      by (auto simp: Lookup_def Let_def)
  qed
qed

lemma slice_blit_same:
  "pos + length bs \<le> length xs \<Longrightarrow> slice (blit xs pos bs) pos (pos + length bs) = bs"
  by (simp add: slice_def drop_blit_start)

lemma slice_blit_other:
  "j \<le> pos \<or> pos + length bs \<le> i \<Longrightarrow> pos + length bs \<le> length xs \<Longrightarrow> i \<le> j \<Longrightarrow> slice (blit xs pos bs) i j = slice xs i j"
  by (auto simp: slice_def drop_blit blit_def drop_take min_def)

definition write_entry :: "mmapHandle \<Rightarrow> nat \<Rightarrow> u32 \<Rightarrow> u32 \<Rightarrow> OS \<Rightarrow> OS" where
  "write_entry m k rel pos os = write_view m (k * IndexEntrySize + 4) (put_u32 pos)
     (write_view m (k * IndexEntrySize) (put_u32 rel) os)"

lemma write_view_frame [simp]:
  "fds (write_view m p bs os) = fds os" "dirents (write_view m p bs os) = dirents os" "fd_path (write_view m p bs os) = fd_path os"
  "fd_open (write_view m p bs os) = fd_open os"
  "q \<noteq> fd_path os (mh_file m) \<Longrightarrow> files (write_view m p bs os) q = files os q"
  by (simp_all add: write_view_def Let_def)

lemma length_write_view [simp]:
  "pos + length bs \<le> length (view os m) \<Longrightarrow>
     length (file_bytes (write_view m pos bs os) p) = length (file_bytes os p)"
  by (auto simp: write_view_def Let_def view_def)

lemma write_entry_frame [simp]:
  "fds (write_entry m k rel pos os) = fds os" "dirents (write_entry m k rel pos os) = dirents os" "fd_path (write_entry m k rel pos os) = fd_path os"
  "fd_open (write_entry m k rel pos os) = fd_open os"
  "q \<noteq> fd_path os (mh_file m) \<Longrightarrow> files (write_entry m k rel pos os) q = files os q"
  by (simp_all add: write_entry_def)

lemma view_write_entry:
  assumes "k * IndexEntrySize + 8 \<le> length (view os m)"
  shows "view (write_entry m k rel pos os) m =
    blit (blit (view os m) (k * IndexEntrySize) (put_u32 rel)) (k * IndexEntrySize + 4) (put_u32 pos)"
proof -
  have "view (write_view m (k * IndexEntrySize) (put_u32 rel) os) m = blit (view os m) (k * IndexEntrySize) (put_u32 rel)"
    using assms by (intro view_write) simp
  then show ?thesis
    unfolding write_entry_def using assms by (subst view_write) simp_all
qed

lemma entry_written:
  fixes rel pos :: u32
  assumes "k * IndexEntrySize + 8 \<le> length data"
  defines "data' \<equiv> blit (blit data (k * IndexEntrySize) (put_u32 rel)) (k * IndexEntrySize + 4) (put_u32 pos)"
  shows "length data' = length data" and "entry_rel data' k = rel" and "entry_pos data' k = pos"
    and "l \<noteq> k \<Longrightarrow> entry_rel data' l = entry_rel data l \<and> entry_pos data' l = entry_pos data l"
proof -
  let ?d1 = "blit data (k * IndexEntrySize) (put_u32 rel)"
  have len1: "length ?d1 = length data" using assms(1) by simp
  then show len: "length data' = length data" using assms(1) by (simp add: data'_def)
  show "entry_rel data' k = rel"
  proof -
    have "slice data' (k * IndexEntrySize) (k * IndexEntrySize + 4) = slice ?d1 (k * IndexEntrySize) (k * IndexEntrySize + 4)"
      unfolding data'_def using assms(1) len1 by (intro slice_blit_other) auto
    then show ?thesis
      using slice_blit_same [of "k * IndexEntrySize" "put_u32 rel" data] assms(1) by (simp add: entry_rel_def)
  qed
  show "entry_pos data' k = pos"
    using slice_blit_same [of "k * IndexEntrySize + 4" "put_u32 pos" ?d1] assms(1) len1
    by (simp add: entry_pos_def data'_def add.commute)
  assume "l \<noteq> k"
  then have l: "l * IndexEntrySize + 8 \<le> k * IndexEntrySize \<or> k * IndexEntrySize + 8 \<le> l * IndexEntrySize"
    by (auto simp: IndexEntrySize_def)
  have keep: "slice data' i j = slice data i j"
    if "j \<le> k * IndexEntrySize \<or> k * IndexEntrySize + 8 \<le> i" "i \<le> j" for i j
  proof -
    have "slice data' i j = slice ?d1 i j"
      unfolding data'_def using assms(1) len1 that by (intro slice_blit_other) auto
    also have "\<dots> = slice data i j"
      using assms(1) that by (intro slice_blit_other) auto
    finally show ?thesis .
  qed
  show "entry_rel data' l = entry_rel data l \<and> entry_pos data' l = entry_pos data l"
    using l by (auto simp: entry_rel_def entry_pos_def keep)
qed

lemma Index_Append_ok:
  assumes ok: "index_ok bnd n idx os" and "n' \<ge> n" and "n' = unat rel" and "unat pos = bnd n'"
  obtains (full) "entryCount idx = maxEntries idx" "Index_Append rel pos idx os = Some (Some (IndexFull (entryCount idx)), idx, os)"
    | (added) m idx' os' where "mapped_view idx = Some m" "Index_Append rel pos idx os = Some (None, idx', os')"
        "index_ok bnd n' idx' os'" "idx' = idx\<lparr>entryCount := Suc (entryCount idx)\<rparr>"
        "\<And>p. length (file_bytes os' p) = length (file_bytes os p)"
        "fds os' = fds os" "dirents os' = dirents os" "\<And>p. p \<noteq> fd_path os (mh_file m) \<Longrightarrow> files os' p = files os p"
proof -
  obtain m where m: "mapped_view idx = Some m" "entryCount idx \<le> maxEntries idx"
    "length (view os m) = maxEntries idx * IndexEntrySize"
    and entries: "\<forall>k < maxEntries idx. entry_true bnd n (view os m) k"
    using ok by (auto simp: index_ok_def)
  show thesis
  proof (cases "entryCount idx = maxEntries idx")
    case True
    then show thesis by (intro full) (simp_all add: Index_Append_def)
  next
    case False
    let ?k = "entryCount idx" and ?os' = "write_entry m (entryCount idx) rel pos os"
    have fits: "?k * IndexEntrySize + 8 \<le> length (view os m)"
      using False m(2,3) by (simp add: IndexEntrySize_def)
    note written = entry_written [OF fits, where rel = rel and pos = pos, folded view_write_entry [OF fits]]
    have lens: "length (file_bytes ?os' p) = length (file_bytes os p)" for p
    proof -
      have "length (view (write_view m (?k * IndexEntrySize) (put_u32 rel) os) m) = length (view os m)"
        using fits by (subst view_write) simp_all
      then show ?thesis using fits by (simp add: write_entry_def)
    qed
    have map: "mapped_view (idx\<lparr>entryCount := Suc ?k\<rparr>) = Some m"
      using m(1) by (simp add: mapped_view_def)
    have "entry_true bnd n' (view ?os' m) l" if "l < maxEntries idx" for l
    proof (cases "l = ?k")
      case True
      with written(2,3) assms(3,4) show ?thesis by (auto simp: entry_true_def)
    next
      case False
      then have l: "l \<noteq> ?k" by simp
      have "entry_true bnd n (view os m) l" using entries that by blast
      with assms(2) show ?thesis
        unfolding entry_true_def using written(4) [OF l] by (metis order_trans)
    qed
    then have "index_ok bnd n' (idx\<lparr>entryCount := Suc ?k\<rparr>) ?os'"
      using map False m(2,3) written(1) by (auto simp: index_ok_def)
    moreover have "Index_Append rel pos idx os = Some (None, idx\<lparr>entryCount := Suc ?k\<rparr>, ?os')"
      using False m(1,2) fits by (simp add: Index_Append_def Let_def write_entry_def)
    ultimately show thesis using m(1) by (intro added [of m "idx\<lparr>entryCount := Suc ?k\<rparr>" ?os']) (simp_all add: lens)
  qed
qed

section \<open>Closing and reopening\<close>

lemma Truncate_closed [simp]: "\<not> fd_open os fd \<Longrightarrow> Truncate sys fd n os = (Some FileClosed, os)"
  by (simp add: Truncate_def)

lemma File_Close_files [simp]: "files (snd (File_Close sys fd os)) = files os"
  "dirents (snd (File_Close sys fd os)) = dirents os"
  by (auto simp: File_Close_def do_call_def)

text \<open>The view and the index share one open file, which closing the view closes.\<close>

definition index_linked :: "SparseIndex \<Rightarrow> bool" where
  "index_linked idx \<longleftrightarrow> (\<exists>m fd. ix_mmap idx = Some m \<and> ix_file idx = Some fd \<and> mh_file m = fd \<and> isOpen m)"

lemma index_open_linked: "index_open idx os \<Longrightarrow> index_linked idx"
  by (auto simp: index_open_def index_linked_def)

lemma Index_Close_files:
  assumes "index_linked idx"
  shows "files (snd (snd (Index_Close sys idx os))) = files os"
    and "dirents (snd (snd (Index_Close sys idx os))) = dirents os"
proof -
  obtain m fd where m: "ix_mmap idx = Some m" "ix_file idx = Some fd" "mh_file m = fd" "isOpen m"
    using assms by (auto simp: index_linked_def)
  obtain e1 os1 where flush: "mmap_Flush sys m os = (e1, os1)" by fastforce
  then have os1: "files os1 = files os" "fds os1 = fds os" "dirents os1 = dirents os"
    using mmap_Flush_files [of sys m os] by simp_all
  obtain e2 m2 os2 where close: "mmap_Close sys m os1 = (e2, m2, os2)" by (metis surj_pair)
  then have "\<not> fd_open os2 fd" "files os2 = files os" "dirents os2 = dirents os"
    using mmap_Close_closes [of m sys os1] mmap_Close_files [of sys m os1] m(3,4) os1(1,3) by simp_all
  then show "files (snd (snd (Index_Close sys idx os))) = files os"
    "dirents (snd (snd (Index_Close sys idx os))) = dirents os"
    using m(1,2) flush close by (simp_all add: Index_Close_def Let_def)
qed

lemma OpenSparseIndex_ok:
  assumes "no_faults sys"
  obtains m os' where "OpenSparseIndex sys p n os = (Inr \<lparr>ix_file = Some (length (fds os)), ix_mmap = Some m,
      entryCount = length (file_bytes os p) div IndexEntrySize, maxEntries = n, ix_path = p\<rparr>, os')"
    and "m = \<lparr>mh_file = length (fds os), mh_size = n * IndexEntrySize, mapped = True, isOpen = True\<rparr>"
    and "fds os' = fds os @ [(p, True)]" and "dirents os' = add_entry p (dirents os)"
    and "files os' = (files os)(p \<mapsto> padded (n * IndexEntrySize) (file_bytes os p))"
proof -
  let ?fd = "length (fds os)" and ?os0 = "os\<lparr>calls := Suc (calls os)\<rparr>"
  obtain os1 where os1: "OpenFile sys p ?os0 = (Inr ?fd, os1)" "fds os1 = fds os @ [(p, True)]"
      "files os1 = (files os)(p \<mapsto> file_bytes os p)" "dirents os1 = add_entry p (dirents os)"
    by (rule OpenFile_ok [OF assms, of p ?os0]) simp
  have fd: "fd_open os1 ?fd" "fd_path os1 ?fd = p" and bytes: "file_bytes os1 p = file_bytes os p"
    by (simp_all add: fd_open_def fd_path_def file_bytes_def os1(2,3))
  obtain os2 where os2: "Stat_Size sys ?fd os1 = (Inr (length (file_bytes os p)), os2)" "fds os2 = fds os1" "files os2 = files os1" "dirents os2 = dirents os1"
    by (rule Stat_Size_ok [OF assms fd(1)]) (simp add: fd(2) bytes)
  have fd2: "fd_open os2 ?fd" "fd_path os2 ?fd = p" "files os2 p \<noteq> None" "file_bytes os2 p = file_bytes os p"
    using fd bytes by (simp_all add: fd_open_def fd_path_def file_bytes_def os2(2,3) os1(3))
  obtain os3 where os3: "(if length (file_bytes os p) < n * IndexEntrySize
        then Truncate sys ?fd (n * IndexEntrySize) os2 else (None, os2)) = (None, os3)"
      "fds os3 = fds os2" "files os3 = (files os2)(p \<mapsto> padded (n * IndexEntrySize) (file_bytes os p))" "dirents os3 = dirents os2"
    using preallocate_ok [OF assms fd2(1-3), of "n * IndexEntrySize"] unfolding fd2(4) by blast
  obtain os4 where os4: "mapFileWin32 sys ?fd (n * IndexEntrySize) False os3 =
      (Inr \<lparr>mh_file = ?fd, mh_size = n * IndexEntrySize, mapped = True, isOpen = True\<rparr>, os4)"
      "fds os4 = fds os3" "files os4 = files os3" "dirents os4 = dirents os3"
    by (rule mapFileWin32_ok [OF assms])
  show thesis
    by (rule that [of "\<lparr>mh_file = ?fd, mh_size = n * IndexEntrySize, mapped = True, isOpen = True\<rparr>" os4])
      (use assms os1 os2 os3 os4 in \<open>simp_all add: OpenSparseIndex_def Let_def\<close>)
qed

text \<open>C34. An index never shrinks and is full when it is opened again: \<open>Close\<close> unmaps the view,
  which closes the file, so its truncation to the used entries fails unnoticed and the file
  keeps its preallocated size. Opening it again counts every preallocated entry as used, and
  every later append to it is refused.\<close>

theorem reopened_index_is_full:
  assumes "index_open idx os" and "no_faults sys"
    and "length (file_bytes os (ix_path idx)) = maxEntries idx * IndexEntrySize"
    and "Index_Close sys idx os = (err, idx', os')"
  shows "\<exists>idx2 os2. OpenSparseIndex sys (ix_path idx) (maxEntries idx) os' = (Inr idx2, os2) \<and>
    files os2 (ix_path idx) = Some (file_bytes os (ix_path idx)) \<and> entryCount idx2 = maxEntries idx \<and>
    (\<forall>rel pos. Index_Append rel pos idx2 os2 = Some (Some (IndexFull (maxEntries idx)), idx2, os2))"
proof -
  have "files os' = files os"
    using Index_Close_files [OF index_open_linked [OF assms(1)], of sys os] assms(4) by simp
  then have same: "file_bytes os' p = file_bytes os p" for p by (simp add: file_bytes_def)
  show ?thesis
    by (rule OpenSparseIndex_ok [OF assms(2), of "ix_path idx" "maxEntries idx" os'])
      (use assms(3) in \<open>auto simp: same Index_Append_def IndexEntrySize_def padded_def\<close>)
qed

text \<open>A lookup is sound whatever order the entries are in: when every entry of the index is
  true (it points at a record not past the one it names), the position returned is that of a
  record not past the target, so that a scan from there meets the target.\<close>

theorem lookup_finds_start:
  assumes "index_ok bnd n idx os" and "bnd 0 = 0"
  shows "\<exists>pos found j. Lookup t idx os = Some (pos, found) \<and> unat pos = bnd j \<and> j \<le> n \<and> j \<le> unat t"
  by (rule Lookup_sound [OF assms])

text \<open>An index of two entries, for records at positions 0, 20, 40, and one of unused zeros.\<close>

definition example_index :: SparseIndex where
  "example_index = \<lparr>ix_file = Some 0, ix_mmap = Some \<lparr>mh_file = 0, mh_size = 24, mapped = True, isOpen = True\<rparr>,
     entryCount = 3, maxEntries = 3, ix_path = (''d'', ''i'')\<rparr>"

definition example_index_os :: OS where
  "example_index_os = \<lparr>files = [(''d'', ''i'') \<mapsto> [0,0,0,0,0,0,0,0, 0,0,0,2,0,0,0,40, 0,0,0,0,0,0,0,0]],
     dirents = [((''d'', ''i''), False)], fds = [((''d'', ''i''), True)], calls = 0\<rparr>"

lemma example_index_ok: "index_ok (\<lambda>j. 20 * j) 2 example_index example_index_os"
proof -
  let ?data = "[0,0,0,0,0,0,0,0, 0,0,0,2,0,0,0,40, 0,0,0,0,0,0,0,0] :: byte list"
  have vals: "entry_rel ?data 0 = 0" "entry_pos ?data 0 = 0" "entry_rel ?data (Suc 0) = 2" "entry_pos ?data (Suc 0) = 40"
    "entry_rel ?data 2 = 0" "entry_pos ?data 2 = 0"
    by (simp_all add: entry_rel_def entry_pos_def get_u32_def slice_def IndexEntrySize_def)
  have "entry_true (\<lambda>j. 20 * j) 2 ?data k" if "k < 3" for k
  proof -
    have "k = 0 \<or> k = 1 \<or> k = 2" using that by arith
    then show ?thesis
      by (elim disjE) (auto simp: entry_true_def vals intro: exI [of _ 0] exI [of _ 2])
  qed
  then show ?thesis
    by (simp add: index_ok_def example_index_def example_index_os_def mapped_view_def view_def fd_path_def
        file_bytes_def IndexEntrySize_def)
qed


theorem lookup_finds_start_witness:
  "\<exists>pos found j. Lookup 1 example_index example_index_os = Some (pos, found) \<and> unat pos = 20 * j \<and> j \<le> 1"
  using lookup_finds_start [OF example_index_ok, of 1] by auto

theorem reopened_index_is_full_witness:
  "\<exists>idx2 os2. OpenSparseIndex (\<lambda>_ _. None) (''d'', ''i'') 3
       (snd (snd (Index_Close (\<lambda>_ _. None) (example_index\<lparr>entryCount := 2\<rparr>) example_index_os))) = (Inr idx2, os2) \<and>
     entryCount idx2 = 3"
proof -
  obtain err idx' os' where close:
    "Index_Close (\<lambda>_ _. None) (example_index\<lparr>entryCount := 2\<rparr>) example_index_os = (err, idx', os')"
    by (metis surj_pair)
  have "index_open (example_index\<lparr>entryCount := 2\<rparr>) example_index_os"
    by (simp add: index_open_def example_index_def example_index_os_def fd_open_def fd_path_def)
  then show ?thesis
    using reopened_index_is_full [OF _ _ _ close] close
    by (simp add: no_faults_def example_index_def example_index_os_def file_bytes_def IndexEntrySize_def) blast
qed

end
