(* ===== verification/Records.thy ===== *)
theory Records
  imports Wire
begin

text \<open>
  A log file as a sequence of frames. The interface \<open>frame_codec\<close> states what the storage engine
  needs of the wire format: a frame is decoded from the front of any bytes that start with it, and
  from nothing else. From that alone a byte string splits in exactly one way into frames and a
  rest that does not decode. The wire protocol provides the interface.
\<close>

section \<open>The interface\<close>

locale frame_codec =
  fixes enc :: "'r \<Rightarrow> 'b list" and dec :: "'b list \<Rightarrow> ('r \<times> 'b list) option" and fits :: "'r \<Rightarrow> bool"
  assumes dec_enc: "fits r \<Longrightarrow> dec (enc r @ rest) = Some (r, rest)"
    and dec_sound: "dec bs = Some (r, rest) \<Longrightarrow> bs = enc r @ rest \<and> fits r"
    and enc_not_Nil: "enc r \<noteq> []"
begin

lemma dec_shorter: "dec bs = Some (r, rest) \<Longrightarrow> length rest < length bs"
  using dec_sound [of bs r rest] enc_not_Nil [of r] by auto

lemma parse_exists:
  "\<exists>rs rest. bs = concat (map enc rs) @ rest \<and> (\<forall>r \<in> set rs. fits r) \<and> dec rest = None"
proof (induction bs rule: length_induct)
  case (1 bs)
  show ?case
  proof (cases "dec bs")
    case None
    then show ?thesis by (intro exI [of _ "[]"] exI [of _ bs]) simp
  next
    case (Some x)
    then obtain r tl where d: "dec bs = Some (r, tl)" by (cases x) auto
    with 1 dec_shorter obtain rs rest where
      "tl = concat (map enc rs) @ rest" "\<forall>r \<in> set rs. fits r" "dec rest = None" by blast
    with dec_sound [OF d] show ?thesis by (intro exI [of _ "r # rs"]) auto
  qed
qed

lemma parse_unique:
  assumes "concat (map enc rs) @ rest = concat (map enc rs') @ rest'"
    and "\<forall>r \<in> set rs. fits r" and "\<forall>r \<in> set rs'. fits r"
    and "dec rest = None" and "dec rest' = None"
  shows "rs = rs' \<and> rest = rest'"
  using assms
proof (induction rs arbitrary: rs')
  case Nil
  show ?case
  proof (cases rs')
    case (Cons r rs2)
    then have "dec rest = Some (r, concat (map enc rs2) @ rest')" using Nil.prems dec_enc [of r] by simp
    with Nil.prems show ?thesis by simp
  qed (use Nil.prems in simp)
next
  case (Cons r rs)
  have d: "dec (concat (map enc (r # rs)) @ rest) = Some (r, concat (map enc rs) @ rest)"
    using dec_enc [of r "concat (map enc rs) @ rest"] Cons.prems(2) by simp
  show ?case
  proof (cases rs')
    case Nil
    with d [unfolded Cons.prems(1)] Cons.prems(5) show ?thesis by simp
  next
    case (Cons r' rs2)
    then have "dec (concat (map enc rs') @ rest') = Some (r', concat (map enc rs2) @ rest')"
      using Cons.prems(3) dec_enc [of r' "concat (map enc rs2) @ rest'"] by simp
    with d [unfolded Cons.prems(1)] have "r = r'" "concat (map enc rs) @ rest = concat (map enc rs2) @ rest'" by simp_all
    with Cons.IH [of rs2] Cons.prems Cons show ?thesis by simp
  qed
qed

end

section \<open>Frames of the wire protocol\<close>

text \<open>A record is its offset and its payload.\<close>

type_synonym logrec = "u64 \<times> byte list"

definition rec_bytes :: "logrec \<Rightarrow> byte list" where
  "rec_bytes r = frame_bytes (fst r) (snd r)"

definition rec_fits :: "logrec \<Rightarrow> bool" where
  "rec_fits r \<longleftrightarrow> payload_fits (snd r)"

definition next_rec :: "byte list \<Rightarrow> (logrec \<times> byte list) option" where
  "next_rec bs = (case decode_bytes bs of
     (Inr f, rest) \<Rightarrow> Some ((Offset f, Payload f), rest) | (Inl e, rest) \<Rightarrow> None)"

interpretation wire: frame_codec rec_bytes next_rec rec_fits
proof unfold_locales
  fix r rest assume "rec_fits r"
  then show "next_rec (rec_bytes r @ rest) = Some (r, rest)"
    by (simp add: rec_fits_def rec_bytes_def next_rec_def decode_frame_bytes)
next
  fix bs r rest assume "next_rec bs = Some (r, rest)"
  then obtain f where f: "decode_bytes bs = (Inr f, rest)" "r = (Offset f, Payload f)"
    by (auto simp: next_rec_def split: prod.splits sum.splits)
  show "bs = rec_bytes r @ rest \<and> rec_fits r"
    using decode_bytes_Inr [OF f(1)] f(2) by (simp add: rec_bytes_def rec_fits_def)
qed (simp add: rec_bytes_def)

definition frames :: "logrec list \<Rightarrow> byte list" where
  "frames rs = concat (map rec_bytes rs)"

definition all_fit :: "logrec list \<Rightarrow> bool" where
  "all_fit rs \<longleftrightarrow> (\<forall>r \<in> set rs. rec_fits r)"

text \<open>Bytes that no frame starts.\<close>

definition dead_end :: "byte list \<Rightarrow> bool" where
  "dead_end bs \<longleftrightarrow> next_rec bs = None"

definition rec_len :: "logrec \<Rightarrow> nat" where
  "rec_len r = 17 + length (snd r)"

definition boundary :: "logrec list \<Rightarrow> nat \<Rightarrow> nat" where
  "boundary rs j = length (frames (take j rs))"

lemma frames_simps [simp]: "frames [] = []" "frames (r # rs) = rec_bytes r @ frames rs"
  "frames (rs @ rs') = frames rs @ frames rs'"
  by (simp_all add: frames_def)

lemma all_fit_simps [simp]: "all_fit []" "all_fit (r # rs) \<longleftrightarrow> rec_fits r \<and> all_fit rs"
  "all_fit (rs @ rs') \<longleftrightarrow> all_fit rs \<and> all_fit rs'"
  by (auto simp: all_fit_def)

lemma length_rec_bytes [simp]: "length (rec_bytes r) = rec_len r"
  by (simp add: rec_bytes_def rec_len_def)

lemma rec_bytes_hd [simp]: "(rec_bytes r @ bs) ! 0 = MagicByte"
  by (simp add: rec_bytes_def nth_append)

lemma boundary_simps [simp]: "boundary rs 0 = 0" "boundary rs (length rs) = length (frames rs)"
  by (simp_all add: boundary_def)

lemma boundary_append: "j \<le> length rs \<Longrightarrow> boundary (rs @ rs') j = boundary rs j"
  by (simp add: boundary_def)

lemma boundary_Suc: "j < length rs \<Longrightarrow> boundary rs (Suc j) = boundary rs j + rec_len (rs ! j)"
  by (simp add: boundary_def take_Suc_conv_app_nth)

lemma boundary_le: "boundary rs j \<le> length (frames rs)"
proof -
  have "frames rs = frames (take j rs) @ frames (drop j rs)"
    by (metis append_take_drop_id frames_simps(3))
  then show ?thesis by (simp add: boundary_def)
qed

lemma drop_boundary: "drop (boundary rs j) (frames rs @ rest) = frames (drop j rs) @ rest"
proof -
  have "frames rs = frames (take j rs) @ frames (drop j rs)"
    by (metis append_take_drop_id frames_simps(3))
  then show ?thesis by (simp add: boundary_def)
qed

lemma length_frames_ge: "17 * length rs \<le> length (frames rs)"
  by (induction rs) (simp_all add: rec_len_def)

lemma dead_end_magic: "b \<noteq> MagicByte \<Longrightarrow> dead_end (b # bs)"
  by (auto simp: dead_end_def next_rec_def decode_bytes_def Let_def take_Cons' split: prod.splits sum.splits if_splits)

lemma zero_not_magic: "0 \<noteq> MagicByte"
  by (simp add: MagicByte_def)

lemma dead_end_Nil [simp]: "dead_end []"
  by (simp add: dead_end_def next_rec_def decode_bytes_def)

lemma dead_end_zeros [simp]: "dead_end (replicate n 0)"
  by (cases n) (simp_all add: dead_end_magic MagicByte_def)

text \<open>What \<open>DecodeFrame\<close> does on a buffer that holds the bytes.\<close>

lemma DecodeFrame_next:
  "fst (DecodeFrame [bs]) = Inr f \<Longrightarrow> \<exists>rest. next_rec bs = Some ((Offset f, Payload f), rest)"
  using fst_DecodeFrame [of "[bs]"] by (auto simp: next_rec_def split: prod.splits sum.splits)

lemma DecodeFrame_dead: "dead_end bs \<Longrightarrow> \<exists>e. fst (DecodeFrame [bs]) = Inl e"
  using DecodeFrame_next [of bs] by (cases "fst (DecodeFrame [bs])") (auto simp: dead_end_def)

lemma DecodeFrame_rec:
  assumes "rec_fits r"
  shows "\<exists>f. fst (DecodeFrame [rec_bytes r @ bs]) = Inr f \<and> Offset f = fst r \<and> Payload f = snd r \<and>
    unat (Length f) = length (snd r)"
  using assms fst_DecodeFrame [of "[rec_bytes r @ bs]"]
  by (simp add: rec_fits_def rec_bytes_def decode_frame_bytes unat_of_nat_small)

lemma frames_split:
  obtains rs rest where "bs = frames rs @ rest" and "all_fit rs" and "dead_end rest"
  using wire.parse_exists [of bs] by (auto simp: frames_def all_fit_def dead_end_def)

lemma frames_unique:
  assumes "frames rs @ rest = frames rs' @ rest'" and "all_fit rs" and "all_fit rs'"
    and "dead_end rest" and "dead_end rest'"
  shows "rs = rs'" and "rest = rest'"
  using wire.parse_unique [of rs rest rs' rest'] assms by (simp_all add: frames_def all_fit_def dead_end_def)

end
