(* ===== verification/Decimal.thy ===== *)
theory Decimal
  imports Prelude
begin

text \<open>
  Decimal numbers as the program prints and parses them: \<open>fmt.Sprintf\<close> with the verb
  \<open>%020d\<close> (segment names), \<open>strconv.ParseUint(s, 10, 64)\<close> (segment names and the consume
  request) and \<open>strconv.Atoi\<close> (the workload and latency requests). A parse error is \<open>None\<close>: the
  callers only ask whether there is one.
\<close>

section \<open>Strings as bytes\<close>

definition bytes_of :: "string \<Rightarrow> byte list" where
  "bytes_of s = map (\<lambda>c. word_of_nat (of_char c)) s"

definition text_of :: "byte list \<Rightarrow> string" where
  "text_of bs = map (\<lambda>b. char_of (unat b)) bs"

lemma unat_of_char [simp]: "unat (word_of_nat (of_char c) :: byte) = of_char c"
  by (simp add: unat_of_nat)

lemma text_of_bytes_of [simp]: "text_of (bytes_of s) = s"
  by (induction s) (simp_all add: text_of_def bytes_of_def)

lemma length_bytes_of [simp]: "length (bytes_of s) = length s"
  by (simp add: bytes_of_def)

section \<open>Printing and parsing\<close>

definition digit_char :: "nat \<Rightarrow> char" where
  "digit_char d = char_of (48 + d)"

definition digit_val :: "char \<Rightarrow> nat option" where
  "digit_val c = (let n = of_char c :: nat in if 48 \<le> n \<and> n \<le> 57 then Some (n - 48) else None)"

fun decimal :: "nat \<Rightarrow> string" where
  "decimal n = (if n < 10 then [digit_char n] else decimal (n div 10) @ [digit_char (n mod 10)])"

declare decimal.simps [simp del]

definition Sprintf_020d :: "u64 \<Rightarrow> string" where
  "Sprintf_020d n = (let s = decimal (unat n) in replicate (20 - length s) (digit_char 0) @ s)"

fun parse_digits :: "nat \<Rightarrow> string \<Rightarrow> nat option" where
  "parse_digits acc [] = Some acc"
| "parse_digits acc (c # s) =
     (case digit_val c of None \<Rightarrow> None | Some d \<Rightarrow> parse_digits (10 * acc + d) s)"

definition ParseUint :: "string \<Rightarrow> u64 option" where
  "ParseUint s =
    (if s = [] then None
     else case parse_digits 0 s of
         None \<Rightarrow> None
       | Some n \<Rightarrow> (if n < 2 ^ 64 then Some (word_of_nat n) else None))"

text \<open>\<open>Atoi\<close> takes a sign and the range of a 64-bit \<open>int\<close>.\<close>

definition Atoi :: "string \<Rightarrow> int option" where
  "Atoi s =
    (let neg = (s \<noteq> [] \<and> hd s = CHR ''-'');
         ds = (if s \<noteq> [] \<and> (hd s = CHR ''-'' \<or> hd s = CHR ''+'') then tl s else s)
     in if ds = [] then None
        else case parse_digits 0 ds of
            None \<Rightarrow> None
          | Some n \<Rightarrow>
              (if neg then (if n \<le> 2 ^ 63 then Some (- int n) else None)
               else if n < 2 ^ 63 then Some (int n) else None))"

section \<open>Parsing inverts printing\<close>

lemma digit_val_char [simp]: "d < 10 \<Longrightarrow> digit_val (digit_char d) = Some d"
  by (simp add: digit_val_def digit_char_def)

lemma decimal_not_Nil [simp]: "decimal n \<noteq> []"
  by (subst decimal.simps) simp

lemma parse_digits_append:
  "parse_digits acc (s @ t) = (case parse_digits acc s of None \<Rightarrow> None | Some n \<Rightarrow> parse_digits n t)"
  by (induction s arbitrary: acc) (auto split: option.split)

lemma parse_decimal_acc: "parse_digits 0 (decimal n) = Some n"
proof (induction n rule: decimal.induct)
  case (1 n)
  then show ?case
    by (subst decimal.simps) (auto simp: parse_digits_append)
qed

lemma parse_zeros [simp]: "parse_digits 0 (replicate k (digit_char 0)) = Some 0"
  by (induction k) simp_all

lemma ParseUint_Sprintf [simp]: "ParseUint (Sprintf_020d n) = Some n"
  using unat_lt64 [of n]
  by (simp add: ParseUint_def Sprintf_020d_def Let_def parse_digits_append parse_decimal_acc)

lemma Sprintf_020d_inj [simp]: "Sprintf_020d a = Sprintf_020d b \<longleftrightarrow> a = b"
  by (metis ParseUint_Sprintf option.inject)

lemma length_decimal: "0 < k \<Longrightarrow> n < 10 ^ k \<Longrightarrow> length (decimal n) \<le> k"
proof (induction k arbitrary: n)
  case (Suc k)
  show ?case
  proof (cases "n < 10")
    case False
    then have "k \<noteq> 0" using Suc.prems(2) by (cases k) auto
    moreover have "n div 10 < 10 ^ k" using Suc.prems(2) by (simp add: less_mult_imp_div_less)
    ultimately have "length (decimal (n div 10)) \<le> k" using Suc.IH by simp
    with False show ?thesis by (subst decimal.simps) simp
  qed (subst decimal.simps, simp)
qed simp

lemma length_Sprintf_020d: "length (Sprintf_020d n) = 20"
proof -
  have "length (decimal (unat n)) \<le> 20"
    using unat_lt64 [of n] by (intro length_decimal) simp_all
  then show ?thesis by (simp add: Sprintf_020d_def Let_def)
qed

end
