(* ===== verification/Segment.thy ===== *)
theory Segment
  imports Records SparseIndex Decimal "HOL-Library.Monad_Syntax"
begin

text \<open>
  A log segment of \<open>storage/wal_segment.go\<close>: a memory-mapped file of frames, its sparse index,
  appending, reading and recovery. The lemmas show that the file of a segment is the
  concatenation of the frames of its records, that recovery finds exactly the records before the
  first undecodable byte, and that a record appended is read back, as are all the older ones.
\<close>

section \<open>The segment\<close>

datatype storage_error =
    ErrOffsetNotFound | ErrSegmentFull | ErrWALClosed
  | SegMkdir os_error | SegReadDir os_error | SegOpen os_error | SegStat os_error | SegPreallocate os_error
  | SegMap mmap_error | SegIndex index_error | SegFrame frame_error | RollFailed storage_error

record StorageConfig =
  DataDir :: string
  MaxSegmentBytes :: nat
  IndexIntervalBytes :: u32
  SyncOnWrite :: bool

definition DefaultConfig :: "string \<Rightarrow> StorageConfig" where
  "DefaultConfig dataDir = \<lparr>DataDir = dataDir, MaxSegmentBytes = 64 * 1024 * 1024,
     IndexIntervalBytes = 4096, SyncOnWrite = False\<rparr>"

record Segment =
  baseOffset :: u64
  nextOffset :: u64
  logFile :: nat
  seg_mmap :: mmapHandle
  seg_index :: SparseIndex
  writePos :: u32
  maxBytes :: nat
  lastIndexByte :: u32
  indexInterval :: u32
  seg_isClosed :: bool
  logPath :: path
  indexPath :: path

definition log_path :: "string \<Rightarrow> u64 \<Rightarrow> path" where
  "log_path dir base = (dir, Sprintf_020d base @ ''.log'')"

definition index_path :: "string \<Rightarrow> u64 \<Rightarrow> path" where
  "index_path dir base = (dir, Sprintf_020d base @ ''.index'')"

abbreviation header32 :: u32 where
  "header32 \<equiv> word_of_nat HeaderSize"

text \<open>
  The loop of \<open>recover\<close>: \<open>None\<close> when it reads outside the mapped bytes or never ends (the
  position is a \<open>uint32\<close> and wraps in a segment of 4 GiB or more).
\<close>

partial_function (option) recover_loop :: "byte list \<Rightarrow> nat \<Rightarrow> u32 \<Rightarrow> u64 \<Rightarrow> (u32 \<times> u64) option" where
  [code]: "recover_loop data maxB pos next =
    (if unat (pos + header32) \<le> maxB then
       (if unat pos < length data then
          (if data ! unat pos \<noteq> MagicByte then Some (pos, next)
           else case fst (DecodeFrame [drop (unat pos) data]) of
               Inl err \<Rightarrow> Some (pos, next)
             | Inr frame \<Rightarrow> recover_loop data maxB (pos + (header32 + Length frame)) (Offset frame + 1))
        else None)
     else Some (pos, next))"

definition recover_segment :: "Segment \<Rightarrow> OS \<Rightarrow> Segment option" where
  "recover_segment s os =
    (if \<not> mapped (seg_mmap s) then None
     else map_option (\<lambda>(pos, next). s\<lparr>writePos := pos, nextOffset := next\<rparr>)
       (recover_loop (view os (seg_mmap s)) (maxBytes s) 0 (nextOffset s)))"

text \<open>
  \<open>NewSegment\<close>. The interval divides \<open>maxBytes\<close>: an interval of 0 panics. \<open>recover\<close> returns no
  error, so the branch that closes the segment again is never taken.
\<close>

definition NewSegment :: "sys \<Rightarrow> string \<Rightarrow> u64 \<Rightarrow> nat \<Rightarrow> u32 \<Rightarrow> OS \<Rightarrow> ((storage_error + Segment) \<times> OS) option" where
  "NewSegment sys dir base maxB interval os =
    (case do_call sys (SysMkdirAll dir) os of
       (Some e, os) \<Rightarrow> Some (Inl (SegMkdir e), os)
     | (None, os) \<Rightarrow>
         (let logP = log_path dir base; indexP = index_path dir base in
          case OpenFile sys logP os of
            (Inl e, os) \<Rightarrow> Some (Inl (SegOpen e), os)
          | (Inr file, os) \<Rightarrow>
              (case Stat_Size sys file os of
                 (Inl e, os) \<Rightarrow> Some (Inl (SegStat e), snd (File_Close sys file os))
               | (Inr fsize, os) \<Rightarrow>
                   (case (if fsize < maxB then Truncate sys file maxB os else (None, os)) of
                      (Some e, os) \<Rightarrow> Some (Inl (SegPreallocate e), snd (File_Close sys file os))
                    | (None, os) \<Rightarrow>
                        (case mapFileWin32 sys file maxB False os of
                           (Inl e, os) \<Rightarrow> Some (Inl (SegMap e), snd (File_Close sys file os))
                         | (Inr mh, os) \<Rightarrow>
                             (if interval = 0 then None
                              else
                                (let maxIndexEntries = maxB div unat interval + 16 in
                                 case OpenSparseIndex sys indexP maxIndexEntries os of
                                   (Inl e, os) \<Rightarrow> Some (Inl (SegIndex e), snd (snd (mmap_Close sys mh os)))
                                 | (Inr idx, os) \<Rightarrow> do {
                                     seg \<leftarrow> recover_segment
                                       \<lparr>baseOffset = base, nextOffset = base, logFile = file, seg_mmap = mh,
                                        seg_index = idx, writePos = 0, maxBytes = maxB, lastIndexByte = 0,
                                        indexInterval = interval, seg_isClosed = False, logPath = logP,
                                        indexPath = indexP\<rparr> os;
                                     Some (Inr seg, os)
                                   })))))))"

definition Segment_Append ::
  "u64 \<Rightarrow> byte list \<Rightarrow> Segment \<Rightarrow> OS \<Rightarrow> ((storage_error + u32) \<times> Segment \<times> OS) option" where
  "Segment_Append offset payload s os =
    (if seg_isClosed s then Some (Inl ErrWALClosed, s, os)
     else case EncodeFrame offset payload of
         Inl e \<Rightarrow> Some (Inl (SegFrame e), s, os)
       | Inr encoded \<Rightarrow>
           (let frameLen = word_of_nat (length encoded) :: u32 in
            if unat (writePos s + frameLen) > maxBytes s then Some (Inl ErrSegmentFull, s, os)
            else do {
              let entryPos = writePos s;
              (s, os) \<leftarrow>
                (if writePos s - lastIndexByte s \<ge> indexInterval s \<or> writePos s = 0 then do {
                   let relOffset = (ucast (offset - baseOffset s) :: u32);
                   (err, idx, os) \<leftarrow> Index_Append relOffset entryPos (seg_index s) os;
                   Some (s\<lparr>seg_index := idx,
                           lastIndexByte := (if err = None then entryPos else lastIndexByte s)\<rparr>, os)
                 } else Some (s, os));
              if \<not> mapped (seg_mmap s) \<or> entryPos > entryPos + frameLen \<or>
                 unat (entryPos + frameLen) > length (view os (seg_mmap s)) then None
              else Some (Inr entryPos,
                s\<lparr>writePos := writePos s + frameLen, nextOffset := offset + 1\<rparr>,
                write_view (seg_mmap s) (unat entryPos) encoded os)
            }))"

text \<open>
  The scan of \<open>ReadAt\<close>. \<open>DecodeFrame\<close> succeeds only on a frame that ends by \<open>writePos\<close>, so the
  position never wraps and the scan ends.
\<close>

lemma DecodeFrame_consumes:
  assumes "fst (DecodeFrame [bs]) = Inr f"
  shows "17 + unat (Length f) \<le> length bs" and "unat (Length f) = length (Payload f)"
proof -
  have "\<exists>rest. decode_bytes bs = (Inr f, rest)"
    using fst_DecodeFrame [of "[bs]"] assms by (cases "decode_bytes bs") simp
  then obtain rest where d: "decode_bytes bs = (Inr f, rest)" ..
  note f = decode_bytes_Inr [OF d]
  have "unat (word_of_nat (length (Payload f)) :: u32) = length (Payload f)"
    using f(2) by (intro unat_of_nat_small) simp
  with f(4) show len: "unat (Length f) = length (Payload f)" by simp
  show "17 + unat (Length f) \<le> length bs" using f(1) len by simp
qed

lemma frame_end:
  assumes "fst (DecodeFrame [take (unat wp - unat pos) (drop (unat pos) data)]) = Inr f" and "pos < wp"
  shows "unat (pos + (header32 + Length f)) = unat pos + 17 + unat (Length f)"
    and "unat pos + 17 + unat (Length f) \<le> unat wp"
proof -
  have "17 + unat (Length f) \<le> unat wp - unat pos"
    using DecodeFrame_consumes(1) [OF assms(1)] by simp
  then show le: "unat pos + 17 + unat (Length f) \<le> unat wp" using assms(2) by (simp add: word_less_nat_alt)
  have "unat (header32 + Length f) = 17 + unat (Length f)"
    using le unat_lt32 [of wp] by (subst unat_add_no_wrap) simp_all
  then show "unat (pos + (header32 + Length f)) = unat pos + 17 + unat (Length f)"
    using le unat_lt32 [of wp] by (subst unat_add_no_wrap) simp_all
qed

function read_scan :: "byte list \<Rightarrow> u32 \<Rightarrow> u64 \<Rightarrow> u32 \<Rightarrow> (storage_error + byte list) option" where
  "read_scan data wp offset pos =
    (if pos < wp then
       (if unat pos < length data \<and> unat wp \<le> length data then
          (if data ! unat pos \<noteq> MagicByte then Some (Inl ErrOffsetNotFound)
           else case fst (DecodeFrame [take (unat wp - unat pos) (drop (unat pos) data)]) of
               Inl err \<Rightarrow> (if err = ReadEOF then Some (Inl ErrOffsetNotFound) else Some (Inl (SegFrame err)))
             | Inr frame \<Rightarrow>
                 (if Offset frame = offset then Some (Inr (Payload frame))
                  else read_scan data wp offset (pos + (header32 + Length frame))))
        else None)
     else Some (Inl ErrOffsetNotFound))"
  by pat_completeness auto
termination
proof (relation "measure (\<lambda>(data, wp, offset, pos). unat wp - unat pos)")
  fix data and wp :: u32 and offset and pos :: u32 and f
  assume "pos < wp" and "fst (DecodeFrame [take (unat wp - unat pos) (drop (unat pos) data)]) = Inr f"
  from frame_end [OF this(2,1)]
  show "((data, wp, offset, pos + (header32 + Length f)), data, wp, offset, pos)
      \<in> measure (\<lambda>(data, wp, offset, pos). unat wp - unat pos)"
    by simp
qed simp

declare read_scan.simps [simp del]

definition Segment_ReadAt :: "u64 \<Rightarrow> Segment \<Rightarrow> OS \<Rightarrow> (storage_error + byte list) option" where
  "Segment_ReadAt offset s os =
    (if offset < baseOffset s \<or> offset \<ge> nextOffset s then Some (Inl ErrOffsetNotFound)
     else do {
       let relOffset = (ucast (offset - baseOffset s) :: u32);
       (startPos, _) \<leftarrow> Lookup relOffset (seg_index s) os;
       if mapped (seg_mmap s) then read_scan (view os (seg_mmap s)) (writePos s) offset startPos
       else None
     })"

definition Segment_Flush :: "sys \<Rightarrow> Segment \<Rightarrow> OS \<Rightarrow> (mmap_error option \<times> OS) option" where
  "Segment_Flush sys s os =
    (if seg_isClosed s then Some (None, os)
     else case mmap_Flush sys (seg_mmap s) os of (err, os) \<Rightarrow>
       (case ix_mmap (seg_index s) of
          None \<Rightarrow> None
        | Some m \<Rightarrow>
            (case mmap_Flush sys m os of (err2, os) \<Rightarrow> Some (first_error (first_error None err) err2, os))))"

definition Segment_Close :: "sys \<Rightarrow> Segment \<Rightarrow> OS \<Rightarrow> mmap_error option \<times> Segment \<times> OS" where
  "Segment_Close sys s os =
    (if seg_isClosed s then (None, s, os)
     else
       (let s = s\<lparr>seg_isClosed := True\<rparr>;
            (err, idx, os) = Index_Close sys (seg_index s) os;
            firstErr = first_error None err;
            s = s\<lparr>seg_index := idx\<rparr>;
            (err, m, os) = mmap_Close sys (seg_mmap s) os;
            firstErr = first_error firstErr err
        in (firstErr, s\<lparr>seg_mmap := m\<rparr>, os)))"

section \<open>Recovery\<close>

text \<open>
  The bound on the size of a segment: positions are \<open>uint32\<close>, and the position after the largest
  frame that is tried must not wrap. The default of 64 MiB is far below it.
\<close>

definition max_frame :: nat where
  "max_frame = 17 + unat MaxPayloadSize"

definition size_ok :: "nat \<Rightarrow> bool" where
  "size_ok maxB \<longleftrightarrow> maxB + max_frame < 2 ^ 32"

lemma size_ok_bound: "size_ok maxB \<Longrightarrow> maxB + 33554449 < 4294967296"
  by (simp add: size_ok_def max_frame_def)

lemma unat_header32_add: "unat (p :: u32) + n + 17 < 4294967296 \<Longrightarrow> unat (w :: u32) = n \<Longrightarrow>
    unat (p + (header32 + w)) = unat p + 17 + n"
proof -
  assume b: "unat p + n + 17 < 4294967296" and w: "unat w = n"
  have "unat (header32 + w) = 17 + n" using b w by (subst unat_add_no_wrap) simp_all
  then show ?thesis using b by (subst unat_add_no_wrap) simp_all
qed

definition next_after :: "u64 \<Rightarrow> logrec list \<Rightarrow> u64" where
  "next_after base rs = (if rs = [] then base else fst (last rs) + 1)"

lemma next_after_Cons: "next_after base (r # rs) = next_after (fst r + 1) rs"
  by (simp add: next_after_def)

lemma recover_loop_frames:
  assumes "length data = maxB" and "size_ok maxB" and "unat pos \<le> maxB"
    and "drop (unat pos) data = frames rs @ rest" and "all_fit rs" and "dead_end rest"
  shows "\<exists>p. recover_loop data maxB pos nx = Some (p, next_after nx rs) \<and>
    unat p = unat pos + length (frames rs)"
  using assms
proof (induction rs arbitrary: pos nx)
  case Nil
  note bound = size_ok_bound [OF Nil.prems(2)]
  show ?case
  proof (cases "unat (pos + header32) \<le> maxB \<and> data ! unat pos = MagicByte")
    case True
    then have "unat pos < length data"
      using bound Nil.prems(1,3) by (simp add: unat_add_no_wrap)
    moreover obtain e where "fst (DecodeFrame [drop (unat pos) data]) = Inl e"
      using DecodeFrame_dead Nil.prems(4,6) by auto
    ultimately show ?thesis
      using True by (subst recover_loop.simps) (simp add: next_after_def)
  next
    case False
    then show ?thesis
      using bound Nil.prems(1,3)
      by (subst recover_loop.simps) (auto simp: next_after_def unat_add_no_wrap)
  qed
next
  case (Cons r rs)
  note bound = size_ok_bound [OF Cons.prems(2)]
  have len: "length data - unat pos = rec_len r + length (frames rs @ rest)"
    using arg_cong [OF Cons.prems(4), of length] by simp
  have r: "rec_len r = 17 + length (snd r)" by (simp add: rec_len_def)
  have pos17: "unat (pos + header32) = unat pos + 17" using bound Cons.prems(3) by (simp add: unat_add_no_wrap)
  have here: "unat (pos + header32) \<le> maxB" "unat pos < length data"
    using len r Cons.prems(1) unfolding pos17 by auto
  have magic: "data ! unat pos = MagicByte"
    using Cons.prems(4) rec_bytes_hd [of r "frames rs @ rest"] here(2) by (metis append_assoc frames_simps(2) hd_drop_conv_nth
        hd_conv_nth drop_eq_Nil not_less)
  obtain f where f: "fst (DecodeFrame [drop (unat pos) data]) = Inr f" "Offset f = fst r" "unat (Length f) = length (snd r)"
    using DecodeFrame_rec [of r "frames rs @ rest"] Cons.prems(4,5) by auto
  have pos': "unat (pos + (header32 + Length f)) = unat pos + rec_len r"
    using unat_header32_add [of pos "length (snd r)" "Length f"] f(3) r len here bound Cons.prems(1) by simp
  have le: "unat pos + rec_len r \<le> maxB" using len here(2) Cons.prems(1) by linarith
  have "drop (unat pos + rec_len r) data = frames rs @ rest"
    using Cons.prems(4) by (metis add.commute append_assoc append_eq_conv_conj drop_drop frames_simps(2) length_rec_bytes)
  with Cons.IH [of "pos + (header32 + Length f)" "fst r + 1"] pos' le Cons.prems(1,2,5,6)
  obtain p where "recover_loop data maxB (pos + (header32 + Length f)) (fst r + 1) = Some (p, next_after (fst r + 1) rs)"
    "unat p = unat pos + rec_len r + length (frames rs)" by auto
  then show ?case
    using here magic f by (subst recover_loop.simps) (simp add: next_after_Cons)
qed

section \<open>Reading\<close>

lemma read_scan_step:
  assumes "data = frames rs @ tail" and "j < length rs" and "all_fit rs"
    and "unat wp = length (frames rs)" and "unat pos = boundary rs j" and "length (frames rs) + 17 < 4294967296"
  obtains pos' where "unat pos' = boundary rs (Suc j)"
    and "read_scan data wp off pos =
      (if fst (rs ! j) = off then Some (Inr (snd (rs ! j))) else read_scan data wp off pos')"
proof -
  let ?r = "rs ! j"
  have split: "frames (drop j rs) = rec_bytes ?r @ frames (drop (Suc j) rs)"
    using Cons_nth_drop_Suc [OF assms(2)] by (metis frames_simps(2))
  have bnd: "boundary rs j + rec_len ?r \<le> length (frames rs)"
    using boundary_Suc [OF assms(2)] boundary_le [of rs "Suc j"] by simp
  have less: "pos < wp" "unat pos < length data" "unat wp \<le> length data"
    using bnd assms(1,4,5) by (simp_all add: word_less_nat_alt rec_len_def)
  have at: "drop (unat pos) data = rec_bytes ?r @ frames (drop (Suc j) rs) @ tail"
    using drop_boundary [of rs j tail] assms(1,5) split by simp
  have magic: "data ! unat pos = MagicByte"
    using at rec_bytes_hd [of ?r "frames (drop (Suc j) rs) @ tail"] less(2)
    by (metis hd_drop_conv_nth hd_conv_nth drop_eq_Nil not_less)
  have "length (frames rs) - boundary rs j = length (frames (drop j rs))"
    using arg_cong [OF drop_boundary [of rs j "[]"], of length] by simp
  then have window: "take (unat wp - unat pos) (drop (unat pos) data) = rec_bytes ?r @ frames (drop (Suc j) rs)"
    unfolding at unfolding assms(4,5) split by simp
  have "rec_fits ?r" using assms(2,3) by (simp add: all_fit_def)
  then obtain f where f: "fst (DecodeFrame [take (unat wp - unat pos) (drop (unat pos) data)]) = Inr f"
      "Offset f = fst ?r" "Payload f = snd ?r" "unat (Length f) = length (snd ?r)"
    using DecodeFrame_rec window by metis
  have "unat (pos + (header32 + Length f)) = boundary rs (Suc j)"
    using frame_end(1) [OF f(1) less(1)] f(4) assms(5) boundary_Suc [OF assms(2)] by (simp add: rec_len_def)
  moreover have "read_scan data wp off pos =
      (if fst ?r = off then Some (Inr (snd ?r)) else read_scan data wp off (pos + (header32 + Length f)))"
    using less magic f by (subst read_scan.simps) simp
  ultimately show thesis by (rule that)
qed

lemma read_scan_finds:
  assumes "data = frames rs @ tail" and "i < length rs" and "all_fit rs" and "unat wp = length (frames rs)"
    and "length (frames rs) + 17 < 4294967296" and "fst (rs ! i) = off" and "\<forall>k < i. fst (rs ! k) \<noteq> off"
    and "j \<le> i" and "unat pos = boundary rs j"
  shows "read_scan data wp off pos = Some (Inr (snd (rs ! i)))"
  using assms(8,9)
proof (induction "i - j" arbitrary: j pos)
  case 0
  then have "j = i" by simp
  obtain pos' where "read_scan data wp off pos =
      (if fst (rs ! i) = off then Some (Inr (snd (rs ! i))) else read_scan data wp off pos')"
    using read_scan_step [OF assms(1,2,3,4) _ assms(5)] 0 \<open>j = i\<close> by metis
  with assms(6) show ?case by simp
next
  case (Suc d)
  then have j: "j < i" "j < length rs" using assms(2) by simp_all
  obtain pos' where pos': "unat pos' = boundary rs (Suc j)" and "read_scan data wp off pos =
      (if fst (rs ! j) = off then Some (Inr (snd (rs ! j))) else read_scan data wp off pos')"
    using read_scan_step [OF assms(1) j(2) assms(3,4) Suc.prems(2) assms(5)] by metis
  then have "read_scan data wp off pos = read_scan data wp off pos'"
    using assms(7) j(1) by simp
  also have "\<dots> = Some (Inr (snd (rs ! i)))"
    using Suc.hyps(2) j(1) by (intro Suc.hyps(1) [of "Suc j"] pos') auto
  finally show ?case .
qed

section \<open>The segment invariant\<close>

text \<open>
  The records of a segment are numbered from its base without a gap; \<open>rest\<close> is what its file
  holds after them.
\<close>

definition numbered :: "u64 \<Rightarrow> logrec list \<Rightarrow> bool" where
  "numbered base rs \<longleftrightarrow> unat base + length rs < 2 ^ 64 \<and>
     (\<forall>i < length rs. fst (rs ! i) = base + word_of_nat i)"

definition index_capacity :: "nat \<Rightarrow> u32 \<Rightarrow> nat" where
  "index_capacity maxB interval = maxB div unat interval + 16"

definition seg_sized :: "Segment \<Rightarrow> OS \<Rightarrow> bool" where
  "seg_sized s os \<longleftrightarrow> length (file_bytes os (logPath s)) \<le> maxBytes s \<and>
     maxEntries (seg_index s) = index_capacity (maxBytes s) (indexInterval s) \<and>
     length (file_bytes os (indexPath s)) \<le> index_capacity (maxBytes s) (indexInterval s) * IndexEntrySize"

definition seg_ok :: "Segment \<Rightarrow> OS \<Rightarrow> logrec list \<Rightarrow> byte list \<Rightarrow> bool" where
  "seg_ok s os rs rest \<longleftrightarrow> seg_sized s os \<and>
     \<not> seg_isClosed s \<and> mapped (seg_mmap s) \<and> size_ok (maxBytes s) \<and>
     view os (seg_mmap s) = frames rs @ rest \<and> length (frames rs) + length rest = maxBytes s \<and>
     unat (writePos s) = length (frames rs) \<and> all_fit rs \<and> numbered (baseOffset s) rs \<and>
     nextOffset s = baseOffset s + word_of_nat (length rs) \<and>
     index_ok (boundary rs) (length rs) (seg_index s) os \<and>
     index_open (seg_index s) os \<and> ix_path (seg_index s) = indexPath s \<and>
     isOpen (seg_mmap s) \<and> fd_open os (mh_file (seg_mmap s)) \<and>
     fd_path os (mh_file (seg_mmap s)) = logPath s \<and> logPath s \<noteq> indexPath s"

lemma numbered_unat:
  "numbered base rs \<Longrightarrow> i \<le> length rs \<Longrightarrow> unat (base + word_of_nat i :: u64) = unat base + i"
  by (simp add: numbered_def unat_add_no_wrap unat_of_nat_small)

lemma numbered_inj:
  assumes "numbered base rs" and "i < length rs" and "j < length rs" and "fst (rs ! i) = fst (rs ! j)"
  shows "i = j"
proof -
  have "unat (base + word_of_nat i) = unat (base + word_of_nat j)"
    using assms by (simp add: numbered_def)
  then show ?thesis using assms(1-3) by (simp add: numbered_unat)
qed

lemma relative_offset:
  "i < 2 ^ 32 \<Longrightarrow> unat (ucast (base + word_of_nat i - base :: u64) :: u32) = i"
  by (simp add: unsigned_ucast_eq unat_of_nat_small take_bit_nat_eq_self)

lemma seg_ok_count:
  assumes "seg_ok s os rs rest"
  shows "length rs < 2 ^ 32" and "length (frames rs) + 17 < 4294967296" and "length (frames rs) \<le> maxBytes s"
    and "maxBytes s + 33554449 < 4294967296"
proof -
  have len: "length (frames rs) + length rest = maxBytes s"
    using assms by (simp add: seg_ok_def)
  show bound: "maxBytes s + 33554449 < 4294967296"
    using assms size_ok_bound by (auto simp: seg_ok_def)
  show "length (frames rs) \<le> maxBytes s" using len by simp
  show "length (frames rs) + 17 < 4294967296" using len bound by simp
  show "length rs < 2 ^ 32" using len bound length_frames_ge [of rs] by simp
qed

lemma Segment_ReadAt_ok:
  assumes ok: "seg_ok s os rs rest" and i: "i < length rs"
  shows "Segment_ReadAt (baseOffset s + word_of_nat i) s os = Some (Inr (snd (rs ! i)))"
proof -
  let ?off = "baseOffset s + word_of_nat i"
  have num: "numbered (baseOffset s) rs" and nxt: "nextOffset s = baseOffset s + word_of_nat (length rs)"
    using ok by (simp_all add: seg_ok_def)
  have inside: "\<not> ?off < baseOffset s" "\<not> ?off \<ge> nextOffset s"
    using numbered_unat [OF num, of i] numbered_unat [OF num, of "length rs"] i
    by (simp_all add: nxt word_less_nat_alt word_le_nat_alt)
  have rel: "unat (ucast (?off - baseOffset s) :: u32) = i"
    using seg_ok_count(1) [OF ok] i by (intro relative_offset) simp
  obtain pos found j where look: "Lookup (ucast (?off - baseOffset s)) (seg_index s) os = Some (pos, found)"
    "unat pos = boundary rs j" "j \<le> i"
    using Lookup_sound [of "boundary rs" "length rs" "seg_index s" os "ucast (?off - baseOffset s)"] ok rel
    by (auto simp: seg_ok_def)
  have "read_scan (view os (seg_mmap s)) (writePos s) ?off pos = Some (Inr (snd (rs ! i)))"
  proof (rule read_scan_finds [where j = j])
    show "view os (seg_mmap s) = frames rs @ rest" "all_fit rs" "unat (writePos s) = length (frames rs)"
      using ok by (simp_all add: seg_ok_def)
    show at_i: "fst (rs ! i) = ?off" using num i by (simp add: numbered_def)
    show "\<forall>k < i. fst (rs ! k) \<noteq> ?off"
    proof (intro allI impI)
      fix k assume "k < i"
      with i numbered_inj [OF num, of k i] at_i show "fst (rs ! k) \<noteq> ?off" by auto
    qed
  qed (rule i seg_ok_count(2) [OF ok] look(2,3))+
  then show ?thesis
    using inside look(1) ok by (simp add: Segment_ReadAt_def seg_ok_def Let_def)
qed

lemma Segment_ReadAt_outside:
  assumes "seg_ok s os rs rest" and "unat off < unat (baseOffset s) \<or> unat (baseOffset s) + length rs \<le> unat off"
  shows "Segment_ReadAt off s os = Some (Inl ErrOffsetNotFound)"
proof -
  have "unat (nextOffset s) = unat (baseOffset s) + length rs"
    using assms(1) numbered_unat [of "baseOffset s" rs "length rs"] by (simp add: seg_ok_def)
  with assms(2) show ?thesis
    by (auto simp: Segment_ReadAt_def word_less_nat_alt word_le_nat_alt)
qed

section \<open>Appending\<close>

text \<open>What an operation on a segment leaves alone: its identity, and every other file.\<close>

definition seg_same :: "Segment \<Rightarrow> Segment \<Rightarrow> bool" where
  "seg_same s s' \<longleftrightarrow> baseOffset s' = baseOffset s \<and> maxBytes s' = maxBytes s \<and> logPath s' = logPath s \<and>
     indexPath s' = indexPath s \<and> seg_mmap s' = seg_mmap s \<and> indexInterval s' = indexInterval s \<and>
     logFile s' = logFile s"

definition others_same :: "Segment \<Rightarrow> OS \<Rightarrow> OS \<Rightarrow> bool" where
  "others_same s os os' \<longleftrightarrow> fds os' = fds os \<and> dirents os' = dirents os \<and>
     (\<forall>q. q \<noteq> logPath s \<longrightarrow> q \<noteq> indexPath s \<longrightarrow> files os' q = files os q)"

text \<open>Files may have been opened in between, but none that was open was closed.\<close>

definition fds_extend :: "OS \<Rightarrow> OS \<Rightarrow> bool" where
  "fds_extend os os' \<longleftrightarrow> (\<exists>l. fds os' = fds os @ l)"

lemma fds_extend_refl [simp]: "fds os' = fds os \<Longrightarrow> fds_extend os os'"
  by (simp add: fds_extend_def)

lemma fds_extend_keeps:
  assumes "fds_extend os os'" and "fd_open os fd"
  shows "fd_path os' fd = fd_path os fd" and "fd_open os' fd"
  using assms by (auto simp: fds_extend_def fd_open_def fd_path_def nth_append)

lemma view_same:
  assumes "fds_extend os os'" and "fd_open os (mh_file m)"
    and "files os' (fd_path os (mh_file m)) = files os (fd_path os (mh_file m))"
  shows "view os' m = view os m"
  using assms(3) fds_extend_keeps [OF assms(1,2)] by (simp add: view_def file_bytes_def)

lemma index_open_same: "fds_extend os os' \<Longrightarrow> index_open idx os \<Longrightarrow> index_open idx os'"
  unfolding index_open_def using fds_extend_keeps by metis

lemma index_ok_same:
  assumes "fds_extend os os'" and "index_open idx os" and "files os' (ix_path idx) = files os (ix_path idx)"
  shows "index_ok bnd n idx os' = index_ok bnd n idx os"
proof -
  have "view os' m = view os m" if "mapped_view idx = Some m" for m
    using that assms by (intro view_same) (auto simp: mapped_view_def index_open_def split: option.splits if_splits)
  then show ?thesis unfolding index_ok_def by (metis (no_types, lifting))
qed

lemma seg_ok_same:
  assumes "fds_extend os os'" and "files os' (logPath s) = files os (logPath s)"
    and "files os' (indexPath s) = files os (indexPath s)" and "seg_ok s os rs rest"
  shows "seg_ok s os' rs rest"
proof -
  have "view os' (seg_mmap s) = view os (seg_mmap s)"
    using assms by (intro view_same) (simp_all add: seg_ok_def)
  moreover have "index_ok (boundary rs) (length rs) (seg_index s) os'" "index_open (seg_index s) os'"
    using assms index_ok_same [OF assms(1), of "seg_index s"] index_open_same by (auto simp: seg_ok_def)
  moreover have "seg_sized s os'"
    using assms(2-4) by (simp add: seg_ok_def seg_sized_def file_bytes_def)
  ultimately show ?thesis
    using assms(4) fds_extend_keeps [OF assms(1), of "mh_file (seg_mmap s)"] by (simp add: seg_ok_def)
qed

lemma index_ok_more:
  assumes "index_ok bnd n idx os" and "n \<le> n'" and "\<And>j. j \<le> n \<Longrightarrow> bnd' j = bnd j"
  shows "index_ok bnd' n' idx os"
proof -
  have "entry_true bnd n d k \<Longrightarrow> entry_true bnd' n' d k" for d k
    using assms(2,3) unfolding entry_true_def by (metis order_trans)
  then show ?thesis using assms(1) unfolding index_ok_def by blast
qed

text \<open>The index part of an append, whatever the interval decides.\<close>

definition index_step :: "u64 \<Rightarrow> Segment \<Rightarrow> OS \<Rightarrow> (Segment \<times> OS) option" where
  "index_step offset s os =
    (if writePos s - lastIndexByte s \<ge> indexInterval s \<or> writePos s = 0 then do {
       let relOffset = (ucast (offset - baseOffset s) :: u32);
       (err, idx, os) \<leftarrow> Index_Append relOffset (writePos s) (seg_index s) os;
       Some (s\<lparr>seg_index := idx, lastIndexByte := (if err = None then writePos s else lastIndexByte s)\<rparr>, os)
     } else Some (s, os))"

lemma index_step_ok:
  assumes ok: "seg_ok s os rs rest"
  obtains idx lib os' where "index_step (nextOffset s) s os = Some (s\<lparr>seg_index := idx, lastIndexByte := lib\<rparr>, os')"
    and "seg_ok (s\<lparr>seg_index := idx, lastIndexByte := lib\<rparr>) os' rs rest" and "others_same s os os'"
proof (cases "writePos s - lastIndexByte s \<ge> indexInterval s \<or> writePos s = 0")
  case False
  then show thesis
    using ok by (intro that [of "lastIndexByte s" "seg_index s" os]) (simp_all add: index_step_def others_same_def)
next
  case True
  let ?rel = "ucast (nextOffset s - baseOffset s) :: u32"
  have iok: "index_ok (boundary rs) (length rs) (seg_index s) os" and path: "logPath s \<noteq> indexPath s"
    and iopen: "index_open (seg_index s) os" "ix_path (seg_index s) = indexPath s"
    and log: "fd_path os (mh_file (seg_mmap s)) = logPath s" "fd_open os (mh_file (seg_mmap s))"
    using ok by (auto simp: seg_ok_def)
  have rel: "length rs = unat ?rel" and pos: "unat (writePos s) = boundary rs (length rs)"
    using ok relative_offset [OF seg_ok_count(1) [OF ok]] by (simp_all add: seg_ok_def)
  from iok order_refl rel pos show thesis
  proof (cases rule: Index_Append_ok [where n = "length rs" and n' = "length rs"])
    case full
    then show thesis
      using True ok by (intro that [of "lastIndexByte s" "seg_index s" os])
        (simp_all add: index_step_def others_same_def Let_def)
  next
    case (added m idx' os')
    have m: "fd_path os (mh_file m) = indexPath s"
      using added(1) iopen by (auto simp: mapped_view_def index_open_def split: option.splits if_splits)
    have fd: "fd_path os' = fd_path os" "fd_open os' = fd_open os"
      using added(6) by (simp_all add: fun_eq_iff fd_path_def fd_open_def)
    have "view os' (seg_mmap s) = view os (seg_mmap s)"
      using added(6-8) m log path by (intro view_same) simp_all
    moreover have "index_open idx' os'" "ix_path idx' = indexPath s"
      using iopen added(4) fd by (simp_all add: index_open_def)
    moreover have "seg_sized (s\<lparr>seg_index := idx', lastIndexByte := writePos s\<rparr>) os'"
      using ok added(4,5) by (simp add: seg_ok_def seg_sized_def)
    ultimately have "seg_ok (s\<lparr>seg_index := idx', lastIndexByte := writePos s\<rparr>) os' rs rest"
      using ok added(3) fd by (simp add: seg_ok_def)
    moreover have "index_step (nextOffset s) s os =
        Some (s\<lparr>seg_index := idx', lastIndexByte := writePos s\<rparr>, os')"
      using True added(2) by (simp add: index_step_def Let_def)
    moreover have "others_same s os os'" using added(6-8) m by (simp add: others_same_def)
    ultimately show thesis by (intro that)
  qed
qed

lemma Segment_Append_unfold:
  assumes "\<not> seg_isClosed s" and "EncodeFrame offset payload = Inr encoded"
  shows "Segment_Append offset payload s os =
    (let frameLen = word_of_nat (length encoded) :: u32 in
     if unat (writePos s + frameLen) > maxBytes s then Some (Inl ErrSegmentFull, s, os)
     else do {
       (s', os) \<leftarrow> index_step offset s os;
       if \<not> mapped (seg_mmap s') \<or> writePos s > writePos s + frameLen \<or>
          unat (writePos s + frameLen) > length (view os (seg_mmap s')) then None
       else Some (Inr (writePos s),
         s'\<lparr>writePos := writePos s' + frameLen, nextOffset := offset + 1\<rparr>,
         write_view (seg_mmap s') (unat (writePos s)) encoded os)
     })"
  using assms by (simp add: Segment_Append_def index_step_def Let_def)

lemma numbered_snoc:
  assumes "numbered base rs" and "unat base + length rs + 1 < 2 ^ 64"
  shows "numbered base (rs @ [(base + word_of_nat (length rs), p)])"
  using assms by (auto simp: numbered_def nth_append less_Suc_eq)

lemma Segment_Append_ok:
  assumes ok: "seg_ok s os rs rest" and fits: "payload_fits p"
    and room: "length (frames rs) + (17 + length p) \<le> maxBytes s"
    and num: "unat (baseOffset s) + length rs + 1 < 2 ^ 64"
  obtains s' os' where "Segment_Append (nextOffset s) p s os = Some (Inr (writePos s), s', os')"
    and "seg_ok s' os' (rs @ [(nextOffset s, p)]) (drop (17 + length p) rest)"
    and "seg_same s s'" and "nextOffset s' = nextOffset s + 1" and "others_same s os os'"
proof -
  let ?off = "nextOffset s" and ?n = "17 + length p"
  let ?enc = "frame_bytes ?off p" and ?len = "word_of_nat (17 + length p) :: u32"
  have enc: "EncodeFrame ?off p = Inr ?enc" by (rule EncodeFrame_fits [OF fits])
  obtain idx lib os1 where step: "index_step ?off s os = Some (s\<lparr>seg_index := idx, lastIndexByte := lib\<rparr>, os1)"
    and ok1: "seg_ok (s\<lparr>seg_index := idx, lastIndexByte := lib\<rparr>) os1 rs rest" and same1: "others_same s os os1"
    by (rule index_step_ok [OF ok])
  have facts: "\<not> seg_isClosed s" "mapped (seg_mmap s)" "unat (writePos s) = length (frames rs)"
    "length (frames rs) + length rest = maxBytes s" "view os1 (seg_mmap s) = frames rs @ rest"
    "all_fit rs" "numbered (baseOffset s) rs" "?off = baseOffset s + word_of_nat (length rs)"
    "fd_path os1 (mh_file (seg_mmap s)) = logPath s" "logPath s \<noteq> indexPath s"
    "index_ok (boundary rs) (length rs) idx os1" "index_open idx os1" "ix_path idx = indexPath s"
    using ok ok1 by (simp_all add: seg_ok_def)
  have len: "unat ?len = ?n" using fits by (intro unat_of_nat_small) simp
  have "unat (writePos s) + unat ?len < 2 ^ 32"
    using room facts(3) len seg_ok_count(4) [OF ok] by simp
  then have wp: "unat (writePos s + ?len) = length (frames rs) + ?n"
    using len facts(3) by (subst unat_add_no_wrap) simp_all
  define os' where "os' = write_view (seg_mmap s) (length (frames rs)) ?enc os1"
  define s' where "s' = s\<lparr>seg_index := idx, lastIndexByte := lib, writePos := writePos s + ?len, nextOffset := ?off + 1\<rparr>"
  have run: "Segment_Append ?off p s os = Some (Inr (writePos s), s', os')"
    unfolding Segment_Append_unfold [OF facts(1) enc] step
    using room facts(2-5) wp len
    by (simp add: Let_def word_le_nat_alt not_less os'_def s'_def del: of_nat_add)
  have view': "view os' (seg_mmap s) = frames (rs @ [(?off, p)]) @ drop ?n rest"
  proof -
    have "view os' (seg_mmap s) = blit (frames rs @ rest) (length (frames rs)) ?enc"
      unfolding os'_def facts(5) [symmetric] using room facts(4,5) by (intro view_write) simp
    also have "\<dots> = frames rs @ ?enc @ drop ?n rest"
      using room facts(4) by (subst blit_append) simp_all
    finally show ?thesis by (simp add: rec_bytes_def)
  qed
  have fd': "fd_path os' = fd_path os1" "fd_open os' = fd_open os1" by (simp_all add: os'_def)
  have open': "index_open idx os'" using facts(12) by (simp add: index_open_def fd')
  have "index_ok (boundary rs) (length rs) idx os'"
  proof -
    have "files os' q = files os1 q" if "q \<noteq> logPath s" for q
      unfolding os'_def using that facts(9) by simp
    then show ?thesis
      using facts(10-13) index_ok_same [of os1 os' idx] by (simp add: os'_def)
  qed
  then have "index_ok (boundary (rs @ [(?off, p)])) (length (rs @ [(?off, p)])) idx os'"
    by (rule index_ok_more) (simp_all add: boundary_append)
  moreover have "numbered (baseOffset s) (rs @ [(?off, p)])"
    using numbered_snoc [OF facts(7) num, of p] facts(8) by simp
  moreover have "seg_sized s' os'"
    using ok1 facts(4,5) room by (simp add: seg_ok_def seg_sized_def s'_def os'_def)
  ultimately have "seg_ok s' os' (rs @ [(?off, p)]) (drop ?n rest)"
    using ok ok1 facts view' fd' open' wp fits room
    by (simp add: seg_ok_def s'_def rec_fits_def rec_len_def)
  moreover have "others_same s os os'"
    using same1 facts(9) by (simp add: others_same_def os'_def)
  ultimately show thesis
    using run by (intro that [of s' os']) (simp_all add: s'_def seg_same_def)
qed

lemma segment_append_run:
  assumes "seg_ok s os rs rest" and "payload_fits p" and "length (frames rs) + (17 + length p) \<le> maxBytes s"
    and "unat (baseOffset s) + length rs + 1 < 2 ^ 64"
  shows "\<exists>s' os'. Segment_Append (nextOffset s) p s os = Some (Inr (writePos s), s', os')"
  using Segment_Append_ok [OF assms] by metis

lemma Segment_Append_full:
  assumes "seg_ok s os rs rest" and "payload_fits p" and "maxBytes s < length (frames rs) + (17 + length p)"
  shows "Segment_Append off p s os = Some (Inl ErrSegmentFull, s, os)"
proof -
  let ?len = "word_of_nat (17 + length p) :: u32"
  have "unat ?len = 17 + length p" using assms(2) by (intro unat_of_nat_small) simp
  moreover have "unat (writePos s) = length (frames rs)" "\<not> seg_isClosed s"
    using assms(1) by (simp_all add: seg_ok_def)
  ultimately have "unat (writePos s + ?len) = length (frames rs) + (17 + length p)"
    using assms(2) seg_ok_count(3,4) [OF assms(1)] by (subst unat_add_no_wrap) simp_all
  then show ?thesis
    using assms(3) \<open>\<not> seg_isClosed s\<close> by (simp add: Segment_Append_unfold EncodeFrame_fits [OF assms(2)] Let_def del: of_nat_add)
qed

section \<open>Opening and closing\<close>

lemma next_after_numbered: "numbered base rs \<Longrightarrow> next_after base rs = base + word_of_nat (length rs)"
  by (cases rs rule: rev_cases) (auto simp: next_after_def numbered_def nth_append)

lemma log_index_path: "log_path d b \<noteq> index_path d b'"
  by (simp add: log_path_def index_path_def append_eq_append_conv_if)

text \<open>The state of the files and the handles when a segment has been opened.\<close>

lemma NewSegment_opens:
  assumes sys: "no_faults sys" and interval: "0 < interval"
  obtains mh m os' where "NewSegment sys dir base maxB interval os = do {
      seg \<leftarrow> recover_segment
        \<lparr>baseOffset = base, nextOffset = base, logFile = length (fds os), seg_mmap = mh,
         seg_index = \<lparr>ix_file = Some (Suc (length (fds os))), ix_mmap = Some m,
           entryCount = length (file_bytes os (index_path dir base)) div IndexEntrySize,
           maxEntries = index_capacity maxB interval, ix_path = index_path dir base\<rparr>,
         writePos = 0, maxBytes = maxB, lastIndexByte = 0, indexInterval = interval,
         seg_isClosed = False, logPath = log_path dir base, indexPath = index_path dir base\<rparr> os';
      Some (Inr seg, os') }"
    and "mh = \<lparr>mh_file = length (fds os), mh_size = maxB, mapped = True, isOpen = True\<rparr>"
    and "m = \<lparr>mh_file = Suc (length (fds os)), mh_size = index_capacity maxB interval * IndexEntrySize,
        mapped = True, isOpen = True\<rparr>"
    and "fds os' = fds os @ [(log_path dir base, True), (index_path dir base, True)]"
    and "dirents os' = add_entry (index_path dir base) (add_entry (log_path dir base) (dirents os))"
    and "files os' = (files os)(log_path dir base \<mapsto> padded maxB (file_bytes os (log_path dir base)),
        index_path dir base \<mapsto> padded (index_capacity maxB interval * IndexEntrySize)
          (file_bytes os (index_path dir base)))"
proof -
  let ?lp = "log_path dir base" and ?ip = "index_path dir base" and ?fd = "length (fds os)"
  have ne: "?ip \<noteq> ?lp" using log_index_path [of dir base base] by metis
  let ?os0 = "os\<lparr>calls := Suc (calls os)\<rparr>"
  obtain osa where osa: "OpenFile sys ?lp ?os0 = (Inr ?fd, osa)" "fds osa = fds os @ [(?lp, True)]"
      "files osa = (files os)(?lp \<mapsto> file_bytes os ?lp)" "dirents osa = add_entry ?lp (dirents os)"
    by (rule OpenFile_ok [OF sys, of ?lp ?os0]) simp
  have fd: "fd_open osa ?fd" "fd_path osa ?fd = ?lp" and bytes: "file_bytes osa ?lp = file_bytes os ?lp"
    by (simp_all add: fd_open_def fd_path_def file_bytes_def osa(2,3))
  obtain osb where osb: "Stat_Size sys ?fd osa = (Inr (length (file_bytes os ?lp)), osb)" "fds osb = fds osa" "files osb = files osa" "dirents osb = dirents osa"
    by (rule Stat_Size_ok [OF sys fd(1)]) (simp add: fd(2) bytes)
  have fdb: "fd_open osb ?fd" "fd_path osb ?fd = ?lp" "files osb ?lp \<noteq> None" "file_bytes osb ?lp = file_bytes os ?lp"
    using fd bytes by (simp_all add: fd_open_def fd_path_def file_bytes_def osb(2,3) osa(3))
  obtain osc where osc: "(if length (file_bytes os ?lp) < maxB then Truncate sys ?fd maxB osb else (None, osb)) = (None, osc)"
      "fds osc = fds osb" "files osc = (files osb)(?lp \<mapsto> padded maxB (file_bytes os ?lp))" "dirents osc = dirents osb"
    using preallocate_ok [OF sys fdb(1-3), of maxB] unfolding fdb(4) by blast
  obtain os1 where os1m: "mapFileWin32 sys ?fd maxB False osc =
      (Inr \<lparr>mh_file = ?fd, mh_size = maxB, mapped = True, isOpen = True\<rparr>, os1)"
      "fds os1 = fds osc" "files os1 = files osc" "dirents os1 = dirents osc"
    by (rule mapFileWin32_ok [OF sys])
  have os1: "fds os1 = fds os @ [(?lp, True)]" "files os1 = (files os)(?lp \<mapsto> padded maxB (file_bytes os ?lp))"
    "dirents os1 = add_entry ?lp (dirents os)"
    using osa(2-4) osb(2-4) osc(2-4) os1m(2-4) by simp_all
  have interval': "interval \<noteq> 0" using interval by auto
  have same: "file_bytes os1 ?ip = file_bytes os ?ip"
    using os1(2) ne by (simp add: file_bytes_def)
  obtain m os2 where os2: "OpenSparseIndex sys ?ip (index_capacity maxB interval) os1 =
      (Inr \<lparr>ix_file = Some (length (fds os1)), ix_mmap = Some m,
        entryCount = length (file_bytes os1 ?ip) div IndexEntrySize,
        maxEntries = index_capacity maxB interval, ix_path = ?ip\<rparr>, os2)"
    "m = \<lparr>mh_file = length (fds os1), mh_size = index_capacity maxB interval * IndexEntrySize, mapped = True, isOpen = True\<rparr>"
    "fds os2 = fds os1 @ [(?ip, True)]" "dirents os2 = add_entry ?ip (dirents os1)"
    "files os2 = (files os1)(?ip \<mapsto> padded (index_capacity maxB interval * IndexEntrySize) (file_bytes os1 ?ip))"
    by (rule OpenSparseIndex_ok [OF sys, of ?ip "index_capacity maxB interval" os1])
  show thesis
    by (rule that [of "\<lparr>mh_file = ?fd, mh_size = maxB, mapped = True, isOpen = True\<rparr>" m os2])
      (use sys interval' osa(1) osb(1) osc(1) os1m(1) os1 os2 same in
        \<open>simp_all add: NewSegment_def Let_def index_capacity_def\<close>)
qed

text \<open>What the two files of a segment hold on disk, open or not.\<close>

definition stored :: "OS \<Rightarrow> string \<Rightarrow> u64 \<Rightarrow> nat \<Rightarrow> u32 \<Rightarrow> logrec list \<Rightarrow> byte list \<Rightarrow> bool" where
  "stored os dir base maxB interval rs rest \<longleftrightarrow>
     length (file_bytes os (log_path dir base)) \<le> maxB \<and>
     padded maxB (file_bytes os (log_path dir base)) = frames rs @ rest \<and> all_fit rs \<and> dead_end rest \<and>
     numbered base rs \<and>
     length (file_bytes os (index_path dir base)) \<le> index_capacity maxB interval * IndexEntrySize \<and>
     (\<forall>k < index_capacity maxB interval. entry_true (boundary rs) (length rs)
        (padded (index_capacity maxB interval * IndexEntrySize) (file_bytes os (index_path dir base))) k)"

lemma length_padded: "length bs \<le> n \<Longrightarrow> length (padded n bs) = n"
  by (simp add: padded_def)

definition seg_named :: "Segment \<Rightarrow> string \<Rightarrow> u64 \<Rightarrow> nat \<Rightarrow> u32 \<Rightarrow> bool" where
  "seg_named s dir base maxB interval \<longleftrightarrow> baseOffset s = base \<and> maxBytes s = maxB \<and>
     indexInterval s = interval \<and> logPath s = log_path dir base \<and> indexPath s = index_path dir base"

lemma NewSegment_ok:
  assumes sys: "no_faults sys" and interval: "0 < interval" and maxB: "size_ok maxB"
    and st: "stored os dir base maxB interval rs rest"
  obtains s os' where "NewSegment sys dir base maxB interval os = Some (Inr s, os')"
    and "seg_ok s os' rs rest" and "seg_named s dir base maxB interval" and "fds_extend os os'"
    and "\<forall>q. q \<noteq> log_path dir base \<longrightarrow> q \<noteq> index_path dir base \<longrightarrow> files os' q = files os q"
    and "files os' (log_path dir base) = Some (frames rs @ rest)"
    and "dirents os' = add_entry (index_path dir base) (add_entry (log_path dir base) (dirents os))"
proof -
  let ?lp = "log_path dir base" and ?ip = "index_path dir base" and ?fd = "length (fds os)"
    and ?cap = "index_capacity maxB interval"
  let ?mh = "\<lparr>mh_file = ?fd, mh_size = maxB, mapped = True, isOpen = True\<rparr>"
    and ?m = "\<lparr>mh_file = Suc ?fd, mh_size = ?cap * IndexEntrySize, mapped = True, isOpen = True\<rparr>"
  let ?idx = "\<lparr>ix_file = Some (Suc ?fd), ix_mmap = Some ?m, entryCount = length (file_bytes os ?ip) div IndexEntrySize,
      maxEntries = ?cap, ix_path = ?ip\<rparr>"
  let ?s = "\<lparr>baseOffset = base, nextOffset = base, logFile = ?fd, seg_mmap = ?mh, seg_index = ?idx,
      writePos = 0, maxBytes = maxB, lastIndexByte = 0, indexInterval = interval, seg_isClosed = False,
      logPath = ?lp, indexPath = ?ip\<rparr>"
  obtain os' where open': "NewSegment sys dir base maxB interval os = do { seg \<leftarrow> recover_segment ?s os'; Some (Inr seg, os') }"
    and os': "fds os' = fds os @ [(?lp, True), (?ip, True)]"
      "files os' = (files os)(?lp \<mapsto> padded maxB (file_bytes os ?lp), ?ip \<mapsto> padded (?cap * IndexEntrySize) (file_bytes os ?ip))"
      "dirents os' = add_entry ?ip (add_entry ?lp (dirents os))"
    by (rule NewSegment_opens [OF sys interval, of dir base maxB os]) simp
  have ne: "?lp \<noteq> ?ip" by (rule log_index_path)
  have fd: "fd_path os' ?fd = ?lp" "fd_path os' (Suc ?fd) = ?ip" "fd_open os' ?fd" "fd_open os' (Suc ?fd)"
    by (simp_all add: fd_path_def fd_open_def os'(1) nth_append)
  have log: "padded maxB (file_bytes os ?lp) = frames rs @ rest" "length (frames rs) + length rest = maxB"
    using st length_padded [of "file_bytes os ?lp" maxB] by (simp_all add: stored_def)
  have view: "view os' ?mh = frames rs @ rest"
    using log ne by (simp add: view_def fd file_bytes_def os'(2))
  have "length (file_bytes os ?ip) \<le> ?cap * IndexEntrySize" using st by (simp add: stored_def)
  then have iview: "view os' ?m = padded (?cap * IndexEntrySize) (file_bytes os ?ip)"
    and ilen: "length (view os' ?m) = ?cap * IndexEntrySize"
    by (simp_all add: view_def fd file_bytes_def os'(2) length_padded)
  have iok: "index_ok (boundary rs) (length rs) ?idx os'"
    using st ilen iview
    by (auto simp: index_ok_def mapped_view_def stored_def IndexEntrySize_def intro: order_trans [OF div_le_mono])
  obtain p where p: "recover_loop (frames rs @ rest) maxB 0 base = Some (p, next_after base rs)"
    "unat p = length (frames rs)"
    using recover_loop_frames [of "frames rs @ rest" maxB 0 rs rest base] st maxB log(2) by (auto simp: stored_def)
  define s where "s = ?s\<lparr>writePos := p, nextOffset := next_after base rs\<rparr>"
  have "recover_segment ?s os' = Some s"
    using view p by (simp add: recover_segment_def s_def)
  then have run: "NewSegment sys dir base maxB interval os = Some (Inr s, os')" using open' by simp
  have "index_open ?idx os'" using fd by (simp add: index_open_def)
  moreover have "seg_sized s os'"
    using st ne log by (simp add: seg_sized_def s_def stored_def file_bytes_def os'(2) length_padded)
  ultimately have "seg_ok s os' rs rest"
    using st maxB view log(2) iok fd ne p next_after_numbered [of base rs]
    by (simp add: seg_ok_def s_def stored_def)
  then show thesis
    using run os' ne log by (intro that [of s os']) (simp_all add: s_def seg_named_def fds_extend_def)
qed

lemma Segment_Close_files:
  assumes "index_linked (seg_index s)"
  shows "files (snd (snd (Segment_Close sys s os))) = files os"
    and "dirents (snd (snd (Segment_Close sys s os))) = dirents os"
proof -
  obtain e idx os1 where idx: "Index_Close sys (seg_index s) os = (e, idx, os1)" by (metis surj_pair)
  obtain e2 m os2 where m: "mmap_Close sys (seg_mmap s) os1 = (e2, m, os2)" by (metis surj_pair)
  have "files os2 = files os" "dirents os2 = dirents os"
    using Index_Close_files [OF assms, of sys os] mmap_Close_files [of sys "seg_mmap s" os1] idx m by simp_all
  with idx m show "files (snd (snd (Segment_Close sys s os))) = files os"
    "dirents (snd (snd (Segment_Close sys s os))) = dirents os"
    by (simp_all add: Segment_Close_def Let_def)
qed

text \<open>A segment in use has on disk what a later opening needs, when no frame follows its records.\<close>

lemma take_eq_padded: "take n xs = ys \<Longrightarrow> length ys = n \<Longrightarrow> length xs \<le> n \<Longrightarrow> padded n xs = ys"
  by (auto simp: padded_def)

lemma seg_ok_file:
  assumes "seg_ok s os rs rest"
  shows "file_bytes os (logPath s) = frames rs @ rest"
proof -
  have "length (view os (seg_mmap s)) = maxBytes s" "view os (seg_mmap s) = frames rs @ rest"
    "fd_path os (mh_file (seg_mmap s)) = logPath s" "length (file_bytes os (logPath s)) \<le> maxBytes s"
    using assms by (simp_all add: seg_ok_def seg_sized_def)
  then show ?thesis by (auto simp: view_def)
qed

lemma seg_ok_stored:
  assumes ok: "seg_ok s os rs rest" and "dead_end rest" and "seg_named s dir base maxB interval"
    and "files os' (logPath s) = files os (logPath s)" and "files os' (indexPath s) = files os (indexPath s)"
  shows "stored os' dir base maxB interval rs rest"
proof -
  have paths: "logPath s = log_path dir base" "indexPath s = index_path dir base" "maxBytes s = maxB"
    "indexInterval s = interval" "baseOffset s = base"
    using assms(3) by (simp_all add: seg_named_def)
  have log: "file_bytes os' (log_path dir base) = frames rs @ rest"
    using seg_ok_file [OF ok] assms(4) paths by (simp add: file_bytes_def)
  obtain m where m: "mapped_view (seg_index s) = Some m" "length (view os m) = maxEntries (seg_index s) * IndexEntrySize"
    "\<forall>k < maxEntries (seg_index s). entry_true (boundary rs) (length rs) (view os m) k"
    using ok by (auto simp: seg_ok_def index_ok_def)
  have size: "maxEntries (seg_index s) = index_capacity maxB interval"
    "length (file_bytes os (index_path dir base)) \<le> index_capacity maxB interval * IndexEntrySize"
    using ok paths by (simp_all add: seg_ok_def seg_sized_def)
  have "fd_path os (mh_file m) = index_path dir base"
    using ok m(1) paths by (auto simp: seg_ok_def index_open_def mapped_view_def split: option.splits if_splits)
  then have "view os m = file_bytes os (index_path dir base)"
    using m(2) size by (auto simp: view_def)
  then have "padded (index_capacity maxB interval * IndexEntrySize) (file_bytes os (index_path dir base)) = view os m"
    using m(2) size by (simp add: padded_def)
  moreover have "file_bytes os' (index_path dir base) = file_bytes os (index_path dir base)"
    using assms(5) paths by (simp add: file_bytes_def)
  ultimately show ?thesis
    using ok paths log m(3) size assms(2) by (auto simp: stored_def seg_ok_def padded_def)
qed

lemma stored_unindexed:
  assumes "padded maxB (file_bytes os (log_path dir base)) = frames rs @ rest"
    and "length (file_bytes os (log_path dir base)) \<le> maxB" and "file_bytes os (index_path dir base) = []"
    and "all_fit rs" and "dead_end rest" and "numbered base rs"
  shows "stored os dir base maxB interval rs rest"
proof -
  have "get_u32 (slice (replicate n 0) i j) = 0" if "i + 4 \<le> j" "j \<le> n" for n i j
  proof -
    have "slice (replicate n (0::byte)) i j = replicate (j - i) 0" using that by (simp add: slice_def min_def)
    then show ?thesis using that by (simp add: get_u32_def)
  qed
  then have "entry_true (boundary rs) (length rs) (replicate (c * IndexEntrySize) 0) k" if "k < c" for c k
    using that by (auto simp: entry_true_def entry_pos_def entry_rel_def IndexEntrySize_def boundary_def intro!: exI [of _ 0])
  then show ?thesis
    using assms by (simp add: stored_def) (simp add: padded_def)
qed

lemma stored_fresh:
  assumes "file_bytes os (log_path dir base) = []" and "file_bytes os (index_path dir base) = []"
  shows "stored os dir base maxB interval [] (replicate maxB 0)"
  using assms unat_lt64 [of base]
  by (intro stored_unindexed) (simp_all add: padded_def numbered_def dead_end_zeros all_fit_def)

section \<open>Properties of a segment\<close>

text \<open>C11. Recovery is exact for any contents of the file, torn or corrupt: the bytes split in
  exactly one way into whole frames with valid checksums and a rest that starts with none, and
  the scan returns, within the mapped bytes and after finitely many steps, the end of those frames
  and the offset after the last of them.\<close>

theorem recovery_is_exact:
  assumes "length data = maxB" and "size_ok maxB"
  shows "\<exists>!rs. all_fit rs \<and> (\<exists>rest. data = frames rs @ rest \<and> dead_end rest \<and>
    (\<exists>p. recover_loop data maxB 0 base = Some (p, if rs = [] then base else fst (last rs) + 1) \<and>
       unat p = length (frames rs)))"
proof (rule frames_split [of data])
  fix rs rest assume split: "data = frames rs @ rest" "all_fit rs" "dead_end rest"
  show ?thesis
  proof (rule ex1I [of _ rs])
    show "all_fit rs \<and> (\<exists>rest. data = frames rs @ rest \<and> dead_end rest \<and>
      (\<exists>p. recover_loop data maxB 0 base = Some (p, if rs = [] then base else fst (last rs) + 1) \<and>
         unat p = length (frames rs)))"
      using recover_loop_frames [of data maxB 0 rs rest base] split assms by (auto simp: next_after_def)
  next
    fix rs' assume "all_fit rs' \<and> (\<exists>rest. data = frames rs' @ rest \<and> dead_end rest \<and>
      (\<exists>p. recover_loop data maxB 0 base = Some (p, if rs' = [] then base else fst (last rs') + 1) \<and>
         unat p = length (frames rs')))"
    then show "rs' = rs" using frames_unique(1) split by metis
  qed
qed

theorem recovery_is_exact_witness:
  "\<exists>!rs. all_fit rs \<and> (\<exists>rest. frames [(7, [1])] @ [0x4B, 0] = frames rs @ rest \<and> dead_end rest \<and>
    (\<exists>p. recover_loop (frames [(7, [1])] @ [0x4B, 0]) 20 0 7 = Some (p, if rs = [] then 7 else fst (last rs) + 1) \<and>
       unat p = length (frames rs)))"
  using recovery_is_exact [of "frames [(7, [1])] @ [0x4B, 0]" 20 7]
  by (simp add: rec_len_def size_ok_def max_frame_def)

text \<open>A record appended is read back, and so are all the older ones: an append of the next
  offset that fits succeeds, and afterwards reading any offset from the base up to the new one
  returns exactly the payload it was appended with, through the sparse index and the frames; any
  other offset is not found. An append that does not fit is refused and changes nothing.\<close>

theorem segment_append_read:
  assumes "seg_ok s os rs rest" and "length p \<le> unat MaxPayloadSize"
    and "unat (baseOffset s) + length rs + 1 < 2 ^ 64"
  shows "if maxBytes s < length (frames rs) + (17 + length p)
    then Segment_Append (nextOffset s) p s os = Some (Inl ErrSegmentFull, s, os)
    else \<exists>s' os'. Segment_Append (nextOffset s) p s os = Some (Inr (writePos s), s', os') \<and>
      (\<forall>i < length rs. Segment_ReadAt (baseOffset s + word_of_nat i) s' os' = Some (Inr (snd (rs ! i)))) \<and>
      Segment_ReadAt (nextOffset s) s' os' = Some (Inr p) \<and>
      (\<forall>off. off < baseOffset s \<or> off > nextOffset s \<longrightarrow>
         Segment_ReadAt off s' os' = Some (Inl ErrOffsetNotFound))"
proof (cases "maxBytes s < length (frames rs) + (17 + length p)")
  case True
  with Segment_Append_full [OF assms(1,2) True] show ?thesis by simp
next
  case False
  let ?rs = "rs @ [(nextOffset s, p)]"
  obtain s' os' where run: "Segment_Append (nextOffset s) p s os = Some (Inr (writePos s), s', os')"
    and ok': "seg_ok s' os' ?rs (drop (17 + length p) rest)" and same: "seg_same s s'"
    using Segment_Append_ok [OF assms(1,2) _ assms(3)] False by (metis not_less)
  have base: "baseOffset s' = baseOffset s" and nxt: "nextOffset s = baseOffset s + word_of_nat (length rs)"
    using same assms(1) by (simp_all add: seg_same_def seg_ok_def)
  have "unat (nextOffset s) = unat (baseOffset s) + length rs"
    unfolding nxt using assms(1) numbered_unat [of "baseOffset s" rs "length rs"] by (simp add: seg_ok_def)
  then have "Segment_ReadAt off s' os' = Some (Inl ErrOffsetNotFound)" if "off < baseOffset s \<or> off > nextOffset s" for off
    using Segment_ReadAt_outside [OF ok', of off] that base by (auto simp: word_less_nat_alt)
  moreover have "Segment_ReadAt (baseOffset s + word_of_nat i) s' os' = Some (Inr (snd (?rs ! i)))"
    if "i < length ?rs" for i
    using Segment_ReadAt_ok [OF ok' that] base by simp
  note this [of "length rs"] and this
  ultimately show ?thesis
    using run False nxt by (auto simp: nth_append)
qed

text \<open>A segment survives being closed and opened again: \<open>NewSegment\<close> on its directory and
  base finds the same records, at the same offsets, and every one of them is read back.\<close>

theorem segment_reopens:
  assumes "no_faults sys" and "0 < interval" and "seg_ok s os rs rest" and "dead_end rest"
    and "seg_named s dir base maxB interval" and "Segment_Close sys s os = (err, s1, os1)"
  shows "\<exists>s2 os2. NewSegment sys dir base maxB interval os1 = Some (Inr s2, os2) \<and>
    nextOffset s2 = nextOffset s \<and> writePos s2 = writePos s \<and>
    (\<forall>i < length rs. Segment_ReadAt (base + word_of_nat i) s2 os2 = Some (Inr (snd (rs ! i))))"
proof -
  have "files os1 = files os" using Segment_Close_files [of s sys os] assms(3,6) index_open_linked [of "seg_index s" os] by (simp add: seg_ok_def)
  then have "stored os1 dir base maxB interval rs rest"
    by (intro seg_ok_stored [OF assms(3-5)]) simp_all
  moreover have "size_ok maxB" using assms(3,5) by (simp add: seg_ok_def seg_named_def)
  ultimately obtain s2 os2 where run: "NewSegment sys dir base maxB interval os1 = Some (Inr s2, os2)"
    and ok2: "seg_ok s2 os2 rs rest" and named2: "seg_named s2 dir base maxB interval"
    using NewSegment_ok [OF assms(1,2)] by metis
  have "nextOffset s2 = nextOffset s"
    using assms(3,5) ok2 named2 by (simp add: seg_ok_def seg_named_def)
  moreover have "writePos s2 = writePos s"
  proof -
    have "unat (writePos s2) = unat (writePos s)" using assms(3) ok2 by (simp add: seg_ok_def)
    then show ?thesis by (simp add: word_unat_eq_iff)
  qed
  ultimately show ?thesis
    using run Segment_ReadAt_ok [OF ok2] named2 by (auto simp: seg_named_def)
qed


text \<open>A segment opened on an empty disk, for the witnesses.\<close>

lemma fresh_segment:
  assumes "size_ok maxB" and "0 < interval" and "no_faults sys" and "files os = Map.empty"
  obtains s os' where "NewSegment sys dir base maxB interval os = Some (Inr s, os')"
    and "seg_ok s os' [] (replicate maxB 0)" and "seg_named s dir base maxB interval"
proof (rule NewSegment_ok [OF assms(3,2,1), of os dir base "[]" "replicate maxB 0"])
  show "stored os dir base maxB interval [] (replicate maxB 0)"
    using assms(4) by (intro stored_fresh) (simp_all add: file_bytes_def)
qed (use that in blast)

lemma segment_append_read_witness:
  "\<exists>s os. NewSegment faultless ''d'' 7 64 16 empty_os = Some (Inr s, os) \<and>
     (\<exists>s' os'. Segment_Append 7 [1, 2, 3] s os = Some (Inr (writePos s), s', os') \<and>
       Segment_ReadAt 7 s' os' = Some (Inr [1, 2, 3]) \<and> Segment_ReadAt 8 s' os' = Some (Inl ErrOffsetNotFound))"
proof -
  have "size_ok 64" by (simp add: size_ok_def max_frame_def)
  then obtain s os where new: "NewSegment faultless ''d'' 7 64 16 empty_os = Some (Inr s, os)"
    and ok: "seg_ok s os [] (replicate 64 0)" and named: "seg_named s ''d'' 7 64 16"
    using fresh_segment [of 64 16 faultless empty_os "''d''" 7] no_faults_faultless by (auto simp: empty_os_def)
  have "baseOffset s = 7" "maxBytes s = 64" "nextOffset s = 7"
    using ok named by (simp_all add: seg_ok_def seg_named_def)
  then show ?thesis
    using segment_append_read [OF ok, of "[1, 2, 3]"] new by fastforce
qed

lemma segment_reopens_witness:
  "\<exists>s os s1 os1 err. NewSegment faultless ''d'' 7 64 16 empty_os = Some (Inr s, os) \<and>
     Segment_Close faultless s os = (err, s1, os1) \<and>
     (\<exists>s2 os2. NewSegment faultless ''d'' 7 64 16 os1 = Some (Inr s2, os2) \<and> nextOffset s2 = 7)"
proof -
  have "size_ok 64" by (simp add: size_ok_def max_frame_def)
  then obtain s os where new: "NewSegment faultless ''d'' 7 64 16 empty_os = Some (Inr s, os)"
    and ok: "seg_ok s os [] (replicate 64 0)" and named: "seg_named s ''d'' 7 64 16"
    using fresh_segment [of 64 16 faultless empty_os "''d''" 7] no_faults_faultless by (auto simp: empty_os_def)
  obtain err s1 os1 where close: "Segment_Close faultless s os = (err, s1, os1)" by (metis surj_pair)
  have "nextOffset s = 7" using ok named by (simp add: seg_ok_def seg_named_def)
  then show ?thesis
    using segment_reopens [OF no_faults_faultless _ ok _ named close] dead_end_zeros new close by auto
qed


text \<open>C33. Records that recovery gave up come back: when a record in the middle of a file was lost
  (a page that never reached the disk), recovery stops before it, although whole records follow;
  a record of the same length appended in its place makes the next recovery run on into the old
  ones, so that the log ends after records nobody appended since.\<close>

theorem lost_records_return:
  assumes "seg_ok s os rs (bad @ frames old @ after)" and "length bad = 17 + length p" and "payload_fits p"
    and "unat (baseOffset s) + length rs + 1 < 2 ^ 64" and "old \<noteq> []" and "all_fit old" and "dead_end after"
    and "Segment_Append (nextOffset s) p s os = Some (Inr pos, s', os')"
  shows "nextOffset s' = nextOffset s + 1 \<and> (\<exists>s''. recover_segment s' os' = Some s'' \<and> nextOffset s'' = fst (last old) + 1)"
proof -
  have room: "length (frames rs) + (17 + length p) \<le> maxBytes s"
    using assms(1,2) by (simp add: seg_ok_def)
  obtain s1 os1 where "Segment_Append (nextOffset s) p s os = Some (Inr (writePos s), s1, os1)"
    and ok1: "seg_ok s1 os1 (rs @ [(nextOffset s, p)]) (drop (17 + length p) (bad @ frames old @ after))"
    and same: "seg_same s s1" and next1: "nextOffset s1 = nextOffset s + 1"
    using Segment_Append_ok [OF assms(1,3) room assms(4)] by metis
  with assms(8) have eq: "s1 = s'" "os1 = os'" by simp_all
  have view: "view os' (seg_mmap s') = frames (rs @ [(nextOffset s, p)] @ old) @ after"
    using ok1 assms(2) unfolding eq by (simp add: seg_ok_def)
  obtain e where "recover_loop (view os' (seg_mmap s')) (maxBytes s') 0 (nextOffset s') =
      Some (e, next_after (nextOffset s') (rs @ [(nextOffset s, p)] @ old))"
    using recover_loop_frames [of "view os' (seg_mmap s')" "maxBytes s'" 0 "rs @ [(nextOffset s, p)] @ old" after "nextOffset s'"]
      ok1 view assms(2,6,7) eq by (auto simp: seg_ok_def)
  then show ?thesis
    using next1 ok1 assms(5) eq by (simp add: recover_segment_def seg_ok_def next_after_def)
qed


text \<open>Three records of 18 bytes; the second was lost.\<close>

definition torn_os :: OS where
  "torn_os = \<lparr>files = [log_path ''d'' 0 \<mapsto> frames [(0, [1])] @ replicate 18 0 @ frames [(2, [3])]],
     dirents = [(log_path ''d'' 0, False)], fds = [], calls = 0\<rparr>"

lemma lost_records_return_witness:
  "\<exists>s os. NewSegment faultless ''d'' 0 54 16 torn_os = Some (Inr s, os) \<and> nextOffset s = 1 \<and>
     (\<exists>s' os'. Segment_Append 1 [9] s os = Some (Inr (writePos s), s', os') \<and> nextOffset s' = 2 \<and>
       (\<exists>s''. recover_segment s' os' = Some s'' \<and> nextOffset s'' = 3))"
proof -
  let ?rest = "replicate 18 0 @ frames [(2, [3])] @ []"
  have disk: "file_bytes torn_os (log_path ''d'' 0) = frames [(0, [1])] @ ?rest"
    "file_bytes torn_os (index_path ''d'' 0) = []"
    using log_index_path [of "''d''" 0 0] by (auto simp: file_bytes_def torn_os_def)
  have dead: "dead_end ?rest"
    using dead_end_magic [OF zero_not_magic, of "replicate 17 0 @ frames [(2, [3])]"] by (simp add: eval_nat_numeral)
  have st: "stored torn_os ''d'' 0 54 16 [(0, [1])] ?rest"
    using dead disk by (intro stored_unindexed) (simp_all add: padded_def numbered_def rec_len_def rec_fits_def)
  have size: "size_ok 54" "0 < (16 :: u32)" by (simp_all add: size_ok_def max_frame_def)
  obtain s os where new: "NewSegment faultless ''d'' 0 54 16 torn_os = Some (Inr s, os)"
    and ok: "seg_ok s os [(0, [1])] ?rest" and named: "seg_named s ''d'' 0 54 16"
    by (rule NewSegment_ok [OF no_faults_faultless size(2,1) st])
  have s: "nextOffset s = 1" "baseOffset s = 0" "maxBytes s = 54"
    using ok named by (simp_all add: seg_ok_def seg_named_def)
  then obtain s' os' where app: "Segment_Append 1 [9] s os = Some (Inr (writePos s), s', os')"
    using segment_append_run [OF ok, of "[9]"] by (auto simp: rec_len_def)
  show ?thesis
    using lost_records_return [OF ok, of "[9]" "writePos s" s' os'] new s app by (simp add: rec_fits_def dead_end_zeros [of 0])
qed

end
