(* ===== verification/WAL.thy ===== *)
theory WAL
  imports Segment "HOL-Library.Multiset"
begin

text \<open>
  The write-ahead log of \<open>storage/wal_segment.go\<close>: a list of rolling segments in one directory.
  Segments are shared by pointer in the code, so the model keeps them in a heap \<open>segs\<close> and the
  log refers to them by their place. The theorems show that the log, over all its segments and
  files, is a list of payloads: appending adds one at the end, reading returns the one at the
  offset, and closing and opening again keeps them all.
\<close>

section \<open>The log\<close>

record WAL =
  wal_cfg :: StorageConfig
  segs :: "Segment list"
  activeSegment :: nat
  closedSegments :: "nat list"
  wal_nextOffset :: u64
  wal_isClosed :: bool

text \<open>\<open>strings.HasSuffix\<close> and \<open>strings.TrimSuffix\<close>.\<close>

definition HasSuffix :: "string \<Rightarrow> string \<Rightarrow> bool" where
  "HasSuffix s suf \<longleftrightarrow> length suf \<le> length s \<and> drop (length s - length suf) s = suf"

definition TrimSuffix :: "string \<Rightarrow> string \<Rightarrow> string" where
  "TrimSuffix s suf = (if HasSuffix s suf then take (length s - length suf) s else s)"

text \<open>The base offsets that the names of the files in the directory spell.\<close>

fun base_offsets :: "(string \<times> bool) list \<Rightarrow> u64 list" where
  "base_offsets [] = []"
| "base_offsets ((name, isDir) # entries) =
    (if \<not> isDir \<and> HasSuffix name ''.log''
     then case ParseUint (TrimSuffix name ''.log'') of
         Some base \<Rightarrow> base # base_offsets entries
       | None \<Rightarrow> base_offsets entries
     else base_offsets entries)"

text \<open>The loop that opens a segment for each base: the first error ends it.\<close>

fun open_segments :: "sys \<Rightarrow> StorageConfig \<Rightarrow> u64 list \<Rightarrow> OS \<Rightarrow> ((storage_error + Segment list) \<times> OS) option" where
  "open_segments sys cfg [] os = Some (Inr [], os)"
| "open_segments sys cfg (base # bases) os = do {
     (r, os) \<leftarrow> NewSegment sys (DataDir cfg) base (MaxSegmentBytes cfg) (IndexIntervalBytes cfg) os;
     case r of
       Inl e \<Rightarrow> Some (Inl e, os)
     | Inr seg \<Rightarrow> do {
         (r, os) \<leftarrow> open_segments sys cfg bases os;
         Some (case r of Inl e \<Rightarrow> Inl e | Inr l \<Rightarrow> Inr (seg # l), os)
       }
   }"

definition OpenWAL :: "sys \<Rightarrow> StorageConfig \<Rightarrow> OS \<Rightarrow> ((storage_error + WAL) \<times> OS) option" where
  "OpenWAL sys cfg os =
    (case do_call sys (SysMkdirAll (DataDir cfg)) os of
       (Some e, os) \<Rightarrow> Some (Inl (SegMkdir e), os)
     | (None, os) \<Rightarrow>
         (case ReadDir sys (DataDir cfg) os of
            (Inl e, os) \<Rightarrow> Some (Inl (SegReadDir e), os)
          | (Inr entries, os) \<Rightarrow>
              (let baseOffsets = sort (base_offsets entries) in
               if baseOffsets = [] then do {
                 (r, os) \<leftarrow> NewSegment sys (DataDir cfg) 0 (MaxSegmentBytes cfg) (IndexIntervalBytes cfg) os;
                 Some (case r of
                     Inl e \<Rightarrow> Inl e
                   | Inr seg \<Rightarrow> Inr \<lparr>wal_cfg = cfg, segs = [seg], activeSegment = 0, closedSegments = [],
                       wal_nextOffset = 0, wal_isClosed = False\<rparr>, os)
               }
               else do {
                 (r, os) \<leftarrow> open_segments sys cfg baseOffsets os;
                 Some (case r of
                     Inl e \<Rightarrow> Inl e
                   | Inr l \<Rightarrow> Inr \<lparr>wal_cfg = cfg, segs = l, activeSegment = length l - 1,
                       closedSegments = [0..<length l - 1], wal_nextOffset = nextOffset (last l),
                       wal_isClosed = False\<rparr>, os)
               })))"

definition rollActiveSegment :: "sys \<Rightarrow> WAL \<Rightarrow> OS \<Rightarrow> (storage_error option \<times> WAL \<times> OS) option" where
  "rollActiveSegment sys w os = do {
     (_, os) \<leftarrow> Segment_Flush sys (segs w ! activeSegment w) os;
     let w = w\<lparr>closedSegments := closedSegments w @ [activeSegment w]\<rparr>;
     let newBase = wal_nextOffset w;
     (r, os) \<leftarrow> NewSegment sys (DataDir (wal_cfg w)) newBase (MaxSegmentBytes (wal_cfg w))
       (IndexIntervalBytes (wal_cfg w)) os;
     Some (case r of
         Inl e \<Rightarrow> (Some e, w, os)
       | Inr newSeg \<Rightarrow> (None, w\<lparr>segs := segs w @ [newSeg], activeSegment := length (segs w)\<rparr>, os))
   }"

definition WAL_Append :: "sys \<Rightarrow> byte list \<Rightarrow> WAL \<Rightarrow> OS \<Rightarrow> ((storage_error + u64) \<times> WAL \<times> OS) option" where
  "WAL_Append sys payload w os =
    (if wal_isClosed w then Some (Inl ErrWALClosed, w, os)
     else do {
       let offset = wal_nextOffset w;
       let frameLen = (word_of_nat (HeaderSize + length payload) :: u32);
       (err, w, os) \<leftarrow>
         (if unat (writePos (segs w ! activeSegment w) + frameLen) > MaxSegmentBytes (wal_cfg w)
          then rollActiveSegment sys w os else Some (None, w, os));
       case err of
         Some e \<Rightarrow> Some (Inl (RollFailed e), w, os)
       | None \<Rightarrow> do {
           (r, seg, os) \<leftarrow> Segment_Append offset payload (segs w ! activeSegment w) os;
           let w = w\<lparr>segs := (segs w)[activeSegment w := seg]\<rparr>;
           case r of
             Inl e \<Rightarrow> Some (Inl e, w, os)
           | Inr _ \<Rightarrow> do {
               let w = w\<lparr>wal_nextOffset := offset + 1\<rparr>;
               (_, os) \<leftarrow> (if SyncOnWrite (wal_cfg w) then Segment_Flush sys (segs w ! activeSegment w) os
                           else Some (None, os));
               Some (Inr offset, w, os)
             }
         }
     })"

text \<open>The closed segments are searched from the newest.\<close>

fun read_closed :: "u64 \<Rightarrow> Segment list \<Rightarrow> nat list \<Rightarrow> OS \<Rightarrow> (storage_error + byte list) option" where
  "read_closed offset heap [] os = Some (Inl ErrOffsetNotFound)"
| "read_closed offset heap (i # ids) os =
    (if offset \<ge> baseOffset (heap ! i) then Segment_ReadAt offset (heap ! i) os
     else read_closed offset heap ids os)"

definition WAL_ReadAt :: "u64 \<Rightarrow> WAL \<Rightarrow> OS \<Rightarrow> (storage_error + byte list) option" where
  "WAL_ReadAt offset w os =
    (if wal_isClosed w then Some (Inl ErrWALClosed)
     else if offset \<ge> baseOffset (segs w ! activeSegment w)
     then Segment_ReadAt offset (segs w ! activeSegment w) os
     else read_closed offset (segs w) (rev (closedSegments w)) os)"

definition LatestOffset :: "WAL \<Rightarrow> u64" where
  "LatestOffset w = wal_nextOffset w"

definition WAL_Sync :: "sys \<Rightarrow> WAL \<Rightarrow> OS \<Rightarrow> (mmap_error option \<times> OS) option" where
  "WAL_Sync sys w os =
    (if wal_isClosed w then Some (None, os) else Segment_Flush sys (segs w ! activeSegment w) os)"

fun close_segments :: "sys \<Rightarrow> nat list \<Rightarrow> mmap_error option \<Rightarrow> Segment list \<Rightarrow> OS \<Rightarrow>
    mmap_error option \<times> Segment list \<times> OS" where
  "close_segments sys [] firstErr heap os = (firstErr, heap, os)"
| "close_segments sys (i # ids) firstErr heap os =
    (case Segment_Close sys (heap ! i) os of
       (err, seg, os) \<Rightarrow> close_segments sys ids (first_error firstErr err) (heap[i := seg]) os)"

definition WAL_Close :: "sys \<Rightarrow> WAL \<Rightarrow> OS \<Rightarrow> mmap_error option \<times> WAL \<times> OS" where
  "WAL_Close sys w os =
    (if wal_isClosed w then (None, w, os)
     else
       (case close_segments sys (activeSegment w # closedSegments w) None (segs w) os of
          (firstErr, heap, os) \<Rightarrow> (firstErr, w\<lparr>wal_isClosed := True, segs := heap\<rparr>, os)))"

section \<open>The directory of the log\<close>

definition log_bases :: "OS \<Rightarrow> string \<Rightarrow> u64 list" where
  "log_bases os dir = base_offsets (map (\<lambda>(p, d). (snd p, d)) (filter (\<lambda>(p, d). fst p = dir) (dirents os)))"

text \<open>The directory holds the files of these segments, and none of any other.\<close>

definition wal_dir :: "OS \<Rightarrow> string \<Rightarrow> u64 list \<Rightarrow> bool" where
  "wal_dir os dir bases \<longleftrightarrow> mset (log_bases os dir) = mset bases \<and>
     (\<forall>b \<in> set bases. (log_path dir b, False) \<in> set (dirents os)) \<and>
     (\<forall>b. b \<notin> set bases \<longrightarrow> files os (log_path dir b) = None \<and> files os (index_path dir b) = None \<and>
        log_path dir b \<notin> fst ` set (dirents os))"

lemma base_offsets_append [simp]: "base_offsets (xs @ ys) = base_offsets xs @ base_offsets ys"
  by (induction xs rule: base_offsets.induct) (simp_all split: option.split)

lemma mset_base_offsets: "mset xs = mset ys \<Longrightarrow> mset (base_offsets xs) = mset (base_offsets ys)"
proof (induction xs arbitrary: ys)
  case (Cons x xs)
  then have "x \<in> set ys" by (metis list.set_intros(1) set_mset_mset)
  then obtain us vs where ys: "ys = us @ x # vs" by (metis split_list)
  with Cons.prems have "mset (base_offsets xs) = mset (base_offsets (us @ vs))" by (intro Cons.IH) simp
  then show ?case
    using base_offsets_append [of "[x]" xs] base_offsets_append [of "[x]" vs] by (simp add: ys del: base_offsets.simps)
qed simp

lemma HasSuffix_append [simp]: "HasSuffix (s @ suf) suf"
  by (simp add: HasSuffix_def)

lemma TrimSuffix_append [simp]: "TrimSuffix (s @ suf) suf = s"
  by (simp add: TrimSuffix_def)

lemma HasSuffix_index [simp]: "\<not> HasSuffix (s @ ''.index'') ''.log''"
proof -
  have "drop (length (s @ ''.index'') - length ''.log'') (s @ ''.index'') = ''ndex''" by simp
  then show ?thesis by (simp add: HasSuffix_def)
qed

lemma base_offsets_log [simp]: "base_offsets [(Sprintf_020d b @ ''.log'', False)] = [b]"
  by simp

lemma base_offsets_index [simp]: "base_offsets [(Sprintf_020d b @ ''.index'', d)] = []"
  by simp

lemma add_entry_in [simp]: "(p, d) \<in> set ds \<Longrightarrow> add_entry p ds = ds"
  by (force simp: add_entry_def)

lemma set_add_entry: "set ds \<subseteq> set (add_entry p ds)"
  by (auto simp: add_entry_def)

lemma log_bases_index: "log_bases (os\<lparr>dirents := add_entry (index_path dir b) ds\<rparr>) dir' = log_bases (os\<lparr>dirents := ds\<rparr>) dir'"
  by (simp add: log_bases_def add_entry_def index_path_def)

lemma log_bases_dirents: "dirents os' = ds \<Longrightarrow> log_bases os' dir = log_bases (os\<lparr>dirents := ds\<rparr>) dir"
  by (simp add: log_bases_def)

lemma ReadDir_ok:
  assumes "no_faults sys"
  obtains entries where "ReadDir sys dir os = (Inr entries, os\<lparr>calls := Suc (calls os)\<rparr>)"
    and "mset (base_offsets entries) = mset (log_bases os dir)"
proof -
  let ?es = "map (\<lambda>(p, d). (snd p, d)) (filter (\<lambda>(p, d). fst p = dir) (dirents os))"
  have "mset (base_offsets (sort_key fst ?es)) = mset (log_bases os dir)"
    unfolding log_bases_def by (rule mset_base_offsets) simp
  then show thesis using assms by (intro that [of "sort_key fst ?es"]) (simp_all add: ReadDir_def)
qed

lemma paths_inj [simp]:
  "log_path dir b = log_path dir b' \<longleftrightarrow> b = b'" "index_path dir b = index_path dir b' \<longleftrightarrow> b = b'"
  "log_path dir b \<noteq> index_path dir b'" "index_path dir b' \<noteq> log_path dir b"
  by (simp_all add: log_index_path log_index_path [symmetric]) (simp_all add: log_path_def index_path_def)

text \<open>A new segment in the directory.\<close>

lemma wal_dir_new:
  assumes "wal_dir os dir bases" and "b \<notin> set bases"
    and "dirents os' = add_entry (index_path dir b) (add_entry (log_path dir b) (dirents os))"
    and other: "\<forall>q. q \<noteq> log_path dir b \<longrightarrow> q \<noteq> index_path dir b \<longrightarrow> files os' q = files os q"
  shows "wal_dir os' dir (bases @ [b])"
proof -
  have new: "add_entry (log_path dir b) (dirents os) = dirents os @ [(log_path dir b, False)]"
    using assms(1,2) by (auto simp: wal_dir_def add_entry_def)
  have "log_bases os' dir = log_bases (os\<lparr>dirents := dirents os @ [(log_path dir b, False)]\<rparr>) dir"
    unfolding log_bases_dirents [OF assms(3), of dir os] log_bases_index new ..
  also have "\<dots> = log_bases os dir @ [b]" by (simp add: log_bases_def log_path_def)
  finally have "mset (log_bases os' dir) = mset (bases @ [b])" using assms(1) by (simp add: wal_dir_def)
  moreover have "(log_path dir b', False) \<in> set (dirents os')" if "b' \<in> set (bases @ [b])" for b'
    using that assms(1) set_add_entry [of "dirents os @ [(log_path dir b, False)]" "index_path dir b"]
    unfolding assms(3) new by (auto simp: wal_dir_def)
  moreover have "log_path dir b' \<notin> fst ` set (dirents os')" if "b' \<notin> set (bases @ [b])" for b'
    using that assms(1) unfolding assms(3) new by (auto simp: wal_dir_def add_entry_def)
  moreover have "files os' (log_path dir b') = files os (log_path dir b')"
      "files os' (index_path dir b') = files os (index_path dir b')" if "b' \<notin> set (bases @ [b])" for b'
    using that by (simp_all add: other [rule_format])
  ultimately show ?thesis
    using assms(1) unfolding wal_dir_def by simp
qed

lemma wal_dir_known:
  assumes "wal_dir os dir bases" and "b \<in> set bases"
    and "dirents os' = add_entry (index_path dir b) (add_entry (log_path dir b) (dirents os))"
    and other: "\<forall>q. q \<noteq> log_path dir b \<longrightarrow> q \<noteq> index_path dir b \<longrightarrow> files os' q = files os q"
  shows "wal_dir os' dir bases"
proof -
  have known: "add_entry (log_path dir b) (dirents os) = dirents os"
    using assms(1,2) by (intro add_entry_in [where d = False]) (simp add: wal_dir_def)
  then have "log_bases os' dir = log_bases os dir"
    unfolding log_bases_dirents [OF assms(3), of dir os] log_bases_index known by (simp add: log_bases_def)
  moreover have "log_path dir b' \<notin> fst ` set (dirents os')" if "b' \<notin> set bases" for b'
    using that assms(1) unfolding assms(3) known by (auto simp: wal_dir_def add_entry_def)
  moreover have "files os' (log_path dir b') = files os (log_path dir b')"
      "files os' (index_path dir b') = files os (index_path dir b')" if "b' \<notin> set bases" for b'
    using that assms(2) by (auto intro!: other [rule_format])
  moreover have "(log_path dir b', False) \<in> set (dirents os')" if "b' \<in> set bases" for b'
    using that assms(1) set_add_entry [of "dirents os" "index_path dir b"]
    unfolding assms(3) known by (auto simp: wal_dir_def)
  ultimately show ?thesis
    using assms(1) unfolding wal_dir_def by simp
qed

lemma wal_dir_fresh:
  "wal_dir os dir bases \<Longrightarrow> b \<notin> set bases \<Longrightarrow> stored os dir b maxB interval [] (replicate maxB 0)"
  by (rule stored_fresh) (simp_all add: wal_dir_def file_bytes_def)

lemma wal_dir_same:
  assumes "wal_dir os dir bases" and "dirents os' = dirents os"
    and "\<And>b. b \<notin> set bases \<Longrightarrow> files os' (log_path dir b) = files os (log_path dir b) \<and>
      files os' (index_path dir b) = files os (index_path dir b)"
  shows "wal_dir os' dir bases"
  using assms by (simp add: wal_dir_def log_bases_def)


section \<open>The log over its segments\<close>

text \<open>
  \<open>cl\<close> holds the records of the closed segments, oldest first, and \<open>ac\<close> those of the active one.
  A segment starts at the offset that counts the records before it; only the active one may be
  empty, so the bases differ. The bound of \<open>2^63\<close> records keeps the offsets from wrapping.
\<close>

definition start :: "logrec list list \<Rightarrow> nat \<Rightarrow> nat" where
  "start cl j = length (concat (take j cl))"

abbreviation base_at :: "logrec list list \<Rightarrow> nat \<Rightarrow> u64" where
  "base_at cl j \<equiv> word_of_nat (start cl j)"

definition zeros_after :: "nat \<Rightarrow> logrec list \<Rightarrow> byte list" where
  "zeros_after maxB rs = replicate (maxB - length (frames rs)) 0"

definition cfg_ok :: "StorageConfig \<Rightarrow> bool" where
  "cfg_ok cfg \<longleftrightarrow> size_ok (MaxSegmentBytes cfg) \<and> 0 < IndexIntervalBytes cfg"

definition holds :: "StorageConfig \<Rightarrow> OS \<Rightarrow> Segment \<Rightarrow> u64 \<Rightarrow> logrec list \<Rightarrow> bool" where
  "holds cfg os s base rs \<longleftrightarrow> seg_ok s os rs (zeros_after (MaxSegmentBytes cfg) rs) \<and>
     seg_named s (DataDir cfg) base (MaxSegmentBytes cfg) (IndexIntervalBytes cfg)"

definition chunks_ok :: "logrec list list \<Rightarrow> logrec list \<Rightarrow> bool" where
  "chunks_ok cl ac \<longleftrightarrow> [] \<notin> set cl \<and> length (concat cl) + length ac < 2 ^ 63"

definition wal_rel :: "WAL \<Rightarrow> OS \<Rightarrow> logrec list list \<Rightarrow> logrec list \<Rightarrow> bool" where
  "wal_rel w os cl ac \<longleftrightarrow> \<not> wal_isClosed w \<and> cfg_ok (wal_cfg w) \<and> chunks_ok cl ac \<and>
     length (closedSegments w) = length cl \<and> distinct (activeSegment w # closedSegments w) \<and>
     set (activeSegment w # closedSegments w) \<subseteq> {..< length (segs w)} \<and>
     (\<forall>j < length cl. holds (wal_cfg w) os (segs w ! (closedSegments w ! j)) (base_at cl j) (cl ! j)) \<and>
     holds (wal_cfg w) os (segs w ! activeSegment w) (base_at cl (length cl)) ac \<and>
     wal_nextOffset w = word_of_nat (length (concat cl) + length ac) \<and>
     wal_dir os (DataDir (wal_cfg w)) (map (base_at cl) [0..<Suc (length cl)])"

definition wal_ok :: "WAL \<Rightarrow> OS \<Rightarrow> byte list list \<Rightarrow> bool" where
  "wal_ok w os log \<longleftrightarrow> (\<exists>cl ac. wal_rel w os cl ac \<and> log = map snd (concat cl @ ac))"

lemma unat_of_nat63: "n < 2 ^ 63 \<Longrightarrow> unat (word_of_nat n :: u64) = n"
  by (rule unat_of_nat_small) simp

lemma start_length [simp]: "start cl (length cl) = length (concat cl)"
  by (simp add: start_def)

lemma start_snoc [simp]: "start (cl @ [rs]) (Suc (length cl)) = length (concat cl) + length rs"
  by (simp add: start_def)

lemma start_Suc: "j < length cl \<Longrightarrow> start cl (Suc j) = start cl j + length (cl ! j)"
  by (simp add: start_def take_Suc_conv_app_nth)

lemma start_le: "i \<le> j \<Longrightarrow> start cl i \<le> start cl j"
  by (auto simp: start_def le_iff_add take_add)

lemma start_append [simp]: "j \<le> length cl \<Longrightarrow> start (cl @ cl') j = start cl j"
  by (simp add: start_def)

lemma start_bound: "start cl j \<le> length (concat cl)"
  using start_le [of j "length cl" cl] by (cases "j \<le> length cl") (simp_all add: start_def)

lemma start_less: "[] \<notin> set cl \<Longrightarrow> i < j \<Longrightarrow> j \<le> length cl \<Longrightarrow> start cl i < start cl j"
proof -
  assume cl: "[] \<notin> set cl" and ij: "i < j" "j \<le> length cl"
  then have "cl ! i \<noteq> []" using nth_mem [of i cl] by (metis order_less_le_trans)
  then have "start cl i < start cl (Suc i)" using ij by (simp add: start_Suc)
  also have "\<dots> \<le> start cl j" using ij by (intro start_le) simp
  finally show ?thesis .
qed

lemma base_at_inj:
  assumes "chunks_ok cl ac" and "i \<le> length cl" and "j \<le> length cl" and "base_at cl i = base_at cl j"
  shows "i = j"
proof -
  have "start cl k < 2 ^ 63" for k using assms(1) start_bound [of cl k] by (simp add: chunks_ok_def)
  then have "start cl i = start cl j"
    using arg_cong [OF assms(4), of unat] by (simp only: unat_of_nat63)
  then show ?thesis
    using start_less [of cl i j] start_less [of cl j i] assms(1-3) unfolding chunks_ok_def by (metis linorder_neqE_nat less_irrefl)
qed

text \<open>A step that writes only the files of another segment leaves a segment as it is.\<close>

lemma holds_same:
  assumes "holds cfg os s base rs" and "fds_extend os os'"
    and "files os' (log_path (DataDir cfg) base) = files os (log_path (DataDir cfg) base)"
    and "files os' (index_path (DataDir cfg) base) = files os (index_path (DataDir cfg) base)"
  shows "holds cfg os' s base rs"
  using assms seg_ok_same [OF assms(2)] by (simp add: holds_def seg_named_def)

section \<open>Reading\<close>

lemma concat_at:
  assumes "j < length cl" and "start cl j \<le> n" and "n < start cl (Suc j)"
  shows "concat (cl @ cl') ! n = cl ! j ! (n - start cl j)" and "n - start cl j < length (cl ! j)"
proof -
  show less: "n - start cl j < length (cl ! j)" using assms by (simp add: start_Suc)
  have "cl @ cl' = take j cl @ cl ! j # drop (Suc j) cl @ cl'"
    using id_take_nth_drop [OF assms(1)] by (metis append.assoc append_Cons)
  then have "concat (cl @ cl') = concat (take j cl) @ cl ! j @ concat (drop (Suc j) cl @ cl')"
    by (metis concat.simps(2) concat_append)
  then show "concat (cl @ cl') ! n = cl ! j ! (n - start cl j)"
    using assms(2) less by (simp add: nth_append start_def)
qed

lemma holds_read:
  assumes "holds cfg os s (word_of_nat k) rs" and "k \<le> n" and "n - k < length rs" and "n < 2 ^ 63"
  shows "Segment_ReadAt (word_of_nat n) s os = Some (Inr (snd (rs ! (n - k))))"
proof -
  have "(word_of_nat n :: u64) = word_of_nat k + word_of_nat (n - k)"
    using assms(2) by (metis le_add_diff_inverse of_nat_add)
  then show ?thesis
    using assms(1) Segment_ReadAt_ok [OF _ assms(3), of s os] unfolding holds_def seg_named_def by metis
qed

lemma word_of_nat_le63: "m < 2 ^ 63 \<Longrightarrow> n < 2 ^ 63 \<Longrightarrow> (word_of_nat m :: u64) \<le> word_of_nat n \<longleftrightarrow> m \<le> n"
  by (simp add: word_le_nat_alt unat_of_nat63)

lemma read_closed_ok:
  assumes "length ids = length cl" and "length (concat cl) < 2 ^ 63"
    and "\<forall>j < length cl. holds cfg os (heap ! (ids ! j)) (base_at cl j) (cl ! j)"
    and "m \<le> length cl" and "n < start cl m"
  shows "read_closed (word_of_nat n) heap (rev (take m ids)) os = Some (Inr (snd (concat cl ! n)))"
  using assms(4,5)
proof (induction m)
  case (Suc m)
  let ?s = "heap ! (ids ! m)"
  have s: "holds cfg os ?s (base_at cl m) (cl ! m)" and m: "m < length cl" using assms(3) Suc.prems(1) by simp_all
  have n: "n < 2 ^ 63" "start cl m < 2 ^ 63"
    using Suc.prems(2) start_bound [of cl m] start_bound [of cl "Suc m"] assms(2) by linarith+
  have rev: "rev (take (Suc m) ids) = ids ! m # rev (take m ids)"
    using m assms(1) by (simp add: take_Suc_conv_app_nth)
  have base: "baseOffset ?s = base_at cl m" using s by (simp add: holds_def seg_named_def)
  show ?case
  proof (cases "start cl m \<le> n")
    case True
    then show ?thesis
      using concat_at(1) [OF m True Suc.prems(2), of "[]"] concat_at(2) [OF m True Suc.prems(2)]
        holds_read [OF s True _ n(1)] word_of_nat_le63 [OF n(2,1)]
      by (simp add: rev base)
  next
    case False
    then show ?thesis
      using Suc.IH m word_of_nat_le63 [OF n(2,1)] by (simp add: rev base)
  qed
qed (simp add: start_def)

lemma wal_rel_ReadAt:
  assumes rel: "wal_rel w os cl ac" and n: "n < length (concat cl) + length ac"
  shows "WAL_ReadAt (word_of_nat n) w os = Some (Inr (snd ((concat cl @ ac) ! n)))"
proof -
  have open': "\<not> wal_isClosed w" and n63: "n < 2 ^ 63" and cl63: "length (concat cl) < 2 ^ 63"
    and act: "holds (wal_cfg w) os (segs w ! activeSegment w) (word_of_nat (length (concat cl))) ac"
    using rel n by (simp_all add: wal_rel_def chunks_ok_def)
  have base: "baseOffset (segs w ! activeSegment w) = word_of_nat (length (concat cl))"
    using act by (simp add: holds_def seg_named_def)
  show ?thesis
  proof (cases "length (concat cl) \<le> n")
    case True
    then show ?thesis
      using holds_read [OF act True _ n63] word_of_nat_le63 [OF cl63 n63] n open'
      by (simp add: WAL_ReadAt_def base nth_append)
  next
    case False
    then have "read_closed (word_of_nat n) (segs w) (rev (take (length cl) (closedSegments w))) os =
        Some (Inr (snd (concat cl ! n)))"
      using rel cl63 by (intro read_closed_ok [where cfg = "wal_cfg w"]) (auto simp: wal_rel_def)
    moreover have "take (length cl) (closedSegments w) = closedSegments w" using rel by (simp add: wal_rel_def)
    ultimately show ?thesis
      using False word_of_nat_le63 [OF cl63 n63] open' by (simp add: WAL_ReadAt_def base nth_append)
  qed
qed

lemma wal_rel_ReadAt_outside:
  assumes rel: "wal_rel w os cl ac" and n: "length (concat cl) + length ac \<le> unat off"
  shows "WAL_ReadAt off w os = Some (Inl ErrOffsetNotFound)"
proof -
  have open': "\<not> wal_isClosed w" and cl63: "length (concat cl) < 2 ^ 63"
    and act: "holds (wal_cfg w) os (segs w ! activeSegment w) (word_of_nat (length (concat cl))) ac"
    using rel by (simp_all add: wal_rel_def chunks_ok_def)
  have base: "baseOffset (segs w ! activeSegment w) = word_of_nat (length (concat cl))"
    and ok: "seg_ok (segs w ! activeSegment w) os ac (zeros_after (MaxSegmentBytes (wal_cfg w)) ac)"
    using act by (simp_all add: holds_def seg_named_def)
  have "unat (baseOffset (segs w ! activeSegment w)) = length (concat cl)" by (simp only: base unat_of_nat63 [OF cl63])
  with n Segment_ReadAt_outside [OF ok, of off] open' show ?thesis
    by (simp add: WAL_ReadAt_def word_le_nat_alt)
qed

lemma wal_ok_ReadAt:
  assumes "wal_ok w os log"
  shows "WAL_ReadAt off w os = Some (if unat off < length log then Inr (log ! unat off) else Inl ErrOffsetNotFound)"
proof -
  obtain cl ac where rel: "wal_rel w os cl ac" and log: "log = map snd (concat cl @ ac)"
    using assms by (auto simp: wal_ok_def)
  show ?thesis
  proof (cases "unat off < length log")
    case True
    then show ?thesis
      using wal_rel_ReadAt [OF rel, of "unat off"] nth_map [of "unat off" "concat cl @ ac" snd] log by simp
  next
    case False
    then show ?thesis
      using wal_rel_ReadAt_outside [OF rel, of off] log by simp
  qed
qed


section \<open>Appending\<close>

lemma Segment_Flush_ok:
  assumes "index_linked (seg_index s)"
  obtains err os' where "Segment_Flush sys s os = Some (err, os')" and "files os' = files os"
    and "fds os' = fds os" and "dirents os' = dirents os"
proof (cases "seg_isClosed s")
  case False
  obtain m where m: "ix_mmap (seg_index s) = Some m" using assms by (auto simp: index_linked_def)
  obtain e1 os1 where f1: "mmap_Flush sys (seg_mmap s) os = (e1, os1)" by fastforce
  obtain e2 os2 where f2: "mmap_Flush sys m os1 = (e2, os2)" by fastforce
  show thesis
    using False m f1 f2 mmap_Flush_files [of sys "seg_mmap s" os] mmap_Flush_files [of sys m os1]
    by (intro that [of "first_error (first_error None e1) e2" os2]) (simp_all add: Segment_Flush_def)
qed (simp add: Segment_Flush_def that)

lemma holds_linked: "holds cfg os s base rs \<Longrightarrow> index_linked (seg_index s)"
  using index_open_linked [of "seg_index s" os] by (simp add: holds_def seg_ok_def)

lemma drop_zeros: "length (frames rs) + n \<le> maxB \<Longrightarrow> length (frames rs') = length (frames rs) + n \<Longrightarrow>
    drop n (zeros_after maxB rs) = zeros_after maxB rs'"
  by (simp add: zeros_after_def)

text \<open>The state between two operations: nothing but the open files and the counters may change.\<close>

definition os_same :: "OS \<Rightarrow> OS \<Rightarrow> bool" where
  "os_same os os' \<longleftrightarrow> files os' = files os \<and> fds os' = fds os \<and> dirents os' = dirents os"

lemma wal_rel_same: "wal_rel w os cl ac \<Longrightarrow> os_same os os' \<Longrightarrow> wal_rel w os' cl ac"
  unfolding wal_rel_def os_same_def
  using holds_same [of "wal_cfg w" os _ _ _ os'] wal_dir_same [of os "DataDir (wal_cfg w)" _ os'] by auto

text \<open>An append that fits in the active segment.\<close>

lemma append_active:
  assumes rel: "wal_rel w os cl ac" and fits: "payload_fits p"
    and room: "length (frames ac) + (17 + length p) \<le> MaxSegmentBytes (wal_cfg w)"
    and count: "length (concat cl) + length ac + 1 < 2 ^ 63"
  obtains seg' os' where "Segment_Append (wal_nextOffset w) p (segs w ! activeSegment w) os =
      Some (Inr (writePos (segs w ! activeSegment w)), seg', os')"
    and "wal_rel (w\<lparr>segs := (segs w)[activeSegment w := seg'], wal_nextOffset := wal_nextOffset w + 1\<rparr>) os'
      cl (ac @ [(wal_nextOffset w, p)])"
    and "index_linked (seg_index seg')"
proof -
  let ?cfg = "wal_cfg w" and ?a = "activeSegment w" and ?r = "(wal_nextOffset w, p)"
  let ?s = "segs w ! ?a" and ?b = "word_of_nat (length (concat cl)) :: u64"
  have ch: "chunks_ok cl ac" and act: "holds ?cfg os ?s ?b ac"
    and closed: "\<And>j. j < length cl \<Longrightarrow> holds ?cfg os (segs w ! (closedSegments w ! j)) (base_at cl j) (cl ! j)"
    and dir: "wal_dir os (DataDir ?cfg) (map (base_at cl) [0..<Suc (length cl)])"
    using rel by (simp_all add: wal_rel_def)
  have ok: "seg_ok ?s os ac (zeros_after (MaxSegmentBytes ?cfg) ac)" and named: "baseOffset ?s = ?b"
      "maxBytes ?s = MaxSegmentBytes ?cfg" "logPath ?s = log_path (DataDir ?cfg) ?b" "indexPath ?s = index_path (DataDir ?cfg) ?b"
    using act by (simp_all add: holds_def seg_named_def)
  have off: "wal_nextOffset w = nextOffset ?s"
    using ok rel named(1) by (simp add: seg_ok_def wal_rel_def)
  have "unat (baseOffset ?s) + length ac + 1 < 2 ^ 64"
    using count unat_of_nat63 [of "length (concat cl)"] by (simp add: named(1))
  with room named(2) obtain seg' os' where run: "Segment_Append (nextOffset ?s) p ?s os = Some (Inr (writePos ?s), seg', os')"
    and ok': "seg_ok seg' os' (ac @ [(nextOffset ?s, p)]) (drop (17 + length p) (zeros_after (MaxSegmentBytes ?cfg) ac))"
    and same: "seg_same ?s seg'" and others: "others_same ?s os os'"
    using Segment_Append_ok [OF ok fits] by metis
  have act': "holds ?cfg os' seg' ?b (ac @ [?r])"
    using ok' same act room drop_zeros [of ac "17 + length p" "MaxSegmentBytes ?cfg" "ac @ [?r]"]
    by (simp add: holds_def seg_named_def seg_same_def off rec_len_def)
  have ext: "fds_extend os os'" and keep: "\<And>q. q \<noteq> log_path (DataDir ?cfg) ?b \<Longrightarrow> q \<noteq> index_path (DataDir ?cfg) ?b \<Longrightarrow> files os' q = files os q"
    using others unfolding others_same_def named by (simp, blast)
  have "holds ?cfg os' (segs w ! (closedSegments w ! j)) (base_at cl j) (cl ! j)" if j: "j < length cl" for j
  proof -
    have "base_at cl j \<noteq> ?b" using base_at_inj [OF ch, of j "length cl"] j by auto
    then show ?thesis using holds_same [OF closed [OF j] ext] keep by simp
  qed
  moreover have "wal_dir os' (DataDir ?cfg) (map (base_at cl) [0..<Suc (length cl)])"
    using wal_dir_same [OF dir, of os'] others keep by (auto simp: others_same_def)
  moreover have "?a \<noteq> closedSegments w ! j" if "j < length cl" for j
  proof -
    have "closedSegments w ! j \<in> set (closedSegments w)" "?a \<notin> set (closedSegments w)"
      using rel that by (simp_all add: wal_rel_def)
    then show ?thesis by metis
  qed
  ultimately have "\<forall>j < length cl. holds ?cfg os' ((segs w)[?a := seg'] ! (closedSegments w ! j)) (base_at cl j) (cl ! j)"
    and "wal_dir os' (DataDir ?cfg) (map (base_at cl) [0..<Suc (length cl)])"
    by simp_all
  moreover have "chunks_ok cl (ac @ [?r])" using ch count by (simp add: chunks_ok_def)
  moreover have "wal_nextOffset w + 1 = word_of_nat (length (concat cl) + length (ac @ [?r]))"
    using rel by (simp add: wal_rel_def)
  ultimately have "wal_rel (w\<lparr>segs := (segs w)[?a := seg'], wal_nextOffset := wal_nextOffset w + 1\<rparr>) os' cl (ac @ [?r])"
    using rel act' unfolding wal_rel_def by simp
  with run holds_linked [OF act'] show thesis by (intro that) (simp_all add: off)
qed

text \<open>Rolling to a new segment when the active one is full.\<close>

lemma roll_new:
  assumes sys: "no_faults sys" and rel: "wal_rel w os cl ac" and "ac \<noteq> []" and same: "os_same os os1"
  obtains s os2 where "NewSegment sys (DataDir (wal_cfg w)) (wal_nextOffset w) (MaxSegmentBytes (wal_cfg w))
      (IndexIntervalBytes (wal_cfg w)) os1 = Some (Inr s, os2)"
    and "holds (wal_cfg w) os2 s (wal_nextOffset w) []"
    and "wal_dir os2 (DataDir (wal_cfg w)) (map (base_at (cl @ [ac])) [0..<Suc (Suc (length cl))])"
    and "\<forall>t j rs. j \<le> length cl \<longrightarrow> holds (wal_cfg w) os t (base_at cl j) rs \<longrightarrow> holds (wal_cfg w) os2 t (base_at cl j) rs"
proof -
  let ?cfg = "wal_cfg w" and ?cl = "cl @ [ac]" and ?b = "wal_nextOffset w"
  have cfg: "0 < IndexIntervalBytes ?cfg" "size_ok (MaxSegmentBytes ?cfg)" and ch: "chunks_ok ?cl []"
    and dir: "wal_dir os (DataDir ?cfg) (map (base_at cl) [0..<Suc (length cl)])"
    and b: "?b = base_at ?cl (Suc (length cl))"
    using rel assms(3) by (simp_all add: wal_rel_def cfg_ok_def chunks_ok_def)
  have bases: "map (base_at cl) [0..<Suc (length cl)] = map (base_at ?cl) [0..<Suc (length cl)]"
    by (intro map_cong refl) auto
  have differ: "base_at cl j \<noteq> ?b" if "j \<le> length cl" for j
    using base_at_inj [OF ch, of j "Suc (length cl)"] that by (auto simp: b)
  then have fresh: "?b \<notin> set (map (base_at cl) [0..<Suc (length cl)])"
    by (simp del: upt_Suc) (auto dest: sym)
  have dir1: "wal_dir os1 (DataDir ?cfg) (map (base_at cl) [0..<Suc (length cl)])"
    using wal_dir_same [OF dir, of os1] same by (simp add: os_same_def)
  obtain s os2 where new: "NewSegment sys (DataDir ?cfg) ?b (MaxSegmentBytes ?cfg) (IndexIntervalBytes ?cfg) os1 = Some (Inr s, os2)"
    and s: "seg_ok s os2 [] (replicate (MaxSegmentBytes ?cfg) 0)"
      "seg_named s (DataDir ?cfg) ?b (MaxSegmentBytes ?cfg) (IndexIntervalBytes ?cfg)"
    and ext: "fds_extend os1 os2"
    and keep: "\<forall>q. q \<noteq> log_path (DataDir ?cfg) ?b \<longrightarrow> q \<noteq> index_path (DataDir ?cfg) ?b \<longrightarrow> files os2 q = files os1 q"
    and ents: "dirents os2 = add_entry (index_path (DataDir ?cfg) ?b) (add_entry (log_path (DataDir ?cfg) ?b) (dirents os1))"
    by (rule NewSegment_ok [OF sys cfg wal_dir_fresh [OF dir1 fresh]])
  have "wal_dir os2 (DataDir ?cfg) (map (base_at ?cl) [0..<Suc (Suc (length cl))])"
    using wal_dir_new [OF dir1 fresh ents keep] unfolding bases b by simp
  moreover have "holds ?cfg os2 t (base_at cl j) rs" if j: "j \<le> length cl" and t: "holds ?cfg os t (base_at cl j) rs" for t j rs
  proof -
    have "fds_extend os os2" using ext same by (simp add: os_same_def fds_extend_def)
    then show ?thesis
      using same differ [OF j] by (intro holds_same [OF t]) (simp_all add: keep [rule_format] os_same_def)
  qed
  ultimately show thesis
    using new s by (intro that [of s os2]) (simp_all add: holds_def zeros_after_def)
qed

definition rolled :: "Segment \<Rightarrow> WAL \<Rightarrow> WAL" where
  "rolled s w = w\<lparr>closedSegments := closedSegments w @ [activeSegment w], segs := segs w @ [s],
     activeSegment := length (segs w)\<rparr>"

lemma roll_rel:
  assumes rel: "wal_rel w os cl ac" and "ac \<noteq> []" and new: "holds (wal_cfg w) os2 s (wal_nextOffset w) []"
    and dir: "wal_dir os2 (DataDir (wal_cfg w)) (map (base_at (cl @ [ac])) [0..<Suc (Suc (length cl))])"
    and keep: "\<forall>t j rs. j \<le> length cl \<longrightarrow> holds (wal_cfg w) os t (base_at cl j) rs \<longrightarrow> holds (wal_cfg w) os2 t (base_at cl j) rs"
  shows "wal_rel (rolled s w) os2 (cl @ [ac]) []"
proof -
  let ?ids = "closedSegments w @ [activeSegment w]" and ?cl = "cl @ [ac]"
  have lens: "length (closedSegments w) = length cl" and ids: "distinct ?ids" "set ?ids \<subseteq> {..< length (segs w)}"
    using rel by (auto simp: wal_rel_def)
  have "holds (wal_cfg w) os2 ((segs w @ [s]) ! (?ids ! j)) (base_at ?cl j) (?cl ! j)" if j: "j < length ?cl" for j
  proof -
    have "?ids ! j \<in> set ?ids" using j lens by (intro nth_mem) simp
    then have "(segs w @ [s]) ! (?ids ! j) = segs w ! (?ids ! j)" using ids(2) by (auto simp: nth_append)
    moreover have "holds (wal_cfg w) os (segs w ! (?ids ! j)) (base_at cl j) (?cl ! j)"
      using rel j lens by (cases "j = length cl") (auto simp: wal_rel_def nth_append)
    moreover have "start ?cl j = start cl j" using j by simp
    ultimately show ?thesis using keep j by simp
  qed
  moreover have "distinct (length (segs w) # ?ids)" "set (length (segs w) # ?ids) \<subseteq> {..< length (segs w @ [s])}"
    using ids by auto
  ultimately show ?thesis
    using rel assms(2) new dir lens unfolding wal_rel_def rolled_def by (simp add: chunks_ok_def)
qed

lemma roll_ok:
  assumes sys: "no_faults sys" and rel: "wal_rel w os cl ac" and "ac \<noteq> []"
  obtains w' os' where "rollActiveSegment sys w os = Some (None, w', os')" and "wal_rel w' os' (cl @ [ac]) []"
    and "wal_cfg w' = wal_cfg w" and "wal_nextOffset w' = wal_nextOffset w"
proof -
  have "holds (wal_cfg w) os (segs w ! activeSegment w) (base_at cl (length cl)) ac" using rel by (simp add: wal_rel_def)
  then obtain err os1 where flush: "Segment_Flush sys (segs w ! activeSegment w) os = Some (err, os1)" and same: "os_same os os1"
    using Segment_Flush_ok [OF holds_linked] unfolding os_same_def by metis
  obtain s os2 where "NewSegment sys (DataDir (wal_cfg w)) (wal_nextOffset w) (MaxSegmentBytes (wal_cfg w))
      (IndexIntervalBytes (wal_cfg w)) os1 = Some (Inr s, os2)" and "wal_rel (rolled s w) os2 (cl @ [ac]) []"
    by (rule roll_new [OF sys rel assms(3) same], drule (2) roll_rel [OF rel assms(3)])
  with flush show thesis by (intro that [of "rolled s w" os2]) (simp_all add: rollActiveSegment_def rolled_def)
qed

lemma append_position:
  assumes "seg_ok s os rs rest" and "maxBytes s = maxB" and "payload_fits p"
  shows "unat (writePos s + word_of_nat (HeaderSize + length p)) = length (frames rs) + (17 + length p)"
proof -
  have "unat (word_of_nat (17 + length p) :: u32) = 17 + length p" using assms(3) by (intro unat_of_nat_small) simp
  then show ?thesis
    using seg_ok_count(3,4) [OF assms(1)] assms(1,3) by (subst unat_add_no_wrap) (simp_all add: seg_ok_def)
qed

text \<open>One append, rolled or not, flushed or not.\<close>

lemma WAL_Append_ok:
  assumes sys: "no_faults sys" and rel: "wal_rel w os cl ac" and fits: "payload_fits p"
    and one: "17 + length p \<le> MaxSegmentBytes (wal_cfg w)"
    and count: "length (concat cl) + length ac + 1 < 2 ^ 63"
  obtains w' os' cl' ac' where "WAL_Append sys p w os = Some (Inr (wal_nextOffset w), w', os')"
    and "wal_rel w' os' cl' ac'" and "concat cl' @ ac' = concat cl @ ac @ [(wal_nextOffset w, p)]"
    and "wal_cfg w' = wal_cfg w"
proof -
  let ?len = "word_of_nat (HeaderSize + length p) :: u32" and ?s = "segs w ! activeSegment w"
  have "seg_ok ?s os ac (zeros_after (MaxSegmentBytes (wal_cfg w)) ac)" "maxBytes ?s = MaxSegmentBytes (wal_cfg w)"
    using rel by (simp_all add: wal_rel_def holds_def seg_named_def)
  note wp = append_position [OF this fits]
  define pick where "pick = (if unat (writePos ?s + ?len) > MaxSegmentBytes (wal_cfg w)
      then rollActiveSegment sys w os else Some (None, w, os))"
  obtain w1 os1 cl1 ac1 where pick: "pick = Some (None, w1, os1)" and rel1: "wal_rel w1 os1 cl1 ac1"
    and eq1: "concat cl1 @ ac1 = concat cl @ ac" and cfg1: "wal_cfg w1 = wal_cfg w" "wal_nextOffset w1 = wal_nextOffset w"
    and room: "length (frames ac1) + (17 + length p) \<le> MaxSegmentBytes (wal_cfg w)"
  proof (cases "unat (writePos ?s + ?len) > MaxSegmentBytes (wal_cfg w)")
    case True
    with wp one have "ac \<noteq> []" by auto
    then obtain w1 os1 where "rollActiveSegment sys w os = Some (None, w1, os1)" "wal_rel w1 os1 (cl @ [ac]) []"
      "wal_cfg w1 = wal_cfg w" "wal_nextOffset w1 = wal_nextOffset w" by (rule roll_ok [OF sys rel])
    with True one show thesis by (intro that [of w1 os1 "cl @ [ac]" "[]"]) (simp_all add: pick_def)
  next
    case False
    with wp rel show thesis by (intro that [of w os cl ac]) (simp_all add: pick_def)
  qed
  have "length (concat cl1) + length ac1 + 1 < 2 ^ 63"
    using count arg_cong [OF eq1, of length] by simp
  with append_active [OF rel1 fits] room obtain seg' os2 where
    run: "Segment_Append (wal_nextOffset w) p (segs w1 ! activeSegment w1) os1 =
      Some (Inr (writePos (segs w1 ! activeSegment w1)), seg', os2)"
    and rel2: "wal_rel (w1\<lparr>segs := (segs w1)[activeSegment w1 := seg'], wal_nextOffset := wal_nextOffset w + 1\<rparr>) os2
      cl1 (ac1 @ [(wal_nextOffset w, p)])"
    and link: "index_linked (seg_index seg')"
    unfolding cfg1 by metis
  obtain err os3 where flush: "Segment_Flush sys seg' os2 = Some (err, os3)" and same: "os_same os2 os3"
    by (rule Segment_Flush_ok [OF link, of sys os2]) (simp add: os_same_def)
  define w2 where "w2 = w1\<lparr>segs := (segs w1)[activeSegment w1 := seg'], wal_nextOffset := wal_nextOffset w + 1\<rparr>"
  have "\<not> wal_isClosed w" "activeSegment w1 < length (segs w1)" using rel rel1 by (simp_all add: wal_rel_def)
  with flush pick run have "WAL_Append sys p w os =
      Some (Inr (wal_nextOffset w), w2, if SyncOnWrite (wal_cfg w) then os3 else os2)"
    by (simp add: WAL_Append_def pick_def Let_def cfg1 w2_def)
  moreover have "wal_rel w2 (if SyncOnWrite (wal_cfg w) then os3 else os2) cl1 (ac1 @ [(wal_nextOffset w, p)])"
    using rel2 wal_rel_same [OF rel2 same] by (simp add: w2_def)
  moreover have "concat cl1 @ ac1 @ [(wal_nextOffset w, p)] = concat cl @ ac @ [(wal_nextOffset w, p)]"
    using eq1 by (metis append.assoc)
  ultimately show thesis by (rule that) (simp add: w2_def cfg1)
qed

section \<open>Closing and opening\<close>

lemma close_segments_files:
  assumes "distinct ids" and "\<forall>i \<in> set ids. index_linked (seg_index (heap ! i))"
    and "close_segments sys ids e heap os = (e', heap', os')"
  shows "files os' = files os" and "dirents os' = dirents os"
proof -
  have "files os' = files os \<and> dirents os' = dirents os"
    using assms
  proof (induction ids arbitrary: e heap os)
    case (Cons i ids)
    obtain e1 seg os1 where close: "Segment_Close sys (heap ! i) os = (e1, seg, os1)" by (metis surj_pair)
    have "files os1 = files os" "dirents os1 = dirents os"
      using Segment_Close_files [of "heap ! i" sys os] Cons.prems(2) close by simp_all
    moreover have "close_segments sys ids (first_error e e1) (heap[i := seg]) os1 = (e', heap', os')"
      using Cons.prems(3) close by simp
    moreover have "\<forall>k \<in> set ids. index_linked (seg_index (heap[i := seg] ! k))"
    proof
      fix k assume "k \<in> set ids"
      then show "index_linked (seg_index (heap[i := seg] ! k))" using Cons.prems(1,2) by (cases "k = i") simp_all
    qed
    ultimately show ?case using Cons.IH [of "heap[i := seg]"] Cons.prems(1) by fastforce
  qed simp
  then show "files os' = files os" "dirents os' = dirents os" by simp_all
qed

text \<open>What the directory of a log holds, open or not.\<close>

definition wal_stored :: "OS \<Rightarrow> StorageConfig \<Rightarrow> logrec list list \<Rightarrow> logrec list \<Rightarrow> bool" where
  "wal_stored os cfg cl ac \<longleftrightarrow> chunks_ok cl ac \<and>
     (\<forall>j < Suc (length cl). stored os (DataDir cfg) (base_at cl j) (MaxSegmentBytes cfg) (IndexIntervalBytes cfg)
        ((cl @ [ac]) ! j) (zeros_after (MaxSegmentBytes cfg) ((cl @ [ac]) ! j))) \<and>
     wal_dir os (DataDir cfg) (map (base_at cl) [0..<Suc (length cl)])"

lemma holds_stored:
  "holds cfg os s base rs \<Longrightarrow> files os' = files os \<Longrightarrow>
    stored os' (DataDir cfg) base (MaxSegmentBytes cfg) (IndexIntervalBytes cfg) rs (zeros_after (MaxSegmentBytes cfg) rs)"
  using seg_ok_stored [of s os rs "zeros_after (MaxSegmentBytes cfg) rs"] by (simp add: holds_def zeros_after_def)

lemma wal_rel_stored:
  assumes rel: "wal_rel w os cl ac" and "files os' = files os" and "dirents os' = dirents os"
  shows "wal_stored os' (wal_cfg w) cl ac"
proof -
  have "stored os' (DataDir (wal_cfg w)) (base_at cl j) (MaxSegmentBytes (wal_cfg w)) (IndexIntervalBytes (wal_cfg w))
      ((cl @ [ac]) ! j) (zeros_after (MaxSegmentBytes (wal_cfg w)) ((cl @ [ac]) ! j))" if "j < Suc (length cl)" for j
  proof (cases "j = length cl")
    case True
    then show ?thesis using rel holds_stored [OF _ assms(2)] by (auto simp: wal_rel_def)
  next
    case False
    then have "holds (wal_cfg w) os (segs w ! (closedSegments w ! j)) (base_at cl j) (cl ! j)"
      using that rel by (simp add: wal_rel_def)
    then show ?thesis using False that holds_stored [OF _ assms(2)] by (simp add: nth_append)
  qed
  moreover have "wal_dir os' (DataDir (wal_cfg w)) (map (base_at cl) [0..<Suc (length cl)])"
    using rel assms(2,3) wal_dir_same [of os _ _ os'] by (simp add: wal_rel_def)
  ultimately show ?thesis using rel by (simp add: wal_stored_def wal_rel_def)
qed

lemma wal_rel_Close:
  assumes rel: "wal_rel w os cl ac" and "WAL_Close sys w os = (err, w', os')"
  shows "wal_stored os' (wal_cfg w) cl ac"
proof -
  let ?ids = "activeSegment w # closedSegments w"
  obtain e heap os1 where close1: "close_segments sys ?ids None (segs w) os = (e, heap, os1)" by (metis surj_pair)
  moreover have "\<not> wal_isClosed w" using rel by (simp add: wal_rel_def)
  ultimately have close: "close_segments sys ?ids None (segs w) os = (e, heap, os')"
    using assms(2) by (simp add: WAL_Close_def)
  have "index_linked (seg_index (segs w ! i))" if i: "i \<in> set ?ids" for i
  proof (cases "i = activeSegment w")
    case True
    then show ?thesis using rel holds_linked by (auto simp: wal_rel_def)
  next
    case False
    with i obtain j where "j < length cl" "i = closedSegments w ! j"
      using rel by (auto simp: wal_rel_def in_set_conv_nth)
    then have "holds (wal_cfg w) os (segs w ! i) (base_at cl j) (cl ! j)" using rel by (simp add: wal_rel_def)
    then show ?thesis by (rule holds_linked)
  qed
  then have "files os' = files os" "dirents os' = dirents os"
    using close_segments_files [OF _ _ close] rel by (simp_all add: wal_rel_def)
  then show ?thesis by (rule wal_rel_stored [OF rel])
qed


text \<open>Opening the segments one after the other, none of them touching another's files.\<close>

lemma stored_same:
  "stored os dir base maxB interval rs rest \<Longrightarrow> files os' (log_path dir base) = files os (log_path dir base) \<Longrightarrow>
    files os' (index_path dir base) = files os (index_path dir base) \<Longrightarrow> stored os' dir base maxB interval rs rest"
  by (simp add: stored_def file_bytes_def)

lemma fds_extend_trans: "fds_extend a b \<Longrightarrow> fds_extend b c \<Longrightarrow> fds_extend a c"
  by (auto simp: fds_extend_def)

definition stored_all :: "OS \<Rightarrow> StorageConfig \<Rightarrow> (u64 \<times> logrec list) list \<Rightarrow> bool" where
  "stored_all os cfg cs \<longleftrightarrow> (\<forall>(b, rs) \<in> set cs.
     stored os (DataDir cfg) b (MaxSegmentBytes cfg) (IndexIntervalBytes cfg) rs (zeros_after (MaxSegmentBytes cfg) rs))"

definition others_kept :: "StorageConfig \<Rightarrow> u64 set \<Rightarrow> OS \<Rightarrow> OS \<Rightarrow> bool" where
  "others_kept cfg bs os os' \<longleftrightarrow> (\<forall>q. (\<forall>b \<in> bs. q \<noteq> log_path (DataDir cfg) b \<and> q \<noteq> index_path (DataDir cfg) b) \<longrightarrow>
     files os' q = files os q)"

lemma others_keptD:
  assumes "others_kept cfg bs os os'" and "\<And>b. b \<in> bs \<Longrightarrow> q \<noteq> log_path (DataDir cfg) b \<and> q \<noteq> index_path (DataDir cfg) b"
  shows "files os' q = files os q"
  using assms unfolding others_kept_def by blast

lemma others_kept_insert:
  assumes "\<forall>q. q \<noteq> log_path (DataDir cfg) b \<longrightarrow> q \<noteq> index_path (DataDir cfg) b \<longrightarrow> files os1 q = files os q"
    and "others_kept cfg bs os1 os'"
  shows "others_kept cfg (insert b bs) os os'"
  unfolding others_kept_def
proof (intro allI impI)
  fix q assume q: "\<forall>b' \<in> insert b bs. q \<noteq> log_path (DataDir cfg) b' \<and> q \<noteq> index_path (DataDir cfg) b'"
  then have "files os' q = files os1 q" by (intro others_keptD [OF assms(2)]) blast
  also have "\<dots> = files os q" using assms(1) q by blast
  finally show "files os' q = files os q" .
qed

lemma open_segments_ok:
  assumes "no_faults sys" and "cfg_ok cfg" and "distinct (map fst cs)" and "stored_all os cfg cs"
    and "set (map fst cs) \<subseteq> set bases" and "wal_dir os (DataDir cfg) bases"
  shows "\<exists>l os'. open_segments sys cfg (map fst cs) os = Some (Inr l, os') \<and> length l = length cs \<and>
    (\<forall>j < length cs. holds cfg os' (l ! j) (fst (cs ! j)) (snd (cs ! j))) \<and> fds_extend os os' \<and>
    others_kept cfg (set (map fst cs)) os os' \<and>
    wal_dir os' (DataDir cfg) bases"
  using assms(3-6)
proof (induction cs arbitrary: os)
  case (Cons c cs)
  obtain b rs where c: "c = (b, rs)" by fastforce
  let ?dir = "DataDir cfg"
  have cfg: "0 < IndexIntervalBytes cfg" "size_ok (MaxSegmentBytes cfg)" using assms(2) by (simp_all add: cfg_ok_def)
  have st: "stored os ?dir b (MaxSegmentBytes cfg) (IndexIntervalBytes cfg) rs (zeros_after (MaxSegmentBytes cfg) rs)"
    using Cons.prems(2) by (simp add: stored_all_def c)
  obtain s os1 where new: "NewSegment sys ?dir b (MaxSegmentBytes cfg) (IndexIntervalBytes cfg) os = Some (Inr s, os1)"
    and s: "seg_ok s os1 rs (zeros_after (MaxSegmentBytes cfg) rs)"
      "seg_named s ?dir b (MaxSegmentBytes cfg) (IndexIntervalBytes cfg)"
    and ext: "fds_extend os os1"
    and keep: "\<forall>q. q \<noteq> log_path ?dir b \<longrightarrow> q \<noteq> index_path ?dir b \<longrightarrow> files os1 q = files os q"
    and ents: "dirents os1 = add_entry (index_path ?dir b) (add_entry (log_path ?dir b) (dirents os))"
    by (rule NewSegment_ok [OF assms(1) cfg st])
  have other: "files os1 (log_path ?dir b') = files os (log_path ?dir b')"
    "files os1 (index_path ?dir b') = files os (index_path ?dir b')" if "b' \<noteq> b" for b'
    using that by (simp_all add: keep [rule_format])
  have b: "b \<notin> set (map fst cs)" "distinct (map fst cs)" using Cons.prems(1) by (simp_all add: c)
  have st1: "stored_all os1 cfg cs"
    unfolding stored_all_def
  proof
    fix c' assume c': "c' \<in> set cs"
    then have "fst c' \<noteq> b" using b(1) by auto
    then show "case c' of (b', rs') \<Rightarrow> stored os1 ?dir b' (MaxSegmentBytes cfg) (IndexIntervalBytes cfg) rs'
        (zeros_after (MaxSegmentBytes cfg) rs')"
      using Cons.prems(2) c' other [of "fst c'"] stored_same [of os] by (fastforce simp: stored_all_def)
  qed
  have sub: "set (map fst cs) \<subseteq> set bases" and dir1: "wal_dir os1 ?dir bases"
    using wal_dir_known [OF Cons.prems(4) _ ents keep] Cons.prems(3) by (simp_all add: c)
  obtain l os' where l: "open_segments sys cfg (map fst cs) os1 = Some (Inr l, os')" "length l = length cs"
      "\<forall>j < length cs. holds cfg os' (l ! j) (fst (cs ! j)) (snd (cs ! j))" "fds_extend os1 os'"
      "others_kept cfg (set (map fst cs)) os1 os'" "wal_dir os' ?dir bases"
    using Cons.IH [OF b(2) st1 sub dir1] by blast
  have "holds cfg os' s b rs"
  proof (intro holds_same [OF _ l(4)])
    show "holds cfg os1 s b rs" using s by (simp add: holds_def)
    have "b' \<noteq> b" if "b' \<in> set (map fst cs)" for b' using that b(1) by blast
    then show "files os' (log_path ?dir b) = files os1 (log_path ?dir b)"
      "files os' (index_path ?dir b) = files os1 (index_path ?dir b)"
      by (intro others_keptD [OF l(5)]; force)+
  qed
  then have "\<forall>j < length (c # cs). holds cfg os' ((s # l) ! j) (fst ((c # cs) ! j)) (snd ((c # cs) ! j))"
    using l(3) by (simp add: c nth_Cons split: nat.split)
  moreover have "open_segments sys cfg (map fst (c # cs)) os = Some (Inr (s # l), os')"
    using new l(1) by (simp add: c)
  ultimately show ?case
    using l(2,6) others_kept_insert [OF keep l(5)] fds_extend_trans [OF ext l(4)]
    by (intro exI [of _ "s # l"] exI [of _ os']) (simp add: c)
qed (simp add: others_kept_def)


lemma sorted_bases:
  assumes "chunks_ok cl ac" and "mset bs = mset (map (base_at cl) [0..<Suc (length cl)])"
  shows "sort bs = map (base_at cl) [0..<Suc (length cl)]" and "distinct (map (base_at cl) [0..<Suc (length cl)])"
proof -
  have "start cl j < 2 ^ 63" for j using assms(1) start_bound [of cl j] by (simp add: chunks_ok_def)
  then have "base_at cl i \<le> base_at cl j" if "i \<le> j" for i j
    using start_le [OF that, of cl] by (simp only: word_of_nat_le63)
  then have "sorted (map (base_at cl) [0..<Suc (length cl)])"
    unfolding sorted_wrt_iff_nth_less length_map length_upt by (simp del: upt_Suc)
  then show "sort bs = map (base_at cl) [0..<Suc (length cl)]"
    using assms(2) by (metis properties_for_sort)
  show "distinct (map (base_at cl) [0..<Suc (length cl)])"
    using base_at_inj [OF assms(1)] by (simp only: distinct_map) (auto simp: inj_on_def less_Suc_eq_le)
qed

lemma OpenWAL_stored:
  assumes sys: "no_faults sys" and cfg: "cfg_ok cfg" and st: "wal_stored os cfg cl ac"
  obtains w os' where "OpenWAL sys cfg os = Some (Inr w, os')" and "wal_rel w os' cl ac" and "wal_cfg w = cfg"
    and "others_kept cfg (set (map (base_at cl) [0..<Suc (length cl)])) os os'"
proof -
  let ?bs = "map (base_at cl) [0..<Suc (length cl)]" and ?os1 = "os\<lparr>calls := Suc (calls os)\<rparr>"
  let ?cs = "map (\<lambda>j. (base_at cl j, (cl @ [ac]) ! j)) [0..<Suc (length cl)]"
  have ch: "chunks_ok cl ac" and dir: "wal_dir os (DataDir cfg) ?bs" using st by (simp_all add: wal_stored_def)
  obtain entries where ls: "ReadDir sys (DataDir cfg) ?os1 = (Inr entries, ?os1\<lparr>calls := Suc (calls ?os1)\<rparr>)"
    and "mset (base_offsets entries) = mset (log_bases ?os1 (DataDir cfg))"
    by (rule ReadDir_ok [OF sys])
  then have "mset (base_offsets entries) = mset ?bs" using dir by (simp add: wal_dir_def log_bases_def)
  note bases = sorted_bases [OF ch this]
  let ?os2 = "?os1\<lparr>calls := Suc (calls ?os1)\<rparr>"
  have fst: "map fst ?cs = ?bs" by simp
  have all: "stored_all ?os2 cfg ?cs"
    unfolding stored_all_def
  proof
    fix c assume "c \<in> set ?cs"
    then obtain j where "j < Suc (length cl)" "c = (base_at cl j, (cl @ [ac]) ! j)"
      by (auto simp del: upt_Suc)
    with st show "case c of (b, rs) \<Rightarrow> stored ?os2 (DataDir cfg) b (MaxSegmentBytes cfg) (IndexIntervalBytes cfg) rs
        (zeros_after (MaxSegmentBytes cfg) rs)"
      by (simp add: wal_stored_def stored_def)
  qed
  have dir2: "wal_dir ?os2 (DataDir cfg) ?bs" by (rule wal_dir_same [OF dir]) simp_all
  obtain l os' where l: "open_segments sys cfg ?bs ?os2 = Some (Inr l, os')" "length l = Suc (length cl)"
    and held: "\<forall>j < length ?cs. holds cfg os' (l ! j) (fst (?cs ! j)) (snd (?cs ! j))"
    and dir': "wal_dir os' (DataDir cfg) ?bs" and kept: "others_kept cfg (set ?bs) ?os2 os'"
    using open_segments_ok [OF sys cfg, of ?cs ?os2 ?bs] bases(2) all dir2 unfolding fst by auto
  have kept': "others_kept cfg (set ?bs) os os'" using kept unfolding others_kept_def by simp
  have held': "holds cfg os' (l ! j) (base_at cl j) ((cl @ [ac]) ! j)" if "j < Suc (length cl)" for j
    using held that by (simp del: upt_Suc)
  have last: "last l = l ! length cl" using l(2) by (metis diff_Suc_1 last_conv_nth length_0_conv nat.distinct(1))
  define w where "w = \<lparr>wal_cfg = cfg, segs = l, activeSegment = length cl, closedSegments = [0..<length cl],
      wal_nextOffset = nextOffset (last l), wal_isClosed = False\<rparr>"
  have "OpenWAL sys cfg os = Some (Inr w, os')"
    using sys ls l bases(1) by (simp add: OpenWAL_def w_def)
  moreover have "nextOffset (last l) = word_of_nat (length (concat cl) + length ac)"
    using held' [of "length cl"] last by (simp add: holds_def seg_ok_def seg_named_def)
  moreover have "\<forall>j < length cl. holds cfg os' (l ! j) (base_at cl j) (cl ! j)"
  proof (intro allI impI)
    fix j assume "j < length cl"
    then show "holds cfg os' (l ! j) (base_at cl j) (cl ! j)" using held' [of j] by (simp add: nth_append)
  qed
  ultimately show thesis
    using held' [of "length cl"] cfg ch dir' l(2) kept' by (intro that [of w os']) (auto simp: wal_rel_def w_def)
qed

text \<open>The first opening, in a directory without segments.\<close>

lemma OpenWAL_fresh:
  assumes sys: "no_faults sys" and cfg: "cfg_ok cfg" and dir: "wal_dir os (DataDir cfg) []"
  obtains w os' where "OpenWAL sys cfg os = Some (Inr w, os')" and "wal_rel w os' [] []" and "wal_cfg w = cfg"
proof -
  let ?os1 = "os\<lparr>calls := Suc (calls os)\<rparr>" and ?dir = "DataDir cfg"
  obtain entries where ls: "ReadDir sys ?dir ?os1 = (Inr entries, ?os1\<lparr>calls := Suc (calls ?os1)\<rparr>)"
    and "mset (base_offsets entries) = mset (log_bases ?os1 ?dir)"
    by (rule ReadDir_ok [OF sys])
  then have none: "base_offsets entries = []" using dir by (simp add: wal_dir_def log_bases_def)
  let ?os2 = "?os1\<lparr>calls := Suc (calls ?os1)\<rparr>"
  have dir2: "wal_dir ?os2 ?dir []" by (rule wal_dir_same [OF dir]) simp_all
  have cfg': "0 < IndexIntervalBytes cfg" "size_ok (MaxSegmentBytes cfg)" using cfg by (simp_all add: cfg_ok_def)
  have st: "stored ?os2 ?dir 0 (MaxSegmentBytes cfg) (IndexIntervalBytes cfg) [] (replicate (MaxSegmentBytes cfg) 0)"
    by (rule wal_dir_fresh [OF dir2]) simp
  obtain s os' where new: "NewSegment sys ?dir 0 (MaxSegmentBytes cfg) (IndexIntervalBytes cfg) ?os2 = Some (Inr s, os')"
    and s: "seg_ok s os' [] (replicate (MaxSegmentBytes cfg) 0)"
      "seg_named s ?dir 0 (MaxSegmentBytes cfg) (IndexIntervalBytes cfg)"
    and keep: "\<forall>q. q \<noteq> log_path ?dir 0 \<longrightarrow> q \<noteq> index_path ?dir 0 \<longrightarrow> files os' q = files ?os2 q"
    and ents: "dirents os' = add_entry (index_path ?dir 0) (add_entry (log_path ?dir 0) (dirents ?os2))"
    by (rule NewSegment_ok [OF sys cfg' st])
  have "wal_dir os' ?dir [0]" using wal_dir_new [OF dir2 _ ents keep] by simp
  moreover have "holds cfg os' s 0 []" using s by (simp add: holds_def zeros_after_def)
  ultimately show thesis
    using sys ls none new cfg
    by (intro that [of "\<lparr>wal_cfg = cfg, segs = [s], activeSegment = 0, closedSegments = [],
        wal_nextOffset = 0, wal_isClosed = False\<rparr>" os'])
      (simp_all add: OpenWAL_def wal_rel_def chunks_ok_def start_def)
qed


section \<open>The log is a list\<close>

text \<open>
  The operations of a client, closing and opening again among them, on the model and on a plain
  list of payloads. An operation that would fail or panic in the model has no counterpart: the
  step is undefined there.
\<close>

datatype wal_op = OpAppend "byte list" | OpReadAt u64 | OpLatest | OpSync | OpReopen

datatype wal_out = OutOffset "storage_error + u64" | OutPayload "storage_error + byte list" | OutDone

definition wal_step :: "sys \<Rightarrow> wal_op \<Rightarrow> WAL \<times> OS \<Rightarrow> (wal_out \<times> WAL \<times> OS) option" where
  "wal_step sys oper st = (case st of (w, os) \<Rightarrow> (case oper of
     OpAppend p \<Rightarrow> map_option (\<lambda>(r, w, os). (OutOffset r, w, os)) (WAL_Append sys p w os)
   | OpReadAt off \<Rightarrow> map_option (\<lambda>r. (OutPayload r, w, os)) (WAL_ReadAt off w os)
   | OpLatest \<Rightarrow> Some (OutOffset (Inr (LatestOffset w)), w, os)
   | OpSync \<Rightarrow> map_option (\<lambda>(e, os). (OutDone, w, os)) (WAL_Sync sys w os)
   | OpReopen \<Rightarrow> (case WAL_Close sys w os of (e, w1, os1) \<Rightarrow>
       (case OpenWAL sys (wal_cfg w) os1 of
          Some (Inr w2, os2) \<Rightarrow> Some (OutDone, w2, os2)
        | _ \<Rightarrow> None))))"

fun log_step :: "wal_op \<Rightarrow> byte list list \<Rightarrow> wal_out \<times> byte list list" where
  "log_step (OpAppend p) log = (OutOffset (Inr (word_of_nat (length log))), log @ [p])"
| "log_step (OpReadAt off) log =
    (OutPayload (if unat off < length log then Inr (log ! unat off) else Inl ErrOffsetNotFound), log)"
| "log_step OpLatest log = (OutOffset (Inr (word_of_nat (length log))), log)"
| "log_step OpSync log = (OutDone, log)"
| "log_step OpReopen log = (OutDone, log)"

fun wal_run :: "sys \<Rightarrow> wal_op list \<Rightarrow> WAL \<times> OS \<Rightarrow> (wal_out list \<times> WAL \<times> OS) option" where
  "wal_run sys [] st = Some ([], st)"
| "wal_run sys (oper # opers) st = do {
     (out, st) \<leftarrow> wal_step sys oper st;
     (outs, st) \<leftarrow> wal_run sys opers st;
     Some (out # outs, st)
   }"

fun log_run :: "wal_op list \<Rightarrow> byte list list \<Rightarrow> wal_out list" where
  "log_run [] log = []"
| "log_run (oper # opers) log = (case log_step oper log of (out, log) \<Rightarrow> out # log_run opers log)"

definition op_fits :: "StorageConfig \<Rightarrow> wal_op \<Rightarrow> bool" where
  "op_fits cfg oper = (case oper of
     OpAppend p \<Rightarrow> payload_fits p \<and> 17 + length p \<le> MaxSegmentBytes cfg | _ \<Rightarrow> True)"

lemma wal_step_ok:
  assumes sys: "no_faults sys" and ok: "wal_ok w os log" and fits: "op_fits (wal_cfg w) oper"
    and count: "length log + 1 < 2 ^ 63"
  shows "\<exists>w' os'. wal_step sys oper (w, os) = Some (fst (log_step oper log), w', os') \<and>
    wal_ok w' os' (snd (log_step oper log)) \<and> wal_cfg w' = wal_cfg w"
proof -
  obtain cl ac where rel: "wal_rel w os cl ac" and log: "log = map snd (concat cl @ ac)"
    using ok by (auto simp: wal_ok_def)
  have nxt: "wal_nextOffset w = word_of_nat (length log)" using rel log by (simp add: wal_rel_def)
  show ?thesis
  proof (cases oper)
    case (OpAppend p)
    then have p: "payload_fits p" "17 + length p \<le> MaxSegmentBytes (wal_cfg w)" using fits by (simp_all add: op_fits_def)
    have "length (concat cl) + length ac + 1 < 2 ^ 63" using count log by simp
    then obtain w' os' cl' ac' where run: "WAL_Append sys p w os = Some (Inr (wal_nextOffset w), w', os')"
      and rel': "wal_rel w' os' cl' ac'" and eq: "concat cl' @ ac' = concat cl @ ac @ [(wal_nextOffset w, p)]"
      and cfg': "wal_cfg w' = wal_cfg w"
      by (rule WAL_Append_ok [OF sys rel p])
    have "log @ [p] = map snd (concat cl' @ ac')" by (simp only: eq log) simp
    then have "wal_ok w' os' (log @ [p])" using rel' unfolding wal_ok_def by metis
    then show ?thesis using OpAppend run cfg' by (simp add: wal_step_def nxt)
  next
    case (OpReadAt off)
    then show ?thesis using wal_ok_ReadAt [OF ok, of off] ok by (simp add: wal_step_def)
  next
    case OpLatest
    then show ?thesis using ok nxt by (simp add: wal_step_def LatestOffset_def)
  next
    case OpSync
    have "holds (wal_cfg w) os (segs w ! activeSegment w) (base_at cl (length cl)) ac" "\<not> wal_isClosed w"
      using rel by (simp_all add: wal_rel_def)
    then obtain e os' where "WAL_Sync sys w os = Some (e, os')" "os_same os os'"
      using Segment_Flush_ok [OF holds_linked, of "wal_cfg w" os _ _ ac sys os] unfolding WAL_Sync_def os_same_def by metis
    then show ?thesis using OpSync wal_rel_same [OF rel] log by (auto simp: wal_step_def wal_ok_def)
  next
    case OpReopen
    obtain e w1 os1 where close: "WAL_Close sys w os = (e, w1, os1)" by (metis surj_pair)
    have "cfg_ok (wal_cfg w)" using rel by (simp add: wal_rel_def)
    then obtain w2 os2 where "OpenWAL sys (wal_cfg w) os1 = Some (Inr w2, os2)" "wal_rel w2 os2 cl ac" "wal_cfg w2 = wal_cfg w"
      using OpenWAL_stored [OF sys _ wal_rel_Close [OF rel close]] by metis
    then show ?thesis using OpReopen close log by (auto simp: wal_step_def wal_ok_def)
  qed
qed

lemma wal_run_ok:
  assumes sys: "no_faults sys"
  shows "wal_ok w os log \<Longrightarrow> list_all (op_fits (wal_cfg w)) opers \<Longrightarrow> length log + length opers < 2 ^ 63 \<Longrightarrow>
    \<exists>w' os'. wal_run sys opers (w, os) = Some (log_run opers log, w', os')"
proof (induction opers arbitrary: w os log)
  case (Cons oper opers)
  have count: "length log + 1 < 2 ^ 63" and fits: "op_fits (wal_cfg w) oper" using Cons.prems(2,3) by simp_all
  obtain w1 os1 where step: "wal_step sys oper (w, os) = Some (fst (log_step oper log), w1, os1)"
    and ok1: "wal_ok w1 os1 (snd (log_step oper log))" and cfg1: "wal_cfg w1 = wal_cfg w"
    using wal_step_ok [OF sys Cons.prems(1) fits count] by blast
  have "length (snd (log_step oper log)) \<le> Suc (length log)" by (cases oper) simp_all
  then obtain w2 os2 where "wal_run sys opers (w1, os1) = Some (log_run opers (snd (log_step oper log)), w2, os2)"
    using Cons.IH [OF ok1] Cons.prems(2,3) cfg1 by fastforce
  with step show ?case by (simp add: case_prod_beta)
qed simp

text \<open>C3. The write-ahead log refines a list of payloads: opened in a directory without segments,
  any sequence of appends, reads, syncs and restarts (a close and an open) gives exactly the
  results it gives on a plain list, where an append adds at the end and returns the index, and a
  read returns the element there. Rolling to new segments, the sparse indexes and the recovery of
  every segment on opening are invisible. The payloads must fit a segment and the 32 MiB limit.\<close>

theorem wal_refines_log:
  assumes "no_faults sys" and "cfg_ok cfg" and "wal_dir os (DataDir cfg) []"
    and "list_all (op_fits cfg) opers" and "length opers < 2 ^ 63"
  shows "\<exists>w os1. OpenWAL sys cfg os = Some (Inr w, os1) \<and>
    (\<exists>w' os'. wal_run sys opers (w, os1) = Some (log_run opers [], w', os'))"
proof -
  obtain w os1 where opened: "OpenWAL sys cfg os = Some (Inr w, os1)" and rel: "wal_rel w os1 [] []" and "wal_cfg w = cfg"
    by (rule OpenWAL_fresh [OF assms(1-3)])
  have "wal_ok w os1 []" using rel by (auto simp: wal_ok_def)
  then have "\<exists>w' os'. wal_run sys opers (w, os1) = Some (log_run opers [], w', os')"
    using assms(4,5) \<open>wal_cfg w = cfg\<close> by (intro wal_run_ok [OF assms(1)]) simp_all
  with opened show ?thesis by blast
qed

text \<open>Segments of 64 bytes: the third append rolls.\<close>

definition small_cfg :: StorageConfig where
  "small_cfg = \<lparr>DataDir = ''d'', MaxSegmentBytes = 64, IndexIntervalBytes = 16, SyncOnWrite = True\<rparr>"

lemma wal_refines_log_witness:
  "\<exists>w os. OpenWAL faultless small_cfg empty_os = Some (Inr w, os) \<and>
     (\<exists>w' os'. wal_run faultless [OpAppend (replicate 10 1), OpAppend (replicate 20 2), OpAppend [3], OpReopen, OpReadAt 1, OpReadAt 2, OpReadAt 3]
         (w, os) =
       Some ([OutOffset (Inr 0), OutOffset (Inr 1), OutOffset (Inr 2), OutDone, OutPayload (Inr (replicate 20 2)),
         OutPayload (Inr [3]), OutPayload (Inl ErrOffsetNotFound)], w', os'))"
  using wal_refines_log [of faultless small_cfg empty_os "[OpAppend (replicate 10 1), OpAppend (replicate 20 2), OpAppend [3], OpReopen, OpReadAt 1, OpReadAt 2, OpReadAt 3]"]
  by (simp add: no_faults_faultless cfg_ok_def small_cfg_def size_ok_def max_frame_def wal_dir_def log_bases_def empty_os_def op_fits_def)


end
