(* ===== verification/WalFaults.thy ===== *)
theory WalFaults
  imports WAL
begin

text \<open>
  The write-ahead log when the operating system fails: any call may, in any pattern. The lemmas
  show that opening a segment then touches nothing but the files of its own, and that an append
  keeps every record.
\<close>

section \<open>An append that fails\<close>

text \<open>
  Whatever system calls fail, opening a segment touches only its own two files and the files it
  has opened itself.
\<close>

definition outside :: "path set \<Rightarrow> OS \<Rightarrow> OS \<Rightarrow> bool" where
  "outside ps os0 os \<longleftrightarrow> fds_extend os0 os \<and> (\<forall>q. q \<notin> ps \<longrightarrow> files os q = files os0 q)"

lemma outside_refl [simp]: "outside ps os os"
  by (simp add: outside_def)

lemma outside_same: "outside ps os0 os \<Longrightarrow> fds os' = fds os \<Longrightarrow> files os' = files os \<Longrightarrow> outside ps os0 os'"
  by (simp add: outside_def fds_extend_def)

lemma outside_calls [simp]: "outside ps os0 (os\<lparr>calls := n\<rparr>) = outside ps os0 os"
  by (simp add: outside_def fds_extend_def)

text \<open>A file of the operation: opened after \<open>os0\<close>, on one of its paths.\<close>

definition own_fd :: "path set \<Rightarrow> OS \<Rightarrow> OS \<Rightarrow> nat \<Rightarrow> bool" where
  "own_fd ps os0 os fd \<longleftrightarrow> length (fds os0) \<le> fd \<and> fd < length (fds os) \<and> fd_path os fd \<in> ps"

lemma own_fd_calls [simp]: "own_fd ps os0 (os\<lparr>calls := n\<rparr>) fd = own_fd ps os0 os fd"
  by (simp add: own_fd_def)

lemma outside_OpenFile:
  assumes "outside ps os0 os" and "p \<in> ps" and "OpenFile sys p os = (r, os')"
  shows "outside ps os0 os'" and "r = Inr fd \<Longrightarrow> own_fd ps os0 os' fd" and "own_fd ps os0 os fd' \<Longrightarrow> own_fd ps os0 os' fd'"
  using assms by (auto simp: OpenFile_def do_call_def outside_def fds_extend_def own_fd_def fd_path_def nth_append split: option.splits)

lemma outside_Stat_Size:
  assumes "outside ps os0 os" and "Stat_Size sys fd os = (r, os')"
  shows "outside ps os0 os'" and "own_fd ps os0 os fd' \<Longrightarrow> own_fd ps os0 os' fd'"
  using assms by (auto simp: Stat_Size_def do_call_def split: option.splits if_splits)

lemma outside_Truncate:
  assumes "outside ps os0 os" and "own_fd ps os0 os fd" and "Truncate sys fd n os = (r, os')"
  shows "outside ps os0 os'" and "own_fd ps os0 os fd' \<Longrightarrow> own_fd ps os0 os' fd'"
  using assms by (auto simp: Truncate_def do_call_def outside_def fds_extend_def own_fd_def Let_def split: option.splits if_splits)

lemma outside_File_Close:
  assumes "outside ps os0 os" and "own_fd ps os0 os fd"
  shows "outside ps os0 (snd (File_Close sys fd os))"
  using assms by (auto simp: File_Close_def do_call_def outside_def fds_extend_def own_fd_def list_update_append)

lemma outside_mapFileWin32:
  assumes "outside ps os0 os" and "own_fd ps os0 os fd" and "mapFileWin32 sys fd n b os = (r, os')"
  shows "outside ps os0 os'" and "own_fd ps os0 os' fd" and "r = Inr m \<Longrightarrow> mh_file m = fd"
  using assms by (auto simp: mapFileWin32_def do_call_def Let_def split: option.splits if_splits)

lemma outside_mmap_Close:
  assumes "outside ps os0 os" and "own_fd ps os0 os (mh_file m)"
  shows "outside ps os0 (snd (snd (mmap_Close sys m os)))"
  using assms outside_File_Close [of ps os0 _ "mh_file m" sys]
  by (auto simp: mmap_Close_def Let_def do_call_def split: prod.splits)
     (metis outside_File_Close outside_calls own_fd_calls snd_conv)+

text \<open>A call that succeeded is the call of a faultless system.\<close>

lemma luck_do_call: "do_call sys c os = (None, os') \<Longrightarrow> do_call faultless c os = (None, os')"
  by (simp add: do_call_def faultless_def)

lemma luck_OpenFile: "OpenFile sys p os = (Inr fd, os') \<Longrightarrow> OpenFile faultless p os = (Inr fd, os')"
  by (auto simp: OpenFile_def do_call_def faultless_def split: option.splits)

lemma luck_Stat_Size: "Stat_Size sys fd os = (Inr n, os') \<Longrightarrow> Stat_Size faultless fd os = (Inr n, os')"
  by (auto simp: Stat_Size_def do_call_def faultless_def split: option.splits if_splits)

lemma luck_Truncate: "Truncate sys fd n os = (None, os') \<Longrightarrow> Truncate faultless fd n os = (None, os')"
  by (auto simp: Truncate_def do_call_def faultless_def split: option.splits if_splits)

lemma luck_preallocate:
  "(if b then Truncate sys fd n os else (None, os)) = (None, os') \<Longrightarrow>
   (if b then Truncate faultless fd n os else (None, os)) = (None, os')"
  by (cases b) (simp_all add: luck_Truncate)

lemma luck_mapFileWin32: "mapFileWin32 sys fd n b os = (Inr m, os') \<Longrightarrow> mapFileWin32 faultless fd n b os = (Inr m, os')"
  by (auto simp: mapFileWin32_def do_call_def faultless_def Let_def split: option.splits if_splits)

lemma outside_preallocate:
  assumes "outside ps os0 os" and "own_fd ps os0 os fd" and "(if b then Truncate sys fd n os else (None, os)) = (r, os')"
  shows "outside ps os0 os'" and "own_fd ps os0 os fd' \<Longrightarrow> own_fd ps os0 os' fd'"
  using assms outside_Truncate [OF assms(1,2)] by (auto split: if_splits)

text \<open>Opening a file, preallocating and mapping it: what \<open>NewSegment\<close> and \<open>OpenSparseIndex\<close> share.\<close>

definition open_mapped :: "sys \<Rightarrow> path \<Rightarrow> nat \<Rightarrow> OS \<Rightarrow> (nat \<times> nat \<times> mmapHandle) option \<times> OS" where
  "open_mapped sys p n os =
    (case OpenFile sys p os of
       (Inl e, os) \<Rightarrow> (None, os)
     | (Inr fd, os) \<Rightarrow>
         (case Stat_Size sys fd os of
            (Inl e, os) \<Rightarrow> (None, snd (File_Close sys fd os))
          | (Inr sz, os) \<Rightarrow>
              (case (if sz < n then Truncate sys fd n os else (None, os)) of
                 (Some e, os) \<Rightarrow> (None, snd (File_Close sys fd os))
               | (None, os) \<Rightarrow>
                   (case mapFileWin32 sys fd n False os of
                      (Inl e, os) \<Rightarrow> (None, snd (File_Close sys fd os))
                    | (Inr m, os) \<Rightarrow> (Some (fd, sz, m), os)))))"

lemma open_mapped_outside:
  assumes "outside ps os0 os" and "p \<in> ps" and "open_mapped sys p n os = (r, os')"
  shows "outside ps os0 os'" and "r = Some (fd, sz, m) \<Longrightarrow> own_fd ps os0 os' (mh_file m) \<and>
    open_mapped faultless p n os = (r, os')"
proof -
  have "outside ps os0 os' \<and> (r = Some (fd, sz, m) \<longrightarrow> own_fd ps os0 os' (mh_file m) \<and> open_mapped faultless p n os = (r, os'))"
  proof (cases "OpenFile sys p os")
    case (Pair r1 os1)
    note open1 = outside_OpenFile [OF assms(1,2) Pair]
    show ?thesis
    proof (cases r1)
      case (Inr fd1)
      note own1 = open1(2) [OF Inr]
      obtain r2 os2 where st: "Stat_Size sys fd1 os1 = (r2, os2)" by fastforce
      note stat2 = outside_Stat_Size(1) [OF open1(1) st] outside_Stat_Size(2) [OF open1(1) st own1]
      show ?thesis
      proof (cases r2)
        case (Inr sz1)
        obtain r3 os3 where tr: "(if sz1 < n then Truncate sys fd1 n os2 else (None, os2)) = (r3, os3)" by fastforce
        note tr3 = outside_preallocate(1) [OF stat2 tr] outside_preallocate(2) [OF stat2 tr stat2(2)]
        obtain r4 os4 where mp: "mapFileWin32 sys fd1 n False os3 = (r4, os4)" by fastforce
        note mp4 = outside_mapFileWin32 [OF tr3 mp]
        show ?thesis
        proof (cases r3)
          case None
          show ?thesis
          proof (cases r4)
            case (Inr m1)
            note luck = luck_OpenFile [OF Pair [unfolded \<open>r1 = Inr fd1\<close>]] luck_Stat_Size [OF st [unfolded \<open>r2 = Inr sz1\<close>]]
              luck_preallocate [OF tr [unfolded None]] luck_mapFileWin32 [OF mp [unfolded Inr]]
            have "open_mapped sys p n os = (Some (fd1, sz1, m1), os4)" "open_mapped faultless p n os = (Some (fd1, sz1, m1), os4)"
              unfolding open_mapped_def using Pair \<open>r1 = Inr fd1\<close> st \<open>r2 = Inr sz1\<close> tr None mp Inr luck by simp_all
            then show ?thesis using assms(3) mp4 Inr by auto
          next
            case (Inl e)
            then show ?thesis using assms(3) Pair \<open>r1 = Inr fd1\<close> st \<open>r2 = Inr sz1\<close> tr None mp
              outside_File_Close [OF mp4(1,2)] by (auto simp: open_mapped_def)
          qed
        next
          case (Some e)
          then show ?thesis using assms(3) Pair \<open>r1 = Inr fd1\<close> st \<open>r2 = Inr sz1\<close> tr
            outside_File_Close [OF tr3] by (auto simp: open_mapped_def)
        qed
      next
        case (Inl e)
        then show ?thesis using assms(3) Pair \<open>r1 = Inr fd1\<close> st outside_File_Close [OF stat2] by (auto simp: open_mapped_def)
      qed
    next
      case (Inl e)
      then show ?thesis using assms(3) Pair open1(1) by (auto simp: open_mapped_def)
    qed
  qed
  then show "outside ps os0 os'" and "r = Some (fd, sz, m) \<Longrightarrow> own_fd ps os0 os' (mh_file m) \<and>
    open_mapped faultless p n os = (r, os')" by simp_all
qed


lemma open_mapped_Some:
  assumes "open_mapped sys p n os = (Some (fd, sz, m), os')"
  obtains a b c where "OpenFile sys p os = (Inr fd, a)" and "Stat_Size sys fd a = (Inr sz, b)"
    and "(if sz < n then Truncate sys fd n b else (None, b)) = (None, c)" and "mapFileWin32 sys fd n False c = (Inr m, os')"
  using assms by (auto simp: open_mapped_def split: sum.splits option.splits prod.splits split del: if_split)

text \<open>What \<open>OpenSparseIndex\<close> and \<open>NewSegment\<close> do around \<open>open_mapped\<close>.\<close>

lemma OpenSparseIndex_via:
  assumes "do_call sys (SysMkdirAll (fst p)) os = (None, os1)" and "open_mapped sys p (n * IndexEntrySize) os1 = (r, os2)"
  shows "r = None \<Longrightarrow> \<exists>e. OpenSparseIndex sys p n os = (Inl e, os2)"
    and "r = Some (fd, sz, m) \<Longrightarrow> OpenSparseIndex sys p n os = (Inr \<lparr>ix_file = Some fd, ix_mmap = Some m,
      entryCount = sz div IndexEntrySize, maxEntries = n, ix_path = p\<rparr>, os2)"
  using assms by (auto simp: OpenSparseIndex_def open_mapped_def Let_def split: sum.splits option.splits prod.splits split del: if_split)

lemma NewSegment_via:
  assumes "do_call sys (SysMkdirAll dir) os = (None, os1)" and "open_mapped sys (log_path dir base) maxB os1 = (r, os2)"
  shows "r = None \<Longrightarrow> \<exists>e. NewSegment sys dir base maxB interval os = Some (Inl e, os2)"
    and "r = Some (fd, sz, mh) \<Longrightarrow> NewSegment sys dir base maxB interval os =
      (if interval = 0 then None
       else case OpenSparseIndex sys (index_path dir base) (maxB div unat interval + 16) os2 of
           (Inl e, os) \<Rightarrow> Some (Inl (SegIndex e), snd (snd (mmap_Close sys mh os)))
         | (Inr idx, os) \<Rightarrow> do {
             seg \<leftarrow> recover_segment
               \<lparr>baseOffset = base, nextOffset = base, logFile = fd, seg_mmap = mh,
                seg_index = idx, writePos = 0, maxBytes = maxB, lastIndexByte = 0,
                indexInterval = interval, seg_isClosed = False, logPath = log_path dir base,
                indexPath = index_path dir base\<rparr> os;
             Some (Inr seg, os)
           })"
proof -
  assume "r = None"
  then show "\<exists>e. NewSegment sys dir base maxB interval os = Some (Inl e, os2)"
    using assms by (auto simp: NewSegment_def open_mapped_def Let_def split: sum.splits option.splits prod.splits split del: if_split)
next
  assume "r = Some (fd, sz, mh)"
  then have "open_mapped sys (log_path dir base) maxB os1 = (Some (fd, sz, mh), os2)" using assms(2) by simp
  then show "NewSegment sys dir base maxB interval os =
      (if interval = 0 then None
       else case OpenSparseIndex sys (index_path dir base) (maxB div unat interval + 16) os2 of
           (Inl e, os) \<Rightarrow> Some (Inl (SegIndex e), snd (snd (mmap_Close sys mh os)))
         | (Inr idx, os) \<Rightarrow> do {
             seg \<leftarrow> recover_segment
               \<lparr>baseOffset = base, nextOffset = base, logFile = fd, seg_mmap = mh,
                seg_index = idx, writePos = 0, maxBytes = maxB, lastIndexByte = 0,
                indexInterval = interval, seg_isClosed = False, logPath = log_path dir base,
                indexPath = index_path dir base\<rparr> os;
             Some (Inr seg, os)
           })"
    using assms(1) by (elim open_mapped_Some) (simp add: NewSegment_def Let_def)
qed


lemma own_fd_extend: "outside ps' os os' \<Longrightarrow> own_fd ps os0 os fd \<Longrightarrow> own_fd ps os0 os' fd"
  by (auto simp: outside_def fds_extend_def own_fd_def fd_path_def nth_append)

lemma outside_trans: "outside ps a b \<Longrightarrow> outside ps b c \<Longrightarrow> outside ps a c"
  by (auto simp: outside_def fds_extend_def)

text \<open>Either an error, with nothing touched but the own files, or the run of a faultless system.\<close>

lemma OpenSparseIndex_faults:
  assumes "p \<in> ps"
  shows "outside ps os (snd (OpenSparseIndex sys p n os)) \<and>
    ((\<exists>e. fst (OpenSparseIndex sys p n os) = Inl e) \<or> OpenSparseIndex sys p n os = OpenSparseIndex faultless p n os)"
proof (cases "do_call sys (SysMkdirAll (fst p)) os")
  case (Pair r os1)
  have out1: "outside ps os os1" using Pair by (auto simp: do_call_def)
  show ?thesis
  proof (cases r)
    case None
    obtain x os2 where om: "open_mapped sys p (n * IndexEntrySize) os1 = (x, os2)" by fastforce
    note out2 = open_mapped_outside [OF out1 assms om]
    note call = Pair [unfolded None]
    show ?thesis
    proof (cases x)
      case None
      obtain e where "OpenSparseIndex sys p n os = (Inl e, os2)" using OpenSparseIndex_via(1) [OF call om None] ..
      with out2(1) show ?thesis by simp
    next
      case (Some y)
      then obtain fd sz m where x: "x = Some (fd, sz, m)" by (cases y) auto
      with out2(2) [OF x] have "open_mapped faultless p (n * IndexEntrySize) os1 = (x, os2)" by simp
      from OpenSparseIndex_via(2) [OF luck_do_call [OF call] this x] OpenSparseIndex_via(2) [OF call om x] out2(1)
      show ?thesis by simp
    qed
  next
    case (Some e)
    with Pair out1 show ?thesis by (simp add: OpenSparseIndex_def)
  qed
qed

lemma NewSegment_faults:
  assumes "{log_path dir base, index_path dir base} \<subseteq> ps"
  shows "(\<exists>e os'. NewSegment sys dir base maxB interval os = Some (Inl e, os') \<and> outside ps os os') \<or>
    NewSegment sys dir base maxB interval os = NewSegment faultless dir base maxB interval os"
proof (cases "do_call sys (SysMkdirAll dir) os")
  case (Pair r os1)
  have out1: "outside ps os os1" using Pair by (auto simp: do_call_def)
  show ?thesis
  proof (cases r)
    case None
    obtain x os2 where om: "open_mapped sys (log_path dir base) maxB os1 = (x, os2)" by fastforce
    have "log_path dir base \<in> ps" using assms by simp
    note out2 = open_mapped_outside [OF out1 this om]
    note call = Pair [unfolded None]
    show ?thesis
    proof (cases x)
      case None
      with NewSegment_via(1) [OF call om None] out2(1) show ?thesis by metis
    next
      case (Some y)
      then obtain fd sz mh where x: "x = Some (fd, sz, mh)" by (cases y) auto
      with out2(2) [OF x] have luck: "open_mapped faultless (log_path dir base) maxB os1 = (x, os2)"
        and own: "own_fd ps os os2 (mh_file mh)" by simp_all
      note via = NewSegment_via(2) [OF call om x] NewSegment_via(2) [OF luck_do_call [OF call] luck x]
      have idx: "outside ps os2 (snd (OpenSparseIndex sys (index_path dir base) (maxB div unat interval + 16) os2))"
        "(\<exists>e. fst (OpenSparseIndex sys (index_path dir base) (maxB div unat interval + 16) os2) = Inl e) \<or>
          OpenSparseIndex sys (index_path dir base) (maxB div unat interval + 16) os2 =
          OpenSparseIndex faultless (index_path dir base) (maxB div unat interval + 16) os2"
        using OpenSparseIndex_faults [of "index_path dir base" ps os2] assms by simp_all
      obtain ri os3 where ri: "OpenSparseIndex sys (index_path dir base) (maxB div unat interval + 16) os2 = (ri, os3)"
        by fastforce
      have close: "outside ps os (snd (snd (mmap_Close sys mh os3)))"
        using outside_trans [OF out2(1), of os3] own_fd_extend [of ps os2 os3, OF _ own] idx(1) ri
        by (intro outside_mmap_Close) simp_all
      show ?thesis
      proof (cases "interval \<noteq> 0 \<and> (\<exists>e. ri = Inl e)")
        case True
        then show ?thesis using via(1) ri close by auto
      next
        case False
        then have "interval = 0 \<or> (\<exists>idx. ri = Inr idx \<and>
            OpenSparseIndex faultless (index_path dir base) (maxB div unat interval + 16) os2 = (ri, os3))"
          using idx(2) ri by (cases ri) auto
        then have "NewSegment sys dir base maxB interval os = NewSegment faultless dir base maxB interval os"
          unfolding via ri by (elim disjE exE) simp_all
        then show ?thesis ..
      qed
    qed
  next
    case (Some e)
    with Pair out1 show ?thesis by (simp add: NewSegment_def)
  qed
qed


section \<open>Appending when anything may fail\<close>

lemma holds_read_same:
  assumes "holds cfg os s b rs" and "holds cfg os2 s b rs"
  shows "Segment_ReadAt off s os2 = Segment_ReadAt off s os"
proof -
  have ok: "seg_ok s os rs (zeros_after (MaxSegmentBytes cfg) rs)" "seg_ok s os2 rs (zeros_after (MaxSegmentBytes cfg) rs)"
    using assms by (simp_all add: holds_def)
  show ?thesis
  proof (cases "unat off < unat (baseOffset s) \<or> unat (baseOffset s) + length rs \<le> unat off")
    case True
    then show ?thesis using Segment_ReadAt_outside [OF ok(1)] Segment_ReadAt_outside [OF ok(2)] by simp
  next
    case False
    define i where "i = unat off - unat (baseOffset s)"
    have i: "i < length rs" and "unat off = unat (baseOffset s) + i" using False unfolding i_def by linarith+
    then have "unat off = unat (baseOffset s + word_of_nat i)"
      using ok(1) numbered_unat [of "baseOffset s" rs i] by (simp add: seg_ok_def)
    then have "off = baseOffset s + word_of_nat i" by (simp add: word_unat_eq_iff)
    then show ?thesis using Segment_ReadAt_ok [OF ok(1) i] Segment_ReadAt_ok [OF ok(2) i] by simp
  qed
qed

lemma read_closed_same:
  "\<forall>i \<in> set ids. Segment_ReadAt off (heap ! i) os2 = Segment_ReadAt off (heap ! i) os \<Longrightarrow>
    read_closed off heap ids os2 = read_closed off heap ids os"
  by (induction ids) simp_all

lemma failed_roll_reads:
  assumes rel: "wal_rel w os cl ac" and "ac \<noteq> []" and "os_same os os1"
    and out: "outside {log_path (DataDir (wal_cfg w)) (wal_nextOffset w), index_path (DataDir (wal_cfg w)) (wal_nextOffset w)} os1 os2"
  shows "WAL_ReadAt off (w\<lparr>closedSegments := closedSegments w @ [activeSegment w]\<rparr>) os2 = WAL_ReadAt off w os"
proof -
  let ?b = "wal_nextOffset w"
  have ch: "chunks_ok (cl @ [ac]) []" and b: "?b = base_at (cl @ [ac]) (Suc (length cl))"
    using rel assms(2) by (simp_all add: wal_rel_def chunks_ok_def)
  have keep: "\<forall>q. q \<notin> {log_path (DataDir (wal_cfg w)) ?b, index_path (DataDir (wal_cfg w)) ?b} \<longrightarrow> files os2 q = files os1 q"
    and ext: "fds_extend os os2"
    using out assms(3) unfolding outside_def os_same_def fds_extend_def by (blast, simp)
  have same: "Segment_ReadAt off t os2 = Segment_ReadAt off t os"
    if j: "j \<le> length cl" and t: "holds (wal_cfg w) os t (base_at cl j) rs" for t j rs
  proof -
    have "base_at cl j \<noteq> ?b" using base_at_inj [OF ch, of j "Suc (length cl)"] j by (auto simp: b)
    then have "holds (wal_cfg w) os2 t (base_at cl j) rs"
      using keep assms(3) by (intro holds_same [OF t ext]) (simp_all add: keep [rule_format] os_same_def)
    with t show ?thesis by (rule holds_read_same)
  qed
  have "Segment_ReadAt off (segs w ! i) os2 = Segment_ReadAt off (segs w ! i) os" if "i \<in> set (closedSegments w)" for i
  proof -
    have "length (closedSegments w) = length cl" using rel by (simp add: wal_rel_def)
    with that obtain j where "j < length cl" "i = closedSegments w ! j" by (auto simp: in_set_conv_nth)
    then show ?thesis using same [of j "segs w ! i" "cl ! j"] rel by (simp add: wal_rel_def)
  qed
  moreover have "Segment_ReadAt off (segs w ! activeSegment w) os2 = Segment_ReadAt off (segs w ! activeSegment w) os"
    using same [of "length cl" "segs w ! activeSegment w" ac] rel by (simp add: wal_rel_def)
  ultimately show ?thesis
    using read_closed_same [of "rev (closedSegments w)" off "segs w" os2 os] by (simp add: WAL_ReadAt_def)
qed

text \<open>The end of an append, once there is room: it cannot fail, and whether the sync fails is ignored.\<close>

lemma WAL_Append_end:
  assumes rel: "wal_rel w1 os1 cl ac" and fits: "payload_fits p" and "\<not> wal_isClosed w"
    and room: "length (frames ac) + (17 + length p) \<le> MaxSegmentBytes (wal_cfg w1)"
    and count: "length (concat cl) + length ac + 1 < 2 ^ 63"
    and pick: "(if unat (writePos (segs w ! activeSegment w) + word_of_nat (HeaderSize + length p)) > MaxSegmentBytes (wal_cfg w)
      then rollActiveSegment sys w os else Some (None, w, os)) = Some (None, w1, os1)"
    and nxt: "wal_nextOffset w1 = wal_nextOffset w"
  shows "\<exists>w' os'. WAL_Append sys p w os = Some (Inr (wal_nextOffset w), w', os') \<and>
    wal_ok w' os' (map snd (concat cl @ ac) @ [p])"
proof -
  obtain seg' os2 where
    run: "Segment_Append (wal_nextOffset w1) p (segs w1 ! activeSegment w1) os1 =
      Some (Inr (writePos (segs w1 ! activeSegment w1)), seg', os2)"
    and rel2: "wal_rel (w1\<lparr>segs := (segs w1)[activeSegment w1 := seg'], wal_nextOffset := wal_nextOffset w1 + 1\<rparr>) os2
      cl (ac @ [(wal_nextOffset w1, p)])"
    and link: "index_linked (seg_index seg')"
    by (rule append_active [OF rel fits room count])
  define w2 where "w2 = w1\<lparr>segs := (segs w1)[activeSegment w1 := seg'], wal_nextOffset := wal_nextOffset w + 1\<rparr>"
  obtain err os3 where flush: "Segment_Flush sys seg' os2 = Some (err, os3)" and same: "os_same os2 os3"
    by (rule Segment_Flush_ok [OF link, of sys os2]) (simp add: os_same_def)
  have "activeSegment w1 < length (segs w1)" using rel by (simp add: wal_rel_def)
  with assms(3) flush pick run nxt have "WAL_Append sys p w os =
      Some (Inr (wal_nextOffset w), w2, if SyncOnWrite (wal_cfg w1) then os3 else os2)"
    by (simp add: WAL_Append_def Let_def w2_def)
  moreover have "wal_rel w2 (if SyncOnWrite (wal_cfg w1) then os3 else os2) cl (ac @ [(wal_nextOffset w, p)])"
    using rel2 wal_rel_same [OF rel2 same] by (simp add: w2_def nxt)
  then have "wal_ok w2 (if SyncOnWrite (wal_cfg w1) then os3 else os2) (map snd (concat cl @ ac) @ [p])"
    unfolding wal_ok_def by (intro exI conjI) (assumption, simp)
  ultimately show ?thesis by blast
qed


text \<open>C9. An append survives any failing system calls: whatever calls of the operating system fail,
  an append of a payload that fits returns; either it returns the next offset and the log has
  grown by the payload, or it returns an error and every offset reads exactly as before, and the
  next offset is the same. Neither the failing of a new segment half way nor of a sync loses a
  record.\<close>

theorem append_any_faults:
  assumes "wal_ok w os log" and "payload_fits p" and "17 + length p \<le> MaxSegmentBytes (wal_cfg w)"
    and "length log + 1 < 2 ^ 63"
  shows "\<exists>r w' os'. WAL_Append sys p w os = Some (r, w', os') \<and>
    (case r of
       Inr off \<Rightarrow> off = word_of_nat (length log) \<and> wal_ok w' os' (log @ [p])
     | Inl e \<Rightarrow> (\<forall>off. WAL_ReadAt off w' os' = WAL_ReadAt off w os) \<and> LatestOffset w' = LatestOffset w)"
proof -
  obtain cl ac where rel: "wal_rel w os cl ac" and log: "log = map snd (concat cl @ ac)"
    using assms(1) by (auto simp: wal_ok_def)
  have nxt: "wal_nextOffset w = word_of_nat (length log)" and opened: "\<not> wal_isClosed w"
    and count: "length (concat cl) + length ac + 1 < 2 ^ 63"
    and act: "seg_ok (segs w ! activeSegment w) os ac (zeros_after (MaxSegmentBytes (wal_cfg w)) ac)"
    using rel log assms(4) by (simp_all add: wal_rel_def holds_def)
  let ?s = "segs w ! activeSegment w" and ?len = "word_of_nat (HeaderSize + length p) :: u32"
  have wp: "unat (writePos ?s + ?len) = length (frames ac) + (17 + length p)"
    by (rule append_position [OF act _ assms(2)]) (use rel in \<open>simp add: wal_rel_def holds_def seg_named_def\<close>)
  show ?thesis
  proof (cases "MaxSegmentBytes (wal_cfg w) < unat (writePos ?s + ?len)")
    case False
    have "\<exists>w' os'. WAL_Append sys p w os = Some (Inr (wal_nextOffset w), w', os') \<and>
        wal_ok w' os' (map snd (concat cl @ ac) @ [p])"
      by (rule WAL_Append_end [OF rel assms(2) opened _ count]) (use False wp in simp_all)
    then show ?thesis using log nxt by auto
  next
    case True
    with wp assms(3) have ac: "ac \<noteq> []" by auto
    obtain err os1 where flush: "Segment_Flush sys ?s os = Some (err, os1)" and same: "os_same os os1"
      by (rule Segment_Flush_ok [of ?s sys os]) (use rel holds_linked in \<open>auto simp: wal_rel_def os_same_def\<close>)
    show ?thesis
    proof (rule disjE [OF NewSegment_faults [OF order_refl]])
      assume "\<exists>e os2. NewSegment sys (DataDir (wal_cfg w)) (wal_nextOffset w) (MaxSegmentBytes (wal_cfg w))
          (IndexIntervalBytes (wal_cfg w)) os1 = Some (Inl e, os2) \<and>
        outside {log_path (DataDir (wal_cfg w)) (wal_nextOffset w), index_path (DataDir (wal_cfg w)) (wal_nextOffset w)} os1 os2"
      then show ?thesis
        using flush True opened failed_roll_reads [OF rel ac same]
        by (auto simp: WAL_Append_def rollActiveSegment_def LatestOffset_def Let_def)
    next
      assume luck: "NewSegment sys (DataDir (wal_cfg w)) (wal_nextOffset w) (MaxSegmentBytes (wal_cfg w))
          (IndexIntervalBytes (wal_cfg w)) os1 = NewSegment faultless (DataDir (wal_cfg w)) (wal_nextOffset w)
          (MaxSegmentBytes (wal_cfg w)) (IndexIntervalBytes (wal_cfg w)) os1"
      obtain s os2 where new: "NewSegment faultless (DataDir (wal_cfg w)) (wal_nextOffset w) (MaxSegmentBytes (wal_cfg w))
          (IndexIntervalBytes (wal_cfg w)) os1 = Some (Inr s, os2)" and rel2: "wal_rel (rolled s w) os2 (cl @ [ac]) []"
        by (rule roll_new [OF no_faults_faultless rel ac same], drule (2) roll_rel [OF rel ac])
      have "\<exists>w' os'. WAL_Append sys p w os = Some (Inr (wal_nextOffset w), w', os') \<and>
          wal_ok w' os' (map snd (concat (cl @ [ac]) @ []) @ [p])"
        by (rule WAL_Append_end [OF rel2 assms(2) opened])
          (use True assms(3) count flush luck new in \<open>simp_all add: rollActiveSegment_def rolled_def\<close>)
      then show ?thesis using log nxt by auto
    qed
  qed
qed



text \<open>Every call fails after the log was opened.\<close>

lemma append_any_faults_witness:
  "\<exists>w os r w' os'. OpenWAL faultless small_cfg empty_os = Some (Inr w, os) \<and>
     WAL_Append (\<lambda>n c. Some (SysError ''disk'')) [1, 2, 3] w os = Some (r, w', os') \<and>
     (case r of
        Inr off \<Rightarrow> off = 0 \<and> wal_ok w' os' [[1, 2, 3]]
      | Inl e \<Rightarrow> (\<forall>off. WAL_ReadAt off w' os' = WAL_ReadAt off w os) \<and> LatestOffset w' = LatestOffset w)"
proof -
  have cfg: "cfg_ok small_cfg" and dir: "wal_dir empty_os (DataDir small_cfg) []"
    by (simp_all add: cfg_ok_def small_cfg_def size_ok_def max_frame_def wal_dir_def log_bases_def empty_os_def)
  obtain w os where opened: "OpenWAL faultless small_cfg empty_os = Some (Inr w, os)" and rel: "wal_rel w os [] []"
    and "wal_cfg w = small_cfg"
    by (rule OpenWAL_fresh [OF no_faults_faultless cfg dir])
  moreover have "wal_ok w os []" using rel by (auto simp: wal_ok_def)
  ultimately obtain r w' os' where "WAL_Append (\<lambda>n c. Some (SysError ''disk'')) [1, 2, 3] w os = Some (r, w', os')"
    "case r of Inr off \<Rightarrow> off = word_of_nat (length ([] :: byte list list)) \<and> wal_ok w' os' ([] @ [[1, 2, 3]])
      | Inl e \<Rightarrow> (\<forall>off. WAL_ReadAt off w' os' = WAL_ReadAt off w os) \<and> LatestOffset w' = LatestOffset w"
    using append_any_faults [of w os "[]" "[1, 2, 3]" "\<lambda>n c. Some (SysError ''disk'')"] by (auto simp: small_cfg_def)
  then show ?thesis using opened by (cases r) auto
qed

end
