(* ===== verification/Consumer.thy ===== *)
theory Consumer
  imports Mmap "HOL-Library.Multiset"
begin

text \<open>
  The consumer group coordinator of \<open>consumer/group_coordinator.go\<close>: groups and their members,
  the assignment of partitions, heartbeats and eviction, and the offsets committed to a file of
  JSON lines that is replayed on start. The codec \<open>encoding/json\<close> is a parameter (\<open>marshal\<close>,
  \<open>unmarshal\<close>); the buffered writer and the line scanner of \<open>bufio\<close> are modelled. Times are
  nanoseconds; reading the clock is the argument \<open>now\<close>.
\<close>

section \<open>Data\<close>

datatype coord_error =
    ErrGroupNotFound | ErrMemberNotFound | ErrNoOffsetSaved
  | CoordMkdir os_error | CoordOpen os_error | CoordReopen os_error | CoordRead os_error | ErrTooLong
  | CoordMarshal | CoordWrite os_error | CoordSync os_error | CoordClose os_error

record OffsetRecord =
  rec_GroupID :: string
  rec_Partition :: string
  rec_Offset :: u64
  rec_Timestamp :: int

record GroupMember =
  member_ID :: string
  AssignedParts :: "string list"
  LastHeartbeat :: int

record ConsumerGroup =
  group_ID :: string
  Members :: "string \<rightharpoonup> GroupMember"
  Offsets :: "string \<rightharpoonup> u64"
  Generation :: u64

record bufio_Writer =
  wr_buf :: "byte list"
  wr_err :: "os_error option"

record Coordinator =
  dataDir :: string
  offsetFile :: nat
  offsetWriter :: bufio_Writer
  groups :: "string \<rightharpoonup> ConsumerGroup"
  sessionTimeout :: int
  stopped :: bool

definition new_group :: "string \<Rightarrow> ConsumerGroup" where
  "new_group gid = \<lparr>group_ID = gid, Members = Map.empty, Offsets = Map.empty, Generation = 0\<rparr>"

text \<open>The group, created when it does not exist.\<close>

definition group_of :: "(string \<rightharpoonup> ConsumerGroup) \<Rightarrow> string \<Rightarrow> ConsumerGroup" where
  "group_of gs gid = (case gs gid of Some g \<Rightarrow> g | None \<Rightarrow> new_group gid)"

definition offset_path :: "string \<Rightarrow> path" where
  "offset_path dir = (dir, ''offsets.checkpoint'')"

section \<open>Buffered writing and scanning lines\<close>

definition newline :: byte where
  "newline = 10"

text \<open>The file is opened with \<open>O_APPEND\<close>; a failing write may leave a part of the bytes.\<close>

definition File_Write :: "sys \<Rightarrow> nat \<Rightarrow> byte list \<Rightarrow> OS \<Rightarrow> nat \<times> os_error option \<times> OS" where
  "File_Write sys fd bs os =
    (if \<not> fd_open os fd then (0, Some FileClosed, os)
     else
       (let p = fd_path os fd;
            (err, os) = do_call sys (SysWrite p (length bs)) os;
            n = (case err of None \<Rightarrow> length bs | Some (PartialWrite k) \<Rightarrow> min k (length bs) | Some _ \<Rightarrow> 0)
        in (n, err, os\<lparr>files := (files os)(p \<mapsto> file_bytes os p @ take n bs)\<rparr>)))"

definition bufio_size :: nat where
  "bufio_size = 4096"

text \<open>An error of the writer sticks: every later write and flush returns it.\<close>

definition bufio_Flush :: "sys \<Rightarrow> nat \<Rightarrow> bufio_Writer \<Rightarrow> OS \<Rightarrow> os_error option \<times> bufio_Writer \<times> OS" where
  "bufio_Flush sys fd w os =
    (if wr_err w \<noteq> None then (wr_err w, w, os)
     else if wr_buf w = [] then (None, w, os)
     else case File_Write sys fd (wr_buf w) os of
         (n, err, os) \<Rightarrow> (err, \<lparr>wr_buf = drop n (wr_buf w), wr_err = err\<rparr>, os))"

definition bufio_Write :: "sys \<Rightarrow> nat \<Rightarrow> byte list \<Rightarrow> bufio_Writer \<Rightarrow> OS \<Rightarrow> os_error option \<times> bufio_Writer \<times> OS" where
  "bufio_Write sys fd p w os =
    (if wr_err w \<noteq> None then (wr_err w, w, os)
     else
       (let avail = bufio_size - length (wr_buf w) in
        if length p \<le> avail then (None, w\<lparr>wr_buf := wr_buf w @ p\<rparr>, os)
        else
          (let (err, w, os, p) =
                 (if wr_buf w = [] then (None, w, os, p)
                  else case bufio_Flush sys fd (w\<lparr>wr_buf := wr_buf w @ take avail p\<rparr>) os of
                      (err, w, os) \<Rightarrow> (err, w, os, drop avail p))
           in if err \<noteq> None then (err, w, os)
              else if length p \<le> bufio_size then (None, w\<lparr>wr_buf := p\<rparr>, os)
              else case File_Write sys fd p os of (n, err, os) \<Rightarrow> (err, w\<lparr>wr_err := err\<rparr>, os))))"

text \<open>
  \<open>bufio.Scanner\<close> with \<open>ScanLines\<close>: the lines, without a carriage return at their end, and whether
  the scan ended at a line that does not fit the buffer of 64 KiB with its newline.
\<close>

definition MaxScanTokenSize :: nat where
  "MaxScanTokenSize = 64 * 1024"

definition dropCR :: "byte list \<Rightarrow> byte list" where
  "dropCR l = (if l \<noteq> [] \<and> last l = 13 then butlast l else l)"

function scan_lines :: "byte list \<Rightarrow> byte list list \<times> bool" where
  "scan_lines bs =
    (if bs = [] then ([], False)
     else
       (let line = takeWhile (\<lambda>b. b \<noteq> newline) bs in
        if MaxScanTokenSize \<le> length line then ([], True)
        else case scan_lines (drop (Suc (length line)) bs) of
            (ls, tooLong) \<Rightarrow> (dropCR line # ls, tooLong)))"
  by pat_completeness auto
termination
  by (relation "measure length") auto

declare scan_lines.simps [simp del]

section \<open>The coordinator\<close>

text \<open>One line of \<open>recoverOffsets\<close>: an empty line and one that does not parse are skipped.\<close>

type_synonym unmarshal = "byte list \<Rightarrow> OffsetRecord option"
type_synonym marshal = "OffsetRecord \<Rightarrow> byte list option"

definition recover_line :: "unmarshal \<Rightarrow> (string \<rightharpoonup> ConsumerGroup) \<Rightarrow> byte list \<Rightarrow> (string \<rightharpoonup> ConsumerGroup)" where
  "recover_line unmarshal gs line =
    (if line = [] then gs
     else case unmarshal line of
         None \<Rightarrow> gs
       | Some rec \<Rightarrow>
           (let g = group_of gs (rec_GroupID rec)
            in gs(rec_GroupID rec \<mapsto> g\<lparr>Offsets := (Offsets g)(rec_Partition rec \<mapsto> rec_Offset rec)\<rparr>)))"

definition recoverOffsets ::
  "sys \<Rightarrow> unmarshal \<Rightarrow> path \<Rightarrow> OS \<Rightarrow> (coord_error + (string \<rightharpoonup> ConsumerGroup)) \<times> OS" where
  "recoverOffsets sys unmarshal p os =
    (case do_call sys (SysOpen p) os of
       (Some e, os) \<Rightarrow> (Inl (CoordReopen e), os)
     | (None, os) \<Rightarrow>
         (case do_call sys (SysRead p) os of
            (Some e, os) \<Rightarrow> (Inl (CoordRead e), snd (do_call sys (SysClose p) os))
          | (None, os) \<Rightarrow>
              (case scan_lines (file_bytes os p) of
                 (ls, tooLong) \<Rightarrow>
                   (if tooLong then Inl ErrTooLong else Inr (foldl (recover_line unmarshal) Map.empty ls),
                    snd (do_call sys (SysClose p) os)))))"

definition NewCoordinator ::
  "sys \<Rightarrow> unmarshal \<Rightarrow> string \<Rightarrow> int \<Rightarrow> OS \<Rightarrow> (coord_error + Coordinator) \<times> OS" where
  "NewCoordinator sys unmarshal dir timeout os =
    (let timeout = (if timeout = 0 then 5 * 1000000000 else timeout) in
     case do_call sys (SysMkdirAll dir) os of
       (Some e, os) \<Rightarrow> (Inl (CoordMkdir e), os)
     | (None, os) \<Rightarrow>
         (case OpenFile sys (offset_path dir) os of
            (Inl e, os) \<Rightarrow> (Inl (CoordOpen e), os)
          | (Inr file, os) \<Rightarrow>
              (case recoverOffsets sys unmarshal (offset_path dir) os of
                 (Inl e, os) \<Rightarrow> (Inl e, snd (File_Close sys file os))
               | (Inr gs, os) \<Rightarrow>
                   (Inr \<lparr>dataDir = dir, offsetFile = file, offsetWriter = \<lparr>wr_buf = [], wr_err = None\<rparr>,
                         groups = gs, sessionTimeout = timeout, stopped = False\<rparr>, os))))"

text \<open>
  \<open>rebalanceGroup\<close>: the members in the order of their ids, partition \<open>i\<close> to member \<open>i\<close> modulo their
  number. Ranging over the map and sorting the ids is \<open>sorted_list_of_set\<close>.
\<close>

definition assign :: "string \<Rightarrow> string \<Rightarrow> (string \<rightharpoonup> GroupMember) \<Rightarrow> (string \<rightharpoonup> GroupMember)" where
  "assign mid part ms = (case ms mid of
     Some m \<Rightarrow> ms(mid \<mapsto> m\<lparr>AssignedParts := AssignedParts m @ [part]\<rparr>) | None \<Rightarrow> ms)"

fun assign_loop :: "string list \<Rightarrow> nat \<Rightarrow> string list \<Rightarrow> (string \<rightharpoonup> GroupMember) \<Rightarrow> (string \<rightharpoonup> GroupMember)" where
  "assign_loop memberIDs i [] ms = ms"
| "assign_loop memberIDs i (part # parts) ms =
    assign_loop memberIDs (Suc i) parts (assign (memberIDs ! (i mod length memberIDs)) part ms)"

definition rebalanceGroup :: "string list \<Rightarrow> ConsumerGroup \<Rightarrow> ConsumerGroup" where
  "rebalanceGroup partitions g =
    (if dom (Members g) = {} then g
     else
       (let memberIDs = sorted_list_of_set (dom (Members g));
            cleared = (\<lambda>mid. map_option (\<lambda>m. m\<lparr>AssignedParts := []\<rparr>) (Members g mid))
        in g\<lparr>Members := assign_loop memberIDs 0 partitions cleared\<rparr>))"

definition JoinGroup :: "int \<Rightarrow> string \<Rightarrow> string \<Rightarrow> string list \<Rightarrow> Coordinator \<Rightarrow> string list \<times> Coordinator" where
  "JoinGroup now gid mid partitions c =
    (let g = group_of (groups c) gid;
         g = g\<lparr>Members := (Members g)(mid \<mapsto> \<lparr>member_ID = mid, AssignedParts = [], LastHeartbeat = now\<rparr>)\<rparr>;
         g = g\<lparr>Generation := Generation g + 1\<rparr>;
         g = rebalanceGroup partitions g
     in (AssignedParts (the (Members g mid)), c\<lparr>groups := (groups c)(gid \<mapsto> g)\<rparr>))"

definition LeaveGroup :: "string \<Rightarrow> string \<Rightarrow> string list \<Rightarrow> Coordinator \<Rightarrow> coord_error option \<times> Coordinator" where
  "LeaveGroup gid mid partitions c =
    (case groups c gid of
       None \<Rightarrow> (Some ErrGroupNotFound, c)
     | Some g \<Rightarrow>
         (let g = g\<lparr>Members := (Members g)(mid := None), Generation := Generation g + 1\<rparr>;
              g = rebalanceGroup partitions g
          in (None, c\<lparr>groups := (groups c)(gid \<mapsto> g)\<rparr>)))"

definition Heartbeat :: "int \<Rightarrow> string \<Rightarrow> string \<Rightarrow> Coordinator \<Rightarrow> coord_error option \<times> Coordinator" where
  "Heartbeat now gid mid c =
    (case groups c gid of
       None \<Rightarrow> (Some ErrGroupNotFound, c)
     | Some g \<Rightarrow>
         (case Members g mid of
            None \<Rightarrow> (Some ErrMemberNotFound, c)
          | Some m \<Rightarrow>
              (None, c\<lparr>groups := (groups c)(gid \<mapsto>
                 g\<lparr>Members := (Members g)(mid \<mapsto> m\<lparr>LastHeartbeat := now\<rparr>)\<rparr>)\<rparr>)))"

definition CommitOffset ::
  "sys \<Rightarrow> marshal \<Rightarrow> int \<Rightarrow> string \<Rightarrow> string \<Rightarrow> u64 \<Rightarrow> Coordinator \<Rightarrow> OS \<Rightarrow> coord_error option \<times> Coordinator \<times> OS" where
  "CommitOffset sys marshal now gid part offset c os =
    (let g = group_of (groups c) gid;
         c = c\<lparr>groups := (groups c)(gid \<mapsto> g)\<rparr>
     in case marshal \<lparr>rec_GroupID = gid, rec_Partition = part, rec_Offset = offset, rec_Timestamp = now\<rparr> of
          None \<Rightarrow> (Some CoordMarshal, c, os)
        | Some line \<Rightarrow>
            (case bufio_Write sys (offsetFile c) (line @ [newline]) (offsetWriter c) os of
               (Some e, w, os) \<Rightarrow> (Some (CoordWrite e), c\<lparr>offsetWriter := w\<rparr>, os)
             | (None, w, os) \<Rightarrow>
                 (case bufio_Flush sys (offsetFile c) w os of
                    (Some e, w, os) \<Rightarrow> (Some (CoordWrite e), c\<lparr>offsetWriter := w\<rparr>, os)
                  | (None, w, os) \<Rightarrow>
                      (let c = c\<lparr>offsetWriter := w\<rparr> in
                       if \<not> fd_open os (offsetFile c) then (Some (CoordSync FileClosed), c, os)
                       else case do_call sys (SysSync (fd_path os (offsetFile c))) os of
                           (Some e, os) \<Rightarrow> (Some (CoordSync e), c, os)
                         | (None, os) \<Rightarrow>
                             (None, c\<lparr>groups := (groups c)(gid \<mapsto> g\<lparr>Offsets := (Offsets g)(part \<mapsto> offset)\<rparr>)\<rparr>, os)))))"

definition FetchOffset :: "string \<Rightarrow> string \<Rightarrow> Coordinator \<Rightarrow> coord_error + u64" where
  "FetchOffset gid part c =
    (case groups c gid of
       None \<Rightarrow> Inl ErrGroupNotFound
     | Some g \<Rightarrow> (case Offsets g part of None \<Rightarrow> Inl ErrNoOffsetSaved | Some offset \<Rightarrow> Inr offset))"

text \<open>One tick of the eviction loop.\<close>

definition evict :: "int \<Rightarrow> int \<Rightarrow> ConsumerGroup \<Rightarrow> ConsumerGroup" where
  "evict now timeout g =
    (let kept = (\<lambda>mid. case Members g mid of
           Some m \<Rightarrow> (if now - LastHeartbeat m > timeout then None else Some m) | None \<Rightarrow> None);
         evicted = (\<exists>mid \<in> dom (Members g). kept mid = None)
     in g\<lparr>Members := kept, Generation := (if evicted then Generation g + 1 else Generation g)\<rparr>)"

definition rebalanceEvictionLoop_tick :: "int \<Rightarrow> Coordinator \<Rightarrow> Coordinator" where
  "rebalanceEvictionLoop_tick now c =
    (if stopped c then c
     else c\<lparr>groups := (\<lambda>gid. map_option (evict now (sessionTimeout c)) (groups c gid))\<rparr>)"

text \<open>\<open>None\<close> is the panic of closing the channel \<open>stopCh\<close> twice.\<close>

definition Coordinator_Close :: "sys \<Rightarrow> Coordinator \<Rightarrow> OS \<Rightarrow> (os_error option \<times> Coordinator \<times> OS) option" where
  "Coordinator_Close sys c os =
    (if stopped c then None
     else case bufio_Flush sys (offsetFile c) (offsetWriter c) os of
         (_, w, os) \<Rightarrow>
           (case File_Close sys (offsetFile c) os of
              (err, os) \<Rightarrow> Some (err, c\<lparr>stopped := True, offsetWriter := w\<rparr>, os)))"

section \<open>Assignment\<close>

text \<open>The partitions dealt to the \<open>j\<close>-th of \<open>n\<close> members.\<close>

definition dealt :: "nat \<Rightarrow> nat \<Rightarrow> 'a list \<Rightarrow> 'a list" where
  "dealt n j parts = map ((!) parts) (filter (\<lambda>i. i mod n = j) [0..<length parts])"

lemma dealt_snoc: "dealt n j (parts @ [p]) = dealt n j parts @ (if length parts mod n = j then [p] else [])"
  by (auto simp: dealt_def nth_append intro!: map_cong)

lemma dealt_Nil [simp]: "dealt n j [] = []"
  by (simp add: dealt_def)

lemma assign_loop_append:
  "assign_loop ids i (ps @ qs) ms = assign_loop ids (i + length ps) qs (assign_loop ids i ps ms)"
  by (induction ps arbitrary: i ms) simp_all

lemma assign_other: "mid' \<noteq> mid \<Longrightarrow> assign mid p ms mid' = ms mid'"
  by (simp add: assign_def split: option.split)

lemma assign_loop_dealt:
  assumes "distinct ids" and "set ids \<subseteq> dom ms" and "j < length ids" and "ms (ids ! j) = Some m"
  shows "assign_loop ids 0 parts ms (ids ! j) =
    Some (m\<lparr>AssignedParts := AssignedParts m @ dealt (length ids) j parts\<rparr>)"
proof (induction parts rule: rev_induct)
  case (snoc p parts)
  let ?k = "length parts mod length ids"
  have "0 < length ids" using assms(3) by linarith
  then have k: "?k < length ids" by (rule mod_less_divisor)
  show ?case
  proof (cases "?k = j")
    case True
    then show ?thesis using snoc by (simp add: assign_loop_append assign_def dealt_snoc)
  next
    case False
    then have "ids ! j \<noteq> ids ! ?k" using assms(1,3) k by (simp add: nth_eq_iff_index_eq)
    then show ?thesis using snoc False by (simp add: assign_loop_append assign_other dealt_snoc)
  qed
qed (simp add: assms(4))

lemma assign_loop_dom: "dom (assign_loop ids i parts ms) = dom ms"
  by (induction parts arbitrary: i ms) (auto simp: assign_def split: option.split if_splits)

lemma mod_shift_zero:
  assumes "r < n" and "j < n"
  shows "(r + (n - j)) mod n = 0 \<longleftrightarrow> r = (j::nat)"
proof (cases r j rule: linorder_cases)
  case less
  then have "r + (n - j) < n" "0 < r + (n - j)" using assms by simp_all
  then show ?thesis using less assms by simp
next
  case greater
  then have "r + (n - j) = n + (r - j)" using assms by simp
  moreover have "(n + (r - j)) mod n = r - j" using assms(1) by (subst mod_add_self1) simp
  ultimately have "(r + (n - j)) mod n = r - j" by simp
  then show ?thesis using greater by simp
qed (use assms in simp)

lemma dealt_length: "j < n \<Longrightarrow> length (dealt n j parts) = (length parts + (n - 1 - j)) div n"
proof (induction parts rule: rev_induct)
  case (snoc p parts)
  let ?m = "length parts + (n - 1 - j)"
  have "Suc ?m mod n = 0 \<longleftrightarrow> length parts mod n = j"
  proof -
    have "Suc ?m = length parts + (n - j)" using snoc.prems by simp
    moreover have "(length parts + (n - j)) mod n = (length parts mod n + (n - j)) mod n" by (simp add: mod_add_left_eq)
    moreover have "length parts mod n < n" using snoc.prems by simp
    ultimately show ?thesis using mod_shift_zero [OF _ snoc.prems] by metis
  qed
  then show ?case using snoc by (simp add: dealt_snoc div_Suc)
qed simp

lemma dealt_balanced:
  assumes "j < n" and "k < n"
  shows "length (dealt n j parts) \<le> length (dealt n k parts) + 1"
proof -
  have "(length parts + (n - 1 - j)) div n \<le> (length parts + (n - 1 - k) + n) div n"
    using assms by (intro div_le_mono) simp
  also have "\<dots> = (length parts + (n - 1 - k)) div n + 1" using assms(1) by (intro div_add_self2) simp
  finally show ?thesis using assms by (simp only: dealt_length)
qed

lemma mset_by_class:
  assumes "\<forall>i \<in> set xs. f i < n"
  shows "mset (concat (map (\<lambda>j. filter (\<lambda>i. f i = j) xs) [0..<n])) = mset xs"
  using assms
proof (induction xs)
  case (Cons x xs)
  have "mset (concat (map (\<lambda>j. filter (\<lambda>i. f i = j) (x # xs)) [0..<m])) =
      mset (concat (map (\<lambda>j. filter (\<lambda>i. f i = j) xs) [0..<m])) + (if f x < m then {#x#} else {#})" for m
    by (induction m) (auto simp: less_Suc_eq)
  then show ?case using Cons by simp
qed simp

lemma dealt_all:
  assumes "0 < n"
  shows "mset (concat (map (\<lambda>j. dealt n j parts) [0..<n])) = mset parts"
proof -
  have "concat (map (\<lambda>j. dealt n j parts) [0..<n]) =
      map ((!) parts) (concat (map (\<lambda>j. filter (\<lambda>i. i mod n = j) [0..<length parts]) [0..<n]))"
    by (simp add: dealt_def map_concat o_def)
  also have "mset \<dots> = image_mset ((!) parts) (mset [0..<length parts])"
    using mset_by_class [of "[0..<length parts]" "\<lambda>i. i mod n" n] assms by (simp only: mset_map) simp
  also have "\<dots> = mset parts" by (metis map_nth mset_map)
  finally show ?thesis .
qed

lemma rebalance_member:
  assumes "finite (dom (Members g))" and "j < card (dom (Members g))"
  defines "mid \<equiv> sorted_list_of_set (dom (Members g)) ! j"
  shows "\<exists>m. Members g mid = Some m \<and> Members (rebalanceGroup parts g) mid =
    Some (m\<lparr>AssignedParts := dealt (card (dom (Members g))) j parts\<rparr>)"
proof -
  let ?ids = "sorted_list_of_set (dom (Members g))"
  let ?cleared = "\<lambda>mid. map_option (\<lambda>m. m\<lparr>AssignedParts := []\<rparr>) (Members g mid)"
  have ids: "distinct ?ids" "set ?ids = dom (Members g)" "length ?ids = card (dom (Members g))"
    using assms(1) by simp_all
  have "mid \<in> dom (Members g)" using assms(2) ids unfolding mid_def by (metis nth_mem)
  then obtain m where m: "Members g mid = Some m" by auto
  have "assign_loop ?ids 0 parts ?cleared (?ids ! j) =
      Some (m\<lparr>AssignedParts := []\<rparr>\<lparr>AssignedParts := AssignedParts (m\<lparr>AssignedParts := []\<rparr>) @ dealt (length ?ids) j parts\<rparr>)"
    by (rule assign_loop_dealt) (use ids assms(2) m in \<open>auto simp: mid_def dom_def\<close>)
  moreover have "dom (Members g) \<noteq> {}" using assms(2) by auto
  ultimately show ?thesis
    using m ids by (simp add: rebalanceGroup_def mid_def)
qed

text \<open>C13. Rebalancing deals every partition to exactly one member, evenly: with the members in the
  order of their ids, the \<open>j\<close>-th of \<open>n\<close> gets exactly the partitions at positions congruent to
  \<open>j\<close> modulo \<open>n\<close>, in order; together they have each partition as often as it was given, and no
  member has two more than another. Nobody joins or leaves, and heartbeats are kept.\<close>

theorem rebalance_exact:
  fixes g :: ConsumerGroup and parts :: "string list"
  assumes "finite (dom (Members g))" and "dom (Members g) \<noteq> {}"
  defines "ids \<equiv> sorted_list_of_set (dom (Members g))" and "n \<equiv> card (dom (Members g))"
    and "part_of \<equiv> \<lambda>mid. AssignedParts (the (Members (rebalanceGroup parts g) mid))"
  shows "dom (Members (rebalanceGroup parts g)) = dom (Members g) \<and>
    (\<forall>j < n. part_of (ids ! j) = [parts ! i. i \<leftarrow> [0..<length parts], i mod n = j] \<and>
       LastHeartbeat (the (Members (rebalanceGroup parts g) (ids ! j))) = LastHeartbeat (the (Members g (ids ! j)))) \<and>
    mset (concat (map part_of ids)) = mset parts \<and>
    (\<forall>a \<in> set ids. \<forall>b \<in> set ids. length (part_of a) \<le> length (part_of b) + 1)"
proof -
  have ids: "distinct ids" "set ids = dom (Members g)" "length ids = n" and n: "0 < n"
    using assms(1,2) by (simp_all add: ids_def n_def card_gt_0_iff)
  have part: "part_of (ids ! j) = dealt n j parts"
    and beat: "LastHeartbeat (the (Members (rebalanceGroup parts g) (ids ! j))) = LastHeartbeat (the (Members g (ids ! j)))"
    if "j < n" for j
    using rebalance_member [OF assms(1), of j parts] that unfolding part_of_def ids_def n_def by auto
  have "dom (Members (rebalanceGroup parts g)) = dom (Members g)"
    by (auto simp: rebalanceGroup_def assign_loop_dom Let_def)
  moreover have "dealt n j parts = [parts ! i. i \<leftarrow> [0..<length parts], i mod n = j]" for j
  proof -
    have "map f (filter P xs) = concat (map (\<lambda>i. if P i then [f i] else []) xs)" for f :: "nat \<Rightarrow> string" and P xs
      by (induction xs) simp_all
    then show ?thesis by (simp add: dealt_def)
  qed
  moreover have "map part_of ids = map (\<lambda>j. dealt n j parts) [0..<n]"
    using ids(3) part by (intro nth_equalityI) simp_all
  then have "mset (concat (map part_of ids)) = mset parts" using dealt_all [OF n] by metis
  moreover have "length (part_of a) \<le> length (part_of b) + 1" if "a \<in> set ids" "b \<in> set ids" for a b
    using that part dealt_balanced [of _ n] ids(3) by (auto simp: in_set_conv_nth)
  ultimately show ?thesis using part beat by auto
qed


definition example_group :: ConsumerGroup where
  "example_group = \<lparr>group_ID = ''g'', Members = [''b'' \<mapsto> \<lparr>member_ID = ''b'', AssignedParts = [], LastHeartbeat = 0\<rparr>,
     ''a'' \<mapsto> \<lparr>member_ID = ''a'', AssignedParts = [], LastHeartbeat = 0\<rparr>], Offsets = Map.empty, Generation = 2\<rparr>"

lemma rebalance_exact_witness:
  "dom (Members (rebalanceGroup [''p0'', ''p1'', ''p2''] example_group)) = {''a'', ''b''} \<and>
   AssignedParts (the (Members (rebalanceGroup [''p0'', ''p1'', ''p2''] example_group) ''a'')) = [''p0'', ''p2'']"
proof -
  have ids: "dom (Members example_group) = {''a'', ''b''}" by (auto simp: example_group_def)
  have two: "sorted_list_of_set {''a'', ''b''} = [''a'', ''b'']" "card {''a'', ''b''} = 2"
    by (simp_all add: sorted_list_of_set_insert_remove)
  have "finite {''a'', ''b''}" "{''a'', ''b''} \<noteq> {}" by simp_all
  note exact = rebalance_exact [of example_group "[''p0'', ''p1'', ''p2'']", unfolded ids two, OF this]
  show ?thesis
    using exact [THEN conjunct1] exact [THEN conjunct2, THEN conjunct1, rule_format, of 0] by (simp add: upt_rec)
qed

section \<open>Commits and recovery\<close>

text \<open>The offset committed for a group and a partition, whoever are the members.\<close>

definition committed :: "(string \<rightharpoonup> ConsumerGroup) \<Rightarrow> string \<Rightarrow> string \<Rightarrow> u64 option" where
  "committed gs gid part = (case gs gid of None \<Rightarrow> None | Some g \<Rightarrow> Offsets g part)"

lemma FetchOffset_committed: "FetchOffset gid part c = Inr offset \<longleftrightarrow> committed (groups c) gid part = Some offset"
  by (auto simp: FetchOffset_def committed_def split: option.splits)

lemma committed_put:
  "committed (gs(gid \<mapsto> (group_of gs gid)\<lparr>Offsets := (Offsets (group_of gs gid))(part \<mapsto> offset)\<rparr>)) gid' part' =
    (if gid' = gid \<and> part' = part then Some offset else committed gs gid' part')"
  by (auto simp: committed_def group_of_def new_group_def split: option.split)

lemma committed_touch: "committed (gs(gid \<mapsto> group_of gs gid)) = committed gs"
  by (auto simp: committed_def group_of_def new_group_def fun_eq_iff split: option.split)

lemma committed_recover_line:
  assumes "line \<noteq> []" and "unmarshal line = Some rec"
  shows "committed (recover_line unmarshal gs line) gid part =
    (if gid = rec_GroupID rec \<and> part = rec_Partition rec then Some (rec_Offset rec) else committed gs gid part)"
  using assms committed_put [of gs "rec_GroupID rec"] by (simp add: recover_line_def Let_def)

text \<open>What the scan sees of the bytes of whole lines.\<close>

definition good_line :: "byte list \<Rightarrow> bool" where
  "good_line l \<longleftrightarrow> newline \<notin> set l \<and> length l < MaxScanTokenSize"

definition lines :: "byte list list \<Rightarrow> byte list" where
  "lines ls = concat (map (\<lambda>l. l @ [newline]) ls)"

lemma lines_simps [simp]: "lines [] = []" "lines (l # ls) = l @ newline # lines ls" "lines (ls @ ls') = lines ls @ lines ls'"
  by (simp_all add: lines_def)

lemma takeWhile_line: "newline \<notin> set l \<Longrightarrow> takeWhile (\<lambda>b. b \<noteq> newline) (l @ newline # bs) = l"
  by (induction l) auto

lemma scan_lines_Cons:
  "good_line l \<Longrightarrow> scan_lines (l @ newline # bs) = (dropCR l # fst (scan_lines bs), snd (scan_lines bs))"
  by (subst scan_lines.simps) (simp add: good_line_def takeWhile_line case_prod_beta)

lemma scan_lines_append:
  "\<forall>l \<in> set ls. good_line l \<Longrightarrow> scan_lines (lines ls @ bs) = (map dropCR ls @ fst (scan_lines bs), snd (scan_lines bs))"
  by (induction ls) (simp_all add: scan_lines_Cons)

lemma scan_lines_Nil [simp]: "scan_lines [] = ([], False)"
  by (simp add: scan_lines.simps)

text \<open>A last line without its newline.\<close>

lemma scan_lines_tail: "good_line l \<Longrightarrow> l \<noteq> [] \<Longrightarrow> scan_lines l = ([dropCR l], False)"
proof -
  assume l: "good_line l" "l \<noteq> []"
  then have "takeWhile (\<lambda>b. b \<noteq> newline) l = l" by (auto simp: good_line_def takeWhile_eq_all_conv)
  then show ?thesis using l by (subst scan_lines.simps) (simp add: good_line_def Let_def del: takeWhile_eq_all_conv)
qed

text \<open>The offsets a replay of the file gives.\<close>

definition replayed :: "unmarshal \<Rightarrow> byte list \<Rightarrow> string \<Rightarrow> string \<Rightarrow> u64 option" where
  "replayed unmarshal bs = committed (foldl (recover_line unmarshal) Map.empty (fst (scan_lines bs)))"

text \<open>The codec: what it writes has no newline and is read back, for names that are valid UTF-8.\<close>

definition json_ok :: "(string \<Rightarrow> bool) \<Rightarrow> marshal \<Rightarrow> unmarshal \<Rightarrow> bool" where
  "json_ok valid marshal unmarshal \<longleftrightarrow> (\<forall>rec l. marshal rec = Some l \<longrightarrow>
     l \<noteq> [] \<and> newline \<notin> set l \<and> last l \<noteq> 13 \<and>
     (valid (rec_GroupID rec) \<longrightarrow> valid (rec_Partition rec) \<longrightarrow>
       (\<exists>rec'. unmarshal l = Some rec' \<and> rec_GroupID rec' = rec_GroupID rec \<and>
          rec_Partition rec' = rec_Partition rec \<and> rec_Offset rec' = rec_Offset rec)))"

text \<open>A coordinator in step with its file.\<close>

definition in_step :: "unmarshal \<Rightarrow> Coordinator \<Rightarrow> OS \<Rightarrow> bool" where
  "in_step unmarshal c os \<longleftrightarrow> fd_open os (offsetFile c) \<and> fd_path os (offsetFile c) = offset_path (dataDir c) \<and>
     offsetWriter c = \<lparr>wr_buf = [], wr_err = None\<rparr> \<and>
     (\<exists>ls. file_bytes os (offset_path (dataDir c)) = lines ls \<and> (\<forall>l \<in> set ls. good_line l)) \<and>
     committed (groups c) = replayed unmarshal (file_bytes os (offset_path (dataDir c)))"

text \<open>A write and flush that succeed have appended the bytes.\<close>

lemma write_flush_ok:
  assumes open': "fd_open os fd" and w: "bufio_Write sys fd bs \<lparr>wr_buf = [], wr_err = None\<rparr> os = (None, w1, os1)"
    and f: "bufio_Flush sys fd w1 os1 = (None, w2, os2)"
  shows "file_bytes os2 (fd_path os fd) = file_bytes os (fd_path os fd) @ bs" and "w2 = \<lparr>wr_buf = [], wr_err = None\<rparr>"
    and "fds os2 = fds os"
proof -
  have wrote: "n = length bs' \<and> file_bytes os' (fd_path os fd) = file_bytes os (fd_path os fd) @ bs' \<and> fds os' = fds os"
    if "File_Write sys fd bs' os = (n, None, os')" for n bs' os'
    using that open' by (auto simp: File_Write_def Let_def do_call_def file_bytes_def split: option.splits)
  have "file_bytes os2 (fd_path os fd) = file_bytes os (fd_path os fd) @ bs \<and> w2 = \<lparr>wr_buf = [], wr_err = None\<rparr> \<and> fds os2 = fds os"
  proof (cases "length bs \<le> bufio_size")
    case True
    then have w1: "w1 = \<lparr>wr_buf = bs, wr_err = None\<rparr>" "os1 = os" using w by (simp_all add: bufio_Write_def)
    show ?thesis
    proof (cases "bs = []")
      case False
      then obtain n where "File_Write sys fd bs os = (n, None, os2)" "w2 = \<lparr>wr_buf = drop n bs, wr_err = None\<rparr>"
        using f w1 by (auto simp: bufio_Flush_def split: prod.splits)
      then show ?thesis using wrote by auto
    qed (use f w1 in \<open>simp add: bufio_Flush_def\<close>)
  next
    case False
    then obtain n where "File_Write sys fd bs os = (n, None, os1)" "w1 = \<lparr>wr_buf = [], wr_err = None\<rparr>"
      using w by (auto simp: bufio_Write_def split: prod.splits)
    then show ?thesis using wrote f by (auto simp: bufio_Flush_def)
  qed
  then show "file_bytes os2 (fd_path os fd) = file_bytes os (fd_path os fd) @ bs" "w2 = \<lparr>wr_buf = [], wr_err = None\<rparr>"
    "fds os2 = fds os" by simp_all
qed


lemma CommitOffset_success:
  assumes run: "CommitOffset sys marshal now gid part offset c os = (None, c', os')"
    and wr: "offsetWriter c = \<lparr>wr_buf = [], wr_err = None\<rparr>" and open': "fd_open os (offsetFile c)"
  obtains line where "marshal \<lparr>rec_GroupID = gid, rec_Partition = part, rec_Offset = offset, rec_Timestamp = now\<rparr> = Some line"
    and "file_bytes os' (fd_path os (offsetFile c)) = file_bytes os (fd_path os (offsetFile c)) @ line @ [newline]"
    and "fds os' = fds os" and "offsetFile c' = offsetFile c" and "dataDir c' = dataDir c"
    and "offsetWriter c' = \<lparr>wr_buf = [], wr_err = None\<rparr>"
    and "\<And>g p. committed (groups c') g p = (if g = gid \<and> p = part then Some offset else committed (groups c) g p)"
proof -
  let ?g = "group_of (groups c) gid"
  obtain line where m: "marshal \<lparr>rec_GroupID = gid, rec_Partition = part, rec_Offset = offset, rec_Timestamp = now\<rparr> = Some line"
    using run by (auto simp: CommitOffset_def Let_def split: option.splits)
  obtain w1 os1 where w: "bufio_Write sys (offsetFile c) (line @ [newline]) \<lparr>wr_buf = [], wr_err = None\<rparr> os = (None, w1, os1)"
    using run m wr by (auto simp: CommitOffset_def Let_def split: option.splits prod.splits)
  obtain w2 os2 where f: "bufio_Flush sys (offsetFile c) w1 os1 = (None, w2, os2)"
    using run m wr w by (auto simp: CommitOffset_def Let_def split: option.splits prod.splits)
  note wf = write_flush_ok [OF open' w f]
  have "fd_open os2 (offsetFile c)" using open' wf(3) by (simp add: fd_open_def)
  then have res: "os' = os2\<lparr>calls := Suc (calls os2)\<rparr>"
    "c' = c\<lparr>groups := (groups c)(gid \<mapsto> ?g)\<rparr>\<lparr>offsetWriter := w2\<rparr>\<lparr>groups :=
      ((groups c)(gid \<mapsto> ?g))(gid \<mapsto> ?g\<lparr>Offsets := (Offsets ?g)(part \<mapsto> offset)\<rparr>)\<rparr>"
    using run m wr w f by (auto simp: CommitOffset_def Let_def do_call_def split: option.splits)
  show thesis
    by (rule that [OF m]) (use wf committed_put [of "groups c" gid] in \<open>simp_all add: res\<close>)
qed

lemma replayed_append:
  assumes "\<forall>l \<in> set ls. good_line l" and "good_line line" and "line \<noteq> []" and "last line \<noteq> 13"
    and "unmarshal line = Some rec"
  shows "replayed unmarshal (lines ls @ line @ [newline]) gid part =
    (if gid = rec_GroupID rec \<and> part = rec_Partition rec then Some (rec_Offset rec)
     else replayed unmarshal (lines ls) gid part)"
proof -
  have "dropCR line = line" using assms(4) by (simp add: dropCR_def)
  then have "fst (scan_lines (lines ls @ line @ [newline])) = map dropCR ls @ [line]"
    using scan_lines_append [OF assms(1)] scan_lines_Cons [OF assms(2), of "[]"] by simp
  moreover have "fst (scan_lines (lines ls)) = map dropCR ls"
    using scan_lines_append [OF assms(1), of "[]"] by simp
  ultimately show ?thesis
    using committed_recover_line [where line = line and unmarshal = unmarshal, OF assms(3,5)] by (simp add: replayed_def)
qed

lemma commit_in_step:
  assumes json: "json_ok valid marshal unmarshal" and names: "valid gid" "valid part" and step: "in_step unmarshal c os"
    and run: "CommitOffset sys marshal now gid part offset c os = (None, c', os')"
    and short: "\<And>l. marshal \<lparr>rec_GroupID = gid, rec_Partition = part, rec_Offset = offset, rec_Timestamp = now\<rparr> = Some l \<Longrightarrow>
      length l < MaxScanTokenSize"
  shows "in_step unmarshal c' os'" and "committed (groups c') gid part = Some offset" and "dataDir c' = dataDir c"
proof -
  have c: "fd_open os (offsetFile c)" "fd_path os (offsetFile c) = offset_path (dataDir c)"
    "offsetWriter c = \<lparr>wr_buf = [], wr_err = None\<rparr>"
    "committed (groups c) = replayed unmarshal (file_bytes os (offset_path (dataDir c)))"
    using step by (simp_all add: in_step_def)
  obtain ls where ls: "file_bytes os (offset_path (dataDir c)) = lines ls" "\<forall>l \<in> set ls. good_line l"
    using step by (auto simp: in_step_def)
  obtain line where m: "marshal \<lparr>rec_GroupID = gid, rec_Partition = part, rec_Offset = offset, rec_Timestamp = now\<rparr> = Some line"
    and file': "file_bytes os' (offset_path (dataDir c)) = lines ls @ line @ [newline]"
    and same: "fds os' = fds os" "offsetFile c' = offsetFile c" "dataDir c' = dataDir c" "offsetWriter c' = \<lparr>wr_buf = [], wr_err = None\<rparr>"
    and com: "\<And>g p. committed (groups c') g p = (if g = gid \<and> p = part then Some offset else committed (groups c) g p)"
    using CommitOffset_success [OF run c(3,1)] unfolding c(2) ls(1) by metis
  have l: "line \<noteq> []" "newline \<notin> set line" "last line \<noteq> 13" using json m by (auto simp: json_ok_def)
  obtain rec' where rec': "unmarshal line = Some rec'" "rec_GroupID rec' = gid" "rec_Partition rec' = part" "rec_Offset rec' = offset"
    using json [unfolded json_ok_def, rule_format, OF m] names by auto
  have good: "good_line line" using l short [OF m] by (simp add: good_line_def)
  have "committed (groups c') = replayed unmarshal (lines ls @ line @ [newline])"
    using replayed_append [where unmarshal = unmarshal, OF ls(2) good l(1,3) rec'(1)] rec'(2-4) com c(4) ls(1)
    by (simp add: fun_eq_iff)
  moreover have "lines ls @ line @ [newline] = lines (ls @ [line])" "\<forall>l \<in> set (ls @ [line]). good_line l"
    using ls(2) good by simp_all
  ultimately show "in_step unmarshal c' os'"
    using c same file' unfolding in_step_def by (metis fd_open_def fd_path_def)
  show "committed (groups c') gid part = Some offset" "dataDir c' = dataDir c" using com same by simp_all
qed

text \<open>Opening on a file of whole lines.\<close>

lemma NewCoordinator_ok:
  assumes sys: "no_faults sys" and "scan_lines (file_bytes os (offset_path dir)) = (ls, False)"
  obtains c os' where "NewCoordinator sys unmarshal dir timeout os = (Inr c, os')"
    and "dataDir c = dir" and "groups c = foldl (recover_line unmarshal) Map.empty ls"
    and "offsetWriter c = \<lparr>wr_buf = [], wr_err = None\<rparr>" and "fd_open os' (offsetFile c)"
    and "fd_path os' (offsetFile c) = offset_path dir" and "file_bytes os' (offset_path dir) = file_bytes os (offset_path dir)"
  using assms by (auto simp: NewCoordinator_def OpenFile_def recoverOffsets_def Let_def fd_open_def fd_path_def file_bytes_def)


text \<open>A commit succeeds when no call fails.\<close>

lemma CommitOffset_ok:
  assumes sys: "no_faults sys" and "offsetWriter c = \<lparr>wr_buf = [], wr_err = None\<rparr>" and open': "fd_open os (offsetFile c)"
    and "marshal \<lparr>rec_GroupID = gid, rec_Partition = part, rec_Offset = offset, rec_Timestamp = now\<rparr> = Some line"
  shows "\<exists>c' os'. CommitOffset sys marshal now gid part offset c os = (None, c', os')"
proof -
  have wrote: "\<exists>os'. File_Write sys (offsetFile c) bs os = (length bs, None, os') \<and> fds os' = fds os" for bs
    using sys open' by (simp add: File_Write_def Let_def)
  have "\<exists>os2. bufio_Write sys (offsetFile c) bs \<lparr>wr_buf = [], wr_err = None\<rparr> os = (None, \<lparr>wr_buf = bs, wr_err = None\<rparr>, os) \<and>
      bufio_Flush sys (offsetFile c) \<lparr>wr_buf = bs, wr_err = None\<rparr> os = (None, \<lparr>wr_buf = [], wr_err = None\<rparr>, os2) \<and> fds os2 = fds os"
    if "length bs \<le> bufio_size" for bs
    using that wrote [of bs] by (auto simp: bufio_Write_def bufio_Flush_def)
  moreover have "\<exists>os2. bufio_Write sys (offsetFile c) bs \<lparr>wr_buf = [], wr_err = None\<rparr> os = (None, \<lparr>wr_buf = [], wr_err = None\<rparr>, os2) \<and>
      bufio_Flush sys (offsetFile c) \<lparr>wr_buf = [], wr_err = None\<rparr> os2 = (None, \<lparr>wr_buf = [], wr_err = None\<rparr>, os2) \<and> fds os2 = fds os"
    if "\<not> length bs \<le> bufio_size" for bs
    using that wrote [of bs] by (auto simp: bufio_Write_def bufio_Flush_def)
  ultimately obtain w1 os1 os2 where
    "bufio_Write sys (offsetFile c) (line @ [newline]) \<lparr>wr_buf = [], wr_err = None\<rparr> os = (None, w1, os1)"
    "bufio_Flush sys (offsetFile c) w1 os1 = (None, \<lparr>wr_buf = [], wr_err = None\<rparr>, os2)" "fds os2 = fds os"
    by metis
  moreover from this(3) have "fd_open os2 (offsetFile c)" using open' by (simp add: fd_open_def)
  ultimately show ?thesis
    using sys assms(2,4) by (simp add: CommitOffset_def Let_def)
qed

text \<open>A committed offset survives a restart, for any codec that keeps the record: after any commit that returned no error, a new
  coordinator on the same directory starts, is in step with the file, and fetches the committed
  offset, and for every other group and partition exactly the offset the old one had.\<close>

theorem commit_survives_restart:
  assumes "json_ok valid marshal unmarshal" and "valid gid" and "valid part" and "in_step unmarshal c os"
    and "CommitOffset sys marshal now gid part offset c os = (None, c', os')"
    and "\<forall>l. marshal \<lparr>rec_GroupID = gid, rec_Partition = part, rec_Offset = offset, rec_Timestamp = now\<rparr> = Some l \<longrightarrow>
      length l < MaxScanTokenSize"
    and "no_faults sys2"
  shows "\<exists>c2 os2. NewCoordinator sys2 unmarshal (dataDir c) timeout os' = (Inr c2, os2) \<and> in_step unmarshal c2 os2 \<and>
    FetchOffset gid part c2 = Inr offset \<and>
    (\<forall>g p. \<forall>off. FetchOffset g p c2 = Inr off \<longleftrightarrow> FetchOffset g p c' = Inr off)"
proof -
  note step' = commit_in_step [OF assms(1-5) assms(6) [rule_format]]
  obtain ls where ls: "file_bytes os' (offset_path (dataDir c)) = lines ls" "\<forall>l \<in> set ls. good_line l"
    using step'(1,3) by (auto simp: in_step_def)
  have scan: "scan_lines (file_bytes os' (offset_path (dataDir c))) = (map dropCR ls, False)"
    using scan_lines_append [OF ls(2), of "[]"] ls(1) by simp
  obtain c2 os2 where new: "NewCoordinator sys2 unmarshal (dataDir c) timeout os' = (Inr c2, os2)"
    and c2: "dataDir c2 = dataDir c" "groups c2 = foldl (recover_line unmarshal) Map.empty (map dropCR ls)"
      "offsetWriter c2 = \<lparr>wr_buf = [], wr_err = None\<rparr>" "fd_open os2 (offsetFile c2)"
      "fd_path os2 (offsetFile c2) = offset_path (dataDir c)"
      "file_bytes os2 (offset_path (dataDir c)) = file_bytes os' (offset_path (dataDir c))"
    by (rule NewCoordinator_ok [OF assms(7) scan])
  have com: "committed (groups c2) = replayed unmarshal (file_bytes os' (offset_path (dataDir c)))"
    by (simp add: c2(2) replayed_def scan)
  then have "in_step unmarshal c2 os2" using c2 ls by (auto simp: in_step_def)
  moreover have "committed (groups c2) = committed (groups c')"
    using com step'(1,3) by (simp add: in_step_def)
  ultimately show ?thesis
    using new step'(2) by (simp add: FetchOffset_committed)
qed

text \<open>A commit after a torn line, when the decoder refuses the two glued together: it returns no error
  and is served by the running coordinator; after a restart neither it nor the torn record is there.\<close>

lemma torn_tail_loses_commit:
  assumes "no_faults sys" and "file_bytes os (offset_path dir) = lines ls @ torn" and "\<forall>l \<in> set ls. good_line l"
    and "good_line torn" and "torn \<noteq> []"
    and "marshal \<lparr>rec_GroupID = gid, rec_Partition = part, rec_Offset = offset, rec_Timestamp = now\<rparr> = Some line"
    and "good_line (torn @ line)" and "unmarshal (dropCR (torn @ line)) = None"
  shows "\<exists>c os1 c' os' c2 os2. NewCoordinator sys unmarshal dir timeout os = (Inr c, os1) \<and>
    CommitOffset sys marshal now gid part offset c os1 = (None, c', os') \<and> FetchOffset gid part c' = Inr offset \<and>
    NewCoordinator sys unmarshal dir timeout os' = (Inr c2, os2) \<and>
    (\<forall>g p. \<forall>off. FetchOffset g p c2 = Inr off \<longleftrightarrow> replayed unmarshal (lines ls) g p = Some off)"
proof -
  have scan: "scan_lines (file_bytes os (offset_path dir)) = (map dropCR ls @ [dropCR torn], False)"
    using scan_lines_append [OF assms(3), of torn] scan_lines_tail [OF assms(4,5)] assms(2) by simp
  obtain c os1 where new: "NewCoordinator sys unmarshal dir timeout os = (Inr c, os1)" and c: "dataDir c = dir"
    "offsetWriter c = \<lparr>wr_buf = [], wr_err = None\<rparr>" "fd_open os1 (offsetFile c)" "fd_path os1 (offsetFile c) = offset_path dir"
    "file_bytes os1 (offset_path dir) = lines ls @ torn"
    using NewCoordinator_ok [OF assms(1) scan] unfolding assms(2) by metis
  obtain c' os' where run: "CommitOffset sys marshal now gid part offset c os1 = (None, c', os')"
    using CommitOffset_ok [of sys c os1 marshal gid part offset now line] c(2,3) assms(1,6) by blast
  obtain line' where line': "marshal \<lparr>rec_GroupID = gid, rec_Partition = part, rec_Offset = offset, rec_Timestamp = now\<rparr> = Some line'"
    "file_bytes os' (offset_path dir) = (lines ls @ torn) @ line' @ [newline]"
    and com: "committed (groups c') gid part = Some offset"
    using CommitOffset_success [OF run c(2,3)] unfolding c(4,5) by metis
  have "line' = line" using line'(1) assms(6) by simp
  then have bytes: "file_bytes os' (offset_path dir) = lines ls @ (torn @ line) @ newline # []" using line'(2) by simp
  have scan': "scan_lines (file_bytes os' (offset_path dir)) = (map dropCR ls @ [dropCR (torn @ line)], False)"
    unfolding bytes using scan_lines_append [OF assms(3)] scan_lines_Cons [OF assms(7), of "[]"] by simp
  obtain c2 os2 where new2: "NewCoordinator sys unmarshal dir timeout os' = (Inr c2, os2)"
    and "groups c2 = foldl (recover_line unmarshal) Map.empty (map dropCR ls @ [dropCR (torn @ line)])"
    by (rule NewCoordinator_ok [OF assms(1) scan'])
  then have "groups c2 = foldl (recover_line unmarshal) Map.empty (map dropCR ls)"
    using assms(8) by (simp add: recover_line_def)
  then have "committed (groups c2) = replayed unmarshal (lines ls)"
    using scan_lines_append [OF assms(3), of "[]"] by (simp add: replayed_def)
  then show ?thesis
    using new run com new2 by (auto simp: FetchOffset_committed)
qed

text \<open>A long record locks the coordinator out: a commit whose line, with its names, reaches
  64 KiB succeeds, but from then on no coordinator opens on that directory; every attempt ends with
  the scanner's error.\<close>

theorem long_commit_blocks_start:
  assumes "no_faults sys" and "in_step unmarshal c os"
    and "marshal \<lparr>rec_GroupID = gid, rec_Partition = part, rec_Offset = offset, rec_Timestamp = now\<rparr> = Some line"
    and "newline \<notin> set line" and "MaxScanTokenSize \<le> length line"
  shows "\<exists>c' os'. CommitOffset sys marshal now gid part offset c os = (None, c', os') \<and>
    fst (NewCoordinator sys unmarshal (dataDir c) timeout os') = Inl ErrTooLong"
proof -
  have c: "fd_open os (offsetFile c)" "fd_path os (offsetFile c) = offset_path (dataDir c)"
    "offsetWriter c = \<lparr>wr_buf = [], wr_err = None\<rparr>"
    using assms(2) by (simp_all add: in_step_def)
  obtain ls where ls: "file_bytes os (offset_path (dataDir c)) = lines ls" "\<forall>l \<in> set ls. good_line l"
    using assms(2) by (auto simp: in_step_def)
  obtain c' os' where run: "CommitOffset sys marshal now gid part offset c os = (None, c', os')"
    using CommitOffset_ok [of sys c os marshal gid part offset now line] c(3,1) assms(1,3) by blast
  have bytes: "file_bytes os' (offset_path (dataDir c)) = lines ls @ line @ [newline]"
    using CommitOffset_success [OF run c(3,1)] assms(3) unfolding c(2) ls(1) by (metis option.inject)
  have "scan_lines (line @ [newline]) = ([], True)"
    using assms(5) takeWhile_line [OF assms(4), of "[]"] by (subst scan_lines.simps) simp
  then have "snd (scan_lines (file_bytes os' (offset_path (dataDir c))))"
    unfolding bytes using scan_lines_append [OF ls(2)] by simp
  then have "fst (NewCoordinator sys unmarshal (dataDir c) timeout os') = Inl ErrTooLong"
    using assms(1) by (simp add: NewCoordinator_def OpenFile_def recoverOffsets_def Let_def file_bytes_def case_prod_beta)
  with run show ?thesis by blast
qed

text \<open>An evicted member takes its partitions along: a tick removes exactly the members whose last
  heartbeat is older than the timeout and changes nobody else, so that the partitions of an
  evicted member are assigned to no one until the next join or leave.\<close>

theorem eviction_orphans_partitions:
  fixes g :: ConsumerGroup and parts :: "string list" and now :: int
  assumes "\<not> stopped c" and "groups c gid = Some (rebalanceGroup parts g)"
    and "finite (dom (Members g))" and "dom (Members g) \<noteq> {}" and "distinct parts" and "i < length parts"
  defines "owner \<equiv> sorted_list_of_set (dom (Members g)) ! (i mod card (dom (Members g)))"
    and "after \<equiv> rebalanceEvictionLoop_tick now c"
  assumes "now - LastHeartbeat (the (Members g owner)) > sessionTimeout c"
  shows "\<exists>g'. groups after gid = Some g' \<and> Members g' owner = None \<and>
    (\<forall>mid m. Members g' mid = Some m \<longrightarrow> Members (rebalanceGroup parts g) mid = Some m \<and>
       now - LastHeartbeat m \<le> sessionTimeout c \<and> parts ! i \<notin> set (AssignedParts m))"
proof -
  let ?n = "card (dom (Members g))" and ?g = "rebalanceGroup parts g" and ?ids = "sorted_list_of_set (dom (Members g))"
  define g' where "g' = evict now (sessionTimeout c) ?g"
  have n: "0 < ?n" using assms(3,4) by (simp add: card_gt_0_iff)
  then have own: "i mod ?n < ?n" by simp
  have ids: "set ?ids = dom (Members g)" "length ?ids = ?n" using assms(3) by simp_all
  have after: "groups after gid = Some g'"
    using assms(1,2) by (simp add: after_def rebalanceEvictionLoop_tick_def g'_def)
  obtain m0 where m0: "Members g owner = Some m0"
    "Members ?g owner = Some (m0\<lparr>AssignedParts := dealt ?n (i mod ?n) parts\<rparr>)"
    using rebalance_member [OF assms(3) own, of parts] unfolding owner_def by blast
  have gone: "Members g' owner = None"
    using m0 assms(9) by (simp add: g'_def evict_def)
  have kept: "Members ?g mid = Some m \<and> now - LastHeartbeat m \<le> sessionTimeout c" if "Members g' mid = Some m" for mid m
    using that by (auto simp: g'_def evict_def split: option.splits if_splits)
  have "parts ! i \<notin> set (AssignedParts m)" if m: "Members g' mid = Some m" for mid m
  proof -
    have "mid \<in> dom (Members ?g)" using kept [OF m] by auto
    then have "mid \<in> set ?ids" using ids(1) by (auto simp: rebalanceGroup_def assign_loop_dom Let_def split: if_splits)
    then obtain j where j: "j < ?n" "mid = ?ids ! j" using ids(2) by (auto simp: in_set_conv_nth)
    then have "AssignedParts m = dealt ?n j parts"
      using rebalance_member [OF assms(3) j(1), of parts] kept [OF m] by auto
    moreover have "j \<noteq> i mod ?n" using gone m j(2) by (auto simp: owner_def)
    ultimately show ?thesis
      using assms(5,6) by (auto simp: dealt_def nth_eq_iff_index_eq)
  qed
  with after gone kept show ?thesis by blast
qed



text \<open>A codec of two records, for the concrete runs.\<close>

definition rec1 :: OffsetRecord where
  "rec1 = \<lparr>rec_GroupID = ''g'', rec_Partition = ''p'', rec_Offset = 42, rec_Timestamp = 7\<rparr>"

definition marshal1 :: marshal where
  "marshal1 rec = (if rec = rec1 then Some [1, 2] else None)"

definition unmarshal1 :: unmarshal where
  "unmarshal1 l = (if l = [1, 2] then Some rec1 else None)"

definition example_os :: OS where
  "example_os = \<lparr>files = [offset_path ''d'' \<mapsto> []], dirents = [(offset_path ''d'', False)],
     fds = [(offset_path ''d'', True)], calls = 0\<rparr>"

definition example_coord :: Coordinator where
  "example_coord = \<lparr>dataDir = ''d'', offsetFile = 0, offsetWriter = \<lparr>wr_buf = [], wr_err = None\<rparr>,
     groups = Map.empty, sessionTimeout = 5000000000, stopped = False\<rparr>"

lemma example_in_step: "in_step u example_coord example_os"
proof -
  have "file_bytes example_os (offset_path ''d'') = lines []" by (simp add: file_bytes_def example_os_def)
  then show ?thesis
    by (auto simp: in_step_def example_coord_def example_os_def fd_open_def fd_path_def replayed_def committed_def fun_eq_iff
        intro!: exI [of _ "[]"])
qed

lemma commit_survives_restart_witness:
  "\<exists>c' os' c2 os2. CommitOffset faultless marshal1 7 ''g'' ''p'' 42 example_coord example_os = (None, c', os') \<and>
     NewCoordinator faultless unmarshal1 ''d'' 0 os' = (Inr c2, os2) \<and> FetchOffset ''g'' ''p'' c2 = Inr 42"
proof -
  have json: "json_ok (\<lambda>_. True) marshal1 unmarshal1"
    by (auto simp: json_ok_def marshal1_def unmarshal1_def newline_def split: if_splits)
  obtain c' os' where run: "CommitOffset faultless marshal1 7 ''g'' ''p'' 42 example_coord example_os = (None, c', os')"
    using CommitOffset_ok [OF no_faults_faultless, of example_coord example_os marshal1 "''g''" "''p''" 42 7 "[1, 2]"]
      example_in_step by (auto simp: in_step_def marshal1_def rec1_def)
  have "\<forall>l. marshal1 \<lparr>rec_GroupID = ''g'', rec_Partition = ''p'', rec_Offset = 42, rec_Timestamp = 7\<rparr> = Some l \<longrightarrow>
      length l < MaxScanTokenSize"
    by (simp add: marshal1_def rec1_def MaxScanTokenSize_def)
  from commit_survives_restart [OF json _ _ example_in_step run this no_faults_faultless, of 0] run
  show ?thesis by (auto simp: example_coord_def)
qed

lemma long_commit_blocks_start_witness:
  "\<exists>c' os'. CommitOffset faultless (\<lambda>_. Some (replicate 65536 7)) 7 ''g'' ''p'' 42 example_coord example_os = (None, c', os') \<and>
     fst (NewCoordinator faultless unmarshal1 ''d'' 0 os') = Inl ErrTooLong"
  using long_commit_blocks_start [OF no_faults_faultless example_in_step,
      of "\<lambda>_. Some (replicate 65536 7)" "''g''" "''p''" 42 7 "replicate 65536 7" unmarshal1 0]
  by (simp add: newline_def MaxScanTokenSize_def example_coord_def)

lemma eviction_orphans_partitions_witness:
  "\<exists>g'. groups (rebalanceEvictionLoop_tick 6000000000 (example_coord\<lparr>groups :=
       [''g'' \<mapsto> rebalanceGroup [''p0'', ''p1''] example_group]\<rparr>)) ''g'' = Some g' \<and> Members g' ''b'' = None"
proof -
  have ids: "dom (Members example_group) = {''a'', ''b''}" by (auto simp: example_group_def)
  have two: "sorted_list_of_set {''a'', ''b''} = [''a'', ''b'']" "card {''a'', ''b''} = 2"
    by (simp_all add: sorted_list_of_set_insert_remove)
  show ?thesis
    using eviction_orphans_partitions [of "example_coord\<lparr>groups := [''g'' \<mapsto> rebalanceGroup [''p0'', ''p1''] example_group]\<rparr>"
        "''g''" "[''p0'', ''p1'']" example_group 1 6000000000, unfolded ids two]
    by (auto simp: example_coord_def example_group_def)
qed

end
