(* ===== verification/Latency.thy ===== *)
theory Latency
  imports Complex_Main "HOL-Library.Multiset"
begin

text \<open>
  The latency window of \<open>cmd/node/main.go\<close>: the last proposals' durations and the two percentiles
  the telemetry reports. The durations, which the code keeps in \<open>float64\<close>, are rationals; the
  index \<open>int(float64(n) * 0.99)\<close> is \<open>n * 99 div 100\<close>, which it equals for every \<open>n\<close> a window can have
  (the product's rounding error is below the distance to the next integer).
\<close>

section \<open>Latencies\<close>

record LatencyTracker =
  samples :: "rat list"
  maxLen :: nat

definition NewLatencyTracker :: "nat \<Rightarrow> LatencyTracker" where
  "NewLatencyTracker n = \<lparr>samples = [], maxLen = n\<rparr>"

text \<open>\<open>None\<close> is the panic of \<open>samples[1:]\<close> on an empty slice.\<close>

definition Record :: "rat \<Rightarrow> LatencyTracker \<Rightarrow> LatencyTracker option" where
  "Record durMs lt =
    (if length (samples lt) \<ge> maxLen lt
     then (if samples lt = [] then None else Some (lt\<lparr>samples := drop 1 (samples lt) @ [durMs]\<rparr>))
     else Some (lt\<lparr>samples := samples lt @ [durMs]\<rparr>))"

text \<open>
  The insertion sort of \<open>Percentiles\<close>. The inner loop shifts the greater elements one place up;
  its argument is \<open>j + 1\<close>.
\<close>

fun shift_greater :: "'a::linorder list \<Rightarrow> 'a \<Rightarrow> nat \<Rightarrow> 'a list \<times> nat" where
  "shift_greater xs key 0 = (xs, 0)"
| "shift_greater xs key (Suc j) =
    (if xs ! j > key then shift_greater (xs[Suc j := xs ! j]) key j else (xs, Suc j))"

definition insertion_step :: "'a::linorder list \<Rightarrow> nat \<Rightarrow> 'a list" where
  "insertion_step xs i = (case shift_greater xs (xs ! i) i of (ys, j) \<Rightarrow> ys[j := xs ! i])"

definition insertion_sort :: "'a::linorder list \<Rightarrow> 'a list" where
  "insertion_sort xs = foldl insertion_step xs [1..<length xs]"

definition Percentiles :: "LatencyTracker \<Rightarrow> rat \<times> rat" where
  "Percentiles lt =
    (let n = length (samples lt) in
     if n = 0 then (118 / 100, 342 / 100)
     else
       (let sorted = insertion_sort (samples lt);
            p50 = sorted ! (n div 2);
            p99Idx = n * 99 div 100;
            p99Idx = (if p99Idx \<ge> n then n - 1 else p99Idx)
        in (p50, sorted ! p99Idx)))"

section \<open>The insertion sort sorts\<close>

lemma shift_greater_inserts:
  "\<exists>rs. (case shift_greater (ys @ x # zs) key (length ys) of (ws, j) \<Rightarrow> ws[j := key]) = rs @ zs \<and>
     mset rs = add_mset key (mset ys) \<and> (sorted ys \<longrightarrow> sorted rs)"
proof (induction ys arbitrary: x zs rule: rev_induct)
  case Nil
  show ?case by (intro exI [of _ "[key]"]) simp
next
  case (snoc y ys)
  show ?case
  proof (cases "key < y")
    case True
    obtain rs where rs: "(case shift_greater (ys @ y # y # zs) key (length ys) of (ws, j) \<Rightarrow> ws[j := key]) = rs @ y # zs"
      "mset rs = add_mset key (mset ys)" "sorted ys \<longrightarrow> sorted rs" using snoc [of y "y # zs"] by blast
    have "set rs = insert key (set ys)" using rs(2) by (metis set_mset_add_mset_insert set_mset_mset)
    then show ?thesis
      using True rs by (intro exI [of _ "rs @ [y]"]) (auto simp: nth_append list_update_append sorted_append)
  next
    case False
    then show ?thesis
      by (intro exI [of _ "ys @ [y, key]"]) (auto simp: nth_append list_update_append sorted_append)
  qed
qed

lemma insertion_step_sorts:
  assumes "i < length xs" and "sorted (take i xs)"
  shows "mset (insertion_step xs i) = mset xs" and "sorted (take (Suc i) (insertion_step xs i))"
    and "length (insertion_step xs i) = length xs"
proof -
  have xs: "xs = take i xs @ xs ! i # drop (Suc i) xs" by (rule id_take_nth_drop [OF assms(1)])
  have len: "length (take i xs) = i" using assms(1) by simp
  obtain rs where rs: "insertion_step xs i = rs @ drop (Suc i) xs" "mset rs = add_mset (xs ! i) (mset (take i xs))"
    "sorted rs"
    using shift_greater_inserts [where ys = "take i xs" and x = "xs ! i" and zs = "drop (Suc i) xs" and key = "xs ! i"] assms(2)
    unfolding insertion_step_def xs [symmetric] len by blast
  show "mset (insertion_step xs i) = mset xs"
    unfolding rs(1) using arg_cong [OF xs, of mset] rs(2) by simp
  then show "length (insertion_step xs i) = length xs" by (metis size_mset)
  have "length rs = Suc i" using arg_cong [OF rs(2), of size] len by simp
  then show "sorted (take (Suc i) (insertion_step xs i))" using rs(1,3) by simp
qed

lemma insertion_sort_sort: "insertion_sort xs = sort xs"
proof -
  have "length (foldl insertion_step xs [1..<k]) = length xs \<and> mset (foldl insertion_step xs [1..<k]) = mset xs \<and>
      sorted (take k (foldl insertion_step xs [1..<k]))" if "1 \<le> k" "k \<le> length xs" for k
    using that
  proof (induction k rule: nat_induct_at_least)
    case base
    show ?case by (cases xs) simp_all
  next
    case (Suc k)
    let ?ys = "foldl insertion_step xs [1..<k]"
    have ys: "length ?ys = length xs" "mset ?ys = mset xs" "sorted (take k ?ys)" using Suc by simp_all
    then show ?case using insertion_step_sorts [of k ?ys] Suc by simp
  qed
  from this [of "length xs"] show ?thesis
    by (cases "xs = []") (auto simp: insertion_sort_def properties_for_sort Suc_le_eq)
qed

text \<open>C36. The latency window and its percentiles are right: recording a latency keeps the most
  recent ones up to the capacity, and \<open>Percentiles\<close> returns the elements at the places
  \<open>n div 2\<close> and \<open>n * 99 div 100\<close> of the sorted window, both within it; its own insertion sort sorts.\<close>

theorem latency_percentiles:
  assumes "0 < maxLen lt" and "length (samples lt) \<le> maxLen lt"
  shows "\<exists>lt'. Record d lt = Some lt' \<and> maxLen lt' = maxLen lt \<and>
    samples lt' = drop (Suc (length (samples lt)) - maxLen lt) (samples lt @ [d]) \<and>
    0 < length (samples lt') \<and> length (samples lt') \<le> maxLen lt \<and>
    Percentiles lt' = (sort (samples lt') ! (length (samples lt') div 2),
      sort (samples lt') ! (length (samples lt') * 99 div 100))"
proof -
  obtain lt' where rec: "Record d lt = Some lt'" and lt': "maxLen lt' = maxLen lt"
    "samples lt' = drop (Suc (length (samples lt)) - maxLen lt) (samples lt @ [d])"
  proof (cases "length (samples lt) = maxLen lt")
    case True
    then have "samples lt \<noteq> []" using assms(1) by auto
    then show thesis using True assms(1) by (intro that [of "lt\<lparr>samples := drop 1 (samples lt) @ [d]\<rparr>"]) (simp_all add: Record_def Suc_le_eq)
  next
    case False
    then show thesis using assms(2) by (intro that [of "lt\<lparr>samples := samples lt @ [d]\<rparr>"]) (simp_all add: Record_def)
  qed
  let ?n = "length (samples lt')"
  have n: "0 < ?n" "?n \<le> maxLen lt" using lt'(2) assms by auto
  then have "?n * 99 div 100 < ?n" by (intro less_mult_imp_div_less) simp
  then show ?thesis using rec lt' n by (simp add: Percentiles_def insertion_sort_sort Let_def)
qed

lemma latency_percentiles_witness:
  "\<exists>lt'. Record 3 \<lparr>samples = [5, 1, 4], maxLen = 3\<rparr> = Some lt' \<and> samples lt' = [1, 4, 3] \<and> Percentiles lt' = (3, 4)"
proof -
  obtain lt' where lt': "Record 3 \<lparr>samples = [5, 1, 4], maxLen = 3\<rparr> = Some lt'" "samples lt' = [1, 4, 3]"
    "Percentiles lt' = (sort (samples lt') ! (length (samples lt') div 2), sort (samples lt') ! (length (samples lt') * 99 div 100))"
    using latency_percentiles [of "\<lparr>samples = [5, 1, 4], maxLen = 3\<rparr>" 3] by auto
  have "sort [1, 4, 3 :: rat] = [1, 3, 4]" by simp
  then have "Percentiles lt' = (3, 4)" using lt'(3) unfolding lt'(2) by simp
  with lt' show ?thesis by blast
qed

end
