(* ===== verification/NodeServer.thy ===== *)
theory NodeServer
  imports Latency RaftLeader WAL Consumer
begin

text \<open>
  The node of \<open>cmd/node/main.go\<close>: the components put together. The state machine a node applies
  to is its write-ahead log (\<open>OnCommit\<close>); clients propose over the binary protocol and over HTTP
  and read by WAL offset. The network, whether there is a certificate, JSON and the clock are
  arguments here; \<open>NodeStreams\<close>, \<open>WebSockets\<close>, \<open>Tls\<close> and \<open>NodeMain\<close> hold the rest of the program.
\<close>

section \<open>The server\<close>

record NodeServer =
  ns_id :: string
  clientPort :: int
  peerPort :: int
  httpPort :: int
  ns_dataDir :: string
  peerAddrs :: "string list"
  startTime :: int
  wal :: WAL
  coord :: Coordinator
  raftNode :: RaftNode
  serverTLS :: bool
  clientTLS :: bool
  latencyTracker :: LatencyTracker
  tcpClients :: int
  latencyMs :: "32 word"
  partitioned :: bool

text \<open>\<open>strings.Split(s, ",")\<close> and \<open>strings.TrimSpace\<close> (of ASCII space), for the list of peers.\<close>

fun split_at :: "char \<Rightarrow> string \<Rightarrow> string list" where
  "split_at c [] = [[]]"
| "split_at c (x # xs) =
    (if x = c then [] # split_at c xs else (case split_at c xs of [] \<Rightarrow> [[x]] | w # ws \<Rightarrow> (x # w) # ws))"

definition is_space :: "char \<Rightarrow> bool" where
  "is_space c \<longleftrightarrow> (of_char c :: nat) \<in> {9, 10, 11, 12, 13, 32}"

definition TrimSpace :: "string \<Rightarrow> string" where
  "TrimSpace s = rev (dropWhile is_space (rev (dropWhile is_space s)))"

definition parse_peers :: "string \<Rightarrow> string list" where
  "parse_peers s = (if s = '''' then [] else filter (\<lambda>p. p \<noteq> '''') (map TrimSpace (split_at (CHR '','') s)))"

definition Sprintf_d :: "int \<Rightarrow> string" where
  "Sprintf_d n = (if n < 0 then CHR ''-'' # decimal (nat (- n)) else decimal (nat n))"

datatype server_error = WalInit storage_error | CoordInit coord_error | TransportInit string

text \<open>
  \<open>certs\<close> says whether a certificate for the id was generated; \<open>listen\<close> is the listener: an address,
  with TLS or without, to an error if it cannot be bound.
\<close>

definition NewNodeServer ::
  "sys \<Rightarrow> unmarshal \<Rightarrow> (string \<Rightarrow> bool) \<Rightarrow> (string \<Rightarrow> bool \<Rightarrow> string option) \<Rightarrow> int \<Rightarrow> string \<Rightarrow> int \<Rightarrow> int \<Rightarrow> int \<Rightarrow>
   string \<Rightarrow> string list \<Rightarrow> bool \<Rightarrow> OS \<Rightarrow> ((server_error + NodeServer) \<times> OS) option" where
  "NewNodeServer sys unmarshal certs listen now nid cPort pPort hPort dir addrs enableTLS os = do {
     (r, os) \<leftarrow> OpenWAL sys (DefaultConfig dir) os;
     case r of
       Inl e \<Rightarrow> Some (Inl (WalInit e), os)
     | Inr w \<Rightarrow>
         (case NewCoordinator sys unmarshal dir (5 * 1000000000) os of
            (Inl e, os) \<Rightarrow> Some (Inl (CoordInit e), snd (snd (WAL_Close sys w os)))
          | (Inr co, os) \<Rightarrow>
              (let tls = (enableTLS \<and> certs nid);
                   peerBind = ''127.0.0.1:'' @ Sprintf_d pPort
               in case listen peerBind tls of
                    Some e \<Rightarrow> do {
                      let os = snd (snd (WAL_Close sys w os));
                      (_, _, os) \<leftarrow> Coordinator_Close sys co os;
                      Some (Inl (TransportInit e), os)
                    }
                  | None \<Rightarrow>
                      (let raftCfg = \<lparr>cfg_ID = nid, cfg_Peers = addrs, cfg_ElectionMinMs = 350,
                             cfg_ElectionMaxMs = 700, cfg_HeartbeatInterval = 80 * Millisecond,
                             cfg_OnCommit = True, cfg_OnRestoreSnapshot = True,
                             cfg_InitialCommitIndex = LatestOffset w\<rparr>
                       in Some (Inr \<lparr>ns_id = nid, clientPort = cPort, peerPort = pPort, httpPort = hPort,
                            ns_dataDir = dir, peerAddrs = addrs, startTime = now, wal = w, coord = co,
                            raftNode = NewRaftNode now raftCfg, serverTLS = tls, clientTLS = tls,
                            latencyTracker = NewLatencyTracker 60, tcpClients = 0, latencyMs = 0,
                            partitioned = False\<rparr>, os))))
   }"

text \<open>\<open>OnCommit\<close>: the entry goes to the WAL; what the append returns is dropped.\<close>

definition OnCommit :: "sys \<Rightarrow> LogEntry \<Rightarrow> WAL \<times> OS \<Rightarrow> (WAL \<times> OS) option" where
  "OnCommit sys e st = (case st of (w, os) \<Rightarrow>
     (case e_Data e of
        None \<Rightarrow> None
      | Some data \<Rightarrow> map_option (\<lambda>(_, w, os). (w, os)) (WAL_Append sys data w os)))"

fun commit_entries :: "sys \<Rightarrow> LogEntry list \<Rightarrow> WAL \<times> OS \<Rightarrow> (WAL \<times> OS) option" where
  "commit_entries sys [] st = Some st"
| "commit_entries sys (e # es) st = do { st \<leftarrow> OnCommit sys e st; commit_entries sys es st }"

text \<open>The applier of the node: a pass of its loop with the WAL as the state machine.\<close>

definition node_apply :: "sys \<Rightarrow> NodeServer \<Rightarrow> OS \<Rightarrow> (NodeServer \<times> OS) option" where
  "node_apply sys s os = do {
     (rn, es) \<leftarrow> runApplierLoop_step (raftNode s);
     (w, os) \<leftarrow> commit_entries sys es (wal s, os);
     Some (s\<lparr>raftNode := rn, wal := w\<rparr>, os)
   }"

text \<open>
  The three \<open>Send\<close> wrappers: an error while partitioned, otherwise a delay in milliseconds (a
  negative latency is none) and the transport's result.
\<close>

definition chaos_send :: "NodeServer \<Rightarrow> 'r \<Rightarrow> string + (int \<times> 'r)" where
  "chaos_send s transport_result =
    (if partitioned s then Inl ''node is partitioned''
     else Inr (if sint (latencyMs s) > 0 then sint (latencyMs s) else 0, transport_result))"

definition Node_Stop :: "sys \<Rightarrow> NodeServer \<Rightarrow> OS \<Rightarrow> (NodeServer \<times> OS) option" where
  "Node_Stop sys s os =
    (let rn = Stop (raftNode s); (_, w, os) = WAL_Close sys (wal s) os in do {
       (_, c, os) \<leftarrow> Coordinator_Close sys (coord s) os;
       Some (s\<lparr>raftNode := rn, wal := w, coord := c\<rparr>, os)
     })"

section \<open>Clients of the binary protocol\<close>

fun raft_error_text :: "raft_error \<Rightarrow> string" where
  "raft_error_text ErrNotLeader = ''node is not the cluster leader''"
| "raft_error_text ErrProposalFailed = ''proposal failed: leadership lost before commit''"
| "raft_error_text ErrNodeStopped = ''raft node is stopped''"
| "raft_error_text ErrProposalTimeout = ''proposal timed out waiting for quorum commit''"

text \<open>
  What the connection does with a frame: it answers that the node does not lead, or it proposes
  the payload. \<open>client_reply\<close> is its answer when \<open>Propose\<close> has returned after \<open>durMs\<close>.
\<close>

definition encoded :: "u64 \<Rightarrow> byte list \<Rightarrow> byte list" where
  "encoded offset payload = (case EncodeFrame offset payload of Inr bs \<Rightarrow> bs | Inl e \<Rightarrow> [])"

definition handleClientConn_frame :: "frame \<Rightarrow> NodeServer \<Rightarrow> byte list + byte list" where
  "handleClientConn_frame frame s =
    (case GetState (raftNode s) of
       (rl, _, _, lid) \<Rightarrow>
         (if rl \<noteq> Leader then Inl (encoded 0 (bytes_of (''ERR_NOT_LEADER:'' @ lid)))
          else Inr (Payload frame)))"

definition client_reply :: "raft_error + u64 \<Rightarrow> rat \<Rightarrow> NodeServer \<Rightarrow> (byte list \<times> NodeServer) option" where
  "client_reply result durMs s = do {
     lt \<leftarrow> Record durMs (latencyTracker s);
     let s = s\<lparr>latencyTracker := lt\<rparr>;
     Some (case result of
         Inl err \<Rightarrow> encoded 0 (bytes_of (''ERR_PROPOSE:'' @ raft_error_text err))
       | Inr commitIdx \<Rightarrow> encoded commitIdx (bytes_of ''OK''), s)
   }"

section \<open>The HTTP interface\<close>

record NodeTelemetry =
  tl_ID :: string
  tl_Role :: string
  tl_Term :: u64
  tl_CommitIndex :: u64
  tl_LeaderID :: string
  tl_LatestOffset :: u64
  tl_ReplicationLag :: u64
  tl_Peers :: "string list"
  tl_ActiveTCPConns :: int
  tl_UptimeSec :: rat
  tl_LatencyMs :: int
  tl_IsPartitioned :: bool
  tl_P50LatencyMs :: rat
  tl_P99LatencyMs :: rat
  tl_SnapshotIndex :: u64
  tl_SnapshotTerm :: u64
  tl_InMemoryLogEntries :: nat
  tl_MTLSEnabled :: bool

text \<open>\<open>math.Round\<close> rounds half away from zero.\<close>

definition math_Round :: "rat \<Rightarrow> rat" where
  "math_Round x = (if x \<ge> 0 then of_int \<lfloor>x + 1 / 2\<rfloor> else - of_int \<lfloor>- x + 1 / 2\<rfloor>)"

definition getTelemetry :: "int \<Rightarrow> NodeServer \<Rightarrow> NodeTelemetry" where
  "getTelemetry now s =
    (let (rl, term, commitIdx, lid) = GetState (raftNode s);
         latestOffset = LatestOffset (wal s);
         lag = (if latestOffset > commitIdx then latestOffset - commitIdx else 0);
         (p50, p99) = Percentiles (latencyTracker s);
         (snapIdx, snapTerm, logLen) = GetSnapshotState (raftNode s)
     in \<lparr>tl_ID = ns_id s, tl_Role = RawString rl, tl_Term = term, tl_CommitIndex = commitIdx,
         tl_LeaderID = lid, tl_LatestOffset = latestOffset, tl_ReplicationLag = lag,
         tl_Peers = peerAddrs s, tl_ActiveTCPConns = tcpClients s,
         tl_UptimeSec = of_int (now - startTime s) / 1000000000, tl_LatencyMs = sint (latencyMs s),
         tl_IsPartitioned = partitioned s, tl_P50LatencyMs = math_Round (p50 * 100) / 100,
         tl_P99LatencyMs = math_Round (p99 * 100) / 100, tl_SnapshotIndex = snapIdx,
         tl_SnapshotTerm = snapTerm, tl_InMemoryLogEntries = logLen, tl_MTLSEnabled = serverTLS s\<rparr>)"

text \<open>
  A request is its method, the query values (\<open>''''\<close> for one that is absent) and the body; a
  response is its status and what the JSON object or the error text holds.
\<close>

record http_request =
  req_method :: string
  req_query :: "string \<Rightarrow> string"
  req_body :: "byte list"

datatype http_body =
    NoBody | HttpError string | TelemetryBody NodeTelemetry | SnapshotBody u64 u64 nat string
  | Produced u64 | WorkloadBody int int int | Consumed u64 "byte list" | Terminating
  | PartitionedBody bool | LatencyBody int | StorageErrorBody storage_error | SnapshotErrorBody snapshot_error

datatype http_response = Response (status: nat) (body: http_body)

definition corsMiddleware :: "http_request \<Rightarrow> http_response option" where
  "corsMiddleware r = (if req_method r = ''OPTIONS'' then Some (Response 200 NoBody) else None)"

definition handleHTTPStatus :: "int \<Rightarrow> NodeServer \<Rightarrow> http_response" where
  "handleHTTPStatus now s = Response 200 (TelemetryBody (getTelemetry now s))"

text \<open>\<open>json_num\<close> prints the numbers of the state payload, \<open>Sprintf\<close> with \<open>%d\<close>.\<close>

definition snapshot_payload :: "u64 \<Rightarrow> int \<Rightarrow> string \<Rightarrow> byte list" where
  "snapshot_payload commitIdx now nid =
    bytes_of ([CHR ''{'', CHR 0x22] @ ''snapshot_offset'' @ [CHR 0x22, CHR '':''] @ decimal (unat commitIdx) @
      [CHR '','', CHR 0x22] @ ''timestamp'' @ [CHR 0x22, CHR '':''] @ Sprintf_d now @
      [CHR '','', CHR 0x22] @ ''node'' @ [CHR 0x22, CHR '':'', CHR 0x22] @ nid @ [CHR 0x22, CHR ''}''])"

definition handleHTTPSnapshotTrigger ::
  "int \<Rightarrow> http_request \<Rightarrow> NodeServer \<Rightarrow> (http_response \<times> NodeServer) option" where
  "handleHTTPSnapshotTrigger now r s =
    (if req_method r \<noteq> ''POST'' then Some (Response 405 (HttpError ''Method not allowed''), s)
     else case GetState (raftNode s) of (rl, _, commitIdx, _) \<Rightarrow>
       (if commitIdx = 0
        then Some (Response 400 (HttpError ''Cannot snapshot log when commitIndex is 0''), s)
        else do {
          (rn, err) \<leftarrow> TakeSnapshot commitIdx (snapshot_payload commitIdx now (ns_id s)) (raftNode s);
          let s = s\<lparr>raftNode := rn\<rparr>;
          case err of
            Some e \<Rightarrow> Some (Response 500 (SnapshotErrorBody e), s)
          | None \<Rightarrow>
              (case GetSnapshotState rn of (snapIdx, snapTerm, logLen) \<Rightarrow>
                Some (Response 200 (SnapshotBody snapIdx snapTerm logLen (RawString rl)), s))
        }))"

text \<open>
  Producing: \<open>decode_body\<close> is the JSON decoding of the body to the payload. The handler answers at
  once or proposes; \<open>produce_reply\<close> is its answer when \<open>Propose\<close> has returned.
\<close>

definition handleHTTPProduce ::
  "(byte list \<Rightarrow> string + byte list) \<Rightarrow> http_request \<Rightarrow> http_response + byte list" where
  "handleHTTPProduce decode_body r =
    (if req_method r \<noteq> ''POST'' then Inl (Response 405 (HttpError ''Method not allowed''))
     else case decode_body (req_body r) of
         Inl e \<Rightarrow> Inl (Response 400 (HttpError e))
       | Inr payload \<Rightarrow> Inr payload)"

definition produce_reply :: "raft_error + u64 \<Rightarrow> rat \<Rightarrow> NodeServer \<Rightarrow> (http_response \<times> NodeServer) option" where
  "produce_reply result durMs s = do {
     lt \<leftarrow> Record durMs (latencyTracker s);
     Some (case result of
         Inl err \<Rightarrow> Response 503 (HttpError (raft_error_text err))
       | Inr idx \<Rightarrow> Response 200 (Produced idx), s\<lparr>latencyTracker := lt\<rparr>)
   }"

text \<open>The parameters of the workload, within their bounds or the defaults.\<close>

definition workload_param :: "string \<Rightarrow> int \<Rightarrow> int \<Rightarrow> int" where
  "workload_param s most dflt =
    (case Atoi s of Some c \<Rightarrow> (if c > 0 \<and> c \<le> most then c else dflt) | None \<Rightarrow> dflt)"

definition handleHTTPWorkloadStart :: "http_request \<Rightarrow> NodeServer \<Rightarrow> http_response" where
  "handleHTTPWorkloadStart r s =
    (let conns = workload_param (req_query r ''conns'') 20 3;
         msgs = workload_param (req_query r ''messages'') 100 15
     in Response 200 (WorkloadBody conns msgs (clientPort s)))"

definition handleHTTPConsume :: "http_request \<Rightarrow> NodeServer \<Rightarrow> OS \<Rightarrow> http_response option" where
  "handleHTTPConsume r s os =
    (case ParseUint (req_query r ''offset'') of
       None \<Rightarrow> Some (Response 400 (HttpError ''invalid offset''))
     | Some offset \<Rightarrow> do {
         r \<leftarrow> WAL_ReadAt offset (wal s) os;
         Some (case r of
             Inl e \<Rightarrow> Response 404 (StorageErrorBody e)
           | Inr data \<Rightarrow> Response 200 (Consumed offset data))
       })"

definition handleHTTPChaosKill :: "sys \<Rightarrow> NodeServer \<Rightarrow> OS \<Rightarrow> http_response \<times> (NodeServer \<times> OS) option" where
  "handleHTTPChaosKill sys s os = (Response 200 Terminating, Node_Stop sys s os)"

definition handleHTTPChaosPartition :: "http_request \<Rightarrow> NodeServer \<Rightarrow> http_response \<times> NodeServer" where
  "handleHTTPChaosPartition r s =
    (let state = (req_query r ''active'' = ''true'')
     in (Response 200 (PartitionedBody state), s\<lparr>partitioned := state\<rparr>))"

text \<open>A parse error gives 0, or the nearest bound when the number is out of the range of an \<open>int\<close>;
  the conversion to \<open>int32\<close> wraps.\<close>

definition Atoi_value :: "string \<Rightarrow> int" where
  "Atoi_value s = (case Atoi s of Some n \<Rightarrow> n | None \<Rightarrow>
    (let neg = (s \<noteq> [] \<and> hd s = CHR ''-'');
         ds = (if s \<noteq> [] \<and> (hd s = CHR ''-'' \<or> hd s = CHR ''+'') then drop 1 s else s)
     in if ds = [] \<or> parse_digits 0 ds = None then 0 else if neg then - (2 ^ 63) else 2 ^ 63 - 1))"

definition handleHTTPChaosLatency :: "http_request \<Rightarrow> NodeServer \<Rightarrow> http_response \<times> NodeServer" where
  "handleHTTPChaosLatency r s =
    (let ms = Atoi_value (req_query r ''ms'')
     in (Response 200 (LatencyBody ms), s\<lparr>latencyMs := word_of_int ms\<rparr>))"


section \<open>The state machine of a node\<close>

lemma commit_entries_ok:
  assumes sys: "no_faults sys"
  shows "wal_ok w os recs \<Longrightarrow> \<forall>e \<in> set es. \<exists>p. e_Data e = Some p \<and> op_fits (wal_cfg w) (OpAppend p) \<Longrightarrow>
    length recs + length es < 2 ^ 63 \<Longrightarrow>
    \<exists>w' os'. commit_entries sys es (w, os) = Some (w', os') \<and> wal_ok w' os' (recs @ map (\<lambda>e. the (e_Data e)) es) \<and>
      wal_cfg w' = wal_cfg w"
proof (induction es arbitrary: w os recs)
  case (Cons e es)
  obtain p where p: "e_Data e = Some p" "op_fits (wal_cfg w) (OpAppend p)" using Cons.prems(2) by auto
  have count: "length recs + 1 < 2 ^ 63" "length (recs @ [p]) + length es < 2 ^ 63" using Cons.prems(3) by simp_all
  obtain w1 os1 where step: "wal_step sys (OpAppend p) (w, os) = Some (OutOffset (Inr (word_of_nat (length recs))), w1, os1)"
    and ok1: "wal_ok w1 os1 (recs @ [p])" and cfg1: "wal_cfg w1 = wal_cfg w"
    using wal_step_ok [OF sys Cons.prems(1) p(2) count(1)] by auto
  have "OnCommit sys e (w, os) = Some (w1, os1)"
    using step p(1) by (auto simp: OnCommit_def wal_step_def)
  moreover obtain w2 os2 where "commit_entries sys es (w1, os1) = Some (w2, os2)"
    "wal_ok w2 os2 ((recs @ [p]) @ map (\<lambda>e. the (e_Data e)) es)" "wal_cfg w2 = wal_cfg w"
  proof -
    have "\<forall>e \<in> set es. \<exists>p. e_Data e = Some p \<and> op_fits (wal_cfg w1) (OpAppend p)" using Cons.prems(2) cfg1 by simp
    then show thesis using Cons.IH [OF ok1 _ count(2)] that cfg1 by metis
  qed
  ultimately show ?case using p(1) by simp
qed simp


text \<open>The entries a pass applies, by their place.\<close>

lemma applied_entries:
  assumes wf: "log_wf rn" and "lastIncludedIndex rn \<le> lastApplied rn" and "lastApplied rn \<le> commitIndex rn"
    and "unat (commitIndex rn) \<le> log_end rn"
    and data: "\<forall>e \<in> set (rlog rn). lastApplied rn < e_Index e \<and> e_Index e \<le> commitIndex rn \<longrightarrow> e_Data e \<noteq> None"
  defines "es \<equiv> filter (\<lambda>e. lastApplied rn < e_Index e \<and> e_Index e \<le> commitIndex rn \<and> e_Data e \<noteq> None) (rlog rn)"
  shows "length es = unat (commitIndex rn) - unat (lastApplied rn)"
    and "k < length es \<Longrightarrow> unat (e_Index (es ! k)) = Suc (unat (lastApplied rn)) + k"
proof -
  have cont: "contiguous (log_base rn) (rlog rn)" and base: "log_base rn \<le> unat (lastApplied rn)"
    and ne: "rlog rn \<noteq> []"
    using assms(1,2) by (simp_all add: log_wf_def log_base_def word_le_nat_alt)
  have "es = filter (\<lambda>e. unat (lastApplied rn) < unat (e_Index e) \<and> unat (e_Index e) \<le> unat (commitIndex rn)) (rlog rn)"
    unfolding es_def using data by (intro filter_cong) (auto simp: word_less_nat_alt word_le_nat_alt)
  then have es: "es = take (unat (commitIndex rn) - unat (lastApplied rn)) (drop (Suc (unat (lastApplied rn)) - log_base rn) (rlog rn))"
    using contiguous_filter_range [OF cont] base by simp
  have "unat (commitIndex rn) < log_base rn + length (rlog rn)"
    using assms(4) ne by (cases "rlog rn") (simp_all add: log_end_def)
  then show len: "length es = unat (commitIndex rn) - unat (lastApplied rn)"
    using base unfolding es by simp
  assume k: "k < length es"
  define d where "d = Suc (unat (lastApplied rn)) - log_base rn"
  have "d + k < length (rlog rn)" using k base unfolding es d_def by auto
  moreover from this have "es ! k = rlog rn ! (d + k)" using k unfolding es d_def [symmetric] by simp
  ultimately have "unat (e_Index (es ! k)) = log_base rn + (d + k)" using cont by (simp add: contiguous_def)
  then show "unat (e_Index (es ! k)) = Suc (unat (lastApplied rn)) + k" using base by (simp add: d_def)
qed

text \<open>When the applier has carried the committed entries into the log, the payload of the entry with
  index \<open>i\<close> is read at offset \<open>i - 1\<close>, and there is no record at the commit index yet.\<close>

lemma applied_read_one_below:
  assumes "no_faults sys" and "wal_ok (wal s) os recs" and "log_wf (raftNode s)"
    and "lastIncludedIndex (raftNode s) \<le> lastApplied (raftNode s)" and "lastApplied (raftNode s) \<le> commitIndex (raftNode s)"
    and "unat (commitIndex (raftNode s)) \<le> log_end (raftNode s)" and "unat (lastApplied (raftNode s)) = length recs"
    and "cfg_OnCommit (cfg (raftNode s))" and "commitNotify (raftNode s) \<noteq> 0"
    and data: "\<forall>e \<in> set (rlog (raftNode s)). lastApplied (raftNode s) < e_Index e \<and> e_Index e \<le> commitIndex (raftNode s) \<longrightarrow>
      (\<exists>p. e_Data e = Some p \<and> op_fits (wal_cfg (wal s)) (OpAppend p))"
  shows "\<exists>s' os'. node_apply sys s os = Some (s', os') \<and>
    (\<forall>e \<in> set (rlog (raftNode s)). lastApplied (raftNode s) < e_Index e \<and> e_Index e \<le> commitIndex (raftNode s) \<longrightarrow>
       (\<forall>r. ParseUint (req_query r ''offset'') = Some (e_Index e - 1) \<longrightarrow>
          handleHTTPConsume r s' os' = Some (Response 200 (Consumed (e_Index e - 1) (the (e_Data e)))))) \<and>
    (\<forall>r. ParseUint (req_query r ''offset'') = Some (commitIndex (raftNode s)) \<longrightarrow>
       handleHTTPConsume r s' os' = Some (Response 404 (StorageErrorBody ErrOffsetNotFound)))"
proof -
  let ?rn = "raftNode s" and ?rn1 = "(raftNode s)\<lparr>commitNotify := commitNotify (raftNode s) - 1\<rparr>"
  define es where "es = filter (\<lambda>e. lastApplied ?rn < e_Index e \<and> e_Index e \<le> commitIndex ?rn \<and> e_Data e \<noteq> None) (rlog ?rn)"
  have has: "\<forall>e \<in> set (rlog ?rn). lastApplied ?rn < e_Index e \<and> e_Index e \<le> commitIndex ?rn \<longrightarrow> e_Data e \<noteq> None"
    using data by auto
  note len = applied_entries(1) [OF assms(3-6) has, folded es_def]
  note at = applied_entries(2) [OF assms(3-6) has, folded es_def]
  have small: "unat (commitIndex ?rn) < 2 ^ 63" using assms(3,6) log_end_less by fastforce
  have "log_wf ?rn1" using assms(3) by (simp add: log_wf_def log_base_def)
  then have "apply_pass ?rn1 = Some (?rn1\<lparr>lastApplied := commitIndex ?rn\<rparr>, es)"
    using apply_pass_applies [of ?rn1] assms(4,5,8) small by (simp add: es_def)
  then have pass: "runApplierLoop_step ?rn = Some (?rn1\<lparr>lastApplied := commitIndex ?rn\<rparr>, es)"
    using assms(9) by (simp add: runApplierLoop_step_def)
  have "\<forall>e \<in> set es. \<exists>p. e_Data e = Some p \<and> op_fits (wal_cfg (wal s)) (OpAppend p)"
    using data by (simp add: es_def)
  moreover have total: "length recs + length es = unat (commitIndex ?rn)"
    using len assms(5,7) by (simp add: word_le_nat_alt)
  ultimately obtain w' os' where commit: "commit_entries sys es (wal s, os) = Some (w', os')"
    and ok: "wal_ok w' os' (recs @ map (\<lambda>e. the (e_Data e)) es)"
    using commit_entries_ok [OF assms(1,2), of es] small by auto
  define s' where "s' = s\<lparr>raftNode := ?rn1\<lparr>lastApplied := commitIndex ?rn\<rparr>, wal := w'\<rparr>"
  have run: "node_apply sys s os = Some (s', os')"
    using pass commit by (simp add: node_apply_def s'_def)
  have "WAL_ReadAt (e_Index e - 1) w' os' = Some (Inr (the (e_Data e)))"
    if e: "e \<in> set (rlog ?rn)" "lastApplied ?rn < e_Index e" "e_Index e \<le> commitIndex ?rn" for e
  proof -
    have "e \<in> set es" using e has by (auto simp: es_def)
    then obtain k where k: "k < length es" "e = es ! k" by (auto simp: in_set_conv_nth)
    then have "unat (e_Index e) = Suc (length recs + k)" using at [OF k(1)] assms(7) by simp
    then have "unat (e_Index e - 1) = length recs + k"
      using unat_sub_no_borrow [of 1 "e_Index e"] by (simp add: word_le_nat_alt)
    then show ?thesis using wal_ok_ReadAt [OF ok, of "e_Index e - 1"] k by (simp add: nth_append)
  qed
  moreover have "WAL_ReadAt (commitIndex ?rn) w' os' = Some (Inl ErrOffsetNotFound)"
    using wal_ok_ReadAt [OF ok, of "commitIndex ?rn"] total by simp
  ultimately show ?thesis
    using run by (intro exI [of _ s'] exI [of _ os']) (simp add: handleHTTPConsume_def s'_def)
qed

text \<open>The entry a proposal appends, and the only index its wait can return.\<close>

lemma propose_start_appends:
  assumes "propose_start payload rn = Some (Inr (rn', i, t, out))"
  shows "last (rlog rn') = \<lparr>e_Index = i, e_Term = t, e_Data = payload\<rparr> \<and> t = currentTerm rn"
  using assms by (auto simp: propose_start_def bind_eq_Some_conv Let_def split: if_splits)

lemma propose_wait_returns: "propose_wait i t ev rn = Some (Inr j) \<Longrightarrow> j = i \<and> i \<le> commitIndex rn"
  by (cases ev) (auto simp: Let_def split: if_splits)

text \<open>C18. The offset a producer is told is one too high. A leader appends a producer's payload under
  the index \<open>i\<close>; when it is committed and \<open>Propose\<close> returns, the producer is answered \<open>i\<close> as its
  offset, over TCP as over HTTP. But once the applier has carried the committed entries into the
  log, a consumer reads the payload at offset \<open>i - 1\<close>; at the offset that was answered it gets
  status 404, or the payload of the next entry if there is one.\<close>

theorem produce_offset_is_one_late:
  assumes "no_faults sys" and "wal_ok (wal s) os recs" and "log_wf (raftNode s)"
    and "lastIncludedIndex (raftNode s) \<le> lastApplied (raftNode s)" and "lastApplied (raftNode s) \<le> commitIndex (raftNode s)"
    and "unat (commitIndex (raftNode s)) \<le> log_end (raftNode s)" and "unat (lastApplied (raftNode s)) = length recs"
    and "cfg_OnCommit (cfg (raftNode s))" and "commitNotify (raftNode s) \<noteq> 0"
    and "\<forall>e \<in> set (rlog (raftNode s)). lastApplied (raftNode s) < e_Index e \<and> e_Index e \<le> commitIndex (raftNode s) \<longrightarrow>
      (\<exists>p. e_Data e = Some p \<and> op_fits (wal_cfg (wal s)) (OpAppend p))"
    and started: "propose_start (Some p) rn0 = Some (Inr (rn1, i, t, out))" and stored: "last (rlog rn1) \<in> set (rlog (raftNode s))"
    and pending: "lastApplied (raftNode s) < i" and returned: "propose_wait i t ev (raftNode s) = Some (Inr idx)"
    and timed: "Record durMs (latencyTracker s) = Some lt"
  shows "client_reply (Inr idx) durMs s = Some (encoded i (bytes_of ''OK''), s\<lparr>latencyTracker := lt\<rparr>) \<and>
    produce_reply (Inr idx) durMs s = Some (Response 200 (Produced i), s\<lparr>latencyTracker := lt\<rparr>) \<and>
    (\<exists>s' os'. node_apply sys s os = Some (s', os') \<and>
      (\<forall>r. ParseUint (req_query r ''offset'') = Some (i - 1) \<longrightarrow>
         handleHTTPConsume r s' os' = Some (Response 200 (Consumed (i - 1) p))) \<and>
      (\<forall>r. ParseUint (req_query r ''offset'') = Some i \<longrightarrow>
         (if i = commitIndex (raftNode s) then handleHTTPConsume r s' os' = Some (Response 404 (StorageErrorBody ErrOffsetNotFound))
          else \<exists>e \<in> set (rlog (raftNode s)). e_Index e = i + 1 \<and>
            handleHTTPConsume r s' os' = Some (Response 200 (Consumed i (the (e_Data e)))))))"
proof -
  let ?rn = "raftNode s"
  have idx: "idx = i" "i \<le> commitIndex ?rn" using propose_wait_returns [OF returned] by simp_all
  have e: "last (rlog rn1) = \<lparr>e_Index = i, e_Term = t, e_Data = Some p\<rparr>" using propose_start_appends [OF started] by simp
  obtain s' os' where run: "node_apply sys s os = Some (s', os')"
    and below: "\<And>e r. e \<in> set (rlog ?rn) \<Longrightarrow> lastApplied ?rn < e_Index e \<and> e_Index e \<le> commitIndex ?rn \<Longrightarrow>
      ParseUint (req_query r ''offset'') = Some (e_Index e - 1) \<Longrightarrow>
      handleHTTPConsume r s' os' = Some (Response 200 (Consumed (e_Index e - 1) (the (e_Data e))))"
    and newest: "\<And>r. ParseUint (req_query r ''offset'') = Some (commitIndex ?rn) \<Longrightarrow>
      handleHTTPConsume r s' os' = Some (Response 404 (StorageErrorBody ErrOffsetNotFound))"
    using applied_read_one_below [OF assms(1-10)] by blast
  have read: "handleHTTPConsume r s' os' = Some (Response 200 (Consumed (i - 1) p))"
    if "ParseUint (req_query r ''offset'') = Some (i - 1)" for r
    using below [OF stored, of r] that e idx(2) pending by simp
  have beyond: "\<exists>e \<in> set (rlog ?rn). e_Index e = i + 1 \<and> handleHTTPConsume r s' os' = Some (Response 200 (Consumed i (the (e_Data e))))"
    if "i \<noteq> commitIndex ?rn" and r: "ParseUint (req_query r ''offset'') = Some i" for r
  proof -
    have less: "i < commitIndex ?rn" using that(1) idx(2) by simp
    moreover have "unat (commitIndex ?rn) < 2 ^ 63" using assms(3,6) log_end_less by fastforce
    ultimately have suc: "unat (i + 1) = Suc (unat i)" using unat_add_no_wrap [of i 1] by (simp add: word_less_nat_alt)
    then have i1: "unat (i + 1) = Suc (unat i)" "i + 1 \<le> commitIndex ?rn" "lastApplied ?rn < i + 1"
      using less pending by (simp_all add: word_less_nat_alt word_le_nat_alt)
    define k where "k = unat (i + 1) - log_base ?rn"
    have ne: "rlog ?rn \<noteq> []" and cont: "contiguous (log_base ?rn) (rlog ?rn)" and "log_base ?rn \<le> unat (lastApplied ?rn)"
      using assms(3,4) by (simp_all add: log_wf_def log_base_def word_le_nat_alt)
    then have k: "k < length (rlog ?rn)" and base: "log_base ?rn + k = unat (i + 1)"
      using assms(6) i1 pending by (auto simp: k_def log_end_def word_less_nat_alt word_le_nat_alt)
    then have "e_Index (rlog ?rn ! k) = i + 1" using cont by (simp add: contiguous_def word_unat_eq_iff)
    then show ?thesis using below [OF nth_mem [OF k], of r] i1(2,3) r nth_mem [OF k] by force
  qed
  show ?thesis
    using timed idx(1) run read beyond newest
    by (intro conjI exI [of _ s'] exI [of _ os']) (auto simp: client_reply_def produce_reply_def)
qed

text \<open>A server over an empty log, whose leader has just committed its first entry.\<close>

definition example_server :: "WAL \<Rightarrow> NodeServer" where
  "example_server w = \<lparr>ns_id = ''1'', clientPort = 9001, peerPort = 9101, httpPort = 8081, ns_dataDir = ''d'',
     peerAddrs = [''b'', ''c''], startTime = 0, wal = w, coord = example_coord,
     raftNode = example_node\<lparr>rlog := rlog example_node @ [\<lparr>e_Index = 1, e_Term = 1, e_Data = Some [7]\<rparr>],
       commitIndex := 1, commitNotify := 1\<rparr>,
     serverTLS = False, clientTLS = False, latencyTracker = NewLatencyTracker 60, tcpClients = 0, latencyMs = 0,
     partitioned = False\<rparr>"

definition consume_request :: "string \<Rightarrow> http_request" where
  "consume_request offset = \<lparr>req_method = ''GET'', req_query = (\<lambda>k. if k = ''offset'' then offset else []), req_body = []\<rparr>"

definition leading_server :: "WAL \<Rightarrow> NodeServer" where
  "leading_server w = (example_server w)\<lparr>raftNode := (raftNode (example_server w))\<lparr>role := Leader, currentTerm := 1\<rparr>\<rparr>"

text \<open>The leader of the example proposed the payload \<open>7\<close> in its first term.\<close>

lemma example_propose:
  "\<exists>rn0 rn1 out. propose_start (Some [7]) rn0 = Some (Inr (rn1, 1, 1, out)) \<and> last (rlog rn1) \<in> set (rlog (raftNode (leading_server w)))"
proof -
  let ?rn = "example_node\<lparr>role := Leader, currentTerm := 1\<rparr>"
  have "leader_wf ?rn"
    by (simp add: leader_wf_def example_node_eq log_wf_def log_base_def contiguous_def next_wf_def log_end_def map_get_def)
  moreover have "log_end ?rn + 2 < 2 ^ 63" "role ?rn = Leader" by (simp_all add: example_node_eq log_end_def log_base_def)
  ultimately obtain i e out where i: "unat i = log_end ?rn + 1" and e: "e = \<lparr>e_Index = i, e_Term = currentTerm ?rn, e_Data = Some [7]\<rparr>"
    and run: "propose_start (Some [7]) ?rn = Some (Inr (appended ?rn e, i, currentTerm ?rn, out))"
    using propose_leader [of ?rn "Some [7]"] by metis
  have "i = 1" using i by (simp add: example_node_eq log_end_def log_base_def word_unat_eq_iff)
  then show ?thesis using e run
    by (intro exI [of _ ?rn] exI [of _ "appended ?rn e"] exI [of _ out])
      (simp add: appended_def leading_server_def example_server_def example_node_eq)
qed

lemma produce_offset_is_one_late_witness:
  "\<exists>w os s' os'. OpenWAL faultless small_cfg empty_os = Some (Inr w, os) \<and>
     propose_wait 1 1 Poll (raftNode (leading_server w)) = Some (Inr 1) \<and>
     map_option fst (produce_reply (Inr 1) 2 (leading_server w)) = Some (Response 200 (Produced 1)) \<and>
     node_apply faultless (leading_server w) os = Some (s', os') \<and>
     handleHTTPConsume (consume_request ''0'') s' os' = Some (Response 200 (Consumed 0 [7])) \<and>
     handleHTTPConsume (consume_request ''1'') s' os' = Some (Response 404 (StorageErrorBody ErrOffsetNotFound))"
proof -
  have cfg: "cfg_ok small_cfg" and dir: "wal_dir empty_os (DataDir small_cfg) []"
    by (simp_all add: cfg_ok_def small_cfg_def size_ok_def max_frame_def wal_dir_def log_bases_def empty_os_def)
  obtain w os where w: "OpenWAL faultless small_cfg empty_os = Some (Inr w, os)" "wal_rel w os [] []" "wal_cfg w = small_cfg"
    by (rule OpenWAL_fresh [OF no_faults_faultless cfg dir])
  let ?s = "leading_server w"
  have ok: "wal_ok (wal ?s) os []" using w(2) by (auto simp: wal_ok_def leading_server_def example_server_def)
  have wf: "log_wf (raftNode ?s)"
    by (simp_all add: leading_server_def example_server_def example_node_eq log_wf_def log_base_def contiguous_def nth_Cons split: nat.split)
  have rn: "lastIncludedIndex (raftNode ?s) = 0" "lastApplied (raftNode ?s) = 0" "commitIndex (raftNode ?s) = 1"
    "log_end (raftNode ?s) = 1" "cfg_OnCommit (cfg (raftNode ?s))" "commitNotify (raftNode ?s) = 1" "wal_cfg (wal ?s) = small_cfg"
    "rlog (raftNode ?s) = [\<lparr>e_Index = 0, e_Term = 0, e_Data = None\<rparr>, \<lparr>e_Index = 1, e_Term = 1, e_Data = Some [7]\<rparr>]"
    using w(3) by (simp_all add: leading_server_def example_server_def example_node_eq example_config_def log_end_def log_base_def)
  have wait: "propose_wait 1 1 Poll (raftNode ?s) = Some (Inr 1)" using rn(3) by (simp add: leading_server_def)
  obtain lt where timed: "Record 2 (latencyTracker ?s) = Some lt"
    by (simp add: leading_server_def example_server_def NewLatencyTracker_def Record_def)
  obtain rn0 rn1 out where proposed: "propose_start (Some [7]) rn0 = Some (Inr (rn1, 1, 1, out))" "last (rlog rn1) \<in> set (rlog (raftNode ?s))"
    using example_propose by blast
  have "ParseUint ''0'' = Some 0" "ParseUint ''1'' = Some 1" by (simp_all add: ParseUint_def digit_val_def)
  then have parsed: "ParseUint (req_query (consume_request ''0'') ''offset'') = Some 0"
    "ParseUint (req_query (consume_request ''1'') ''offset'') = Some 1" by (simp_all add: consume_request_def)
  have fits: "\<forall>e \<in> set (rlog (raftNode ?s)). lastApplied (raftNode ?s) < e_Index e \<and> e_Index e \<le> commitIndex (raftNode ?s) \<longrightarrow>
      (\<exists>p. e_Data e = Some p \<and> op_fits (wal_cfg (wal ?s)) (OpAppend p))"
    by (simp add: rn op_fits_def small_cfg_def)
  have late: "produce_reply (Inr 1) 2 ?s = Some (Response 200 (Produced 1), ?s\<lparr>latencyTracker := lt\<rparr>) \<and>
    (\<exists>s' os'. node_apply faultless ?s os = Some (s', os') \<and>
      (\<forall>r. ParseUint (req_query r ''offset'') = Some (1 - 1) \<longrightarrow> handleHTTPConsume r s' os' = Some (Response 200 (Consumed (1 - 1) [7]))) \<and>
      (\<forall>r. ParseUint (req_query r ''offset'') = Some 1 \<longrightarrow>
         (if 1 = commitIndex (raftNode ?s) then handleHTTPConsume r s' os' = Some (Response 404 (StorageErrorBody ErrOffsetNotFound))
          else \<exists>e \<in> set (rlog (raftNode ?s)). e_Index e = 1 + 1 \<and>
            handleHTTPConsume r s' os' = Some (Response 200 (Consumed 1 (the (e_Data e)))))))"
    by (rule conjunct2 [OF produce_offset_is_one_late [OF no_faults_faultless ok wf _ _ _ _ _ _ fits proposed _ wait timed]])
      (simp_all add: rn)
  then obtain s' os' where "node_apply faultless ?s os = Some (s', os')"
    and "handleHTTPConsume (consume_request ''0'') s' os' = Some (Response 200 (Consumed 0 [7]))"
    and "handleHTTPConsume (consume_request ''1'') s' os' = Some (Response 404 (StorageErrorBody ErrOffsetNotFound))"
    using parsed rn(3) by auto
  then show ?thesis using w(1) wait conjunct1 [OF late] by (intro exI [of _ w] exI [of _ os] exI [of _ s'] exI [of _ os']) simp
qed

text \<open>C19. A restarted node replicates nothing of what it had: the Raft log a server starts with, over
  a log of \<open>n\<close> stored records, has the indices up to \<open>n\<close> all committed and applied, but every one
  of its entries is empty. A follower that takes these entries over and applies them, up to its
  commit index, hands nothing to its own log, so the records are never on it.\<close>

theorem restart_replicates_nothing:
  assumes "NewNodeServer sys unmarshal certs listen now nid cPort pPort hPort dir addrs enableTLS os = Some (Inr s, os')"
    and "log_wf f" and "lastIncludedIndex f \<le> lastApplied f" and "unat (commitIndex f) < 2 ^ 63"
    and "\<forall>e \<in> set (rlog f). e_Index e \<le> commitIndex f \<longrightarrow> e \<in> set (rlog (raftNode s))"
  shows "commitIndex (raftNode s) = LatestOffset (wal s) \<and> lastApplied (raftNode s) = LatestOffset (wal s) \<and>
    length (rlog (raftNode s)) = Suc (unat (LatestOffset (wal s))) \<and>
    (\<forall>e \<in> set (rlog (raftNode s)). e_Data e = None) \<and>
    apply_pass f = Some (f\<lparr>lastApplied := max (lastApplied f) (commitIndex f)\<rparr>, [])"
proof -
  obtain c where s: "raftNode s = NewRaftNode now c" "cfg_InitialCommitIndex c = LatestOffset (wal s)"
  proof -
    obtain r os1 where wal_run: "OpenWAL sys (DefaultConfig dir) os = Some (r, os1)"
      using assms(1) by (cases "OpenWAL sys (DefaultConfig dir) os") (auto simp: NewNodeServer_def)
    with assms(1) obtain w where r: "r = Inr w" by (cases r) (auto simp: NewNodeServer_def)
    obtain q os2 where co_run: "NewCoordinator sys unmarshal dir (5 * 1000000000) os1 = (q, os2)" by fastforce
    with assms(1) wal_run r obtain co where q: "q = Inr co" by (cases q) (auto simp: NewNodeServer_def)
    show thesis
      using assms(1) wal_run r co_run q
      by (intro that) (auto simp: NewNodeServer_def Let_def bind_eq_Some_conv split: option.splits prod.splits)
  qed
  have none: "\<forall>e \<in> set (rlog (raftNode s)). e_Data e = None"
    unfolding s(1) by (auto simp: NewRaftNode_def Let_def)
  moreover have "unapplied f = []"
    using none assms(5) unapplied_range [OF assms(2,3)] by (auto simp: filter_empty_conv)
  moreover have "length (rlog (raftNode s)) = Suc (unat (LatestOffset (wal s)))"
    "commitIndex (raftNode s) = LatestOffset (wal s)" "lastApplied (raftNode s) = LatestOffset (wal s)"
    unfolding s(1) s(2) [symmetric] by (simp_all add: NewRaftNode_def Let_def)
  ultimately show ?thesis using apply_pass_unapplied [OF assms(3,4)] by simp
qed

text \<open>A server that starts over the log of an earlier run, which holds one record.\<close>

definition one_record :: OS where
  "one_record = \<lparr>files = [log_path ''d'' 0 \<mapsto> frames [(0, [7])]], dirents = [(log_path ''d'' 0, False)], fds = [], calls = 0\<rparr>"

lemma one_record_stored: "wal_stored one_record (DefaultConfig ''d'') [] [(0, [7])]"
proof -
  let ?cfg = "DefaultConfig ''d''"
  have len: "length (frames [(0, [7 :: byte])]) = 18" by (simp add: frames_def rec_bytes_def)
  have bytes: "file_bytes one_record (log_path ''d'' 0) = frames [(0, [7])]" "file_bytes one_record (index_path ''d'' 0) = []"
    by (simp_all add: one_record_def file_bytes_def)
  have "stored one_record ''d'' 0 (MaxSegmentBytes ?cfg) (IndexIntervalBytes ?cfg) [(0, [7])] (zeros_after (MaxSegmentBytes ?cfg) [(0, [7])])"
  proof (rule stored_unindexed)
    show "padded (MaxSegmentBytes ?cfg) (file_bytes one_record (log_path ''d'' 0)) =
        frames [(0, [7])] @ zeros_after (MaxSegmentBytes ?cfg) [(0, [7])]"
      unfolding bytes by (simp add: padded_def zeros_after_def)
    show "length (file_bytes one_record (log_path ''d'' 0)) \<le> MaxSegmentBytes ?cfg"
      unfolding bytes len by (simp add: DefaultConfig_def)
    show "file_bytes one_record (index_path ''d'' 0) = []" by (rule bytes)
    show "all_fit [(0, [7])]" by (simp add: all_fit_def rec_fits_def MaxPayloadSize_def)
    show "dead_end (zeros_after (MaxSegmentBytes ?cfg) [(0, [7])])" unfolding zeros_after_def by (rule dead_end_zeros)
    show "numbered 0 [(0, [7])]" by (simp add: numbered_def)
  qed
  moreover have "log_bases one_record ''d'' = [0]" by (simp add: one_record_def log_bases_def log_path_def)
  then have "wal_dir one_record ''d'' [0]" by (simp add: wal_dir_def one_record_def)
  ultimately show ?thesis by (simp add: wal_stored_def chunks_ok_def start_def DefaultConfig_def)
qed

lemma one_record_server:
  obtains s os' where "NewNodeServer faultless (\<lambda>_. None) certs (\<lambda>_ _. None) now nid cPort pPort hPort ''d'' addrs tls one_record =
      Some (Inr s, os')" and "LatestOffset (wal s) = 1"
    and "rlog (raftNode s) = rlog (NewRaftNode 0 (example_config\<lparr>cfg_InitialCommitIndex := 1\<rparr>))"
proof -
  let ?cfg = "DefaultConfig ''d''"
  have cfg: "cfg_ok ?cfg" by (simp add: cfg_ok_def DefaultConfig_def size_ok_def max_frame_def)
  obtain w os1 where w: "OpenWAL faultless ?cfg one_record = Some (Inr w, os1)" "wal_rel w os1 [] [(0, [7])]"
    and kept: "others_kept ?cfg (set (map (base_at []) [0..<Suc (length ([] :: logrec list list))])) one_record os1"
    by (rule OpenWAL_stored [OF no_faults_faultless cfg one_record_stored])
  have "files os1 (offset_path ''d'') = files one_record (offset_path ''d'')"
    by (rule others_keptD [OF kept]) (use length_Sprintf_020d in \<open>auto simp: offset_path_def log_path_def index_path_def dest: arg_cong [of _ _ length]\<close>)
  then have "file_bytes os1 (offset_path ''d'') = []"
    by (auto simp: file_bytes_def one_record_def offset_path_def log_path_def)
  then have "scan_lines (file_bytes os1 (offset_path ''d'')) = ([], False)" by (simp add: scan_lines.simps)
  from NewCoordinator_ok [OF no_faults_faultless this, of "\<lambda>_. None" "5 * 1000000000"]
  obtain co os2 where "NewCoordinator faultless (\<lambda>_. None) ''d'' (5 * 1000000000) os1 = (Inr co, os2)" by blast
  moreover have "LatestOffset w = 1" using w(2) by (simp add: LatestOffset_def wal_rel_def)
  ultimately show thesis
    using w(1) that by (simp add: NewNodeServer_def NewRaftNode_def Let_def)
qed

lemma restart_replicates_nothing_witness:
  "\<exists>s os' f. NewNodeServer faultless (\<lambda>_. None) (\<lambda>_. False) (\<lambda>_ _. None) 0 ''1'' 9001 9101 8081 ''d'' [''b'', ''c''] False one_record =
      Some (Inr s, os') \<and> LatestOffset (wal s) = 1 \<and>
      commitIndex f = 1 \<and> rlog f = rlog (raftNode s) \<and> apply_pass f = Some (f\<lparr>lastApplied := 1\<rparr>, [])"
proof -
  obtain s os' where s: "NewNodeServer faultless (\<lambda>_. None) (\<lambda>_. False) (\<lambda>_ _. None) 0 ''1'' 9001 9101 8081 ''d'' [''b'', ''c''] False one_record =
      Some (Inr s, os')" and latest: "LatestOffset (wal s) = 1"
    and entries: "rlog (raftNode s) = rlog (NewRaftNode 0 (example_config\<lparr>cfg_InitialCommitIndex := 1\<rparr>))"
    by (rule one_record_server)
  define f where "f = example_node\<lparr>rlog := rlog (raftNode s), commitIndex := 1\<rparr>"
  have "log_wf f"
    by (simp add: entries f_def example_node_eq log_wf_def log_base_def NewRaftNode_def Let_def contiguous_def nth_Cons split: nat.split)
  then show ?thesis
    using s latest restart_replicates_nothing [OF s \<open>log_wf f\<close>]
    by (intro exI [of _ s] exI [of _ os'] exI [of _ f]) (simp add: f_def example_node_eq max_def)
qed

end
