(* ===== verification/JsonText.thy ===== *)
theory JsonText
  imports Decimal
begin

text \<open>
  The part of \<open>encoding/json\<close> that the program uses: the compact text that \<open>Marshal\<close> writes for a
  value, with the escapes of its strings, and the parser of \<open>Decoder\<close> and \<open>Unmarshal\<close>. Text and Go
  strings are lists of bytes (\<open>char\<close>). A number is kept as its literal. The parser takes fuel;
  \<open>parse_fuel\<close> shows that the fuel of \<open>parse_json\<close> is enough for any text.
\<close>

section \<open>Runes\<close>

abbreviation code :: "char \<Rightarrow> nat" where
  "code c \<equiv> of_char c"

definition cont :: "nat \<Rightarrow> nat \<Rightarrow> char \<Rightarrow> bool" where
  "cont lo hi c \<longleftrightarrow> lo \<le> code c \<and> code c \<le> hi"

text \<open>\<open>utf8.DecodeRune\<close>: the rune and its length, \<open>None\<close> for an invalid byte. The first byte says
  how many bytes there are; some restrict the second.\<close>

definition decode_2 :: "char \<Rightarrow> string \<Rightarrow> (nat \<times> nat) option" where
  "decode_2 a s = (case s of
     b # _ \<Rightarrow> (if cont 128 191 b then Some ((code a - 192) * 64 + (code b - 128), 2) else None)
   | _ \<Rightarrow> None)"

definition decode_3 :: "char \<Rightarrow> string \<Rightarrow> (nat \<times> nat) option" where
  "decode_3 a s = (case s of
     b # c # _ \<Rightarrow>
       (if cont (if code a = 224 then 160 else 128) (if code a = 237 then 159 else 191) b \<and> cont 128 191 c
        then Some (((code a - 224) * 64 + (code b - 128)) * 64 + (code c - 128), 3) else None)
   | _ \<Rightarrow> None)"

definition decode_4 :: "char \<Rightarrow> string \<Rightarrow> (nat \<times> nat) option" where
  "decode_4 a s = (case s of
     b # c # d # _ \<Rightarrow>
       (if cont (if code a = 240 then 144 else 128) (if code a = 244 then 143 else 191) b \<and> cont 128 191 c \<and> cont 128 191 d
        then Some ((((code a - 240) * 64 + (code b - 128)) * 64 + (code c - 128)) * 64 + (code d - 128), 4) else None)
   | _ \<Rightarrow> None)"

fun decode_rune :: "string \<Rightarrow> (nat \<times> nat) option" where
  "decode_rune [] = None"
| "decode_rune (a # s) =
    (if code a < 128 then Some (code a, 1)
     else if 194 \<le> code a \<and> code a \<le> 223 then decode_2 a s
     else if 224 \<le> code a \<and> code a \<le> 239 then decode_3 a s
     else if 240 \<le> code a \<and> code a \<le> 244 then decode_4 a s
     else None)"

definition chr :: "nat \<Rightarrow> char" where
  "chr n = char_of n"

definition encode_rune :: "nat \<Rightarrow> string" where
  "encode_rune r =
    (if r < 128 then [chr r]
     else if r < 2048 then [chr (192 + r div 64), chr (128 + r mod 64)]
     else if r < 65536 then [chr (224 + r div 4096), chr (128 + r div 64 mod 64), chr (128 + r mod 64)]
     else [chr (240 + r div 262144), chr (128 + r div 4096 mod 64), chr (128 + r div 64 mod 64), chr (128 + r mod 64)])"

lemmas decode_defs = decode_2_def decode_3_def decode_4_def

lemma decode_length:
  "decode_2 a s = Some (r, n) \<Longrightarrow> n = 2 \<and> 1 \<le> length s"
  "decode_3 a s = Some (r, n) \<Longrightarrow> n = 3 \<and> 2 \<le> length s"
  "decode_4 a s = Some (r, n) \<Longrightarrow> n = 4 \<and> 3 \<le> length s"
  by (auto simp: decode_defs split: list.splits if_splits)

lemma decode_rune_length: "decode_rune s = Some (r, n) \<Longrightarrow> 0 < n \<and> n \<le> length s"
  by (cases s) (auto split: if_splits dest!: decode_length)

declare decode_rune.simps [simp del]

text \<open>Valid UTF-8.\<close>

function utf8 :: "string \<Rightarrow> bool" where
  "utf8 s = (s = [] \<or> (case decode_rune s of None \<Rightarrow> False | Some (r, n) \<Rightarrow> utf8 (drop n s)))"
  by pat_completeness auto
termination
  by (relation "measure length") (auto dest: decode_rune_length)

declare utf8.simps [simp del]

section \<open>String literals\<close>

definition hex_char :: "nat \<Rightarrow> char" where
  "hex_char n = (if n < 10 then chr (48 + n) else chr (87 + n))"

definition quote_char :: char where
  "quote_char = CHR 0x22"

definition backslash :: char where
  "backslash = CHR 0x5C"

text \<open>The characters below 128, with the escapes of the encoder (HTML included).\<close>

definition escape_ascii :: "char \<Rightarrow> string" where
  "escape_ascii c =
    (if c = quote_char \<or> c = backslash then [backslash, c]
     else if c = CHR 0x08 then [backslash, CHR ''b'']
     else if c = CHR 0x0C then [backslash, CHR ''f'']
     else if c = CHR 0x0A then [backslash, CHR ''n'']
     else if c = CHR 0x0D then [backslash, CHR ''r'']
     else if c = CHR 0x09 then [backslash, CHR ''t'']
     else if code c < 32 \<or> c = CHR ''<'' \<or> c = CHR ''>'' \<or> c = CHR ''&''
       then [backslash, CHR ''u'', CHR ''0'', CHR ''0'', hex_char (code c div 16), hex_char (code c mod 16)]
     else [c])"

function escape :: "string \<Rightarrow> string" where
  "escape s =
    (case s of [] \<Rightarrow> []
     | c # cs \<Rightarrow>
         (if code c < 128 then escape_ascii c @ escape cs
          else case decode_rune s of
              None \<Rightarrow> backslash # ''ufffd'' @ escape cs
            | Some (r, n) \<Rightarrow>
                (if r = 8232 \<or> r = 8233 then backslash # ''u202'' @ hex_char (r mod 16) # escape (drop n s)
                 else take n s @ escape (drop n s))))"
  by pat_completeness auto
termination
  by (relation "measure length") (auto dest: decode_rune_length split: if_splits)

declare escape.simps [simp del]

definition hex_val :: "char \<Rightarrow> nat option" where
  "hex_val c =
    (if 48 \<le> code c \<and> code c \<le> 57 then Some (code c - 48)
     else if 97 \<le> code c \<and> code c \<le> 102 then Some (code c - 87)
     else if 65 \<le> code c \<and> code c \<le> 70 then Some (code c - 55) else None)"

fun hex4 :: "string \<Rightarrow> (nat \<times> string) option" where
  "hex4 (a # b # c # d # s) =
    (case (hex_val a, hex_val b, hex_val c, hex_val d) of
       (Some w, Some x, Some y, Some z) \<Rightarrow> Some (((w * 16 + x) * 16 + y) * 16 + z, s)
     | _ \<Rightarrow> None)"
| "hex4 s = None"

text \<open>What follows a backslash: the bytes it stands for and the rest. A surrogate that is not half
  of a pair stands for the replacement character.\<close>

definition surrogate :: "nat \<Rightarrow> bool" where
  "surrogate r \<longleftrightarrow> 55296 \<le> r \<and> r < 57344"

definition unescape_u :: "string \<Rightarrow> (string \<times> string) option" where
  "unescape_u s =
    (case hex4 s of
       None \<Rightarrow> None
     | Some (r, rest) \<Rightarrow>
         (if \<not> surrogate r then Some (encode_rune r, rest)
          else case rest of
              x # y # rest' \<Rightarrow>
                (if r < 56320 \<and> x = backslash \<and> y = CHR ''u'' then
                   (case hex4 rest' of
                      Some (r2, rest2) \<Rightarrow>
                        (if 56320 \<le> r2 \<and> r2 < 57344
                         then Some (encode_rune ((r - 55296) * 1024 + (r2 - 56320) + 65536), rest2)
                         else Some (encode_rune 65533, rest))
                    | None \<Rightarrow> Some (encode_rune 65533, rest))
                 else Some (encode_rune 65533, rest))
            | _ \<Rightarrow> Some (encode_rune 65533, rest)))"

fun unescape :: "string \<Rightarrow> (string \<times> string) option" where
  "unescape [] = None"
| "unescape (c # s) =
    (if c = quote_char \<or> c = backslash \<or> c = CHR ''/'' then Some ([c], s)
     else if c = CHR ''b'' then Some ([CHR 0x08], s)
     else if c = CHR ''f'' then Some ([CHR 0x0C], s)
     else if c = CHR ''n'' then Some ([CHR 0x0A], s)
     else if c = CHR ''r'' then Some ([CHR 0x0D], s)
     else if c = CHR ''t'' then Some ([CHR 0x09], s)
     else if c = CHR ''u'' then unescape_u s
     else None)"

lemma hex4_length: "hex4 s = Some (r, rest) \<Longrightarrow> length rest < length s"
  by (cases s rule: hex4.cases) (auto split: option.splits)

lemma unescape_length: "unescape s = Some (out, rest) \<Longrightarrow> length rest < length s"
proof (cases s)
  case (Cons c t)
  assume u: "unescape s = Some (out, rest)"
  show ?thesis
  proof (cases "unescape_u t = Some (out, rest)")
    case True
    then have "length rest < length t"
      by (auto simp: unescape_u_def split: option.splits if_splits list.splits dest!: hex4_length)
    then show ?thesis using Cons by simp
  next
    case False
    then show ?thesis using u Cons by (auto split: if_splits)
  qed
qed simp

text \<open>The literal after its opening quote: the string and what follows the closing quote.\<close>

function parse_string :: "string \<Rightarrow> (string \<times> string) option" where
  "parse_string s =
    (case s of [] \<Rightarrow> None
     | c # cs \<Rightarrow>
         (if c = quote_char then Some ([], cs)
          else if c = backslash then
            (case unescape cs of None \<Rightarrow> None
             | Some (out, rest) \<Rightarrow> map_option (\<lambda>(t, r). (out @ t, r)) (parse_string rest))
          else if code c < 32 then None
          else case decode_rune s of
              None \<Rightarrow> map_option (\<lambda>(t, r). (encode_rune 65533 @ t, r)) (parse_string cs)
            | Some (x, n) \<Rightarrow> map_option (\<lambda>(t, r). (take n s @ t, r)) (parse_string (drop n s))))"
  by pat_completeness auto
termination
  by (relation "measure length") (auto dest: decode_rune_length unescape_length split: if_splits)

declare parse_string.simps [simp del]

lemma parse_string_length: "parse_string s = Some (t, r) \<Longrightarrow> length r < length s"
proof (induction s arbitrary: t r rule: parse_string.induct)
  case (1 s)
  show ?case
  proof (cases s)
    case (Cons c cs)
    note IH = 1
    have "length r < length s" if "decode_rune s = Some (x, n)" "parse_string (drop n s) = Some (u, r)"
      "c \<noteq> quote_char" "c \<noteq> backslash" "\<not> code c < 32" for x n u
      using IH(3) [OF Cons that(3,4,5,1) refl that(2)] decode_rune_length [OF that(1)] by simp
    moreover have "length r < length s" if "decode_rune s = None" "parse_string cs = Some (u, r)"
      "c \<noteq> quote_char" "c \<noteq> backslash" "\<not> code c < 32" for u
      using IH(2) [OF Cons that(3,4,5,1,2)] Cons by simp
    moreover have "length r < length s" if "unescape cs = Some (out, rest)" "parse_string rest = Some (u, r)"
      "c \<noteq> quote_char" "c = backslash" for out rest u
      using IH(1) [OF Cons that(3,4,1) refl that(2)] unescape_length [OF that(1)] Cons by simp
    ultimately show ?thesis
      using 1(4) unfolding parse_string.simps [of s] by (auto simp: Cons split: if_splits option.splits)
  qed (use 1 in \<open>simp add: parse_string.simps\<close>)
qed

section \<open>Values, their text and the parser\<close>

datatype json =
    JNull
  | JBool bool
  | JNum string
  | JStr string
  | JArr "json list"
  | JObj "(string \<times> json) list"

definition quoted :: "string \<Rightarrow> string" where
  "quoted s = quote_char # escape s @ [quote_char]"

text \<open>\<open>json.Marshal\<close>: the text is compact. The last two functions print what follows the first
  element, closing bracket included.\<close>

fun json_text :: "json \<Rightarrow> string" and elems_text :: "json list \<Rightarrow> string" and
  members_text :: "(string \<times> json) list \<Rightarrow> string" where
  "json_text JNull = ''null''"
| "json_text (JBool b) = (if b then ''true'' else ''false'')"
| "json_text (JNum l) = l"
| "json_text (JStr s) = quoted s"
| "json_text (JArr []) = ''[]''"
| "json_text (JArr (v # vs)) = CHR ''['' # json_text v @ elems_text vs"
| "json_text (JObj []) = ''{}''"
| "json_text (JObj ((k, v) # ms)) = CHR ''{'' # quoted k @ CHR '':'' # json_text v @ members_text ms"
| "elems_text [] = '']''"
| "elems_text (v # vs) = CHR '','' # json_text v @ elems_text vs"
| "members_text [] = ''}''"
| "members_text ((k, v) # ms) = CHR '','' # quoted k @ CHR '':'' # json_text v @ members_text ms"

definition is_ws :: "char \<Rightarrow> bool" where
  "is_ws c \<longleftrightarrow> c = CHR '' '' \<or> c = CHR 0x09 \<or> c = CHR 0x0A \<or> c = CHR 0x0D"

definition skip_ws :: "string \<Rightarrow> string" where
  "skip_ws s = dropWhile is_ws s"

text \<open>Skip white space, then expect a character.\<close>

definition eat :: "char \<Rightarrow> string \<Rightarrow> string option" where
  "eat c s = (case skip_ws s of [] \<Rightarrow> None | x # r \<Rightarrow> if x = c then Some r else None)"

definition is_digit :: "char \<Rightarrow> bool" where
  "is_digit c \<longleftrightarrow> 48 \<le> code c \<and> code c \<le> 57"

text \<open>The literal of a number and what follows it.\<close>

definition scan_digits :: "string \<Rightarrow> (string \<times> string) option" where
  "scan_digits s = (if takeWhile is_digit s = [] then None else Some (takeWhile is_digit s, dropWhile is_digit s))"

definition scan_int :: "string \<Rightarrow> (string \<times> string) option" where
  "scan_int s = (case s of [] \<Rightarrow> None | c # cs \<Rightarrow> if c = CHR ''0'' then Some ([c], cs) else scan_digits s)"

definition scan_frac :: "string \<Rightarrow> (string \<times> string) option" where
  "scan_frac s = (case s of [] \<Rightarrow> Some ([], s)
     | c # cs \<Rightarrow> if c = CHR ''.'' then map_option (\<lambda>(ds, r). (c # ds, r)) (scan_digits cs) else Some ([], s))"

definition scan_exp :: "string \<Rightarrow> (string \<times> string) option" where
  "scan_exp s = (case s of [] \<Rightarrow> Some ([], s)
     | c # cs \<Rightarrow>
         (if c = CHR ''e'' \<or> c = CHR ''E'' then
            (case cs of [] \<Rightarrow> None
             | x # xs \<Rightarrow>
                 (if x = CHR ''+'' \<or> x = CHR ''-'' then map_option (\<lambda>(ds, r). (c # x # ds, r)) (scan_digits xs)
                  else map_option (\<lambda>(ds, r). (c # ds, r)) (scan_digits cs)))
          else Some ([], s)))"

definition scan_number :: "string \<Rightarrow> (string \<times> string) option" where
  "scan_number s =
    (let (sign, s) = (case s of [] \<Rightarrow> ([], s) | c # cs \<Rightarrow> if c = CHR ''-'' then ([c], cs) else ([], s)) in
     case scan_int s of None \<Rightarrow> None
     | Some (i, s) \<Rightarrow>
         (case scan_frac s of None \<Rightarrow> None
          | Some (f, s) \<Rightarrow> map_option (\<lambda>(e, r). (sign @ i @ f @ e, r)) (scan_exp s)))"

text \<open>
  The parser, with fuel \<open>n\<close> and the nesting depth \<open>d\<close> that is left: \<open>parse_elems\<close> reads the elements
  of an array that has one, up to its bracket, and \<open>parse_members\<close> the members of an object.
\<close>

definition maxNestingDepth :: nat where
  "maxNestingDepth = 10000"

fun parse_value :: "nat \<Rightarrow> nat \<Rightarrow> string \<Rightarrow> (json \<times> string) option" and
  parse_elems :: "nat \<Rightarrow> nat \<Rightarrow> string \<Rightarrow> (json list \<times> string) option" and
  parse_members :: "nat \<Rightarrow> nat \<Rightarrow> string \<Rightarrow> ((string \<times> json) list \<times> string) option" where
  "parse_value 0 d s = None"
| "parse_value (Suc n) d s =
    (case skip_ws s of [] \<Rightarrow> None
     | c # cs \<Rightarrow>
         (if c = quote_char then map_option (\<lambda>(t, r). (JStr t, r)) (parse_string cs)
          else if c = CHR ''['' then
            (if d = 0 then None
             else case eat (CHR '']'') cs of Some r \<Rightarrow> Some (JArr [], r)
               | None \<Rightarrow> map_option (\<lambda>(vs, r). (JArr vs, r)) (parse_elems n (d - 1) cs))
          else if c = CHR ''{'' then
            (if d = 0 then None
             else case eat (CHR ''}'') cs of Some r \<Rightarrow> Some (JObj [], r)
               | None \<Rightarrow> map_option (\<lambda>(ms, r). (JObj ms, r)) (parse_members n (d - 1) cs))
          else if take 4 (c # cs) = ''null'' then Some (JNull, drop 4 (c # cs))
          else if take 4 (c # cs) = ''true'' then Some (JBool True, drop 4 (c # cs))
          else if take 5 (c # cs) = ''false'' then Some (JBool False, drop 5 (c # cs))
          else map_option (\<lambda>(l, r). (JNum l, r)) (scan_number (c # cs))))"
| "parse_elems 0 d s = None"
| "parse_elems (Suc n) d s =
    (case parse_value n d s of None \<Rightarrow> None
     | Some (v, r) \<Rightarrow>
         (case eat (CHR '']'') r of Some r \<Rightarrow> Some ([v], r)
          | None \<Rightarrow>
              (case eat (CHR '','') r of None \<Rightarrow> None
               | Some r \<Rightarrow> map_option (\<lambda>(vs, r). (v # vs, r)) (parse_elems n d r))))"
| "parse_members 0 d s = None"
| "parse_members (Suc n) d s =
    (case Option.bind (eat quote_char s) parse_string of None \<Rightarrow> None
     | Some (k, r) \<Rightarrow>
         (case Option.bind (eat (CHR '':'') r) (parse_value n d) of None \<Rightarrow> None
          | Some (v, r) \<Rightarrow>
              (case eat (CHR ''}'') r of Some r \<Rightarrow> Some ([(k, v)], r)
               | None \<Rightarrow>
                   (case eat (CHR '','') r of None \<Rightarrow> None
                    | Some r \<Rightarrow> map_option (\<lambda>(ms, r). ((k, v) # ms, r)) (parse_members n d r)))))"

text \<open>\<open>Decoder.Decode\<close> reads one value and leaves what follows; \<open>Unmarshal\<close> takes the whole text.\<close>

definition parse_json :: "string \<Rightarrow> (json \<times> string) option" where
  "parse_json s = parse_value (2 * length s + 1) maxNestingDepth s"

definition json_whole :: "string \<Rightarrow> json option" where
  "json_whole s = (case parse_json s of None \<Rightarrow> None | Some (v, r) \<Rightarrow> if skip_ws r = [] then Some v else None)"

declare parse_value.simps [simp del] parse_elems.simps [simp del] parse_members.simps [simp del]

subsection \<open>The fuel is enough\<close>

lemma skip_ws_length: "length (skip_ws s) \<le> length s"
  by (simp add: skip_ws_def length_dropWhile_le)

lemma eat_length: "eat c s = Some r \<Longrightarrow> length r < length s"
  using skip_ws_length [of s] by (auto simp: eat_def split: list.splits if_splits)

lemma scan_digits_length: "scan_digits s = Some (l, r) \<Longrightarrow> length r < length s"
proof -
  assume "scan_digits s = Some (l, r)"
  then have "takeWhile is_digit s \<noteq> []" "r = dropWhile is_digit s" by (auto simp: scan_digits_def split: if_splits)
  then show ?thesis by (cases s) (auto simp: less_Suc_eq_le length_dropWhile_le split: if_splits)
qed

lemma scan_int_length: "scan_int s = Some (l, r) \<Longrightarrow> length r < length s"
  by (auto simp: scan_int_def split: list.splits if_splits dest: scan_digits_length)

lemma scan_tail_length:
  "scan_frac s = Some (l, r) \<Longrightarrow> length r \<le> length s"
  "scan_exp s = Some (l, r) \<Longrightarrow> length r \<le> length s"
  by (auto simp: scan_frac_def scan_exp_def split: list.splits if_splits dest!: scan_digits_length)

lemma scan_number_length: "scan_number s = Some (l, r) \<Longrightarrow> length r < length s"
  by (auto simp: scan_number_def Let_def split: list.splits if_splits option.splits prod.splits
      dest!: scan_int_length scan_tail_length)

lemma parse_length:
  "parse_value n d s = Some (v, r) \<Longrightarrow> length r < length s"
  "parse_elems n d s = Some (vs, r) \<Longrightarrow> length r < length s"
  "parse_members n d s = Some (ms, r) \<Longrightarrow> length r < length s"
proof (induction n d s and n d s and n d s arbitrary: v r and vs r and ms r
    rule: parse_value_parse_elems_parse_members.induct)
  case (2 n d s)
  have ws: "length (skip_ws s) \<le> length s" by (rule skip_ws_length)
  show ?case
  proof (cases "skip_ws s")
    case (Cons c cs)
    note IH = 2(1,2) [OF Cons]
    show ?thesis
      using 2(3) ws IH unfolding parse_value.simps Cons
      by (auto split: if_splits option.splits dest!: eat_length parse_string_length scan_number_length simp: Cons)
  qed (use 2(3) in \<open>simp add: parse_value.simps\<close>)
next
  case (4 n d s)
  then show ?case
    unfolding parse_elems.simps by (fastforce split: option.splits dest!: eat_length)
next
  case (6 n d s)
  obtain k q0 q1 q2 w q3 where k: "eat quote_char s = Some q0" "parse_string q0 = Some (k, q1)" "eat (CHR '':'') q1 = Some q2"
      "parse_value n d q2 = Some (w, q3)"
    and end': "eat (CHR ''}'') q3 = Some r \<or> (\<exists>q4 us. eat (CHR ''}'') q3 = None \<and> eat (CHR '','') q3 = Some q4 \<and>
      parse_members n d q4 = Some (us, r))"
    using 6(3) unfolding parse_members.simps by (auto simp: bind_eq_Some_conv split: option.splits)
  have kq: "Option.bind (eat quote_char s) parse_string = Some (k, q1)"
    and wq: "Option.bind (eat (CHR '':'') q1) (parse_value n d) = Some (w, q3)" using k by simp_all
  have "length q3 < length s"
    using k 6(1) [OF kq refl k(3,4)] by (auto dest!: eat_length parse_string_length)
  moreover have "length r < length q3"
    using end' 6(2) [OF kq refl wq refl] by (meson eat_length less_trans)
  ultimately show ?case by simp
qed (simp_all add: parse_value.simps parse_elems.simps parse_members.simps)

lemma parse_fuel:
  "2 * length s + 1 \<le> n \<Longrightarrow> n \<le> m \<Longrightarrow> parse_value m d s = parse_value n d s"
  "2 * length s + 2 \<le> n \<Longrightarrow> n \<le> m \<Longrightarrow> parse_elems m d s = parse_elems n d s"
  "2 * length s + 2 \<le> n \<Longrightarrow> n \<le> m \<Longrightarrow> parse_members m d s = parse_members n d s"
proof (induction n d s and n d s and n d s arbitrary: m and m and m
    rule: parse_value_parse_elems_parse_members.induct)
  case (2 n d s)
  obtain m' where m: "m = Suc m'" "n \<le> m'" using 2(4) by (cases m) auto
  show ?case
  proof (cases "skip_ws s")
    case (Cons c cs)
    have n: "2 * length cs + 2 \<le> n" using skip_ws_length [of s] 2(3) Cons by simp
    have "parse_elems m' (d - 1) cs = parse_elems n (d - 1) cs"
      if "c = CHR ''[''" "d \<noteq> 0" "eat (CHR '']'') cs = None"
      by (rule 2(1) [OF Cons _ that n m(2)]) (simp add: that quote_char_def)
    moreover have "parse_members m' (d - 1) cs = parse_members n (d - 1) cs"
      if "c = CHR ''{''" "d \<noteq> 0" "eat (CHR ''}'') cs = None"
      by (rule 2(2) [OF Cons _ _ that n m(2)]) (simp_all add: that quote_char_def)
    ultimately show ?thesis unfolding m parse_value.simps Cons by (simp split: option.split)
  qed (simp add: m parse_value.simps)
next
  case (4 n d s)
  obtain m' where m: "m = Suc m'" "n \<le> m'" using 4(4) by (cases m) auto
  have v: "parse_value m' d s = parse_value n d s" using 4(3) by (intro 4(1) [OF _ m(2)]) simp
  have tail: "parse_elems m' d r' = parse_elems n d r'"
    if "parse_value n d s = Some (w, r)" "eat (CHR '']'') r = None" "eat (CHR '','') r = Some r'" for w r r'
    using 4(2) [OF that(1) refl that(2,3) _ m(2)] 4(3) parse_length(1) [OF that(1)] eat_length [OF that(3)] by simp
  show ?case unfolding m parse_elems.simps v
    by (clarsimp split: option.split) (rule arg_cong [where f = "map_option _"], rule tail)
next
  case (6 n d s)
  obtain m' where m: "m = Suc m'" "n \<le> m'" using 6(4) by (cases m) auto
  have v: "parse_value m' d r = parse_value n d r"
    if "Option.bind (eat quote_char s) parse_string = Some (k, q)" "eat (CHR '':'') q = Some r" for k q r
  proof -
    have "length r < length s" using that by (auto simp: bind_eq_Some_conv dest!: eat_length parse_string_length)
    then show ?thesis using 6(1) [OF that(1) refl that(2) _ m(2)] 6(3) by simp
  qed
  have tail: "parse_members m' d r' = parse_members n d r'"
    if k: "Option.bind (eat quote_char s) parse_string = Some (k, q)"
      and w: "Option.bind (eat (CHR '':'') q) (parse_value n d) = Some (w, r)"
      and r: "eat (CHR ''}'') r = None" "eat (CHR '','') r = Some r'" for k q w r r'
  proof -
    have "length r' < length s" using that
      by (auto simp: bind_eq_Some_conv dest!: eat_length parse_string_length parse_length(1))
    then show ?thesis using 6(2) [OF k refl w refl r _ m(2)] 6(3) by simp
  qed
  have "Option.bind (eat (CHR '':'') q) (parse_value m' d) = Option.bind (eat (CHR '':'') q) (parse_value n d)"
    if "Option.bind (eat quote_char s) parse_string = Some (k, q)" for k q
    using v [OF that] by (cases "eat (CHR '':'') q") simp_all
  then show ?case unfolding m parse_members.simps
    by (clarsimp split: option.split) (rule arg_cong [where f = "map_option _"], rule tail)
qed simp_all

lemma parse_value_fuel: "2 * length s + 1 \<le> n \<Longrightarrow> parse_value n maxNestingDepth s = parse_json s"
  unfolding parse_json_def by (rule parse_fuel(1)) simp_all

lemma parse_json_length: "parse_json s = Some (v, r) \<Longrightarrow> length r < length s"
  unfolding parse_json_def by (rule parse_length(1))

end
