(* ===== verification/JsonCodec.thy ===== *)
theory JsonCodec
  imports JsonText
begin

text \<open>
  Encoding and decoding with \<open>encoding/json\<close>: the parser of \<open>JsonText\<close> inverts its printer, \<open>base64\<close>
  for byte slices, and how the decoder fills the fields of a struct. The interface \<open>json_codec\<close> is
  what the clients of a message type rely on.
\<close>

section \<open>The parser inverts the printer\<close>

subsection \<open>Strings\<close>

lemma code_chr [simp]: "n < 256 \<Longrightarrow> code (chr n) = n"
  by (simp add: chr_def)

lemma chr_code [simp]: "chr (code c) = c"
  by (simp add: chr_def)

lemma chr_eqI: "code c = n \<Longrightarrow> chr n = c"
  by auto

text \<open>The bytes of a rune beyond ASCII, as six-bit groups.\<close>

lemma decode_2_cases:
  assumes "decode_2 a s = Some (x, n)"
  obtains b u where "s = b # u" and "n = 2" and "128 \<le> code b" and "code b < 192"
    and "x = (code a - 192) * 64 + (code b - 128)"
  using assms by (cases s) (auto simp: decode_2_def cont_def split: if_splits)

lemma decode_3_cases:
  assumes "decode_3 a s = Some (x, n)"
  obtains b c u where "s = b # c # u" and "n = 3" and "128 \<le> code b" and "code b < 192" and "128 \<le> code c" and "code c < 192"
    and "code a = 224 \<longrightarrow> 160 \<le> code b" and "x = ((code a - 224) * 64 + (code b - 128)) * 64 + (code c - 128)"
proof -
  obtain b c u where s: "s = b # c # u" using assms by (auto simp: decode_3_def split: list.splits)
  show thesis
    by (rule that [OF s]) (use assms in \<open>simp_all add: s decode_3_def cont_def split: if_splits\<close>)
qed

lemma decode_4_cases:
  assumes "decode_4 a s = Some (x, n)"
  obtains b c d u where "s = b # c # d # u" and "n = 4" and "128 \<le> code b" and "code b < 192" and "128 \<le> code c" and "code c < 192"
    and "128 \<le> code d" and "code d < 192" and "code a = 240 \<longrightarrow> 144 \<le> code b"
    and "x = (((code a - 240) * 64 + (code b - 128)) * 64 + (code c - 128)) * 64 + (code d - 128)"
proof -
  obtain b c d u where s: "s = b # c # d # u" using assms by (auto simp: decode_4_def split: list.splits)
  show thesis
    by (rule that [OF s]) (use assms in \<open>simp_all add: s decode_4_def cont_def split: if_splits\<close>)
qed

lemma decode_take:
  "decode_2 a s = Some (x, n) \<Longrightarrow> decode_2 a (take (n - Suc 0) s @ t) = decode_2 a s"
  "decode_3 a s = Some (x, n) \<Longrightarrow> decode_3 a (take (n - Suc 0) s @ t) = decode_3 a s"
  "decode_4 a s = Some (x, n) \<Longrightarrow> decode_4 a (take (n - Suc 0) s @ t) = decode_4 a s"
  by (erule decode_2_cases, simp add: decode_2_def, erule decode_3_cases, simp add: decode_3_def,
      erule decode_4_cases, simp add: decode_4_def)

lemma decode_rune_take:
  assumes "decode_rune s = Some (x, n)"
  shows "decode_rune (take n s @ t) = Some (x, n)"
proof -
  have "0 < n" using decode_rune_length [OF assms] by simp
  then show ?thesis using assms
    by (cases s) (auto simp: decode_rune.simps take_Cons' decode_take split: if_splits)
qed

lemma decode_rune_ascii: "code c < 128 \<Longrightarrow> decode_rune (c # s) = Some (code c, 1)"
  by (simp add: decode_rune.simps)

lemma sextet: "r < 64 \<Longrightarrow> (k * 64 + r) div 64 = k" "r < 64 \<Longrightarrow> (k * 64 + r) mod 64 = (r::nat)"
  by simp_all

lemma div_4096: "(x::nat) div 4096 = x div 64 div 64" and div_262144: "x div 262144 = x div 64 div 64 div 64"
  by (simp_all add: div_mult2_eq [symmetric])

lemma encode_rune_2: "2 \<le> p \<Longrightarrow> p < 32 \<Longrightarrow> q < 64 \<Longrightarrow> encode_rune (p * 64 + q) = [chr (192 + p), chr (128 + q)]"
  by (simp add: encode_rune_def sextet)

lemma encode_rune_3:
  assumes "p < 16" and "q < 64" and "r < 64" and "p = 0 \<longrightarrow> 32 \<le> q"
  shows "encode_rune ((p * 64 + q) * 64 + r) = [chr (224 + p), chr (128 + q), chr (128 + r)]"
proof -
  have "2048 \<le> (p * 64 + q) * 64 + r" "(p * 64 + q) * 64 + r < 65536" using assms by (cases "p = 0"; simp)+
  then show ?thesis using assms(2,3) unfolding encode_rune_def div_4096 sextet [OF assms(3)] sextet [OF assms(2)] by simp
qed

lemma encode_rune_4:
  assumes "p < 5" and "q < 64" and "r < 64" and "u < 64" and "p = 0 \<longrightarrow> 16 \<le> q"
  shows "encode_rune (((p * 64 + q) * 64 + r) * 64 + u) = [chr (240 + p), chr (128 + q), chr (128 + r), chr (128 + u)]"
proof -
  have "65536 \<le> ((p * 64 + q) * 64 + r) * 64 + u" using assms by (cases "p = 0"; simp)
  then show ?thesis
    unfolding encode_rune_def div_4096 div_262144 sextet [OF assms(4)] sextet [OF assms(3)] sextet [OF assms(2)] by simp
qed

lemma decode_encode_2:
  assumes "194 \<le> code a" and "code a \<le> 223" and "decode_2 a s = Some (x, n)"
  shows "take n (a # s) = encode_rune x"
  using assms(3)
proof (cases rule: decode_2_cases)
  case (1 b u)
  have "2 \<le> code a - 192" "code a - 192 < 32" "code b - 128 < 64" using assms(1,2) 1 by linarith+
  then show ?thesis using 1 assms(1) by (simp only: 1(5) encode_rune_2) simp
qed

lemma decode_encode_3:
  assumes "224 \<le> code a" and "code a \<le> 239" and "decode_3 a s = Some (x, n)"
  shows "take n (a # s) = encode_rune x"
  using assms(3)
proof (cases rule: decode_3_cases)
  case (1 b c u)
  have "code a - 224 < 16" "code b - 128 < 64" "code c - 128 < 64" "code a - 224 = 0 \<longrightarrow> 32 \<le> code b - 128"
    using assms(1,2) 1(3-7) by linarith+
  then show ?thesis using 1(1-7) assms(1) by (simp only: 1(8) encode_rune_3) simp
qed

lemma decode_encode_4:
  assumes "240 \<le> code a" and "code a \<le> 244" and "decode_4 a s = Some (x, n)"
  shows "take n (a # s) = encode_rune x"
  using assms(3)
proof (cases rule: decode_4_cases)
  case (1 b c d u)
  have "code a - 240 < 5" "code b - 128 < 64" "code c - 128 < 64" "code d - 128 < 64" "code a - 240 = 0 \<longrightarrow> 16 \<le> code b - 128"
    using assms(1,2) 1(3-9) by linarith+
  then show ?thesis using 1(1-9) assms(1) by (simp only: 1(10) encode_rune_4) simp
qed

lemma encode_decode_rune: "decode_rune s = Some (x, n) \<Longrightarrow> take n s = encode_rune x"
  by (cases s) (auto simp: decode_rune.simps encode_rune_def [of "code _"] decode_encode_2 decode_encode_3 decode_encode_4
      split: if_splits)

lemma hex_val_char [simp]: "n < 16 \<Longrightarrow> hex_val (hex_char n) = Some n"
  by (simp add: hex_val_def hex_char_def)

lemma parse_quote [simp]: "parse_string (quote_char # r) = Some ([], r)"
  by (simp add: parse_string.simps)

lemma parse_backslash:
  "parse_string (backslash # s) = (case unescape s of None \<Rightarrow> None
     | Some (out, rest) \<Rightarrow> map_option (\<lambda>(t, r). (out @ t, r)) (parse_string rest))"
  by (subst parse_string.simps) (simp add: quote_char_def backslash_def)

lemma parse_rune:
  assumes "decode_rune (c # s) = Some (x, n)" and "c \<noteq> quote_char" and "c \<noteq> backslash" and "32 \<le> code c"
  shows "parse_string (c # s) = map_option (\<lambda>(t, r). (take n (c # s) @ t, r)) (parse_string (drop n (c # s)))"
  using assms by (subst parse_string.simps) simp

lemma unescape_hex:
  assumes "hex_val a = Some w" and "hex_val b = Some x" and "hex_val c = Some y" and "hex_val d = Some z"
    and "\<not> surrogate (((w * 16 + x) * 16 + y) * 16 + z)"
  shows "unescape (CHR ''u'' # a # b # c # d # s) = Some (encode_rune (((w * 16 + x) * 16 + y) * 16 + z), s)"
  using assms by (simp add: unescape_u_def quote_char_def backslash_def)

lemma parse_escape_ascii:
  assumes "code c < 128"
  shows "parse_string (escape_ascii c @ r) = map_option (\<lambda>(t, r). (c # t, r)) (parse_string r)"
proof -
  let ?h = "[backslash, CHR ''u'', CHR ''0'', CHR ''0'', hex_char (code c div 16), hex_char (code c mod 16)]"
  have zero: "hex_val (CHR ''0'') = Some 0" by (simp add: hex_val_def)
  have "code c div 16 < 16" "code c mod 16 < 16" "code c div 16 * 16 + code c mod 16 = code c" using assms by simp_all
  then have "unescape (CHR ''u'' # CHR ''0'' # CHR ''0'' # hex_char (code c div 16) # hex_char (code c mod 16) # r) = Some ([c], r)"
    using assms unescape_hex [OF zero zero, of "hex_char (code c div 16)" "code c div 16" "hex_char (code c mod 16)" "code c mod 16" r]
    by (simp add: surrogate_def encode_rune_def)
  then have hex: "parse_string (?h @ r) = map_option (\<lambda>(t, r). (c # t, r)) (parse_string r)"
    by (simp add: parse_backslash)
  have two: "parse_string (backslash # e # r) = map_option (\<lambda>(t, r). (c # t, r)) (parse_string r)"
    if "(e, c) \<in> {(quote_char, quote_char), (backslash, backslash), (CHR ''b'', CHR 0x08), (CHR ''f'', CHR 0x0C),
      (CHR ''n'', CHR 0x0A), (CHR ''r'', CHR 0x0D), (CHR ''t'', CHR 0x09)}" for e
  proof -
    have "unescape (e # r) = Some ([c], r)" using that by (auto simp: quote_char_def backslash_def)
    then show ?thesis by (simp add: parse_backslash)
  qed
  have plain: "parse_string (c # r) = map_option (\<lambda>(t, r). (c # t, r)) (parse_string r)"
    if "c \<noteq> quote_char" "c \<noteq> backslash" "\<not> code c < 32"
    using that assms parse_rune [OF decode_rune_ascii [OF assms]] by simp
  show ?thesis using plain hex by (simp add: escape_ascii_def two)
qed

lemma utf8_step: "utf8 (c # s) \<Longrightarrow> \<exists>x n. decode_rune (c # s) = Some (x, n) \<and> utf8 (drop n (c # s))"
  by (subst (asm) utf8.simps) (auto split: option.splits)

lemma escape_separator:
  assumes "decode_rune s = Some (x, n)" and "x = 8232 \<or> x = 8233"
  shows "parse_string (backslash # ''u202'' @ hex_char (x mod 16) # r) = map_option (\<lambda>(t, r). (take n s @ t, r)) (parse_string r)"
proof -
  have "hex_val (CHR ''0'') = Some 0" "hex_val (CHR ''2'') = Some 2" by (simp_all add: hex_val_def)
  moreover have "((2 * 16 + 0) * 16 + 2) * 16 + x mod 16 = x" using assms(2) by auto
  moreover have "\<not> surrogate x" using assms(2) by (auto simp: surrogate_def)
  ultimately have "unescape (''u202'' @ hex_char (x mod 16) # r) = Some (encode_rune x, r)"
    using unescape_hex [of "CHR ''2''" 2 "CHR ''0''" 0 "CHR ''2''" 2 "hex_char (x mod 16)" "x mod 16" r] by simp
  then show ?thesis using encode_decode_rune [OF assms(1)] by (simp add: parse_backslash)
qed

text \<open>What becomes of a string on its way through an encoder and a decoder: every byte that is part of
  no rune is replaced by U+FFFD.\<close>

function sanitize :: "string \<Rightarrow> string" where
  "sanitize s = (case s of [] \<Rightarrow> []
     | c # cs \<Rightarrow> (case decode_rune s of None \<Rightarrow> encode_rune 65533 @ sanitize cs
         | Some (x, n) \<Rightarrow> take n s @ sanitize (drop n s)))"
  by pat_completeness auto
termination
  by (relation "measure length") (auto dest: decode_rune_length)

declare sanitize.simps [simp del]

lemma sanitize_utf8: "utf8 s \<Longrightarrow> sanitize s = s"
proof (induction s rule: sanitize.induct)
  case (1 s)
  show ?case
  proof (cases s)
    case (Cons c cs)
    obtain x n where d: "decode_rune s = Some (x, n)" "utf8 (drop n s)"
      using utf8_step 1(3) Cons by metis
    then have "sanitize (drop n s) = drop n s" using 1(2) [OF Cons d(1) refl] by blast
    then show ?thesis using d by (subst sanitize.simps) (simp add: Cons)
  qed (simp add: sanitize.simps)
qed

lemma parse_copied_rune:
  assumes d: "decode_rune s = Some (x, n)" and "s = c # cs" and "c \<noteq> quote_char" and "c \<noteq> backslash" and "32 \<le> code c"
    and "parse_string e = Some (t, r)"
  shows "parse_string (take n s @ e) = Some (take n s @ t, r)"
proof -
  have n: "0 < n" "n \<le> length s" using decode_rune_length [OF d] by simp_all
  have w: "take n s @ e = c # (take (n - 1) cs @ e)" using n assms(2) by (cases n) simp_all
  have "decode_rune (take n s @ e) = Some (x, n)" by (rule decode_rune_take [OF d])
  moreover have "take n (take n s @ e) = take n s" "drop n (take n s @ e) = e" using n by simp_all
  ultimately show ?thesis
    using parse_rune [OF _ assms(3-5), of "take (n - 1) cs @ e" x n, folded w] assms(6) n by simp
qed

lemma parse_replacement:
  "parse_string (backslash # ''ufffd'' @ r) = map_option (\<lambda>(t, r). (encode_rune 65533 @ t, r)) (parse_string r)"
proof -
  have "hex_val (CHR ''f'') = Some 15" "hex_val (CHR ''d'') = Some 13" by (simp_all add: hex_val_def)
  then have "unescape (''ufffd'' @ r) = Some (encode_rune 65533, r)"
    using unescape_hex [of "CHR ''f''" 15 "CHR ''f''" 15 "CHR ''f''" 15 "CHR ''d''" 13 r] by (simp add: surrogate_def)
  then show ?thesis by (simp add: parse_backslash)
qed

lemma parse_escape_sanitize: "parse_string (escape s @ quote_char # r) = Some (sanitize s, r)"
proof (induction s rule: escape.induct)
  case (1 s)
  show ?case
  proof (cases s)
    case (Cons c cs)
    show ?thesis
    proof (cases "code c < 128")
      case True
      then show ?thesis using 1(1) [OF Cons True]
        by (simp add: escape.simps [of "c # cs"] sanitize.simps [of "c # cs"] Cons parse_escape_ascii decode_rune_ascii)
    next
      case False
      show ?thesis
      proof (cases "decode_rune s")
        case None
        then show ?thesis using 1(2) [OF Cons False None] False parse_replacement [of "escape cs @ quote_char # r"]
          by (simp add: escape.simps [of "c # cs"] sanitize.simps [of "c # cs"] Cons)
      next
        case (Some p)
        obtain x n where p: "p = (x, n)" by fastforce
        note d = Some [unfolded p]
        have IH: "parse_string (escape (drop n s) @ quote_char # r) = Some (sanitize (drop n s), r)"
          using 1(3) [OF Cons False d refl] 1(4) [OF Cons False d refl] by blast
        have s: "sanitize s = take n s @ sanitize (drop n s)" using d by (subst sanitize.simps) (simp add: Cons)
        show ?thesis
        proof (cases "x = 8232 \<or> x = 8233")
          case True
          then have "escape s = backslash # ''u202'' @ hex_char (x mod 16) # escape (drop n s)"
            using False d by (simp add: escape.simps [of "c # cs"] Cons)
          then show ?thesis using escape_separator [OF d True, of "escape (drop n s) @ quote_char # r"] IH s by simp
        next
          case no: False
          have "escape s = take n s @ escape (drop n s)" using False no d by (simp add: escape.simps [of "c # cs"] Cons)
          moreover have "c \<noteq> quote_char" "c \<noteq> backslash" "32 \<le> code c"
            using False by (auto simp: quote_char_def backslash_def)
          ultimately show ?thesis using parse_copied_rune [OF d Cons _ _ _ IH] s by simp
        qed
      qed
    qed
  qed (simp add: escape.simps sanitize.simps)
qed

lemma parse_escape: "utf8 s \<Longrightarrow> parse_string (escape s @ quote_char # r) = Some (s, r)"
  by (simp add: parse_escape_sanitize sanitize_utf8)

lemma utf8_Nil [simp]: "utf8 []"
  by (simp add: utf8.simps)

lemma utf8_Cons_ascii [simp]: "code c < 128 \<Longrightarrow> utf8 (c # s) \<longleftrightarrow> utf8 s"
  by (simp add: utf8.simps [of "c # s"] decode_rune_ascii)

lemma utf8_ascii: "\<forall>c \<in> set s. code c < 128 \<Longrightarrow> utf8 s"
  by (induction s) simp_all

subsection \<open>Numbers\<close>

definition number_end :: "string \<Rightarrow> bool" where
  "number_end r \<longleftrightarrow> (case r of [] \<Rightarrow> True | c # _ \<Rightarrow> \<not> is_digit c \<and> c \<noteq> CHR ''.'' \<and> c \<noteq> CHR ''e'' \<and> c \<noteq> CHR ''E'')"

lemma code_digit_char [simp]: "d < 10 \<Longrightarrow> code (digit_char d) = 48 + d"
  by (simp add: digit_char_def)

lemma decimal_digits: "c \<in> set (decimal n) \<Longrightarrow> is_digit c"
proof (induction n arbitrary: c rule: decimal.induct)
  case (1 n)
  then show ?case by (subst (asm) (2) decimal.simps) (auto simp: is_digit_def split: if_splits)
qed

lemma decimal_hd: "n \<noteq> 0 \<Longrightarrow> hd (decimal n) \<noteq> CHR ''0''"
proof (induction n rule: decimal.induct)
  case (1 n)
  have "code (hd (decimal n)) \<noteq> code (CHR ''0'')" if "n < 10"
    using that 1(2) by (subst decimal.simps) simp
  moreover have "hd (decimal n) \<noteq> CHR ''0''" if "\<not> n < 10"
    using that 1(1) by (subst decimal.simps) simp
  ultimately show ?case by metis
qed

lemma decimal_0: "decimal 0 = [CHR ''0'']"
proof -
  have "code (digit_char 0) = code (CHR ''0'')" by simp
  then have "digit_char 0 = CHR ''0''" by (simp only: of_char_eq_iff)
  then show ?thesis by (subst decimal.simps) simp
qed

lemma digit_not:
  "is_digit c \<Longrightarrow> \<not> is_ws c \<and> c \<noteq> quote_char \<and> c \<noteq> CHR ''-'' \<and> c \<noteq> CHR ''['' \<and> c \<noteq> CHR '']'' \<and>
    c \<noteq> CHR ''{'' \<and> c \<noteq> CHR ''}'' \<and> c \<noteq> CHR '','' \<and> c \<noteq> CHR ''n'' \<and> c \<noteq> CHR ''t'' \<and> c \<noteq> CHR ''f''"
  by (intro conjI notI) (auto simp: is_digit_def is_ws_def quote_char_def)

lemma span_append:
  assumes "\<forall>c \<in> set xs. P c" and "r = [] \<or> \<not> P (hd r)"
  shows "takeWhile P (xs @ r) = xs" and "dropWhile P (xs @ r) = r"
  using assms by (induction xs) (cases r; simp)+

lemma scan_number_decimal:
  assumes "number_end r"
  shows "scan_number (decimal n @ r) = Some (decimal n, r)"
proof -
  obtain c cs where cs: "decimal n = c # cs" by (cases "decimal n") auto
  have c: "is_digit c" using decimal_digits [of c n] cs by simp
  have tail: "scan_frac r = Some ([], r)" "scan_exp r = Some ([], r)"
    using assms by (auto simp: scan_frac_def scan_exp_def number_end_def split: list.splits)
  have end': "r = [] \<or> \<not> is_digit (hd r)" using assms by (cases r) (simp_all add: number_end_def)
  have "\<forall>c \<in> set (decimal n). is_digit c" using decimal_digits by blast
  note span = span_append [OF this end']
  have "scan_int (decimal n @ r) = Some (decimal n, r)"
  proof (cases "n = 0")
    case False
    then have "c \<noteq> CHR ''0''" using decimal_hd [of n] cs by simp
    then show ?thesis using span cs by (simp add: scan_int_def scan_digits_def)
  qed (simp add: decimal_0 scan_int_def)
  moreover have "c \<noteq> CHR ''-''" using digit_not [OF c] by simp
  ultimately show ?thesis using tail cs by (simp add: scan_number_def)
qed

subsection \<open>Values\<close>

text \<open>The values the printer is used on: numbers are naturals, strings are valid UTF-8, and at most
  \<open>d\<close> levels are nested.\<close>

fun canon :: "nat \<Rightarrow> json \<Rightarrow> bool" where
  "canon d (JNum l) = (\<exists>n. l = decimal n)"
| "canon d (JStr s) = utf8 s"
| "canon d (JArr vs) = (0 < d \<and> (\<forall>v \<in> set vs. canon (d - 1) v))"
| "canon d (JObj ms) = (0 < d \<and> (\<forall>m \<in> set ms. utf8 (fst m) \<and> canon (d - 1) (snd m)))"
| "canon d v = True"

lemma canon_text_Cons:
  assumes "canon d v"
  shows "\<exists>c cs. json_text v = c # cs \<and> \<not> is_ws c \<and> c \<noteq> CHR '']'' \<and> c \<noteq> CHR ''}'' \<and> c \<noteq> CHR '',''"
proof (cases v)
  case (JNum l)
  then obtain n where "l = decimal n" using assms by auto
  moreover obtain c cs where "decimal n = c # cs" by (cases "decimal n") auto
  moreover from this have "is_digit c" using decimal_digits [of c n] by simp
  ultimately show ?thesis using JNum digit_not by simp
next
  case (JArr vs)
  then show ?thesis by (cases vs) (simp_all add: is_ws_def)
next
  case (JObj ms)
  then show ?thesis by (cases ms) (auto simp: is_ws_def)
qed (simp_all add: is_ws_def quoted_def quote_char_def)

lemma skip_ws_Cons [simp]: "\<not> is_ws c \<Longrightarrow> skip_ws (c # s) = c # s"
  by (simp add: skip_ws_def)

lemma eat_Cons [simp]: "\<not> is_ws c \<Longrightarrow> eat x (c # s) = (if c = x then Some s else None)"
  by (simp add: eat_def)

lemma is_ws_simps [simp]:
  "\<not> is_ws quote_char" "\<not> is_ws (CHR ''['')" "\<not> is_ws (CHR '']'')" "\<not> is_ws (CHR ''{'')" "\<not> is_ws (CHR ''}'')"
  "\<not> is_ws (CHR '','')" "\<not> is_ws (CHR '':'')" "\<not> is_ws (CHR ''n'')" "\<not> is_ws (CHR ''t'')" "\<not> is_ws (CHR ''f'')"
  by (simp_all add: is_ws_def quote_char_def)

lemma eat_canon: "canon d v \<Longrightarrow> c \<in> {CHR '']'', CHR ''}'', CHR '',''} \<Longrightarrow> eat c (json_text v @ s) = None"
  using canon_text_Cons [of d v] by (auto simp: eat_def)

lemma eat_quoted: "eat quote_char (quoted s @ r) = Some (escape s @ quote_char # r)"
  by (simp add: quoted_def)

lemma parse_value_num:
  assumes "number_end r"
  shows "parse_value (Suc m) d (decimal n @ r) = Some (JNum (decimal n), r)"
proof -
  obtain c cs where cs: "decimal n = c # cs" by (cases "decimal n") auto
  have c: "is_digit c" using decimal_digits [of c n] cs by simp
  have "scan_number (c # cs @ r) = Some (decimal n, r)" using scan_number_decimal [OF assms, of n] cs by simp
  then show ?thesis using digit_not [OF c] cs by (simp add: parse_value.simps)
qed

lemma parse_value_str:
  "utf8 s \<Longrightarrow> parse_value (Suc m) d (quoted s @ r) = Some (JStr s, r)"
  using parse_escape [of s r] by (simp add: parse_value.simps quoted_def)

text \<open>What \<open>parse_elems\<close> and \<open>parse_members\<close> do after a value.\<close>

definition more_elems :: "nat \<Rightarrow> nat \<Rightarrow> string \<Rightarrow> (json list \<times> string) option" where
  "more_elems n d r =
    (case eat (CHR '']'') r of Some r \<Rightarrow> Some ([], r)
     | None \<Rightarrow> (case eat (CHR '','') r of None \<Rightarrow> None | Some r \<Rightarrow> parse_elems n d r))"

definition more_members :: "nat \<Rightarrow> nat \<Rightarrow> string \<Rightarrow> ((string \<times> json) list \<times> string) option" where
  "more_members n d r =
    (case eat (CHR ''}'') r of Some r \<Rightarrow> Some ([], r)
     | None \<Rightarrow> (case eat (CHR '','') r of None \<Rightarrow> None | Some r \<Rightarrow> parse_members n d r))"

lemma parse_elems_more:
  "parse_value n d s = Some (v, r) \<Longrightarrow>
    parse_elems (Suc n) d s = map_option (\<lambda>(vs, r). (v # vs, r)) (more_elems n d r)"
  by (simp add: parse_elems.simps more_elems_def split: option.split)

lemma parse_members_more:
  assumes "utf8 k" and "parse_value n d s = Some (v, r)"
  shows "parse_members (Suc n) d (quoted k @ CHR '':'' # s) = map_option (\<lambda>(ms, r). ((k, v) # ms, r)) (more_members n d r)"
  using assms parse_escape [of k]
  by (simp add: parse_members.simps more_members_def eat_quoted split: option.split)

lemma tail_ends: "number_end (elems_text vs @ r)" "number_end (members_text ms @ r)"
  by (cases vs; simp add: number_end_def is_digit_def) (cases ms; auto simp: number_end_def is_digit_def)

lemma parse_text:
  "canon d v \<Longrightarrow> number_end r \<Longrightarrow> 2 * length (json_text v @ r) + 1 \<le> n \<Longrightarrow>
    parse_value n d (json_text v @ r) = Some (v, r)"
  "\<forall>v \<in> set vs. canon d v \<Longrightarrow> 2 * length (elems_text vs @ r) + 1 \<le> n \<Longrightarrow> more_elems n d (elems_text vs @ r) = Some (vs, r)"
  "\<forall>m \<in> set ms. utf8 (fst m) \<and> canon d (snd m) \<Longrightarrow> 2 * length (members_text ms @ r) + 1 \<le> n \<Longrightarrow>
    more_members n d (members_text ms @ r) = Some (ms, r)"
proof (induction v and vs and ms arbitrary: d r n and d r n and d r n rule: json_text_elems_text_members_text.induct)
  case 1
  then show ?case by (cases n) (simp_all add: parse_value.simps quote_char_def)
next
  case (2 b)
  then show ?case by (cases n; cases b) (simp_all add: parse_value.simps quote_char_def)
next
  case (3 l)
  then show ?case by (cases n) (auto simp: parse_value_num)
next
  case (4 s)
  then show ?case by (cases n) (auto simp: parse_value_str)
next
  case 5
  then show ?case by (cases n) (simp_all add: parse_value.simps quote_char_def)
next
  case (6 v vs)
  then obtain m where n: "n = Suc (Suc m)" by (cases n; cases "n - 1") auto
  have "parse_value m (d - 1) (json_text v @ elems_text vs @ r) = Some (v, elems_text vs @ r)"
    using 6(3,5) by (intro 6(1) tail_ends) (simp_all add: n)
  moreover have "more_elems m (d - 1) (elems_text vs @ r) = Some (vs, r)"
    using 6(3,5) by (intro 6(2)) (simp_all add: n)
  moreover have "eat (CHR '']'') (json_text v @ elems_text vs @ r) = None"
    using 6(3) by (intro eat_canon [of "d - 1"]) simp_all
  ultimately show ?case using 6(3) by (simp add: n parse_value.simps parse_elems_more quote_char_def)
next
  case 7
  then show ?case by (cases n) (simp_all add: parse_value.simps quote_char_def)
next
  case (8 k v ms)
  then obtain m where n: "n = Suc (Suc m)" by (cases n; cases "n - 1") auto
  have "parse_value m (d - 1) (json_text v @ members_text ms @ r) = Some (v, members_text ms @ r)"
    using 8(3,5) by (intro 8(1) tail_ends) (simp_all add: n)
  moreover have "more_members m (d - 1) (members_text ms @ r) = Some (ms, r)"
    using 8(3,5) by (intro 8(2)) (simp_all add: n)
  moreover have "eat (CHR ''}'') (quoted k @ CHR '':'' # json_text v @ members_text ms @ r) = None"
    by (simp add: quoted_def) (simp add: quote_char_def)
  ultimately show ?case using 8(3) by (simp add: n parse_value.simps parse_members_more quote_char_def)
next
  case 9
  then show ?case by (simp add: more_elems_def)
next
  case (10 v vs)
  then obtain m where n: "n = Suc m" by (cases n) auto
  have "parse_value m d (json_text v @ elems_text vs @ r) = Some (v, elems_text vs @ r)"
    using 10(3,4) by (intro 10(1) tail_ends) (simp_all add: n)
  moreover have "more_elems m d (elems_text vs @ r) = Some (vs, r)"
    using 10(3,4) by (intro 10(2)) (simp_all add: n)
  ultimately show ?case by (subst more_elems_def) (simp add: n parse_elems_more)
next
  case 11
  then show ?case by (simp add: more_members_def)
next
  case (12 k v ms)
  then obtain m where n: "n = Suc m" by (cases n) auto
  have "parse_value m d (json_text v @ members_text ms @ r) = Some (v, members_text ms @ r)"
    using 12(3,4) by (intro 12(1) tail_ends) (simp_all add: n)
  moreover have "more_members m d (members_text ms @ r) = Some (ms, r)"
    using 12(3,4) by (intro 12(2)) (simp_all add: n)
  ultimately show ?case using 12(3) by (subst more_members_def) (simp add: n parse_members_more)
qed

text \<open>A decoder reads back a value that was written, and leaves what follows it.\<close>

lemma parse_json_text:
  "canon maxNestingDepth v \<Longrightarrow> number_end r \<Longrightarrow> parse_json (json_text v @ r) = Some (v, r)"
  unfolding parse_json_def by (rule parse_text(1)) simp_all

section \<open>Byte slices\<close>

text \<open>\<open>base64.StdEncoding\<close>: the encoder pads, the decoder skips line breaks and wants the padding.\<close>

definition b64_char :: "nat \<Rightarrow> char" where
  "b64_char n = chr (if n < 26 then 65 + n else if n < 52 then 71 + n else if n < 62 then n - 4 else if n = 62 then 43 else 47)"

definition b64_val :: "char \<Rightarrow> nat option" where
  "b64_val c = (let n = code c in
     if 65 \<le> n \<and> n \<le> 90 then Some (n - 65) else if 97 \<le> n \<and> n \<le> 122 then Some (n - 71)
     else if 48 \<le> n \<and> n \<le> 57 then Some (n + 4) else if n = 43 then Some 62 else if n = 47 then Some 63 else None)"

definition pad :: char where
  "pad = CHR ''=''"

fun b64_encode :: "byte list \<Rightarrow> string" where
  "b64_encode [] = []"
| "b64_encode [a] = [b64_char (unat a div 4), b64_char (unat a mod 4 * 16), pad, pad]"
| "b64_encode [a, b] =
    [b64_char (unat a div 4), b64_char (unat a mod 4 * 16 + unat b div 16), b64_char (unat b mod 16 * 4), pad]"
| "b64_encode (a # b # c # bs) =
    b64_char (unat a div 4) # b64_char (unat a mod 4 * 16 + unat b div 16) #
    b64_char (unat b mod 16 * 4 + unat c div 64) # b64_char (unat c mod 64) # b64_encode bs"

definition b64_byte :: "nat \<Rightarrow> byte" where
  "b64_byte n = word_of_nat n"

fun b64_quanta :: "string \<Rightarrow> byte list option" where
  "b64_quanta [] = Some []"
| "b64_quanta (w # x # y # z # s) =
    (case (b64_val w, b64_val x) of
       (Some w, Some x) \<Rightarrow>
         (if y = pad then (if z = pad \<and> s = [] then Some [b64_byte (w * 4 + x div 16)] else None)
          else case b64_val y of None \<Rightarrow> None
            | Some y \<Rightarrow>
                (let out = [b64_byte (w * 4 + x div 16), b64_byte (x mod 16 * 16 + y div 4)] in
                 if z = pad then (if s = [] then Some out else None)
                 else case b64_val z of None \<Rightarrow> None
                   | Some z \<Rightarrow> map_option (\<lambda>bs. out @ [b64_byte (y mod 4 * 64 + z)] @ bs) (b64_quanta s)))
     | _ \<Rightarrow> None)"
| "b64_quanta s = None"

definition b64_decode :: "string \<Rightarrow> byte list option" where
  "b64_decode s = b64_quanta (filter (\<lambda>c. c \<noteq> CHR 0x0D \<and> c \<noteq> CHR 0x0A) s)"

lemma code_b64_char: "n < 64 \<Longrightarrow> code (b64_char n) = (if n < 26 then 65 + n else if n < 52 then 71 + n else if n < 62 then n - 4 else if n = 62 then 43 else 47)"
  by (simp add: b64_char_def)

lemma b64_val_char [simp]: "n < 64 \<Longrightarrow> b64_val (b64_char n) = Some n"
  by (auto simp: b64_val_def code_b64_char Let_def)

lemma b64_char_plain: "n < 64 \<Longrightarrow> code (b64_char n) < 128 \<and> b64_char n \<noteq> pad \<and> b64_char n \<noteq> CHR 0x0D \<and> b64_char n \<noteq> CHR 0x0A"
proof -
  assume n: "n < 64"
  have "code (b64_char n) \<notin> {code pad, code (CHR 0x0D), code (CHR 0x0A)}"
    unfolding code_b64_char [OF n] pad_def by auto
  moreover have "code (b64_char n) < 128" using n unfolding code_b64_char [OF n] by auto
  ultimately show ?thesis by auto
qed

lemma unat_byte: "unat (a :: byte) < 256"
  using unsigned_less [of a] by simp

lemma b64_byte_unat [simp]: "b64_byte (unat a) = a"
  by (simp add: b64_byte_def)

lemma byte_div:
  "unat (a :: byte) div 16 div 16 = 0" "unat (a :: byte) div 16 mod 16 = unat a div 16"
  "unat (a :: byte) div 64 div 4 = 0" "unat (a :: byte) div 64 mod 4 = unat a div 64"
  using unat_byte [of a] by simp_all

lemma b64_lt:
  "unat (a :: byte) div 4 < 64" "unat (a :: byte) mod 4 * 16 < 64" "unat (a :: byte) mod 4 * 16 + unat (b :: byte) div 16 < 64"
  "unat (b :: byte) mod 16 * 4 < 64" "unat (b :: byte) mod 16 * 4 + unat (c :: byte) div 64 < 64" "unat (c :: byte) mod 64 < 64"
  using unat_byte [of a] unat_byte [of b] unat_byte [of c] by simp_all

lemma b64_encode_chars: "\<forall>c \<in> set (b64_encode bs). code c < 128 \<and> c \<noteq> CHR 0x0D \<and> c \<noteq> CHR 0x0A"
  by (induction bs rule: b64_encode.induct) (simp_all add: b64_char_plain b64_lt, simp_all add: pad_def)

lemma b64_quanta_encode: "b64_quanta (b64_encode bs) = Some bs"
  by (induction bs rule: b64_encode.induct)
    (simp_all add: b64_lt b64_char_plain byte_div Let_def)

lemma b64_decode_encode [simp]: "b64_decode (b64_encode bs) = Some bs"
proof -
  have "filter (\<lambda>c. c \<noteq> CHR 0x0D \<and> c \<noteq> CHR 0x0A) (b64_encode bs) = b64_encode bs"
    using b64_encode_chars [of bs] by (intro filter_True) blast
  then show ?thesis by (simp add: b64_decode_def b64_quanta_encode)
qed

lemma utf8_b64 [simp]: "utf8 (b64_encode bs)"
  using b64_encode_chars [of bs] by (intro utf8_ascii) blast

section \<open>Structs\<close>

text \<open>
  The decoder matches a key with a field by its name, then without regard to case: besides the
  ASCII letters, U+017F folds to S and U+212A to K. An unknown key is skipped and \<open>null\<close> leaves
  a field as it is; a value of the wrong type is an error, which the callers treat like a syntax
  error. (A slice whose key occurs twice is filled afresh.)
\<close>

fun fold_key :: "string \<Rightarrow> string" where
  "fold_key [] = []"
| "fold_key (c # s) =
    (if 97 \<le> code c \<and> code c \<le> 122 then chr (code c - 32) # fold_key s
     else if take 2 (c # s) = encode_rune 383 then CHR ''S'' # fold_key (drop 1 s)
     else if take 3 (c # s) = encode_rune 8490 then CHR ''K'' # fold_key (drop 2 s)
     else c # fold_key s)"

type_synonym 'r setter = "json \<Rightarrow> 'r \<Rightarrow> 'r option"

definition find_field :: "(string \<times> 'a) list \<Rightarrow> string \<Rightarrow> 'a option" where
  "find_field fs k = (case map_of fs k of Some f \<Rightarrow> Some f
     | None \<Rightarrow> map_of (map (\<lambda>(n, f). (fold_key n, f)) fs) (fold_key k))"

fun set_fields :: "(string \<times> 'r setter) list \<Rightarrow> (string \<times> json) list \<Rightarrow> 'r \<Rightarrow> 'r option" where
  "set_fields fs [] r = Some r"
| "set_fields fs ((k, v) # ms) r =
    (case find_field fs k of None \<Rightarrow> set_fields fs ms r
     | Some f \<Rightarrow> Option.bind (f v r) (set_fields fs ms))"

definition decode_struct :: "(string \<times> 'r setter) list \<Rightarrow> json \<Rightarrow> 'r \<Rightarrow> 'r option" where
  "decode_struct fs v r = (case v of JNull \<Rightarrow> Some r | JObj ms \<Rightarrow> set_fields fs ms r | _ \<Rightarrow> None)"

text \<open>The setters for the types of the fields, given the update of the field.\<close>

definition uint64_field :: "(u64 \<Rightarrow> 'r \<Rightarrow> 'r) \<Rightarrow> 'r setter" where
  "uint64_field upd v r = (case v of JNull \<Rightarrow> Some r | JNum l \<Rightarrow> map_option (\<lambda>n. upd n r) (ParseUint l) | _ \<Rightarrow> None)"

definition uint8_field :: "(byte \<Rightarrow> 'r \<Rightarrow> 'r) \<Rightarrow> 'r setter" where
  "uint8_field upd v r = (case v of JNull \<Rightarrow> Some r
     | JNum l \<Rightarrow> (case ParseUint l of Some n \<Rightarrow> if unat n < 256 then Some (upd (ucast n) r) else None | None \<Rightarrow> None)
     | _ \<Rightarrow> None)"

definition string_field :: "(string \<Rightarrow> 'r \<Rightarrow> 'r) \<Rightarrow> 'r setter" where
  "string_field upd v r = (case v of JNull \<Rightarrow> Some r | JStr s \<Rightarrow> Some (upd s r) | _ \<Rightarrow> None)"

definition bool_field :: "(bool \<Rightarrow> 'r \<Rightarrow> 'r) \<Rightarrow> 'r setter" where
  "bool_field upd v r = (case v of JNull \<Rightarrow> Some r | JBool b \<Rightarrow> Some (upd b r) | _ \<Rightarrow> None)"

text \<open>For a byte slice \<open>null\<close> is the nil slice; an array of numbers is read as its bytes.\<close>

definition byte_elem :: "json \<Rightarrow> byte option" where
  "byte_elem v = uint8_field (\<lambda>b _. b) v 0"

fun map_json :: "(json \<Rightarrow> 'a option) \<Rightarrow> json list \<Rightarrow> 'a list option" where
  "map_json f [] = Some []"
| "map_json f (v # vs) = Option.bind (f v) (\<lambda>x. map_option ((#) x) (map_json f vs))"

definition bytes_field :: "(byte list option \<Rightarrow> 'r \<Rightarrow> 'r) \<Rightarrow> 'r setter" where
  "bytes_field upd v r = (case v of JNull \<Rightarrow> Some (upd None r)
     | JStr s \<Rightarrow> map_option (\<lambda>bs. upd (Some bs) r) (b64_decode s)
     | JArr vs \<Rightarrow> map_option (\<lambda>bs. upd (Some bs) r) (map_json byte_elem vs)
     | _ \<Rightarrow> None)"

definition slice_field :: "(json \<Rightarrow> 'a option) \<Rightarrow> ('a list \<Rightarrow> 'r \<Rightarrow> 'r) \<Rightarrow> 'r setter" where
  "slice_field f upd v r = (case v of JNull \<Rightarrow> Some (upd [] r)
     | JArr vs \<Rightarrow> map_option (\<lambda>xs. upd xs r) (map_json f vs) | _ \<Rightarrow> None)"

lemmas field_defs = uint64_field_def uint8_field_def string_field_def bool_field_def bytes_field_def slice_field_def

text \<open>The values the encoder writes for them.\<close>

definition uint_json :: "u64 \<Rightarrow> json" where
  "uint_json n = JNum (decimal (unat n))"

definition bytes_json :: "byte list option \<Rightarrow> json" where
  "bytes_json bs = (case bs of None \<Rightarrow> JNull | Some bs \<Rightarrow> JStr (b64_encode bs))"

lemma ParseUint_decimal [simp]: "ParseUint (decimal (unat n)) = Some n"
  using unat_lt64 [of n] by (simp add: ParseUint_def parse_decimal_acc)

lemma canon_uint [simp]: "canon d (uint_json n)"
  by (auto simp: uint_json_def)

lemma canon_bytes [simp]: "canon d (bytes_json bs)"
  by (simp add: bytes_json_def split: option.split)

lemma field_simps [simp]:
  "uint64_field upd (uint_json n) r = Some (upd n r)"
  "string_field upd' (JStr s) r = Some (upd' s r)"
  "bool_field upd'' (JBool b) r = Some (upd'' b r)"
  "bytes_field upd3 (bytes_json bs) r = Some (upd3 bs r)"
  by (simp_all add: field_defs uint_json_def bytes_json_def split: option.split)

lemma map_json_map: "(\<And>x. x \<in> set xs \<Longrightarrow> f (g x) = Some x) \<Longrightarrow> map_json f (map g xs) = Some xs"
  by (induction xs) simp_all

lemma canon_mono: "canon d v \<Longrightarrow> d \<le> e \<Longrightarrow> canon e v"
proof (induction d v arbitrary: e rule: canon.induct)
  case (3 d vs)
  then show ?case by (auto intro!: 3(1) diff_le_mono)
next
  case (4 d ms)
  then show ?case by (auto intro!: 4(1) diff_le_mono)
qed auto

section \<open>Message codecs\<close>

definition Marshal :: "json \<Rightarrow> string" where
  "Marshal v = json_text v"

definition Unmarshal :: "(json \<Rightarrow> 'a option) \<Rightarrow> string \<Rightarrow> 'a option" where
  "Unmarshal dec s = Option.bind (json_whole s) dec"

definition Decode :: "(json \<Rightarrow> 'a option) \<Rightarrow> string \<Rightarrow> ('a \<times> string) option" where
  "Decode dec s = (case parse_json s of None \<Rightarrow> None | Some (v, r) \<Rightarrow> map_option (\<lambda>x. (x, r)) (dec v))"

text \<open>\<open>Encoder.Encode\<close> ends the value with a line feed.\<close>

definition Encode :: "json \<Rightarrow> string" where
  "Encode v = json_text v @ [CHR 0x0A]"

text \<open>The interface of a message type: its encoder and decoder, and the messages that are read back
  as they were.\<close>

locale json_codec =
  fixes enc :: "'a \<Rightarrow> json" and dec :: "json \<Rightarrow> 'a option" and valid :: "'a \<Rightarrow> bool"
  assumes dec_enc: "valid x \<Longrightarrow> dec (enc x) = Some x"
    and canon_enc: "valid x \<Longrightarrow> canon 8 (enc x)"
begin

lemma canon_max: "valid x \<Longrightarrow> canon maxNestingDepth (enc x)"
  using canon_mono [OF canon_enc] by (simp add: maxNestingDepth_def)

lemma Unmarshal_Marshal: "valid x \<Longrightarrow> Unmarshal dec (Marshal (enc x)) = Some x"
  using parse_json_text [OF canon_max, of x "[]"]
  by (simp add: Unmarshal_def Marshal_def json_whole_def number_end_def skip_ws_def dec_enc)

lemma Decode_Encode: "valid x \<Longrightarrow> Decode dec (Encode (enc x) @ r) = Some (x, CHR 0x0A # r)"
  using parse_json_text [OF canon_max, of x "CHR 0x0A # r"]
  by (simp add: Decode_def Encode_def number_end_def is_digit_def dec_enc)

end

end
