(* ===== verification/JsonPrefix.thy ===== *)
theory JsonPrefix
  imports JsonCodec
begin

text \<open>
  Parsing is stable under more input: when the parser of \<open>JsonText\<close> succeeds on some bytes, it
  gives the same value on any continuation, except for a number at the very end. So a message cut
  short is rejected, never read as another message.
\<close>

section \<open>String literals\<close>

lemma hex4_extend: "hex4 s = Some (x, r) \<Longrightarrow> hex4 (s @ u) = Some (x, r @ u)"
  by (cases s rule: hex4.cases) (auto split: option.splits)

lemma unescape_set: "unescape s = Some (out, rest) \<Longrightarrow> \<exists>k. rest = drop k s"
proof (cases s)
  case (Cons c t)
  assume u: "unescape s = Some (out, rest)"
  have hex: "\<exists>k. r = drop k w" if "hex4 w = Some (x, r)" for w x r
    using that by (cases w rule: hex4.cases) (auto intro!: exI [of _ 4] split: option.splits)
  have "\<exists>k. rest = drop k t" if v: "unescape_u t = Some (out, rest)"
  proof -
    obtain x r where r: "hex4 t = Some (x, r)" using v by (cases "hex4 t") (auto simp: unescape_u_def)
    obtain k where k: "r = drop k t" using hex [OF r] by blast
    have "rest = r \<or> (\<exists>a b r2 x2. r = a # b # r2 \<and> hex4 r2 = Some (x2, rest))"
      using v r by (auto simp: unescape_u_def split: if_splits list.splits option.splits)
    then show ?thesis
    proof
      assume "\<exists>a b r2 x2. r = a # b # r2 \<and> hex4 r2 = Some (x2, rest)"
      then obtain a b r2 x2 l where "r = a # b # r2" "rest = drop l r2" using hex by metis
      then have "rest = drop (Suc (Suc l)) r" by simp
      then show ?thesis using k by auto
    qed (use k in blast)
  qed
  moreover have "rest = drop 0 t \<or> unescape_u t = Some (out, rest)" using u Cons by (auto split: if_splits)
  ultimately obtain k where "rest = drop k t" by blast
  then have "rest = drop (Suc k) s" using Cons by simp
  then show ?thesis by blast
qed simp

text \<open>A literal that is read has its closing quote.\<close>

lemma parse_string_quote: "parse_string s = Some (t, r) \<Longrightarrow> quote_char \<in> set s"
proof (induction s arbitrary: t r rule: parse_string.induct)
  case (1 s)
  show ?case
  proof (cases s)
    case (Cons c cs)
    consider "c = quote_char"
      | out rest w where "c \<noteq> quote_char" "c = backslash" "unescape cs = Some (out, rest)" "parse_string rest = Some (w, r)"
      | w where "c \<noteq> quote_char" "c \<noteq> backslash" "\<not> code c < 32" "decode_rune s = None" "parse_string cs = Some (w, r)"
      | x n w where "c \<noteq> quote_char" "c \<noteq> backslash" "\<not> code c < 32" "decode_rune s = Some (x, n)" "parse_string (drop n s) = Some (w, r)"
      using 1(4) by (subst (asm) parse_string.simps) (auto simp: Cons split: if_splits option.splits)
    then show ?thesis
    proof cases
      case 2
      then have "quote_char \<in> set rest" using 1(1) [OF Cons _ _ _ refl] by blast
      moreover obtain k where "rest = drop k cs" using unescape_set 2(3) by blast
      ultimately show ?thesis using Cons by (auto dest: in_set_dropD)
    next
      case 3
      then show ?thesis using 1(2) [OF Cons] Cons by simp
    next
      case 4
      then show ?thesis using 1(3) [OF Cons _ _ _ _ refl] by (blast dest: in_set_dropD)
    qed (simp add: Cons)
  qed (use 1(4) in \<open>simp add: parse_string.simps\<close>)
qed

lemma cont_not_quote: "cont lo hi c \<Longrightarrow> 128 \<le> lo \<Longrightarrow> c \<noteq> quote_char"
  by (auto simp: cont_def quote_char_def)

text \<open>A rune that more input completes is followed by continuation bytes only.\<close>

lemma decode_rune_extend:
  "decode_rune s = Some (x, n) \<Longrightarrow> decode_rune (s @ u) = Some (x, n)"
  by (metis append_assoc append_take_drop_id decode_rune_take)

lemma decode_rune_cut:
  assumes "decode_rune (c # cs) = None" and "decode_rune (c # cs @ u) = Some (x, n)"
  shows "quote_char \<notin> set cs"
proof -
  have 2: "quote_char \<notin> set cs" if "decode_2 c cs = None" "decode_2 c (cs @ u) = Some (x, n)"
    using that by (cases cs) (simp_all add: decode_2_def)
  have 3: "quote_char \<notin> set cs" if a: "decode_3 c cs = None" "decode_3 c (cs @ u) = Some (x, n)"
  proof -
    obtain b d w where w: "cs @ u = b # d # w" "128 \<le> code b" using a(2) by (rule decode_3_cases)
    then consider "cs = []" | "cs = [b]" | v where "cs = b # d # v" by (cases cs; cases "tl cs") auto
    then show ?thesis
    proof cases
      case 3
      then show ?thesis using a by (simp add: decode_3_def)
    qed (use w(2) in \<open>auto simp: quote_char_def\<close>)
  qed
  have 4: "quote_char \<notin> set cs" if a: "decode_4 c cs = None" "decode_4 c (cs @ u) = Some (x, n)"
  proof -
    obtain b d e w where w: "cs @ u = b # d # e # w" "128 \<le> code b" "128 \<le> code d" using a(2) by (rule decode_4_cases)
    then consider "cs = []" | "cs = [b]" | "cs = [b, d]" | v where "cs = b # d # e # v"
      by (cases cs; cases "tl cs"; cases "tl (tl cs)") auto
    then show ?thesis
    proof cases
      case 4
      then show ?thesis using a by (simp add: decode_4_def)
    qed (use w(2,3) in \<open>auto simp: quote_char_def\<close>)
  qed
  show ?thesis using assms 2 3 4 by (simp add: decode_rune.simps split: if_splits)
qed

lemma unescape_simple:
  assumes "c \<noteq> CHR ''u''"
  obtains f where "\<And>t. unescape (c # t) = map_option (\<lambda>x. ([x], t)) f"
proof -
  let ?f = "if c = quote_char \<or> c = backslash \<or> c = CHR ''/'' then Some c
     else if c = CHR ''b'' then Some (CHR 0x08) else if c = CHR ''f'' then Some (CHR 0x0C)
     else if c = CHR ''n'' then Some (CHR 0x0A) else if c = CHR ''r'' then Some (CHR 0x0D)
     else if c = CHR ''t'' then Some (CHR 0x09) else None"
  have "unescape (c # t) = map_option (\<lambda>x. ([x], t)) ?f" for t
    unfolding unescape.simps if_distrib [of "map_option _"] option.map using assms by (simp only: if_False)
  then show thesis by (rule that)
qed

lemma unescape_u_Cons: "unescape (CHR ''u'' # t) = unescape_u t"
  by (simp add: quote_char_def backslash_def)

lemma unescape_extend:
  assumes "unescape s = Some (out, rest)" and "parse_string rest = Some (w, r)"
  shows "unescape (s @ u) = Some (out, rest @ u)"
proof -
  have "unescape_u (t @ u) = Some (out, rest @ u)" if t: "unescape_u t = Some (out, rest)" for t
  proof -
    obtain x q where q: "hex4 t = Some (x, q)" using t by (cases "hex4 t") (auto simp: unescape_u_def)
    note q' = hex4_extend [OF q, of u]
    show ?thesis
    proof (cases "surrogate x")
      case True
      consider "q = []" | a where "q = [a]" | a b q1 where "q = a # b # q1" by (cases q; cases "tl q") auto
      then show ?thesis
      proof cases
        case 1
        then show ?thesis using t q True assms(2) by (simp add: unescape_u_def parse_string.simps)
      next
        case 2
        then have "a = quote_char" "rest = [a]" "out = encode_rune 65533"
          using t q True parse_string_quote [OF assms(2)] by (auto simp: unescape_u_def)
        then show ?thesis using q' 2 True
          by (cases u) (simp_all add: unescape_u_def quote_char_def backslash_def)
      next
        case 3
        show ?thesis
        proof (cases "hex4 q1")
          case None
          have "\<not> (x < 56320 \<and> a = backslash \<and> b = CHR ''u'')"
          proof
            assume c: "x < 56320 \<and> a = backslash \<and> b = CHR ''u''"
            then have "rest = backslash # CHR ''u'' # q1" using t q True 3 None by (simp add: unescape_u_def)
            moreover have "unescape (CHR ''u'' # q1) = None"
              using None by (simp add: unescape_u_def quote_char_def backslash_def)
            ultimately show False using assms(2) by (simp add: parse_backslash)
          qed
          then show ?thesis using t q q' True 3 by (auto simp: unescape_u_def)
        next
          case (Some y)
          then show ?thesis using t q q' True 3 hex4_extend [of q1 "fst y" "snd y" u]
            by (cases y) (auto simp: unescape_u_def split: if_splits)
        qed
      qed
    qed (use t q q' in \<open>simp add: unescape_u_def\<close>)
  qed
  note hex = this
  show ?thesis
  proof (cases s)
    case (Cons c t)
    show ?thesis
    proof (cases "c = CHR ''u''")
      case True
      then show ?thesis using assms(1) hex [of t] Cons by (simp only: append_Cons unescape_u_Cons)
    next
      case False
      then obtain f where "\<And>t. unescape (c # t) = map_option (\<lambda>x. ([x], t)) f" by (rule unescape_simple) blast
      then show ?thesis using assms(1) Cons by (auto simp del: unescape.simps)
    qed
  qed (use assms(1) in simp)
qed

lemma parse_string_extend: "parse_string s = Some (t, r) \<Longrightarrow> parse_string (s @ u) = Some (t, r @ u)"
proof (induction s arbitrary: t r rule: parse_string.induct)
  case (1 s)
  show ?case
  proof (cases s)
    case (Cons c cs)
    consider "c = quote_char" "t = []" "r = cs"
      | out rest w where "c \<noteq> quote_char" "c = backslash" "unescape cs = Some (out, rest)" "parse_string rest = Some (w, r)" "t = out @ w"
      | w where "c \<noteq> quote_char" "c \<noteq> backslash" "\<not> code c < 32" "decode_rune s = None" "parse_string cs = Some (w, r)"
          "t = encode_rune 65533 @ w"
      | x n w where "c \<noteq> quote_char" "c \<noteq> backslash" "\<not> code c < 32" "decode_rune s = Some (x, n)"
          "parse_string (drop n s) = Some (w, r)" "t = take n s @ w"
      using 1(4) by (subst (asm) parse_string.simps) (auto simp: Cons split: if_splits option.splits)
    then show ?thesis
    proof cases
      case 2
      then have "parse_string (rest @ u) = Some (w, r @ u)" using 1(1) [OF Cons _ _ _ refl] by blast
      then show ?thesis using 2 unescape_extend [OF 2(3,4), of u] Cons by (simp add: parse_backslash)
    next
      case 3
      have "decode_rune (c # cs @ u) = None"
      proof (rule ccontr)
        assume "decode_rune (c # cs @ u) \<noteq> None"
        then obtain x n where "decode_rune (c # cs @ u) = Some (x, n)" by auto
        then have "quote_char \<notin> set cs" using decode_rune_cut 3(4) Cons by blast
        then show False using parse_string_quote [OF 3(5)] by simp
      qed
      moreover have "parse_string (cs @ u) = Some (w, r @ u)" using 1(2) [OF Cons] 3 by blast
      ultimately show ?thesis using 3 Cons by (subst parse_string.simps) simp
    next
      case 4
      have "parse_string (drop n s @ u) = Some (w, r @ u)" using 1(3) [OF Cons _ _ _ _ refl] 4 by blast
      moreover have "decode_rune (s @ u) = Some (x, n)" by (rule decode_rune_extend [OF 4(4)])
      moreover have "n \<le> length s" using decode_rune_length [OF 4(4)] by simp
      moreover have e: "c # cs @ u = s @ u" using Cons by simp
      ultimately show ?thesis using 4 parse_rune [of c "cs @ u" x n, unfolded e] by simp
    qed (simp add: Cons)
  qed (use 1(4) in \<open>simp add: parse_string.simps\<close>)
qed

section \<open>Numbers and values\<close>

lemma skip_ws_extend: "skip_ws s \<noteq> [] \<Longrightarrow> skip_ws (s @ u) = skip_ws s @ u"
  by (auto simp: skip_ws_def dropWhile_append)

lemma eat_extend: "eat c s = Some r \<Longrightarrow> eat c (s @ u) = Some (r @ u)"
  by (cases "skip_ws s") (auto simp: eat_def skip_ws_extend split: if_splits)

lemma eat_None_extend: "eat c s = None \<Longrightarrow> skip_ws s \<noteq> [] \<Longrightarrow> eat c (s @ u) = None"
  by (cases "skip_ws s") (auto simp: eat_def skip_ws_extend split: if_splits)

lemma eat_ws: "eat c s = Some r \<Longrightarrow> skip_ws s \<noteq> []"
  by (auto simp: eat_def)

lemma scan_digits_extend: "scan_digits s = Some (l, r) \<Longrightarrow> r \<noteq> [] \<Longrightarrow> scan_digits (s @ u) = Some (l, r @ u)"
  by (auto simp: scan_digits_def dropWhile_append takeWhile_append dropWhile_eq_Nil_conv split: if_splits)

lemma scan_int_extend: "scan_int s = Some (l, r) \<Longrightarrow> r \<noteq> [] \<Longrightarrow> scan_int (s @ u) = Some (l, r @ u)"
  using scan_digits_extend [of s l r u] by (auto simp: scan_int_def split: list.splits if_splits)

lemma scan_frac_extend: "scan_frac s = Some (l, r) \<Longrightarrow> r \<noteq> [] \<Longrightarrow> scan_frac (s @ u) = Some (l, r @ u)"
  by (auto simp: scan_frac_def scan_digits_extend split: list.splits if_splits)

lemma scan_exp_extend: "scan_exp s = Some (l, r) \<Longrightarrow> r \<noteq> [] \<Longrightarrow> scan_exp (s @ u) = Some (l, r @ u)"
proof (cases s)
  case (Cons c cs)
  assume a: "scan_exp s = Some (l, r)" "r \<noteq> []"
  show ?thesis
  proof (cases cs)
    case Nil
    then show ?thesis using a Cons by (auto simp: scan_exp_def split: if_splits)
  next
    case (Cons x xs)
    have "scan_digits (x # xs @ u) = Some (l', r @ u)" if "scan_digits (x # xs) = Some (l', r)" for l'
      using scan_digits_extend [OF that a(2)] by simp
    then show ?thesis using a Cons \<open>s = c # cs\<close> by (auto simp: scan_exp_def scan_digits_extend split: if_splits)
  qed
qed (simp add: scan_exp_def)

lemma scan_number_extend:
  assumes "scan_number s = Some (l, r)" and "r \<noteq> []"
  shows "scan_number (s @ u) = Some (l, r @ u)"
proof -
  define sign where "sign = (\<lambda>s. case s of [] \<Rightarrow> ([], s) | c # cs \<Rightarrow> if c = CHR ''-'' then ([c], cs) else ([], s :: string))"
  have number: "scan_number s = (case sign s of (sg, s) \<Rightarrow>
      (case scan_int s of None \<Rightarrow> None
       | Some (i, s) \<Rightarrow>
           (case scan_frac s of None \<Rightarrow> None
            | Some (f, s) \<Rightarrow> map_option (\<lambda>(e, r). (sg @ i @ f @ e, r)) (scan_exp s))))" for s
    by (simp add: scan_number_def sign_def Let_def)
  obtain sg s1 where s1: "sign s = (sg, s1)" by fastforce
  obtain i s2 f s3 e where parts: "scan_int s1 = Some (i, s2)" "scan_frac s2 = Some (f, s3)" "scan_exp s3 = Some (e, r)"
    and l: "l = sg @ i @ f @ e"
    using assms(1) s1 unfolding number by (auto split: option.splits)
  have "s3 \<noteq> []" using parts(3) assms(2) by (auto simp: scan_exp_def)
  moreover from this have "s2 \<noteq> []" using parts(2) by (auto simp: scan_frac_def)
  moreover have "s \<noteq> []" using parts(1) s1 by (auto simp: scan_int_def sign_def)
  moreover from this have "sign (s @ u) = (sg, s1 @ u)" using s1 by (cases s) (auto simp: sign_def split: if_splits)
  ultimately show ?thesis
    using parts l assms(2) scan_int_extend [OF parts(1), of u] scan_frac_extend [OF parts(2), of u]
      scan_exp_extend [OF parts(3), of u]
    unfolding number by simp
qed

lemma scan_number_hd: "scan_number (c # s) = Some x \<Longrightarrow> is_digit c \<or> c = CHR ''-''"
  by (auto simp: scan_number_def scan_int_def scan_digits_def is_digit_def split: if_splits option.splits)

definition is_num :: "json \<Rightarrow> bool" where
  "is_num v \<longleftrightarrow> (\<exists>l. v = JNum l)"

lemma take_literal:
  "take k s = w \<Longrightarrow> length w = k \<Longrightarrow> take k (s @ u) = w \<and> drop k (s @ u) = drop k s @ u"
  by (metis (no_types) append_take_drop_id drop_append length_take min_def nat_le_linear self_append_conv
      take_all take_append diff_is_0_eq' drop0 take0)

lemma parse_extend:
  "parse_value n d s = Some (v, r) \<Longrightarrow> r \<noteq> [] \<or> \<not> is_num v \<Longrightarrow> parse_value n d (s @ u) = Some (v, r @ u)"
  "parse_elems n d s = Some (vs, r) \<Longrightarrow> parse_elems n d (s @ u) = Some (vs, r @ u)"
  "parse_members n d s = Some (ms, r) \<Longrightarrow> parse_members n d (s @ u) = Some (ms, r @ u)"
proof (induction n d s and n d s and n d s arbitrary: v r and vs r and ms r
    rule: parse_value_parse_elems_parse_members.induct)
  case (2 n d s)
  show ?case
  proof (cases "skip_ws s")
    case (Cons c cs)
    have ext: "skip_ws (s @ u) = c # cs @ u" using Cons skip_ws_extend [of s u] by simp
    note run = 2(3) [unfolded parse_value.simps Cons, simplified list.case]
    consider "c = quote_char" | "c = CHR ''[''" | "c = CHR ''{''"
      | "c \<noteq> quote_char" "c \<noteq> CHR ''[''" "c \<noteq> CHR ''{''" by blast
    then show ?thesis
    proof cases
      case 1
      then show ?thesis using run parse_string_extend [of cs _ _ u] by (auto simp: parse_value.simps ext)
    next
      case 2
      then have q: "c \<noteq> quote_char" by (simp add: quote_char_def)
      show ?thesis
      proof (cases "eat (CHR '']'') cs")
        case None
        then obtain vs where vs: "d \<noteq> 0" "v = JArr vs" "parse_elems n (d - 1) cs = Some (vs, r)"
          using run q 2 by (auto split: if_splits)
        then have "skip_ws cs \<noteq> []" by (cases n; cases "n - 1") (auto simp: parse_elems.simps parse_value.simps split: option.splits list.splits)
        then show ?thesis using 2 q None vs "2.IH"(1) [OF Cons q 2 vs(1) None vs(3)] eat_None_extend
          by (simp add: parse_value.simps ext)
      next
        case (Some r')
        then show ?thesis using run q 2 eat_extend [OF Some, of u] by (auto simp: parse_value.simps ext split: if_splits)
      qed
    next
      case 3
      then have q: "c \<noteq> quote_char" "c \<noteq> CHR ''[''" by (simp_all add: quote_char_def)
      show ?thesis
      proof (cases "eat (CHR ''}'') cs")
        case None
        then obtain ms where ms: "d \<noteq> 0" "v = JObj ms" "parse_members n (d - 1) cs = Some (ms, r)"
          using run q 3 by (auto split: if_splits)
        then have "skip_ws cs \<noteq> []" by (cases n) (auto simp: parse_members.simps eat_def split: option.splits)
        then show ?thesis using 3 q None ms "2.IH"(2) [OF Cons q 3 ms(1) None ms(3)] eat_None_extend
          by (simp add: parse_value.simps ext)
      next
        case (Some r')
        then show ?thesis using run q 3 eat_extend [OF Some, of u] by (auto simp: parse_value.simps ext split: if_splits)
      qed
    next
      case 4
      consider "take 4 (c # cs) = ''null''" | "take 4 (c # cs) = ''true''" | "take 5 (c # cs) = ''false''"
        | "take 4 (c # cs) \<noteq> ''null''" "take 4 (c # cs) \<noteq> ''true''" "take 5 (c # cs) \<noteq> ''false''" by blast
      then show ?thesis
      proof cases
        case 1
        then show ?thesis using run 4 take_literal [of 4 "c # cs" _ u] by (simp add: parse_value.simps ext)
      next
        case 2
        then show ?thesis using run 4 take_literal [of 4 "c # cs" _ u] by (simp add: parse_value.simps ext)
      next
        case 3
        then show ?thesis using run 4 take_literal [of 5 "c # cs" _ u] by (simp add: parse_value.simps ext)
      next
        case none: 4
        then obtain l where l: "scan_number (c # cs) = Some (l, r)" "v = JNum l" using run 4 by auto
        have "r \<noteq> []" using 2(4) l(2) by (simp add: is_num_def)
        then have "scan_number (c # cs @ u) = Some (l, r @ u)" using scan_number_extend [OF l(1), of u] by simp
        moreover have "take 4 (c # w) \<noteq> ''null''" "take 4 (c # w) \<noteq> ''true''" "take 5 (c # w) \<noteq> ''false''" for w
          using scan_number_hd [OF l(1)] digit_not [of c] by (elim disjE; simp)+
        ultimately show ?thesis
          using 4 l(2) unfolding parse_value.simps ext list.case by (simp only: if_False option.map prod.case simp_thms)
      qed
    qed
  qed (use 2(3) in \<open>simp add: parse_value.simps\<close>)
next
  case (4 n d s)
  obtain v1 r1 where v1: "parse_value n d s = Some (v1, r1)"
    and rest: "eat (CHR '']'') r1 = Some r \<and> vs = [v1] \<or>
      (\<exists>r2 vs2. eat (CHR '']'') r1 = None \<and> eat (CHR '','') r1 = Some r2 \<and> parse_elems n d r2 = Some (vs2, r) \<and> vs = v1 # vs2)"
    using 4(3) by (auto simp: parse_elems.simps split: option.splits)
  have ws: "skip_ws r1 \<noteq> []" using rest by (auto dest: eat_ws)
  then have "r1 \<noteq> []" by (auto simp: skip_ws_def)
  then have v: "parse_value n d (s @ u) = Some (v1, r1 @ u)" using 4(1) [OF v1] by blast
  show ?case
    using rest
  proof (elim disjE exE conjE)
    fix r2 vs2 assume r2: "eat (CHR '']'') r1 = None" "eat (CHR '','') r1 = Some r2" "parse_elems n d r2 = Some (vs2, r)" "vs = v1 # vs2"
    show ?thesis using 4(2) [OF v1 refl r2(1-3)] r2(4) eat_None_extend [OF r2(1) ws, of u] eat_extend [OF r2(2), of u]
      by (simp add: parse_elems.simps v)
  qed (simp add: parse_elems.simps v eat_extend)
next
  case (6 n d s)
  obtain k q0 q1 q2 w q3 where k: "eat quote_char s = Some q0" "parse_string q0 = Some (k, q1)" "eat (CHR '':'') q1 = Some q2"
      "parse_value n d q2 = Some (w, q3)"
    and rest: "eat (CHR ''}'') q3 = Some r \<and> ms = [(k, w)] \<or> (\<exists>q4 us. eat (CHR ''}'') q3 = None \<and> eat (CHR '','') q3 = Some q4 \<and>
      parse_members n d q4 = Some (us, r) \<and> ms = (k, w) # us)"
    using 6(3) unfolding parse_members.simps by (auto simp: bind_eq_Some_conv split: option.splits)
  have kq: "Option.bind (eat quote_char s) parse_string = Some (k, q1)"
    and wq: "Option.bind (eat (CHR '':'') q1) (parse_value n d) = Some (w, q3)" using k by simp_all
  have ws: "skip_ws q3 \<noteq> []" using rest by (auto dest: eat_ws)
  then have "q3 \<noteq> []" by (auto simp: skip_ws_def)
  then have v: "parse_value n d (q2 @ u) = Some (w, q3 @ u)" using 6(1) [OF kq refl k(3,4)] by blast
  note ext = eat_extend [OF k(1), of u] parse_string_extend [OF k(2), of u] eat_extend [OF k(3), of u] v
  show ?case
    using rest
  proof (elim disjE exE conjE)
    fix q4 us assume q4: "eat (CHR ''}'') q3 = None" "eat (CHR '','') q3 = Some q4" "parse_members n d q4 = Some (us, r)" "ms = (k, w) # us"
    show ?thesis using 6(2) [OF kq refl wq refl q4(1-3)] q4(4) eat_None_extend [OF q4(1) ws, of u] eat_extend [OF q4(2), of u]
      by (simp add: parse_members.simps ext)
  qed (simp add: parse_members.simps ext eat_extend)
qed (simp_all add: parse_value.simps parse_elems.simps parse_members.simps)

section \<open>Messages cut short\<close>

lemma parse_json_extend:
  assumes "parse_json s = Some (v, r)" and "r \<noteq> [] \<or> \<not> is_num v"
  shows "parse_json (s @ u) = Some (v, r @ u)"
proof -
  have "parse_value (2 * length (s @ u) + 1) maxNestingDepth s = Some (v, r)"
    using assms(1) by (subst parse_value_fuel) simp_all
  from parse_extend(1) [OF this assms(2), of u] show ?thesis by (simp add: parse_json_def)
qed

lemma parse_brace: "parse_json (CHR ''{'' # s) = Some (v, r) \<Longrightarrow> \<not> is_num v"
  by (auto simp: parse_json_def parse_value.simps is_num_def quote_char_def split: if_splits option.splits)

text \<open>The codecs of the structs: what they write is an object.\<close>

locale json_message = json_codec enc dec valid
  for enc :: "'a \<Rightarrow> json" and dec :: "json \<Rightarrow> 'a option" and valid :: "'a \<Rightarrow> bool" +
  assumes enc_object: "\<exists>ms. enc x = JObj ms"
begin

lemma text_brace: "\<exists>s. json_text (enc x) = CHR ''{'' # s"
proof -
  obtain ms where "enc x = JObj ms" using enc_object by blast
  then show ?thesis by (cases ms) auto
qed

lemma parse_cut:
  assumes "valid x" and "json_text (enc x) = p @ q" and "q \<noteq> []"
  shows "parse_json p = None"
proof (rule ccontr)
  assume "parse_json p \<noteq> None"
  then obtain v r where p: "parse_json p = Some (v, r)" by fastforce
  obtain s where "p @ q = CHR ''{'' # s" using text_brace assms(2) by metis
  moreover have "p \<noteq> []" using p by (auto dest: parse_json_length)
  ultimately obtain s' where "p = CHR ''{'' # s'" by (cases p) auto
  then have "parse_json (p @ q) = Some (v, r @ q)" using p parse_brace parse_json_extend by blast
  moreover have "parse_json (p @ q) = Some (enc x, [])"
    using parse_json_text [OF canon_max [OF assms(1)], of "[]"] assms(2) by (simp add: number_end_def)
  ultimately show False using assms(3) by simp
qed

lemma Decode_cut: "valid x \<Longrightarrow> Encode (enc x) = p @ q \<Longrightarrow> 1 < length q \<Longrightarrow> Decode dec p = None"
proof -
  assume a: "valid x" "Encode (enc x) = p @ q" "1 < length q"
  then have q: "q = butlast q @ [last q]" "butlast q \<noteq> []" by (cases q rule: rev_cases; simp)+
  then have "json_text (enc x) @ [CHR 0x0A] = (p @ butlast q) @ [last q]" using a(2) by (simp add: Encode_def)
  then have "json_text (enc x) = p @ butlast q" by (simp only: append1_eq_conv)
  then show ?thesis using parse_cut [OF a(1) _ q(2)] by (simp add: Decode_def)
qed

end

end
