(* ===== verification/JsonGlue.thy ===== *)
theory JsonGlue
  imports JsonPrefix
begin

text \<open>
  Two JSON texts on one line: the text of an object of strings and numbers, cut anywhere after its
  first byte, with another object written behind it. The parser refuses the line, whatever the cut.
\<close>

section \<open>What a brace ends\<close>

text \<open>The start of an object whose first key begins with a plain letter.\<close>

definition opens :: "string \<Rightarrow> char \<Rightarrow> string \<Rightarrow> bool" where
  "opens t c w \<longleftrightarrow> t = CHR ''{'' # quote_char # c # w \<and> \<not> is_ws c \<and> c \<noteq> CHR '':'' \<and> c \<noteq> CHR '','' \<and> c \<noteq> CHR ''}''"

text \<open>Where neither a member nor an object can go on.\<close>

definition stuck :: "string \<Rightarrow> bool" where
  "stuck r \<longleftrightarrow> eat (CHR '':'') r = None \<and> eat (CHR '','') r = None \<and> eat (CHR ''}'') r = None"

lemma stuck_opens: "opens t c w \<Longrightarrow> stuck [] \<and> stuck t \<and> stuck (c # w)"
  by (auto simp: opens_def stuck_def eat_def skip_ws_def)

lemma code_brace: "code (CHR ''{'') = 123"
  by simp

lemma decode_rune_brace: "decode_rune (a # s @ CHR ''{'' # t) = decode_rune (a # s)"
proof -
  have 2: "decode_2 a (s @ CHR ''{'' # t) = decode_2 a s" by (cases s) (simp_all add: decode_2_def cont_def)
  have 3: "decode_3 a (s @ CHR ''{'' # t) = decode_3 a s"
  proof -
    consider "s = []" | b where "s = [b]" | b c u where "s = b # c # u" by (cases s; cases "tl s") auto
    then show ?thesis by cases (auto simp: decode_3_def cont_def split: list.split)
  qed
  have 4: "decode_4 a (s @ CHR ''{'' # t) = decode_4 a s"
  proof -
    consider "s = []" | b where "s = [b]" | b c where "s = [b, c]" | b c d u where "s = b # c # d # u"
      by (cases s; cases "tl s"; cases "tl (tl s)") auto
    then show ?thesis by cases (auto simp: decode_4_def cont_def split: list.split)
  qed
  show ?thesis by (simp add: decode_rune.simps 2 3 4)
qed

lemma hex4_brace: "hex4 (s @ CHR ''{'' # t) = map_option (\<lambda>(x, r). (x, r @ CHR ''{'' # t)) (hex4 s)"
proof -
  have brace: "hex_val (CHR ''{'') = None" by (simp add: hex_val_def)
  have short: "hex4 (s @ CHR ''{'' # t) = None" if "length s < 4"
  proof -
    have "CHR ''{'' \<in> set (take 4 (s @ CHR ''{'' # t))" using that by (cases "4 - length s") auto
    then show ?thesis by (cases "s @ CHR ''{'' # t" rule: hex4.cases) (auto simp: brace split: option.split)
  qed
  show ?thesis
  proof (cases "length s < 4")
    case True
    then have "hex4 s = None" by (cases s rule: hex4.cases) auto
    then show ?thesis using short [OF True] by simp
  next
    case False
    then obtain a b c d u where "s = a # b # c # d # u"
      by (cases s rule: hex4.cases) auto
    then show ?thesis by (auto split: option.split)
  qed
qed

lemma unescape_u_brace: "unescape_u (s @ CHR ''{'' # t) = map_option (\<lambda>(x, r). (x, r @ CHR ''{'' # t)) (unescape_u s)"
proof (cases "hex4 s")
  case (Some p)
  obtain x q where q: "hex4 s = Some (x, q)" using Some by (cases p) simp
  consider "q = []" | a where "q = [a]" | a b r where "q = a # b # r" by (cases q; cases "tl q") auto
  then show ?thesis
  proof cases
    case 3
    then show ?thesis using q hex4_brace [of r t] by (auto simp: unescape_u_def hex4_brace split: option.split)
  qed (use q in \<open>auto simp: unescape_u_def hex4_brace backslash_def split: list.split\<close>)
qed (simp add: unescape_u_def hex4_brace)

lemma unescape_brace: "unescape (s @ CHR ''{'' # t) = map_option (\<lambda>(x, r). (x, r @ CHR ''{'' # t)) (unescape s)"
proof (cases s)
  case (Cons c cs)
  then show ?thesis by (simp add: unescape_u_brace)
qed (simp add: quote_char_def backslash_def)

text \<open>A literal that is cut ends, if at all, at the first quote of the text behind the cut.\<close>

lemma parse_string_cut:
  "parse_string u = None \<Longrightarrow> parse_string (u @ CHR ''{'' # quote_char # w) = Some (x, r) \<Longrightarrow> r = w"
proof (induction u arbitrary: x r rule: parse_string.induct)
  case (1 u)
  let ?t = "CHR ''{'' # quote_char # w"
  show ?case
  proof (cases u)
    case Nil
    have "decode_rune ?t = Some (123, 1)" by (simp add: decode_rune.simps)
    moreover have "parse_string (quote_char # w) = Some ([], w)" by (simp add: parse_string.simps)
    moreover have "CHR ''{'' \<noteq> quote_char" "CHR ''{'' \<noteq> backslash" by (simp_all add: quote_char_def backslash_def)
    ultimately show ?thesis using 1(5) Nil by (simp add: parse_string.simps [of ?t])
  next
    case (Cons c cs)
    have "parse_string (c # cs @ ?t) = Some (x, r)" using 1(5) Cons by simp
    note run = this [unfolded parse_string.simps [of "c # cs @ ?t"]]
    have none: "parse_string (c # cs) = None" using 1(4) Cons by simp
    note cut = none [unfolded parse_string.simps [of "c # cs"]]
    have u: "c # cs @ ?t = u @ ?t" "c # cs = u" by (simp_all add: Cons)
    have ne: "c \<noteq> quote_char" using cut by auto
    consider (esc) "c = backslash" | (rune) "c \<noteq> backslash" "\<not> code c < 32" | (control) "c \<noteq> backslash" "code c < 32" by blast
    then show ?thesis
    proof cases
      case esc
      obtain out rest where un: "unescape cs = Some (out, rest)"
        using run ne esc unescape_brace [of cs "quote_char # w"] by (auto split: option.splits)
      have "parse_string rest = None" using cut ne esc un by auto
      moreover obtain y where "parse_string (rest @ ?t) = Some (y, r)"
        using run ne esc un unescape_brace [of cs "quote_char # w"] by auto
      ultimately show ?thesis using 1(1) [OF Cons ne esc un refl] by blast
    next
      case rune
      show ?thesis
      proof (cases "decode_rune u")
        case None
        then have "decode_rune (u @ ?t) = None" using decode_rune_brace [of c cs] Cons by simp
        then obtain y where "parse_string (cs @ ?t) = Some (y, r)"
          using run ne rune u by auto
        moreover have "parse_string cs = None" using cut ne rune None u by auto
        ultimately show ?thesis using 1(2) [OF Cons ne rune None] by blast
      next
        case (Some p)
        obtain z n where p: "p = (z, n)" by fastforce
        note d = Some [unfolded p]
        have "decode_rune (c # cs @ ?t) = Some (z, n)" unfolding u(1) using d by (rule decode_rune_extend)
        then have "map_option (\<lambda>(t, r). (take n (c # cs @ ?t) @ t, r)) (parse_string (drop n (c # cs @ ?t))) = Some (x, r)"
          using run ne rune by simp
        then obtain y where y: "parse_string (drop n (u @ ?t)) = Some (y, r)" unfolding u(1) by auto
        have "drop n (u @ ?t) = drop n u @ ?t" using decode_rune_length [OF d] by simp
        then have "parse_string (drop n u @ ?t) = Some (y, r)" using y by (simp only:)
        moreover have "parse_string (drop n u) = None" using cut ne rune d u by auto
        ultimately show ?thesis using 1(3) [OF Cons ne rune d refl] by blast
      qed
    next
      case control
      then show ?thesis using run ne by simp
    qed
  qed
qed

lemma literal_cut:
  assumes "escape s @ [quote_char] = u @ v" and "v \<noteq> []"
  shows "parse_string u = None"
proof (rule ccontr)
  assume "parse_string u \<noteq> None"
  then obtain x r where "parse_string u = Some (x, r)" by auto
  then have "parse_string (u @ v) = Some (x, r @ v)" by (rule parse_string_extend)
  moreover have "parse_string (u @ v) = Some (sanitize s, [])" using parse_escape_sanitize [of s "[]"] assms(1) by simp
  ultimately show False using assms(2) by simp
qed

section \<open>Values and members\<close>

text \<open>The values of the objects in question: strings and whole numbers.\<close>

definition flat :: "json \<Rightarrow> bool" where
  "flat v \<longleftrightarrow> (\<exists>s. v = JStr s) \<or> (\<exists>n. v = JNum (decimal n))"

lemma scan_number_digits:
  assumes "decimal n = u @ v" and "u \<noteq> []" and "number_end r"
  shows "scan_number (u @ r) = Some (u, r)"
proof -
  obtain c cs where u: "u = c # cs" using assms(2) by (cases u) auto
  have digits: "\<forall>c \<in> set u. is_digit c" using decimal_digits [of _ n] assms(1) by simp
  have tail: "scan_frac r = Some ([], r)" "scan_exp r = Some ([], r)"
    using assms(3) by (auto simp: scan_frac_def scan_exp_def number_end_def split: list.splits)
  have "r = [] \<or> \<not> is_digit (hd r)" using assms(3) by (cases r) (simp_all add: number_end_def)
  note span = span_append [OF digits this]
  have "scan_int (u @ r) = Some (u, r)"
  proof (cases "c = CHR ''0''")
    case True
    then have "n = 0" using decimal_hd [of n] assms(1) u by auto
    moreover have "decimal 0 = ''0''" by code_simp
    ultimately have "u = ''0''" using assms(1) u by simp
    then show ?thesis by (simp add: scan_int_def)
  next
    case False
    then show ?thesis using span u by (simp add: scan_int_def scan_digits_def)
  qed
  moreover have "c \<noteq> CHR ''-''" using digits u by (auto simp: is_digit_def)
  ultimately show ?thesis using tail u by (simp add: scan_number_def)
qed

lemma parse_value_digits:
  assumes "decimal n = u @ v" and "u \<noteq> []" and "number_end r"
  shows "parse_value (Suc m) d (u @ r) = Some (JNum u, r)"
proof -
  obtain c cs where u: "u = c # cs" using assms(2) by (cases u) auto
  have "is_digit c" using decimal_digits [of c n] assms(1) u by simp
  then show ?thesis using digit_not [of c] u scan_number_digits [OF assms] by (simp add: parse_value.simps)
qed

lemma number_end_opens: "opens t c w \<Longrightarrow> number_end t"
  by (simp add: opens_def number_end_def is_digit_def)

text \<open>A whole value, and a value that is cut.\<close>

lemma parse_flat: "flat v \<Longrightarrow> number_end r \<Longrightarrow> parse_value n d (json_text v @ r) = Some (x, q) \<Longrightarrow> q = r"
  using parse_value_digits [of _ _ "[]" r] parse_escape_sanitize [of _ r]
  by (cases n) (auto simp: flat_def parse_value.simps quoted_def dest: parse_value_digits)

lemma parse_flat_cut:
  assumes t: "opens t c w" and "flat v" and "json_text v = u @ u'" and "u \<noteq> []" and "parse_value n d (u @ t) = Some (x, q)"
  shows "stuck q"
proof (cases "u' = []")
  case True
  then have "q = t" using parse_flat [OF assms(2) number_end_opens [OF t], of n d x q] assms(3,5) by simp
  then show ?thesis using stuck_opens [OF t] by simp
next
  case False
  obtain m where m: "n = Suc m" using assms(5) by (cases n) (simp_all add: parse_value.simps)
  consider (str) s where "v = JStr s" | (num) k where "v = JNum (decimal k)" using assms(2) by (auto simp: flat_def)
  then show ?thesis
  proof cases
    case str
    then obtain b where b: "u = quote_char # b" "escape s @ [quote_char] = b @ u'"
      using assms(3,4) by (cases u) (auto simp: quoted_def)
    then have "parse_string (b @ t) = Some (y, q)" if "x = JStr y" for y
      using assms(5) m that by (auto simp: parse_value.simps)
    moreover obtain y where "x = JStr y" using assms(5) m b by (auto simp: parse_value.simps)
    ultimately have "q = c # w" using parse_string_cut literal_cut [OF b(2) False] t unfolding opens_def by blast
    then show ?thesis using stuck_opens [OF t] by simp
  next
    case num
    then show ?thesis
      using parse_value_digits [of k u u' t m d] assms(3-5) m number_end_opens [OF t] stuck_opens [OF t] by simp
  qed
qed

text \<open>The members of an object behind its opening brace.\<close>

fun body_text :: "(string \<times> json) list \<Rightarrow> string" where
  "body_text [] = ''}''"
| "body_text ((k, v) # ms) = quoted k @ CHR '':'' # json_text v @ members_text ms"

definition flat_members :: "(string \<times> json) list \<Rightarrow> bool" where
  "flat_members ms \<longleftrightarrow> (\<forall>m \<in> set ms. flat (snd m))"

lemma flat_members_Cons: "flat_members ((k, v) # ms) \<longleftrightarrow> flat v \<and> flat_members ms"
  by (simp add: flat_members_def)

lemma object_text: "ms \<noteq> [] \<Longrightarrow> json_text (JObj ms) = CHR ''{'' # body_text ms"
  by (cases ms) auto

lemma members_body: "ms \<noteq> [] \<Longrightarrow> members_text ms = CHR '','' # body_text ms"
  by (cases ms) auto

text \<open>The first member of what is read, and how it goes on.\<close>

lemma parse_members_cases:
  assumes "parse_members n d s = Some (ms, r)"
  obtains m q0 k q1 q2 v q3 where "n = Suc m" "eat quote_char s = Some q0" "parse_string q0 = Some (k, q1)"
    "eat (CHR '':'') q1 = Some q2" "parse_value m d q2 = Some (v, q3)"
    "eat (CHR ''}'') q3 = Some r \<or> (\<exists>q4 us. eat (CHR ''}'') q3 = None \<and> eat (CHR '','') q3 = Some q4 \<and> parse_members m d q4 = Some (us, r))"
  using assms by (cases n) (auto simp: parse_members.simps bind_eq_Some_conv split: option.splits)

lemma parse_body:
  "flat_members ms \<Longrightarrow> ms \<noteq> [] \<Longrightarrow> parse_members n d (body_text ms @ r) = Some (x, q) \<Longrightarrow> q = r"
proof (induction ms arbitrary: n x)
  case (Cons km ms)
  obtain k v where km: "km = (k, v)" by fastforce
  let ?rest = "members_text ms @ r"
  have s: "body_text (km # ms) @ r = quoted k @ CHR '':'' # json_text v @ ?rest" by (simp add: km)
  obtain m q0 k' q1 q2 v' q3 where parts: "eat quote_char (body_text (km # ms) @ r) = Some q0" "parse_string q0 = Some (k', q1)"
    "eat (CHR '':'') q1 = Some q2" "parse_value m d q2 = Some (v', q3)"
    and more: "eat (CHR ''}'') q3 = Some q \<or> (\<exists>q4 us. eat (CHR ''}'') q3 = None \<and> eat (CHR '','') q3 = Some q4 \<and> parse_members m d q4 = Some (us, q))"
    using Cons.prems(3) by (rule parse_members_cases)
  have "q0 = escape k @ quote_char # CHR '':'' # json_text v @ ?rest" using parts(1) unfolding s by (simp add: eat_quoted)
  then have "q1 = CHR '':'' # json_text v @ ?rest"
    using parts(2) parse_escape_sanitize [of k "CHR '':'' # json_text v @ ?rest"] by simp
  then have "q2 = json_text v @ ?rest" using parts(3) by simp
  then have q3: "q3 = ?rest" using parse_flat [of v ?rest m d v' q3] parts(4) Cons.prems(1) tail_ends(2) by (simp add: km flat_members_Cons)
  show ?case
  proof (cases ms)
    case Nil
    then show ?thesis using more q3 by simp
  next
    case (Cons m' ms')
    then have "eat (CHR ''}'') q3 = None" "eat (CHR '','') q3 = Some (body_text ms @ r)" using q3 members_body [of ms] by simp_all
    then show ?thesis using more Cons.IH Cons.prems(1) Cons km by (auto simp: flat_members_Cons)
  qed
qed simp

lemma eat_body: "ms \<noteq> [] \<Longrightarrow> eat (CHR ''}'') (body_text ms @ r) = None"
  by (cases ms) (auto simp: quoted_def, simp add: quote_char_def)

lemma parse_object:
  "flat_members ms \<Longrightarrow> ms \<noteq> [] \<Longrightarrow> parse_value n d (json_text (JObj ms) @ r) = Some (x, q) \<Longrightarrow> q = r"
  using parse_body [of ms _ _ r] eat_body [of ms r] object_text [of ms]
  by (cases n) (auto simp: parse_value.simps quote_char_def split: if_splits)

text \<open>An object whose first key starts with a plain letter, as the text behind the cut.\<close>

definition follows :: "string \<Rightarrow> char \<Rightarrow> string \<Rightarrow> bool" where
  "follows t c w \<longleftrightarrow> opens t c w \<and> (\<forall>n d x q. parse_value n d t = Some (x, q) \<longrightarrow> q = [])"

lemma object_follows:
  assumes "flat_members ms" and "ms \<noteq> []" and "opens (json_text (JObj ms)) c w"
  shows "follows (json_text (JObj ms)) c w"
  using parse_object [OF assms(1,2), where r = "[]"] assms(3) by (auto simp: follows_def)

lemma parse_value_cut:
  assumes "follows t c w" and "flat v" and "json_text v = u @ u'" and "parse_value n d (u @ t) = Some (x, q)"
  shows "stuck q"
  using assms parse_flat_cut [of t c w v u u' n d x q] stuck_opens [of t c w] by (cases "u = []") (auto simp: follows_def)

lemma parse_members_cut:
  assumes t: "follows t c w"
  shows "flat_members ms \<Longrightarrow> ms \<noteq> [] \<Longrightarrow> body_text ms = u @ u' \<Longrightarrow> u' \<noteq> [] \<Longrightarrow> parse_members n d (u @ t) = None"
proof (induction ms arbitrary: u n)
  case (Cons km ms)
  obtain k v where km: "km = (k, v)" by fastforce
  have st: "stuck t" "stuck (c # w)" and starts: "opens t c w" using stuck_opens t by (auto simp: follows_def)
  show ?case
  proof (rule ccontr)
    assume "parse_members n d (u @ t) \<noteq> None"
    then obtain ys r where run: "parse_members n d (u @ t) = Some (ys, r)" by auto
    obtain m q0 k' q1 q2 v' q3 where parts: "eat quote_char (u @ t) = Some q0" "parse_string q0 = Some (k', q1)"
      "eat (CHR '':'') q1 = Some q2" "parse_value m d q2 = Some (v', q3)"
      and more: "eat (CHR ''}'') q3 = Some r \<or> (\<exists>q4 us. eat (CHR ''}'') q3 = None \<and> eat (CHR '','') q3 = Some q4 \<and> parse_members m d q4 = Some (us, r))"
      using run by (rule parse_members_cases)
    have "u \<noteq> []" using parts(1) starts by (auto simp: opens_def quote_char_def)
    then obtain b where u: "u = quote_char # b"
      and b: "(escape k @ [quote_char]) @ (CHR '':'' # json_text v @ members_text ms) = b @ u'"
      using Cons.prems(3) by (cases u) (auto simp: km quoted_def)
    have q0: "q0 = b @ t" using parts(1) u by simp
    have whole: "\<exists>us. us \<noteq> [] \<and> b = (escape k @ [quote_char]) @ us \<and> CHR '':'' # json_text v @ members_text ms = us @ u'"
    proof -
      have not_q1: "q1 \<noteq> t" "q1 \<noteq> c # w" using parts(3) st by (auto simp: stuck_def)
      consider (cut) us where "escape k @ [quote_char] = b @ us"
        | (past) us where "b = (escape k @ [quote_char]) @ us" "CHR '':'' # json_text v @ members_text ms = us @ u'"
        using append_eq_append_conv2 [THEN iffD1, OF b] by metis
      then show ?thesis
      proof cases
        case cut
        have "us = []"
        proof (rule ccontr)
          assume "us \<noteq> []"
          then have "parse_string b = None" by (rule literal_cut [OF cut])
          then show False using parse_string_cut [of b "c # w" k' q1] parts(2) q0 starts not_q1(2) by (simp add: opens_def)
        qed
        then have "b @ t = escape k @ quote_char # t" using cut by (metis append.assoc append_Cons append_Nil append_Nil2)
        then show ?thesis using parts(2) q0 parse_escape_sanitize [of k t] not_q1(1) by simp
      next
        case past
        then show ?thesis using parts(2) q0 parse_escape_sanitize [of k t] not_q1(1) by (cases "us = []") auto
      qed
    qed
    then obtain us1 where b1: "b = (escape k @ [quote_char]) @ CHR '':'' # us1" and us1: "json_text v @ members_text ms = us1 @ u'"
      by (metis append_eq_Cons_conv)
    have "q1 = CHR '':'' # us1 @ t" using parts(2) q0 b1 parse_escape_sanitize [of k "CHR '':'' # us1 @ t"] by simp
    then have q2: "q2 = us1 @ t" using parts(3) by simp
    have v: "flat v" "flat_members ms" using Cons.prems(1) by (simp_all add: km flat_members_Cons)
    have not_stuck: "\<not> stuck q3" using more by (auto simp: stuck_def)
    consider (cut) us2 where "json_text v = us1 @ us2"
      | (past) us2 where "us1 = json_text v @ us2" "members_text ms = us2 @ u'" "us2 \<noteq> []"
      using us1 by (auto simp: append_eq_append_conv2) (metis append_Nil2)
    then show False
    proof cases
      case cut
      then show ?thesis using parse_value_cut [OF t v(1) cut, of m d v' q3] parts(4) q2 not_stuck by simp
    next
      case past
      have ne: "ms \<noteq> []" using past(2,3) Cons.prems(4) by (cases us2; cases u') auto
      then obtain b2 where us2: "us2 = CHR '','' # b2" and b2: "body_text ms = b2 @ u'"
        using past(2,3) members_body [of ms] by (cases us2) auto
      have "number_end (us2 @ t)" by (simp add: us2 number_end_def is_digit_def)
      then have "q3 = us2 @ t" using parse_flat [OF v(1), of "us2 @ t" m d v' q3] parts(4) q2 past(1) by simp
      then show ?thesis using more us2 Cons.IH [OF v(2) ne b2 Cons.prems(4), of m] by auto
    qed
  qed
qed simp

text \<open>The line is refused.\<close>

lemma glued_refused:
  assumes t: "follows t c w" and "flat_members ms" and "ms \<noteq> []" and "json_text (JObj ms) = u @ u'" and "u \<noteq> []"
  shows "json_whole (u @ t) = None"
proof -
  have starts: "opens t c w" using t by (simp add: follows_def)
  have "parse_value n d (u @ t) = None \<or> (\<exists>x. parse_value n d (u @ t) = Some (x, t))" for n d
  proof (cases "u' = []")
    case True
    then show ?thesis using parse_object [OF assms(2,3), of n d t] assms(4) by (cases "parse_value n d (u @ t)") auto
  next
    case False
    obtain b where b: "u = CHR ''{'' # b" "body_text ms = b @ u'" using assms(4,5) object_text [OF assms(3)] by (cases u) auto
    have "eat (CHR ''}'') (b @ t) = None"
    proof -
      have "b = [] \<or> (\<exists>l. b = quote_char # l)" using b(2) assms(3) by (cases b; cases ms) (auto simp: quoted_def)
      moreover have "quote_char \<noteq> CHR ''}''" by (simp add: quote_char_def)
      ultimately show ?thesis using starts by (auto simp: opens_def)
    qed
    then show ?thesis
      using b(1) parse_members_cut [OF t assms(2,3) b(2) False] by (cases n) (simp_all add: parse_value.simps quote_char_def)
  qed
  moreover have "skip_ws t \<noteq> []" using starts by (auto simp: opens_def)
  ultimately show ?thesis unfolding json_whole_def parse_json_def by (auto split: option.splits) (metis option.inject option.distinct(1) prod.inject)
qed

end
