(* ===== verification/Transport.thy ===== *)
theory Transport
  imports RaftCluster JsonPrefix
begin

text \<open>
  The TCP transport of \<open>raft/tcp_transport.go\<close>: the JSON form of the messages, the connection
  handler on the receiving side and the three calls on the sending side. The network is a
  parameter: whether a dial succeeds, whether a write does, and the bytes that come back until
  the connection ends or its deadline passes. TLS changes which listener and dialer is used and
  nothing else; a configuration of it is any value of the type \<open>'tls\<close>.
\<close>

section \<open>Messages as JSON\<close>

definition entry_json :: "LogEntry \<Rightarrow> json" where
  "entry_json e = JObj [(''index'', uint_json (e_Index e)), (''term'', uint_json (e_Term e)), (''data'', bytes_json (e_Data e))]"

definition entry_fields :: "(string \<times> LogEntry setter) list" where
  "entry_fields =
    [(''index'', uint64_field (\<lambda>n e. e\<lparr>e_Index := n\<rparr>)), (''term'', uint64_field (\<lambda>n e. e\<lparr>e_Term := n\<rparr>)),
     (''data'', bytes_field (\<lambda>bs e. e\<lparr>e_Data := bs\<rparr>))]"

definition entry_of_json :: "json \<Rightarrow> LogEntry option" where
  "entry_of_json v = decode_struct entry_fields v \<lparr>e_Index = 0, e_Term = 0, e_Data = None\<rparr>"

definition vote_args_json :: "RequestVoteArgs \<Rightarrow> json" where
  "vote_args_json a = JObj
    [(''term'', uint_json (rv_Term a)), (''candidate_id'', JStr (rv_CandidateID a)),
     (''last_log_index'', uint_json (rv_LastLogIndex a)), (''last_log_term'', uint_json (rv_LastLogTerm a)),
     (''is_pre_vote'', JBool (rv_IsPreVote a))]"

definition vote_args_of_json :: "json \<Rightarrow> RequestVoteArgs option" where
  "vote_args_of_json v = decode_struct
    [(''term'', uint64_field (\<lambda>n a. a\<lparr>rv_Term := n\<rparr>)), (''candidate_id'', string_field (\<lambda>s a. a\<lparr>rv_CandidateID := s\<rparr>)),
     (''last_log_index'', uint64_field (\<lambda>n a. a\<lparr>rv_LastLogIndex := n\<rparr>)),
     (''last_log_term'', uint64_field (\<lambda>n a. a\<lparr>rv_LastLogTerm := n\<rparr>)),
     (''is_pre_vote'', bool_field (\<lambda>b a. a\<lparr>rv_IsPreVote := b\<rparr>))]
    v \<lparr>rv_Term = 0, rv_CandidateID = '''', rv_LastLogIndex = 0, rv_LastLogTerm = 0, rv_IsPreVote = False\<rparr>"

definition vote_reply_json :: "RequestVoteReply \<Rightarrow> json" where
  "vote_reply_json r = JObj [(''term'', uint_json (rvr_Term r)), (''vote_granted'', JBool (rvr_VoteGranted r))]"

definition vote_reply_of_json :: "json \<Rightarrow> RequestVoteReply option" where
  "vote_reply_of_json v = decode_struct
    [(''term'', uint64_field (\<lambda>n r. r\<lparr>rvr_Term := n\<rparr>)), (''vote_granted'', bool_field (\<lambda>b r. r\<lparr>rvr_VoteGranted := b\<rparr>))]
    v \<lparr>rvr_Term = 0, rvr_VoteGranted = False\<rparr>"

text \<open>A nil slice is \<open>null\<close>: \<open>getLogSlice\<close> returns nil when there is no entry to send.\<close>

definition append_args_json :: "AppendEntriesArgs \<Rightarrow> json" where
  "append_args_json a = JObj
    [(''term'', uint_json (ae_Term a)), (''leader_id'', JStr (ae_LeaderID a)),
     (''prev_log_index'', uint_json (ae_PrevLogIndex a)), (''prev_log_term'', uint_json (ae_PrevLogTerm a)),
     (''entries'', if ae_Entries a = [] then JNull else JArr (map entry_json (ae_Entries a))),
     (''leader_commit'', uint_json (ae_LeaderCommit a))]"

definition append_args_of_json :: "json \<Rightarrow> AppendEntriesArgs option" where
  "append_args_of_json v = decode_struct
    [(''term'', uint64_field (\<lambda>n a. a\<lparr>ae_Term := n\<rparr>)), (''leader_id'', string_field (\<lambda>s a. a\<lparr>ae_LeaderID := s\<rparr>)),
     (''prev_log_index'', uint64_field (\<lambda>n a. a\<lparr>ae_PrevLogIndex := n\<rparr>)),
     (''prev_log_term'', uint64_field (\<lambda>n a. a\<lparr>ae_PrevLogTerm := n\<rparr>)),
     (''entries'', slice_field entry_of_json (\<lambda>es a. a\<lparr>ae_Entries := es\<rparr>)),
     (''leader_commit'', uint64_field (\<lambda>n a. a\<lparr>ae_LeaderCommit := n\<rparr>))]
    v \<lparr>ae_Term = 0, ae_LeaderID = '''', ae_PrevLogIndex = 0, ae_PrevLogTerm = 0, ae_Entries = [], ae_LeaderCommit = 0\<rparr>"

definition append_reply_json :: "AppendEntriesReply \<Rightarrow> json" where
  "append_reply_json r = JObj
    [(''term'', uint_json (aer_Term r)), (''success'', JBool (aer_Success r)), (''match_index'', uint_json (aer_MatchIndex r))]"

definition append_reply_of_json :: "json \<Rightarrow> AppendEntriesReply option" where
  "append_reply_of_json v = decode_struct
    [(''term'', uint64_field (\<lambda>n r. r\<lparr>aer_Term := n\<rparr>)), (''success'', bool_field (\<lambda>b r. r\<lparr>aer_Success := b\<rparr>)),
     (''match_index'', uint64_field (\<lambda>n r. r\<lparr>aer_MatchIndex := n\<rparr>))]
    v \<lparr>aer_Term = 0, aer_Success = False, aer_MatchIndex = 0\<rparr>"

definition snapshot_args_json :: "InstallSnapshotArgs \<Rightarrow> json" where
  "snapshot_args_json a = JObj
    [(''term'', uint_json (is_Term a)), (''leader_id'', JStr (is_LeaderID a)),
     (''last_included_index'', uint_json (is_LastIncludedIndex a)),
     (''last_included_term'', uint_json (is_LastIncludedTerm a)), (''data'', bytes_json (Some (is_Data a)))]"

definition snapshot_args_of_json :: "json \<Rightarrow> InstallSnapshotArgs option" where
  "snapshot_args_of_json v = decode_struct
    [(''term'', uint64_field (\<lambda>n a. a\<lparr>is_Term := n\<rparr>)), (''leader_id'', string_field (\<lambda>s a. a\<lparr>is_LeaderID := s\<rparr>)),
     (''last_included_index'', uint64_field (\<lambda>n a. a\<lparr>is_LastIncludedIndex := n\<rparr>)),
     (''last_included_term'', uint64_field (\<lambda>n a. a\<lparr>is_LastIncludedTerm := n\<rparr>)),
     (''data'', bytes_field (\<lambda>bs a. a\<lparr>is_Data := (case bs of None \<Rightarrow> [] | Some bs \<Rightarrow> bs)\<rparr>))]
    v \<lparr>is_Term = 0, is_LeaderID = '''', is_LastIncludedIndex = 0, is_LastIncludedTerm = 0, is_Data = []\<rparr>"

definition snapshot_reply_json :: "InstallSnapshotReply \<Rightarrow> json" where
  "snapshot_reply_json r = JObj [(''term'', uint_json (isr_Term r))]"

definition snapshot_reply_of_json :: "json \<Rightarrow> InstallSnapshotReply option" where
  "snapshot_reply_of_json v = decode_struct [(''term'', uint64_field (\<lambda>n r. r\<lparr>isr_Term := n\<rparr>))] v \<lparr>isr_Term = 0\<rparr>"

text \<open>
  The envelope. The body is the raw text of a value, kept here as the value that its text is
  parsed to; \<open>None\<close> is the nil text of an envelope without a body.
\<close>

definition RPCRequestVote :: byte where "RPCRequestVote = 0x10"
definition RPCAppendEntries :: byte where "RPCAppendEntries = 0x20"
definition RPCInstallSnapshot :: byte where "RPCInstallSnapshot = 0x30"

record NetworkRPCMessage =
  msg_Type :: byte
  msg_Body :: "json option"

definition envelope_json :: "NetworkRPCMessage \<Rightarrow> json" where
  "envelope_json m = JObj
    [(''type'', uint_json (ucast (msg_Type m))), (''body'', case msg_Body m of None \<Rightarrow> JNull | Some v \<Rightarrow> v)]"

definition envelope_of_json :: "json \<Rightarrow> NetworkRPCMessage option" where
  "envelope_of_json v = decode_struct
    [(''type'', uint8_field (\<lambda>t m. m\<lparr>msg_Type := t\<rparr>)), (''body'', \<lambda>v m. Some (m\<lparr>msg_Body := Some v\<rparr>))]
    v \<lparr>msg_Type = 0, msg_Body = None\<rparr>"

section \<open>Every message type is a codec\<close>

lemmas codec_defs = decode_struct_def find_field_def

lemma entry_codec: "entry_of_json (entry_json e) = Some e" "canon 2 (entry_json e)"
  by (simp_all add: entry_of_json_def entry_json_def entry_fields_def codec_defs)

interpretation vote_args: json_message vote_args_json vote_args_of_json "\<lambda>a. utf8 (rv_CandidateID a)"
  by unfold_locales (simp_all add: vote_args_json_def vote_args_of_json_def codec_defs)

interpretation vote_reply: json_message vote_reply_json vote_reply_of_json "\<lambda>_. True"
  by unfold_locales (simp_all add: vote_reply_json_def vote_reply_of_json_def codec_defs)

interpretation append_args: json_message append_args_json append_args_of_json "\<lambda>a. utf8 (ae_LeaderID a)"
proof unfold_locales
  fix a :: AppendEntriesArgs
  assume "utf8 (ae_LeaderID a)"
  have "map_json entry_of_json (map entry_json (ae_Entries a)) = Some (ae_Entries a)"
    by (rule map_json_map) (rule entry_codec)
  then show "append_args_of_json (append_args_json a) = Some a"
    by (cases "ae_Entries a = []") (simp_all add: append_args_json_def append_args_of_json_def codec_defs slice_field_def)
  show "canon 8 (append_args_json a)"
    using \<open>utf8 (ae_LeaderID a)\<close> canon_mono [OF entry_codec(2)] by (auto simp: append_args_json_def)
next
  show "\<exists>ms. append_args_json a = JObj ms" for a by (simp add: append_args_json_def)
qed

interpretation append_reply: json_message append_reply_json append_reply_of_json "\<lambda>_. True"
  by unfold_locales (simp_all add: append_reply_json_def append_reply_of_json_def codec_defs)

interpretation snapshot_args: json_message snapshot_args_json snapshot_args_of_json "\<lambda>a. utf8 (is_LeaderID a)"
  by unfold_locales (simp_all add: snapshot_args_json_def snapshot_args_of_json_def codec_defs)

interpretation snapshot_reply: json_message snapshot_reply_json snapshot_reply_of_json "\<lambda>_. True"
  by unfold_locales (simp_all add: snapshot_reply_json_def snapshot_reply_of_json_def codec_defs)

lemma uint8_uint_json [simp]: "uint8_field upd (uint_json (ucast (t :: byte))) r = Some (upd t r)"
proof -
  have "unat (ucast t :: u64) < 256"
    using unat_byte [of t] by (simp add: unsigned_ucast_eq take_bit_nat_eq_self)
  moreover have "ucast (ucast t :: u64) = t" by transfer simp
  ultimately show ?thesis by (simp add: uint8_field_def uint_json_def del: unsigned_ucast_eq)
qed

interpretation envelope: json_message envelope_json envelope_of_json "\<lambda>m. \<exists>v. msg_Body m = Some v \<and> canon 7 v"
  by unfold_locales (auto simp: envelope_json_def envelope_of_json_def codec_defs)

section \<open>The receiving side\<close>

text \<open>The transport: the registered node, and whether \<open>stopCh\<close> is closed. The map \<open>clientPool\<close> is
  made and never used.\<close>

record 'tls TCPTransport =
  bindAddr :: string
  handlerNode :: "RaftNode option"
  transportStopped :: bool
  serverTLS :: "'tls option"
  clientTLS :: "'tls option"

text \<open>\<open>listen\<close> is \<open>net.Listen\<close> without and \<open>tls.Listen\<close> with a configuration; it returns its error.\<close>

definition NewTCPTransportWithTLS ::
  "('tls option \<Rightarrow> string \<Rightarrow> string option) \<Rightarrow> string \<Rightarrow> 'tls option \<Rightarrow> 'tls option \<Rightarrow> string + 'tls TCPTransport"
where
  "NewTCPTransportWithTLS listen addr srv cl =
    (case listen srv addr of
       Some err \<Rightarrow> Inl (''failed to bind Raft TCP listener on '' @ addr @ '': '' @ err)
     | None \<Rightarrow> Inr \<lparr>bindAddr = addr, handlerNode = None, transportStopped = False, serverTLS = srv, clientTLS = cl\<rparr>)"

definition NewTCPTransport :: "('tls option \<Rightarrow> string \<Rightarrow> string option) \<Rightarrow> string \<Rightarrow> string + 'tls TCPTransport" where
  "NewTCPTransport listen addr = NewTCPTransportWithTLS listen addr None None"

definition RegisterNode :: "RaftNode \<Rightarrow> 'tls TCPTransport \<Rightarrow> 'tls TCPTransport" where
  "RegisterNode rn tt = tt\<lparr>handlerNode := Some rn\<rparr>"

text \<open>\<open>None\<close> is the panic of closing \<open>stopCh\<close> a second time; \<open>err\<close> is what closing the listener returns.\<close>

definition Transport_Close :: "string option \<Rightarrow> 'tls TCPTransport \<Rightarrow> (string option \<times> 'tls TCPTransport) option" where
  "Transport_Close err tt = (if transportStopped tt then None else Some (err, tt\<lparr>transportStopped := True\<rparr>))"

datatype accept_action = HandleConnection | AcceptReturn | AcceptSleep

definition acceptLoop_step :: "bool \<Rightarrow> 'tls TCPTransport \<Rightarrow> accept_action" where
  "acceptLoop_step accepted tt =
    (if accepted then HandleConnection else if transportStopped tt then AcceptReturn else AcceptSleep)"

text \<open>
  One round of \<open>handleConnection\<close> on the bytes that are still to come: it hangs up, the handler
  panics, or there is an answer (empty for an unknown message type) and the loop goes on.
\<close>

datatype round = Hangup | Panic | Answer RaftNode string string

definition answer :: "('r \<Rightarrow> json) \<Rightarrow> (RaftNode \<times> 'r) option \<Rightarrow> string \<Rightarrow> round" where
  "answer enc res input = (case res of None \<Rightarrow> Panic | Some (rn, reply) \<Rightarrow> Answer rn (Encode (enc reply)) input)"

definition handle_message :: "int \<Rightarrow> string \<Rightarrow> RaftNode option \<Rightarrow> round" where
  "handle_message now input node =
    (case Decode envelope_of_json input of
       None \<Rightarrow> Hangup
     | Some (env, input) \<Rightarrow>
         (case node of
            None \<Rightarrow> Hangup
          | Some rn \<Rightarrow>
              (if msg_Type env = RPCRequestVote then
                 (case Option.bind (msg_Body env) vote_args_of_json of
                    None \<Rightarrow> Hangup
                  | Some args \<Rightarrow> answer vote_reply_json (HandleRequestVote now args rn) input)
               else if msg_Type env = RPCAppendEntries then
                 (case Option.bind (msg_Body env) append_args_of_json of
                    None \<Rightarrow> Hangup
                  | Some args \<Rightarrow> answer append_reply_json (HandleAppendEntries now args rn) input)
               else if msg_Type env = RPCInstallSnapshot then
                 (case Option.bind (msg_Body env) snapshot_args_of_json of
                    None \<Rightarrow> Hangup
                  | Some args \<Rightarrow>
                      answer snapshot_reply_json
                        (map_option (\<lambda>(rn, reply, cb). (rn, reply)) (HandleInstallSnapshot now args rn)) input)
               else Answer rn [] input)))"

lemma Decode_length: "Decode dec s = Some (x, r) \<Longrightarrow> length r < length s"
  by (auto simp: Decode_def split: option.splits prod.splits dest: parse_json_length)

lemma handle_message_length: "handle_message now input node = Answer rn out rest \<Longrightarrow> length rest < length input"
  by (auto simp: handle_message_def answer_def split: option.splits prod.splits if_splits dest!: Decode_length)

text \<open>
  The whole connection, from the bytes the peer sends before it stops: the node after it and the
  bytes written, \<open>None\<close> for a panic. Round \<open>k\<close> reads the clock as \<open>now k\<close>; a client sends one request,
  so that what other goroutines do between two rounds is left out.
\<close>

function handleConnection :: "(nat \<Rightarrow> int) \<Rightarrow> nat \<Rightarrow> RaftNode option \<Rightarrow> string \<Rightarrow> (RaftNode option \<times> string) option" where
  "handleConnection now k node input =
    (case handle_message (now k) input node of
       Hangup \<Rightarrow> Some (node, [])
     | Panic \<Rightarrow> None
     | Answer rn out rest \<Rightarrow>
         map_option (\<lambda>(node, more). (node, out @ more)) (handleConnection now (Suc k) (Some rn) rest))"
  by pat_completeness auto
termination
  by (relation "measure (\<lambda>(now, k, node, input). length input)") (auto dest: handle_message_length)

declare handleConnection.simps [simp del]

section \<open>The sending side\<close>

text \<open>
  A connection: whether a write of some bytes succeeds, and after it the bytes that come back and
  how they end (the peer closed, or an error such as the deadline).
\<close>

datatype stream_end = StreamEOF | StreamError

record Conn =
  conn_write :: "string \<Rightarrow> bool"
  conn_read :: "string \<Rightarrow> string \<times> stream_end"

datatype rpc_error = DialError | WriteError | ReadEOF | ReadError | ClosedByPeer

type_synonym 'tls net = "'tls option \<Rightarrow> string \<Rightarrow> Conn option"

definition dial :: "'tls TCPTransport \<Rightarrow> 'tls net \<Rightarrow> string \<Rightarrow> Conn option" where
  "dial tt net target = net (clientTLS tt) target"

definition exchange ::
  "'tls TCPTransport \<Rightarrow> 'tls net \<Rightarrow> string \<Rightarrow> byte \<Rightarrow> json \<Rightarrow> (json \<Rightarrow> 'r option) \<Rightarrow> rpc_error + 'r"
where
  "exchange tt net target typ body dec =
    (case dial tt net target of
       None \<Rightarrow> Inl DialError
     | Some conn \<Rightarrow>
         (let env = Encode (envelope_json \<lparr>msg_Type = typ, msg_Body = Some body\<rparr>) in
          if \<not> conn_write conn env then Inl WriteError
          else case conn_read conn env of
              (input, ending) \<Rightarrow>
                (case Decode dec input of
                   Some (reply, _) \<Rightarrow> Inr reply
                 | None \<Rightarrow> Inl (if skip_ws input = [] \<and> ending = StreamEOF then ReadEOF else ReadError))))"

definition closed_by_peer :: "rpc_error + 'r \<Rightarrow> rpc_error + 'r" where
  "closed_by_peer res = (case res of Inl ReadEOF \<Rightarrow> Inl ClosedByPeer | _ \<Rightarrow> res)"

definition tcp_RequestVote ::
  "'tls TCPTransport \<Rightarrow> 'tls net \<Rightarrow> string \<Rightarrow> RequestVoteArgs \<Rightarrow> rpc_error + RequestVoteReply" where
  "tcp_RequestVote tt net target args =
    exchange tt net target RPCRequestVote (vote_args_json args) vote_reply_of_json"

definition tcp_AppendEntries ::
  "'tls TCPTransport \<Rightarrow> 'tls net \<Rightarrow> string \<Rightarrow> AppendEntriesArgs \<Rightarrow> rpc_error + AppendEntriesReply" where
  "tcp_AppendEntries tt net target args =
    closed_by_peer (exchange tt net target RPCAppendEntries (append_args_json args) append_reply_of_json)"

definition tcp_InstallSnapshot ::
  "'tls TCPTransport \<Rightarrow> 'tls net \<Rightarrow> string \<Rightarrow> InstallSnapshotArgs \<Rightarrow> rpc_error + InstallSnapshotReply" where
  "tcp_InstallSnapshot tt net target args =
    closed_by_peer (exchange tt net target RPCInstallSnapshot (snapshot_args_json args) snapshot_reply_of_json)"

section \<open>A call runs the handler once\<close>

fun tcp_call :: "'tls TCPTransport \<Rightarrow> 'tls net \<Rightarrow> rpc \<Rightarrow> rpc_error + rpc_reply" where
  "tcp_call tt net (SendRequestVote p a) = map_sum id VoteReply (tcp_RequestVote tt net p a)"
| "tcp_call tt net (SendAppendEntries p a) = map_sum id AppendReply (tcp_AppendEntries tt net p a)"
| "tcp_call tt net (SendInstallSnapshot p a) = map_sum id SnapshotReply (tcp_InstallSnapshot tt net p a)"

fun rpc_envelope :: "rpc \<Rightarrow> NetworkRPCMessage" where
  "rpc_envelope (SendRequestVote p a) = \<lparr>msg_Type = RPCRequestVote, msg_Body = Some (vote_args_json a)\<rparr>"
| "rpc_envelope (SendAppendEntries p a) = \<lparr>msg_Type = RPCAppendEntries, msg_Body = Some (append_args_json a)\<rparr>"
| "rpc_envelope (SendInstallSnapshot p a) = \<lparr>msg_Type = RPCInstallSnapshot, msg_Body = Some (snapshot_args_json a)\<rparr>"

fun reply_json :: "rpc_reply \<Rightarrow> json" where
  "reply_json (VoteReply r) = vote_reply_json r"
| "reply_json (AppendReply r) = append_reply_json r"
| "reply_json (SnapshotReply r) = snapshot_reply_json r"

text \<open>The requests that arrive as they were sent: the sender's id is valid UTF-8.\<close>

fun rpc_valid :: "rpc \<Rightarrow> bool" where
  "rpc_valid (SendRequestVote p a) = utf8 (rv_CandidateID a)"
| "rpc_valid (SendAppendEntries p a) = utf8 (ae_LeaderID a)"
| "rpc_valid (SendInstallSnapshot p a) = utf8 (is_LeaderID a)"

lemma rpc_types [simp]:
  "RPCAppendEntries \<noteq> RPCRequestVote" "RPCInstallSnapshot \<noteq> RPCRequestVote" "RPCInstallSnapshot \<noteq> RPCAppendEntries"
  by (simp_all add: RPCRequestVote_def RPCAppendEntries_def RPCInstallSnapshot_def)

lemma canon_body: "rpc_valid m \<Longrightarrow> \<exists>v. msg_Body (rpc_envelope m) = Some v \<and> canon 7 v"
  using canon_mono [OF entry_codec(2)]
  by (cases m) (auto simp: vote_args_json_def append_args_json_def snapshot_args_json_def)

text \<open>The bytes of a request.\<close>

definition request_text :: "rpc \<Rightarrow> string" where
  "request_text m = Encode (envelope_json (rpc_envelope m))"

lemma handle_request:
  assumes "rpc_valid m"
  shows "handle_message now (request_text m @ rest) (Some rn) =
    (case serve now m rn of None \<Rightarrow> Panic | Some (rn', r) \<Rightarrow> Answer rn' (Encode (reply_json r)) (CHR 0x0A # rest))"
proof -
  have D: "Decode envelope_of_json (request_text m @ rest) = Some (rpc_envelope m, CHR 0x0A # rest)"
    unfolding request_text_def by (rule envelope.Decode_Encode) (rule canon_body [OF assms])
  show ?thesis
  proof (cases m)
    case (SendRequestVote p a)
    then have "vote_args_of_json (vote_args_json a) = Some a" using assms by (simp add: vote_args.dec_enc)
    then show ?thesis using D SendRequestVote by (simp add: handle_message_def answer_def split: option.split)
  next
    case (SendAppendEntries p a)
    then have "append_args_of_json (append_args_json a) = Some a" using assms by (simp add: append_args.dec_enc)
    then show ?thesis using D SendAppendEntries by (simp add: handle_message_def answer_def split: option.split)
  next
    case (SendInstallSnapshot p a)
    then have "snapshot_args_of_json (snapshot_args_json a) = Some a" using assms by (simp add: snapshot_args.dec_enc)
    then show ?thesis using D SendInstallSnapshot by (auto simp: handle_message_def answer_def split: option.split)
  qed
qed

lemma hangup_newline: "handle_message now (CHR 0x0A # []) node = Hangup"
proof -
  have "skip_ws [CHR 0x0A] = []" by (simp add: skip_ws_def is_ws_def)
  then show ?thesis by (simp add: handle_message_def Decode_def parse_json_def parse_value.simps numeral_eq_Suc)
qed

lemma connection_runs_once:
  assumes "rpc_valid m"
  shows "handleConnection now k (Some rn) (request_text m) =
    (case serve (now k) m rn of None \<Rightarrow> None | Some (rn', r) \<Rightarrow> Some (Some rn', Encode (reply_json r)))"
  using handle_request [OF assms, of "now k" "[]" rn] hangup_newline
  by (subst handleConnection.simps) (auto simp: handleConnection.simps [of now "Suc k"] split: option.split)

lemma Decode_reply [simp]:
  "Decode vote_reply_of_json (Encode (vote_reply_json r) @ s) = Some (r, CHR 0x0A # s)"
  "Decode append_reply_of_json (Encode (append_reply_json r2) @ s) = Some (r2, CHR 0x0A # s)"
  "Decode snapshot_reply_of_json (Encode (snapshot_reply_json r3) @ s) = Some (r3, CHR 0x0A # s)"
  by (simp_all add: vote_reply.Decode_Encode append_reply.Decode_Encode snapshot_reply.Decode_Encode)

lemma serve_kind:
  "serve now (SendRequestVote p a) rn = Some (rn', r) \<Longrightarrow> \<exists>v. r = VoteReply v"
  "serve now (SendAppendEntries p b) rn = Some (rn', r) \<Longrightarrow> \<exists>v. r = AppendReply v"
  "serve now (SendInstallSnapshot p c) rn = Some (rn', r) \<Longrightarrow> \<exists>v. r = SnapshotReply v"
  by auto

text \<open>C7. The transport implements the RPC service of the cluster: when the connection of a call
  carries the request to a peer's \<open>handleConnection\<close> and what that writes back to the caller, then
  the peer has run the handler exactly once on the arguments that were sent, and the call returns
  its reply. In particular encoding both as JSON changes nothing, for node ids in valid UTF-8.\<close>

theorem tcp_call_serves:
  assumes "rpc_valid m" and "dial tt net (rpc_target m) = Some conn" and "conn_write conn (request_text m)"
    and "handleConnection now k (Some rn) (request_text m) = Some (node', out)"
    and "conn_read conn (request_text m) = (out, ending)"
  shows "\<exists>rn' r. serve (now k) m rn = Some (rn', r) \<and> node' = Some rn' \<and> tcp_call tt net m = Inr r"
proof -
  obtain rn' r where r: "serve (now k) m rn = Some (rn', r)" "node' = Some rn'" "out = Encode (reply_json r)"
    using assms(4) connection_runs_once [OF assms(1), of now k rn] by (auto split: option.splits)
  have "tcp_call tt net m = Inr r"
  proof (cases m)
    case (SendRequestVote p a)
    moreover obtain v where "r = VoteReply v" using serve_kind(1) r(1) SendRequestVote by metis
    ultimately show ?thesis
      using assms r(3) Decode_reply(1) [of v "[]"]
      by (simp add: tcp_RequestVote_def exchange_def request_text_def)
  next
    case (SendAppendEntries p a)
    moreover obtain v where "r = AppendReply v" using serve_kind(2) r(1) SendAppendEntries by metis
    ultimately show ?thesis
      using assms r(3) Decode_reply(2) [of v "[]"]
      by (simp add: tcp_AppendEntries_def closed_by_peer_def exchange_def request_text_def)
  next
    case (SendInstallSnapshot p a)
    moreover obtain v where "r = SnapshotReply v" using serve_kind(3) r(1) SendInstallSnapshot by metis
    ultimately show ?thesis
      using assms r(3) Decode_reply(3) [of v "[]"]
      by (simp add: tcp_InstallSnapshot_def closed_by_peer_def exchange_def request_text_def)
  qed
  with r show ?thesis by blast
qed

text \<open>A request cut short hangs up the connection.\<close>

lemma request_cut:
  assumes "rpc_valid m" and "request_text m = p @ q" and "1 < length q"
  shows "handleConnection now k node p = Some (node, [])"
  using envelope.Decode_cut [OF canon_body [OF assms(1)], of p q] assms(2,3)
  by (subst handleConnection.simps) (simp add: handle_message_def request_text_def)

lemma exchange_cut:
  assumes "dial tt net target = Some conn" and "conn_read conn (Encode (envelope_json \<lparr>msg_Type = typ, msg_Body = Some body\<rparr>)) = (p, e)"
    and "Decode dec p = None"
  shows "\<exists>err. exchange tt net target typ body dec = Inl err"
  using assms by (simp add: exchange_def Let_def)

lemma closed_by_peer_Inl: "\<exists>err. x = Inl err \<Longrightarrow> \<exists>err. closed_by_peer x = Inl err"
  by (auto simp: closed_by_peer_def split: rpc_error.split)

lemma reply_cut:
  assumes "serve now m rn = Some (rn', r)" and "Encode (reply_json r) = p @ q" and "1 < length q"
    and "dial tt net (rpc_target m) = Some conn" and "conn_read conn (request_text m) = (p, e)"
  shows "\<exists>err. tcp_call tt net m = Inl err"
proof (cases m)
  case (SendRequestVote t a)
  moreover obtain v where "r = VoteReply v" using serve_kind(1) assms(1) SendRequestVote by metis
  ultimately have "\<exists>err. tcp_RequestVote tt net t a = Inl err"
    unfolding tcp_RequestVote_def using vote_reply.Decode_cut [of v p q] assms
    by (intro exchange_cut) (simp_all add: request_text_def)
  then show ?thesis using SendRequestVote by auto
next
  case (SendAppendEntries t a)
  moreover obtain v where "r = AppendReply v" using serve_kind(2) assms(1) SendAppendEntries by metis
  ultimately have "\<exists>err. tcp_AppendEntries tt net t a = Inl err"
    unfolding tcp_AppendEntries_def using append_reply.Decode_cut [of v p q] assms
    by (intro closed_by_peer_Inl exchange_cut) (simp_all add: request_text_def)
  then show ?thesis using SendAppendEntries by auto
next
  case (SendInstallSnapshot t a)
  moreover obtain v where "r = SnapshotReply v" using serve_kind(3) assms(1) SendInstallSnapshot by metis
  ultimately have "\<exists>err. tcp_InstallSnapshot tt net t a = Inl err"
    unfolding tcp_InstallSnapshot_def using snapshot_reply.Decode_cut [of v p q] assms
    by (intro closed_by_peer_Inl exchange_cut) (simp_all add: request_text_def)
  then show ?thesis using SendInstallSnapshot by auto
qed

text \<open>C32. A message cut short is refused: when a connection breaks before the whole request has
  arrived, no handler runs, nothing is written and the node is as it was; when it breaks (or its
  deadline passes) before the whole reply has, the call returns an error. (A missing final line
  feed is no loss.)\<close>

theorem cut_messages_are_refused:
  assumes "rpc_valid m" and "1 < length q"
  shows "(request_text m = p @ q \<longrightarrow> handleConnection now k node p = Some (node, [])) \<and>
    (serve (now k) m rn = Some (rn', r) \<and> Encode (reply_json r) = p @ q \<and>
       dial tt net (rpc_target m) = Some conn \<and> conn_read conn (request_text m) = (p, ending) \<longrightarrow>
     (\<exists>err. tcp_call tt net m = Inl err))"
  using request_cut [OF assms(1) _ assms(2)] reply_cut [OF _ _ assms(2)] by blast

section \<open>Concrete calls\<close>

definition example_call :: rpc where
  "example_call = SendRequestVote ''n2'' example_vote"

definition example_transport :: "unit TCPTransport" where
  "example_transport = \<lparr>bindAddr = ''a'', handlerNode = None, transportStopped = False, serverTLS = None, clientTLS = None\<rparr>"

text \<open>A peer that runs \<open>handleConnection\<close> on \<open>example_node\<close> and loses the last \<open>n\<close> bytes of its answer.\<close>

definition example_conn :: "nat \<Rightarrow> Conn" where
  "example_conn n = \<lparr>conn_write = (\<lambda>_. True), conn_read = (\<lambda>s.
     (case handleConnection (\<lambda>_. 0) 0 (Some example_node) s of
        Some (_, out) \<Rightarrow> (take (length out - n) out, StreamEOF) | None \<Rightarrow> ([], StreamError)))\<rparr>"

lemma example_call_valid: "rpc_valid example_call"
  by (simp add: example_call_def example_vote_def)

lemma example_serve: "\<exists>rn' r. serve 0 example_call example_node = Some (rn', r)"
  by (simp add: example_call_def HandleRequestVote_def example_vote_def example_node_eq Let_def
      lastLogIndex_def lastLogTerm_def log_at_def stepDown_def)

lemma length_Encode: "2 \<le> length (Encode (envelope_json m))" "2 \<le> length (Encode (vote_reply_json r))"
  by (simp_all add: Encode_def envelope_json_def vote_reply_json_def)

lemma tcp_call_serves_witness:
  "\<exists>rn' r. serve 0 example_call example_node = Some (rn', r) \<and>
     tcp_call example_transport (\<lambda>_ _. Some (example_conn 0)) example_call = Inr r"
proof -
  obtain rn' r where "serve 0 example_call example_node = Some (rn', r)" using example_serve by blast
  then have run: "handleConnection (\<lambda>_. 0) 0 (Some example_node) (request_text example_call) =
      Some (Some rn', Encode (reply_json r))"
    by (simp add: connection_runs_once [OF example_call_valid])
  show ?thesis
    using tcp_call_serves [OF example_call_valid _ _ run, where conn = "example_conn 0" and tt = example_transport
        and net = "\<lambda>_ _. Some (example_conn 0)" and ending = StreamEOF]
    by (auto simp: example_conn_def run dial_def)
qed

lemma cut_messages_are_refused_witness:
  "handleConnection (\<lambda>_. 0) 0 (Some example_node) (take (length (request_text example_call) - 2) (request_text example_call)) =
     Some (Some example_node, []) \<and>
   (\<exists>err. tcp_call example_transport (\<lambda>_ _. Some (example_conn 2)) example_call = Inl err)"
proof -
  let ?s = "request_text example_call"
  obtain rn' r where r: "serve 0 example_call example_node = Some (rn', r)" using example_serve by blast
  then obtain v where v: "r = VoteReply v" using serve_kind(1) unfolding example_call_def by blast
  let ?o = "Encode (reply_json r)"
  have run: "handleConnection (\<lambda>_. 0) 0 (Some example_node) ?s = Some (Some rn', ?o)"
    by (simp add: connection_runs_once [OF example_call_valid] r)
  have "1 < length (drop (length ?s - 2) ?s)" "1 < length (drop (length ?o - 2) ?o)"
    using length_Encode by (simp_all add: request_text_def v)
  then have q: "1 < length (drop (length ?s - 2) ?s)" "1 < length (drop (length ?o - 2) ?o)" by blast+
  have read: "conn_read (example_conn 2) ?s = (take (length ?o - 2) ?o, StreamEOF)"
    "dial example_transport (\<lambda>_ _. Some (example_conn 2)) (rpc_target example_call) = Some (example_conn 2)"
    by (simp_all add: example_conn_def run dial_def)
  have "handleConnection (\<lambda>_. 0) 0 (Some example_node) (take (length ?s - 2) ?s) = Some (Some example_node, [])"
    using cut_messages_are_refused [OF example_call_valid q(1)] by (metis append_take_drop_id)
  moreover have "\<exists>err. tcp_call example_transport (\<lambda>_ _. Some (example_conn 2)) example_call = Inl err"
    using cut_messages_are_refused [OF example_call_valid q(2)] read r by (metis append_take_drop_id)
  ultimately show ?thesis by blast
qed

end
