(* ===== verification/ConsumerJson.thy ===== *)
theory ConsumerJson
  imports Consumer JsonGlue
begin

text \<open>
  The checkpoint lines of \<open>consumer/group_coordinator.go\<close> as \<open>encoding/json\<close> writes and reads them,
  in place of the codec that \<open>Consumer\<close> takes as a parameter. What stays a parameter is the text
  of a timestamp (RFC 3339 in the zone of the machine): \<open>format_time\<close>, \<open>None\<close> for a year that has
  none, and \<open>parse_time\<close>; \<open>time_ok\<close> is what their documentation says, that a written time is read
  back.
\<close>

section \<open>The codec\<close>

definition time_ok :: "(int \<Rightarrow> string option) \<Rightarrow> (string \<Rightarrow> int option) \<Rightarrow> bool" where
  "time_ok format_time parse_time \<longleftrightarrow> (\<forall>t s. format_time t = Some s \<longrightarrow> utf8 s \<and> parse_time s = Some t)"

definition record_json :: "OffsetRecord \<Rightarrow> string \<Rightarrow> json" where
  "record_json rec ts = JObj
    [(''group_id'', JStr (rec_GroupID rec)), (''partition'', JStr (rec_Partition rec)),
     (''offset'', uint_json (rec_Offset rec)), (''timestamp'', JStr ts)]"

definition time_field :: "(string \<Rightarrow> int option) \<Rightarrow> (int \<Rightarrow> 'r \<Rightarrow> 'r) \<Rightarrow> 'r setter" where
  "time_field parse_time upd v r =
    (case v of JNull \<Rightarrow> Some r | JStr s \<Rightarrow> map_option (\<lambda>t. upd t r) (parse_time s) | _ \<Rightarrow> None)"

definition record_of_json :: "(string \<Rightarrow> int option) \<Rightarrow> json \<Rightarrow> OffsetRecord option" where
  "record_of_json parse_time v = decode_struct
    [(''group_id'', string_field (\<lambda>s r. r\<lparr>rec_GroupID := s\<rparr>)), (''partition'', string_field (\<lambda>s r. r\<lparr>rec_Partition := s\<rparr>)),
     (''offset'', uint64_field (\<lambda>n r. r\<lparr>rec_Offset := n\<rparr>)), (''timestamp'', time_field parse_time (\<lambda>t r. r\<lparr>rec_Timestamp := t\<rparr>))]
    v \<lparr>rec_GroupID = '''', rec_Partition = '''', rec_Offset = 0, rec_Timestamp = 0\<rparr>"

definition marshal_record :: "(int \<Rightarrow> string option) \<Rightarrow> marshal" where
  "marshal_record format_time rec =
    map_option (\<lambda>ts. bytes_of (Marshal (record_json rec ts))) (format_time (rec_Timestamp rec))"

definition unmarshal_record :: "(string \<Rightarrow> int option) \<Rightarrow> unmarshal" where
  "unmarshal_record parse_time line = Unmarshal (record_of_json parse_time) (text_of line)"

section \<open>It is a codec\<close>

text \<open>What the printer writes has no control character.\<close>

lemma code_hex_char: "n < 16 \<Longrightarrow> 32 \<le> code (hex_char n)"
  by (simp add: hex_char_def)

lemma escape_ascii_chars: "code c < 128 \<Longrightarrow> \<forall>x \<in> set (escape_ascii c). 32 \<le> code x"
  using code_hex_char [of "code c div 16"] code_hex_char [of "code c mod 16"]
  by (simp add: escape_ascii_def quote_char_def backslash_def)

lemma escape_chars: "x \<in> set (escape s) \<Longrightarrow> 32 \<le> code x"
proof (induction s rule: escape.induct)
  case (1 s)
  show ?case
  proof (cases s)
    case (Cons c cs)
    show ?thesis
    proof (cases "code c < 128")
      case True
      then show ?thesis using 1(1) [OF Cons] 1(5) escape_ascii_chars [of c] by (auto simp: escape.simps [of "c # cs"] Cons)
    next
      case False
      have head: "32 \<le> code y" if "decode_rune s = Some (r, n)" "y \<in> set (take n s)" for r n y
        using False that Cons by (auto simp: decode_rune.simps split: if_splits elim!: decode_2_cases decode_3_cases decode_4_cases)
      show ?thesis
      proof (cases "decode_rune s")
        case None
        then show ?thesis using 1(2) [OF Cons False None] 1(5) False
          by (auto simp: escape.simps [of "c # cs"] Cons backslash_def)
      next
        case (Some p)
        obtain r n where p: "p = (r, n)" by fastforce
        note d = Some [unfolded p]
        show ?thesis
          using 1(3,4) [OF Cons False d refl] 1(5) False d head [OF d]
          by (auto simp: escape.simps [of "c # cs"] Cons backslash_def hex_char_def split: if_splits)
      qed
    qed
  qed (use 1(5) in \<open>simp add: escape.simps\<close>)
qed

lemma decimal_chars: "x \<in> set (decimal n) \<Longrightarrow> 32 \<le> code x"
  using decimal_digits [of x n] by (simp add: is_digit_def)

lemma quoted_chars: "x \<in> set (quoted s) \<Longrightarrow> 32 \<le> code x"
  using escape_chars [of x s] by (auto simp: quoted_def quote_char_def)

lemma record_text:
  "json_text (record_json rec ts) =
    [CHR ''{''] @ quoted ''group_id'' @ [CHR '':''] @ quoted (rec_GroupID rec) @ [CHR '',''] @ quoted ''partition'' @ [CHR '':''] @
    quoted (rec_Partition rec) @ [CHR '',''] @ quoted ''offset'' @ [CHR '':''] @ decimal (unat (rec_Offset rec)) @ [CHR '',''] @
    quoted ''timestamp'' @ [CHR '':''] @ quoted ts @ [CHR ''}'']"
  by (simp add: record_json_def uint_json_def)

lemma record_chars: "x \<in> set (json_text (record_json rec ts)) \<Longrightarrow> 32 \<le> code x"
  unfolding record_text by (auto dest: quoted_chars decimal_chars)

lemma canon_record:
  "utf8 (rec_GroupID rec) \<Longrightarrow> utf8 (rec_Partition rec) \<Longrightarrow> utf8 ts \<Longrightarrow> canon 8 (record_json rec ts)"
  by (simp add: record_json_def)

lemma record_of_json_record:
  assumes "parse_time ts = Some (rec_Timestamp rec)"
  shows "record_of_json parse_time (record_json rec ts) = Some rec"
  using assms by (simp add: record_of_json_def record_json_def decode_struct_def find_field_def time_field_def)

lemma unmarshal_marshal:
  assumes "time_ok format_time parse_time" and "utf8 (rec_GroupID rec)" and "utf8 (rec_Partition rec)"
    and "marshal_record format_time rec = Some l"
  shows "unmarshal_record parse_time l = Some rec"
proof -
  obtain ts where ts: "format_time (rec_Timestamp rec) = Some ts" "l = bytes_of (Marshal (record_json rec ts))"
    using assms(4) by (auto simp: marshal_record_def)
  have t: "utf8 ts" "parse_time ts = Some (rec_Timestamp rec)" using assms(1) ts(1) by (simp_all add: time_ok_def)
  have "canon maxNestingDepth (record_json rec ts)"
    using canon_mono [OF canon_record [OF assms(2,3) t(1)]] by (simp add: maxNestingDepth_def)
  then have "json_whole (Marshal (record_json rec ts)) = Some (record_json rec ts)"
    using parse_json_text [of "record_json rec ts" "[]"] by (simp add: json_whole_def Marshal_def number_end_def skip_ws_def)
  then show ?thesis
    using record_of_json_record [of parse_time ts rec, OF t(2)] by (simp add: unmarshal_record_def Unmarshal_def ts(2))
qed

lemma record_line_plain:
  assumes "marshal_record format_time rec = Some l"
  shows "l \<noteq> [] \<and> last l \<noteq> 13 \<and> newline \<notin> set l"
proof -
  obtain ts where l: "l = bytes_of (json_text (record_json rec ts))" using assms by (auto simp: marshal_record_def Marshal_def)
  have "newline \<notin> set l"
  proof
    assume "newline \<in> set l"
    then obtain x where "x \<in> set (json_text (record_json rec ts))" "(word_of_nat (code x) :: byte) = newline"
      by (auto simp: l bytes_of_def)
    then have "32 \<le> code x" "unat (word_of_nat (code x) :: byte) = 10" using record_chars by (simp_all add: newline_def)
    then show False by simp
  qed
  moreover have "l \<noteq> []" "last l \<noteq> 13" by (simp_all add: l record_text bytes_of_def)
  ultimately show ?thesis by blast
qed

lemma record_json_ok:
  assumes "time_ok format_time parse_time"
  shows "json_ok utf8 (marshal_record format_time) (unmarshal_record parse_time)"
  unfolding json_ok_def
proof (intro allI impI conjI)
  fix rec l
  assume m: "marshal_record format_time rec = Some l"
  show "l \<noteq> []" "last l \<noteq> 13" "newline \<notin> set l" using record_line_plain [OF m] by simp_all
  show "\<exists>rec'. unmarshal_record parse_time l = Some rec' \<and> rec_GroupID rec' = rec_GroupID rec \<and>
      rec_Partition rec' = rec_Partition rec \<and> rec_Offset rec' = rec_Offset rec"
    if "utf8 (rec_GroupID rec)" "utf8 (rec_Partition rec)"
    using unmarshal_marshal [OF assms that m] by blast
qed

subsection \<open>The length of a line\<close>

lemma length_escape: "length (escape s) \<le> 6 * length s"
proof (induction s rule: escape.induct)
  case (1 s)
  show ?case
  proof (cases s)
    case (Cons c cs)
    have ascii: "length (escape_ascii c) \<le> 6" by (simp add: escape_ascii_def)
    show ?thesis
    proof (cases "code c < 128")
      case True
      then show ?thesis using 1(1) [OF Cons True] ascii by (simp add: escape.simps [of "c # cs"] Cons)
    next
      case False
      show ?thesis
      proof (cases "decode_rune s")
        case None
        then show ?thesis using 1(2) [OF Cons False None] False by (simp add: escape.simps [of "c # cs"] Cons)
      next
        case (Some p)
        obtain r n where p: "p = (r, n)" by fastforce
        note d = Some [unfolded p]
        have n: "0 < n" "n \<le> length s" using decode_rune_length [OF d] by simp_all
        have "length (escape s) \<le> 6 + length (escape (drop n s)) \<or> length (escape s) \<le> n + length (escape (drop n s))"
          using False d by (auto simp: escape.simps [of "c # cs"] Cons)
        moreover have "length (escape (drop n s)) \<le> 6 * (length s - n)"
          using 1(3,4) [OF Cons False d refl] by (cases "r = 8232 \<or> r = 8233") auto
        ultimately show ?thesis using n by auto
      qed
    qed
  qed (simp add: escape.simps)
qed

lemma length_record:
  "length (json_text (record_json rec ts)) \<le> 6 * (length (rec_GroupID rec) + length (rec_Partition rec) + length ts) + 90"
proof -
  have "length (decimal (unat (rec_Offset rec))) \<le> 20"
    using unat_lt64 [of "rec_Offset rec"] by (intro length_decimal) simp_all
  moreover have "escape ''group_id'' = ''group_id''" "escape ''partition'' = ''partition''" "escape ''offset'' = ''offset''"
    "escape ''timestamp'' = ''timestamp''"
    by (simp_all add: escape.simps escape_ascii_def quote_char_def backslash_def)
  ultimately show ?thesis
    using length_escape [of "rec_GroupID rec"] length_escape [of "rec_Partition rec"] length_escape [of ts]
    unfolding record_text quoted_def by simp
qed

section \<open>Commits with the concrete codec\<close>

lemma record_line_short:
  assumes "marshal_record format_time \<lparr>rec_GroupID = gid, rec_Partition = part, rec_Offset = offset, rec_Timestamp = now\<rparr> = Some l"
    and "\<And>ts. format_time now = Some ts \<Longrightarrow> length ts \<le> 100" and "length gid + length part \<le> 10000"
  shows "length l < MaxScanTokenSize"
proof -
  let ?rec = "\<lparr>rec_GroupID = gid, rec_Partition = part, rec_Offset = offset, rec_Timestamp = now\<rparr>"
  obtain ts where ts: "format_time now = Some ts" "l = bytes_of (json_text (record_json ?rec ts))"
    using assms(1) by (auto simp: marshal_record_def Marshal_def)
  have "length ts \<le> 100" by (rule assms(2) [OF ts(1)])
  then show ?thesis using length_record [of ?rec ts] assms(3) by (simp add: ts(2) MaxScanTokenSize_def)
qed

text \<open>C12. A committed offset survives a restart: after any commit that returned no error, for a group
  and a partition named in valid UTF-8 of up to 10000 bytes, a new coordinator on the same directory
  starts, is in step with the file, and fetches the committed offset, and for every other group and
  partition exactly the offset the old one had. Escapes and the lines of the file are those of
  \<open>encoding/json\<close>; of the text of a timestamp it is used that it is read back and is at most 100
  bytes long.\<close>

theorem committed_offset_survives:
  assumes "time_ok format_time parse_time" and "\<forall>ts. format_time now = Some ts \<longrightarrow> length ts \<le> 100"
    and "utf8 gid" and "utf8 part" and "length gid + length part \<le> 10000"
    and "in_step (unmarshal_record parse_time) c os"
    and "CommitOffset sys (marshal_record format_time) now gid part offset c os = (None, c', os')"
    and "no_faults sys2"
  shows "\<exists>c2 os2. NewCoordinator sys2 (unmarshal_record parse_time) (dataDir c) timeout os' = (Inr c2, os2) \<and>
    in_step (unmarshal_record parse_time) c2 os2 \<and> FetchOffset gid part c2 = Inr offset \<and>
    (\<forall>g p. \<forall>off. FetchOffset g p c2 = Inr off \<longleftrightarrow> FetchOffset g p c' = Inr off)"
proof (rule commit_survives_restart [OF record_json_ok [OF assms(1)] assms(3,4,6,7) _ assms(8)], intro allI impI)
  fix l
  assume "marshal_record format_time \<lparr>rec_GroupID = gid, rec_Partition = part, rec_Offset = offset, rec_Timestamp = now\<rparr> = Some l"
  then show "length l < MaxScanTokenSize" by (rule record_line_short) (use assms(2,5) in blast)+
qed

definition example_format :: "int \<Rightarrow> string option" where
  "example_format t = (if t = 7 then Some ''1970-01-01T00:00:00.000000007Z'' else None)"

definition example_parse :: "string \<Rightarrow> int option" where
  "example_parse s = (if s = ''1970-01-01T00:00:00.000000007Z'' then Some 7 else None)"

lemma example_time: "time_ok example_format example_parse"
  by (simp add: time_ok_def example_format_def example_parse_def)

lemma committed_offset_survives_witness:
  "\<exists>c' os' c2 os2. CommitOffset faultless (marshal_record example_format) 7 ''g'' ''p'' 42 example_coord example_os = (None, c', os') \<and>
     NewCoordinator faultless (unmarshal_record example_parse) ''d'' 0 os' = (Inr c2, os2) \<and> FetchOffset ''g'' ''p'' c2 = Inr 42"
proof -
  obtain l where l: "marshal_record example_format \<lparr>rec_GroupID = ''g'', rec_Partition = ''p'', rec_Offset = 42, rec_Timestamp = 7\<rparr> = Some l"
    by (simp add: marshal_record_def example_format_def)
  have step: "in_step (unmarshal_record example_parse) example_coord example_os" by (rule example_in_step)
  obtain c' os' where run: "CommitOffset faultless (marshal_record example_format) 7 ''g'' ''p'' 42 example_coord example_os = (None, c', os')"
    using CommitOffset_ok [OF no_faults_faultless, of example_coord example_os "marshal_record example_format" "''g''" "''p''" 42 7 l]
      step l by (auto simp: in_step_def)
  show ?thesis
    using committed_offset_survives [OF example_time _ _ _ _ step run no_faults_faultless, of 0] run
    by (auto simp: example_coord_def example_format_def)
qed

section \<open>A commit behind a torn line\<close>

definition record_members :: "OffsetRecord \<Rightarrow> string \<Rightarrow> (string \<times> json) list" where
  "record_members rec ts = [(''group_id'', JStr (rec_GroupID rec)), (''partition'', JStr (rec_Partition rec)),
     (''offset'', uint_json (rec_Offset rec)), (''timestamp'', JStr ts)]"

lemma record_members: "record_json rec ts = JObj (record_members rec ts)" "record_members rec ts \<noteq> []"
  by (simp_all add: record_json_def record_members_def)

lemma flat_record: "flat_members (record_members rec ts)"
  by (auto simp: flat_members_def record_members_def flat_def uint_json_def)

lemma record_follows: "\<exists>w. follows (json_text (record_json rec ts)) (CHR ''g'') w"
proof -
  have "escape ''group_id'' = ''group_id''" by (simp add: escape.simps escape_ascii_def quote_char_def backslash_def)
  then have "\<exists>w. opens (json_text (record_json rec ts)) (CHR ''g'') w"
    unfolding record_text by (simp add: opens_def quoted_def is_ws_def)
  then show ?thesis using object_follows [OF flat_record record_members(2)] unfolding record_members(1) by blast
qed

text \<open>The line with the torn record and the new one is refused.\<close>

lemma torn_line_refused:
  assumes "marshal_record format_time rec = Some l" and "0 < j" and "marshal_record format_time rec' = Some line"
  shows "unmarshal_record parse_time (take j l @ line) = None"
proof -
  obtain ts ts' where l: "l = bytes_of (json_text (record_json rec ts))" and line: "line = bytes_of (json_text (record_json rec' ts'))"
    using assms(1,3) by (auto simp: marshal_record_def Marshal_def)
  let ?T = "json_text (record_json rec ts)" and ?L = "json_text (record_json rec' ts')"
  obtain w where L: "follows ?L (CHR ''g'') w" using record_follows by blast
  have "take j l @ line = bytes_of (take j ?T @ ?L)" by (simp add: l line bytes_of_def take_map)
  moreover have "json_whole (take j ?T @ ?L) = None"
  proof (rule glued_refused [OF L flat_record record_members(2)])
    show "json_text (JObj (record_members rec ts)) = take j ?T @ drop j ?T" by (simp add: record_members(1))
    show "take j ?T \<noteq> []" using assms(2) by (simp add: record_text)
  qed
  ultimately show ?thesis by (simp add: unmarshal_record_def Unmarshal_def text_of_bytes_of)
qed

lemma record_line_length:
  assumes "marshal_record format_time rec = Some l" and "\<forall>t ts. format_time t = Some ts \<longrightarrow> length ts \<le> 100"
    and "length (rec_GroupID rec) + length (rec_Partition rec) \<le> 5000"
  shows "length l \<le> 30690"
proof -
  obtain ts where ts: "format_time (rec_Timestamp rec) = Some ts" "l = bytes_of (json_text (record_json rec ts))"
    using assms(1) by (auto simp: marshal_record_def Marshal_def)
  then have "length ts \<le> 100" using assms(2) by blast
  then show ?thesis using length_record [of rec ts] assms(3) by (simp add: ts(2) bytes_of_def)
qed

text \<open>C35. A commit after a torn line is lost. When the file ends in a part of a checkpoint line, as a
  crash in the middle of a write leaves it, cut after any byte, or only its newline missing, a
  coordinator starts; but its next commit is glued to the torn line. It returns no error and is
  served by the running coordinator, yet \<open>encoding/json\<close> refuses the glued line, so that after a
  restart neither the commit nor the torn record is there: every offset is that of the lines before.
  The names of both records are at most 5000 bytes, so that the glued line fits the scanner.\<close>

theorem torn_tail_swallows_commit:
  assumes "\<forall>t ts. format_time t = Some ts \<longrightarrow> length ts \<le> 100" and "no_faults sys" and "\<forall>l \<in> set ls. good_line l"
    and torn: "marshal_record format_time rec = Some l" "0 < j" "length (rec_GroupID rec) + length (rec_Partition rec) \<le> 5000"
    and tail: "file_bytes os (offset_path dir) = lines ls @ take j l"
    and now: "format_time now \<noteq> None" "length gid + length part \<le> 5000"
  shows "\<exists>c os1 c' os' c2 os2. NewCoordinator sys (unmarshal_record parse_time) dir timeout os = (Inr c, os1) \<and>
    CommitOffset sys (marshal_record format_time) now gid part offset c os1 = (None, c', os') \<and> FetchOffset gid part c' = Inr offset \<and>
    NewCoordinator sys (unmarshal_record parse_time) dir timeout os' = (Inr c2, os2) \<and>
    (\<forall>g p. \<forall>off. FetchOffset g p c2 = Inr off \<longleftrightarrow> replayed (unmarshal_record parse_time) (lines ls) g p = Some off)"
proof -
  let ?rec = "\<lparr>rec_GroupID = gid, rec_Partition = part, rec_Offset = offset, rec_Timestamp = now\<rparr>"
  obtain line where line: "marshal_record format_time ?rec = Some line" using now(1) by (auto simp: marshal_record_def)
  have chars: "m \<noteq> [] \<and> last m \<noteq> 13 \<and> newline \<notin> set m" if "marshal_record format_time r = Some m" for r m
    using record_line_plain [OF that] .
  have len: "length l \<le> 30690" "length line \<le> 30690"
    using record_line_length [OF torn(1) assms(1) torn(3)] record_line_length [OF line assms(1)] now(2) by simp_all
  have good: "good_line (take j l)" "good_line (take j l @ line)"
    using chars [OF torn(1)] chars [OF line] len by (auto simp: good_line_def MaxScanTokenSize_def dest: in_set_takeD)
  have "take j l \<noteq> []" using torn(2) chars [OF torn(1)] by simp
  moreover have "dropCR (take j l @ line) = take j l @ line" using chars [OF line] by (simp add: dropCR_def)
  moreover have "unmarshal_record parse_time (take j l @ line) = None" by (rule torn_line_refused [OF torn(1,2) line])
  ultimately show ?thesis
    by (intro torn_tail_loses_commit [of sys os dir ls "take j l" "marshal_record format_time" gid part offset now line]
        assms(2,3) tail good line) simp_all
qed

text \<open>A file with the first ten bytes of a line.\<close>

lemma torn_tail_swallows_commit_witness:
  "\<exists>l os c os1 c' os' c2 os2. marshal_record example_format
       \<lparr>rec_GroupID = ''g'', rec_Partition = ''p'', rec_Offset = 41, rec_Timestamp = 7\<rparr> = Some l \<and>
     file_bytes os (offset_path ''d'') = take 10 l \<and>
     NewCoordinator faultless (unmarshal_record example_parse) ''d'' 0 os = (Inr c, os1) \<and>
     CommitOffset faultless (marshal_record example_format) 7 ''g'' ''p'' 42 c os1 = (None, c', os') \<and> FetchOffset ''g'' ''p'' c' = Inr 42 \<and>
     NewCoordinator faultless (unmarshal_record example_parse) ''d'' 0 os' = (Inr c2, os2) \<and> FetchOffset ''g'' ''p'' c2 \<noteq> Inr 42"
proof -
  let ?rec = "\<lparr>rec_GroupID = ''g'', rec_Partition = ''p'', rec_Offset = 41, rec_Timestamp = 7\<rparr>"
  obtain l where l: "marshal_record example_format ?rec = Some l" by (simp add: marshal_record_def example_format_def)
  let ?os = "example_os\<lparr>files := [offset_path ''d'' \<mapsto> take 10 l]\<rparr>"
  have tail: "file_bytes ?os (offset_path ''d'') = lines [] @ take 10 l" by (simp add: file_bytes_def)
  have times: "\<forall>t ts. example_format t = Some ts \<longrightarrow> length ts \<le> 100" by (simp add: example_format_def)
  obtain c os1 c' os' c2 os2 where run: "NewCoordinator faultless (unmarshal_record example_parse) ''d'' 0 ?os = (Inr c, os1)"
    "CommitOffset faultless (marshal_record example_format) 7 ''g'' ''p'' 42 c os1 = (None, c', os')" "FetchOffset ''g'' ''p'' c' = Inr 42"
    "NewCoordinator faultless (unmarshal_record example_parse) ''d'' 0 os' = (Inr c2, os2)"
    and none: "\<forall>g p. \<forall>off. FetchOffset g p c2 = Inr off \<longleftrightarrow> replayed (unmarshal_record example_parse) (lines []) g p = Some off"
    using torn_tail_swallows_commit [OF times no_faults_faultless _ l _ _ tail, of 7 "''g''" "''p''" example_parse 0 42]
    by (auto simp: example_format_def)
  have "FetchOffset ''g'' ''p'' c2 \<noteq> Inr 42" by (simp add: none replayed_def committed_def)
  with l tail run show ?thesis by (intro exI [of _ l] exI [of _ ?os]) simp
qed

end
