(* ===== verification/NodeStreams.thy ===== *)
theory NodeStreams
  imports NodeServer JsonPrefix
begin

text \<open>
  The streams of \<open>cmd/node/main.go\<close>: the loop of a client connection and the accept loop, the HTTP
  routes with their JSON bodies, and the workers of the load generator. What other goroutines do
  while a handler waits, what \<open>Propose\<close> returns and whether a write works are arguments.
\<close>

section \<open>A client connection\<close>

lemma DecodeFrame_shorter: "DecodeFrame r = (Inr f, r') \<Longrightarrow> length (concat r') < length (concat r)"
  using DecodeFrame_concat [of r] decode_bytes_Inr [of "concat r" f "concat r'"] by auto

text \<open>
  One entry of the trace for a frame: the redirect that was written, or the payload proposed and the
  reply written. \<open>others k\<close> is what the rest of the process did before frame \<open>k\<close> is looked at;
  \<open>propose k p\<close> runs \<open>Propose\<close>, with its result, the milliseconds it took and the server after it;
  \<open>writes k\<close> says whether the reply to frame \<open>k\<close> can be written.
\<close>

datatype client_event = Redirected "byte list" | Proposed "byte list" "byte list"

function handleClientConn_loop ::
  "(nat \<Rightarrow> NodeServer \<Rightarrow> NodeServer) \<Rightarrow> (nat \<Rightarrow> byte list \<Rightarrow> NodeServer \<Rightarrow> (raft_error + u64) \<times> rat \<times> NodeServer) \<Rightarrow>
   (nat \<Rightarrow> bool) \<Rightarrow> nat \<Rightarrow> reader \<Rightarrow> NodeServer \<Rightarrow> (client_event list \<times> NodeServer) option"
where
  "handleClientConn_loop others propose writes k r s =
    (case DecodeFrame r of
       (Inl err, r) \<Rightarrow> Some ([], s)
     | (Inr frame, r) \<Rightarrow>
         (let s = others k s in
          case handleClientConn_frame frame s of
            Inl reply \<Rightarrow>
              map_option (\<lambda>(es, s). (Redirected reply # es, s)) (handleClientConn_loop others propose writes (Suc k) r s)
          | Inr payload \<Rightarrow>
              (case propose k payload s of
                 (result, durMs, s) \<Rightarrow>
                   (case client_reply result durMs s of
                      None \<Rightarrow> None
                    | Some (reply, s) \<Rightarrow>
                        (if \<not> writes k \<and> (\<exists>i. result = Inr i) then Some ([Proposed payload reply], s)
                         else map_option (\<lambda>(es, s). (Proposed payload reply # es, s))
                                (handleClientConn_loop others propose writes (Suc k) r s))))))"
  by pat_completeness auto
termination
  by (relation "measure (\<lambda>(others, propose, writes, k, r, s). length (concat r))")
    (simp_all add: DecodeFrame_shorter [OF sym])

declare handleClientConn_loop.simps [simp del]

text \<open>Accepting a connection and the deferred end of its handler, with the counter of both.\<close>

definition accept_client :: "NodeServer \<Rightarrow> NodeServer" where
  "accept_client s = s\<lparr>tcpClients := tcpClients s + 1\<rparr>"

definition handleClientConn ::
  "(nat \<Rightarrow> NodeServer \<Rightarrow> NodeServer) \<Rightarrow> (nat \<Rightarrow> byte list \<Rightarrow> NodeServer \<Rightarrow> (raft_error + u64) \<times> rat \<times> NodeServer) \<Rightarrow>
   (nat \<Rightarrow> bool) \<Rightarrow> reader \<Rightarrow> NodeServer \<Rightarrow> (client_event list \<times> NodeServer) option"
where
  "handleClientConn others propose writes r s =
    map_option (\<lambda>(es, s). (es, s\<lparr>tcpClients := tcpClients s - 1\<rparr>)) (handleClientConn_loop others propose writes 0 r s)"

text \<open>A round of the accept loop of \<open>runClientTCPServer\<close>; \<open>None\<close> ends it.\<close>

definition runClientTCPServer_accept :: "bool \<Rightarrow> NodeServer \<Rightarrow> NodeServer option" where
  "runClientTCPServer_accept accepted s = (if accepted then Some (accept_client s) else None)"

subsection \<open>Every frame is answered, in order\<close>

definition window_ok :: "NodeServer \<Rightarrow> bool" where
  "window_ok s \<longleftrightarrow> 0 < maxLen (latencyTracker s)"

text \<open>
  Frame \<open>k\<close> with payload \<open>p\<close>, from the state \<open>s\<close> before it is looked at to the state \<open>s'\<close> after its
  answer \<open>e\<close>: a node that does not lead at that moment redirects and changes nothing, one that leads
  proposes the payload, records how long that took, and answers with the result.
\<close>

definition client_serves ::
  "(nat \<Rightarrow> NodeServer \<Rightarrow> NodeServer) \<Rightarrow> (nat \<Rightarrow> byte list \<Rightarrow> NodeServer \<Rightarrow> (raft_error + u64) \<times> rat \<times> NodeServer) \<Rightarrow>
   nat \<Rightarrow> byte list \<Rightarrow> NodeServer \<Rightarrow> client_event \<Rightarrow> NodeServer \<Rightarrow> bool"
where
  "client_serves others propose k p s e s' \<longleftrightarrow>
    (if role (raftNode (others k s)) \<noteq> Leader
     then e = Redirected (encoded 0 (bytes_of (''ERR_NOT_LEADER:'' @ leaderID (raftNode (others k s))))) \<and> s' = others k s
     else case propose k p (others k s) of
       (result, durMs, s1) \<Rightarrow>
         e = Proposed p (case result of
             Inl err \<Rightarrow> encoded 0 (bytes_of (''ERR_PROPOSE:'' @ raft_error_text err))
           | Inr i \<Rightarrow> encoded i (bytes_of ''OK'')) \<and>
         (\<exists>lt. Record durMs (latencyTracker s1) = Some lt \<and> s' = s1\<lparr>latencyTracker := lt\<rparr>))"

text \<open>The answers \<open>es\<close> to the payloads \<open>ps\<close> from frame \<open>k\<close> on, with the states \<open>ss\<close> between them.\<close>

definition client_trace ::
  "(nat \<Rightarrow> NodeServer \<Rightarrow> NodeServer) \<Rightarrow> (nat \<Rightarrow> byte list \<Rightarrow> NodeServer \<Rightarrow> (raft_error + u64) \<times> rat \<times> NodeServer) \<Rightarrow>
   nat \<Rightarrow> byte list list \<Rightarrow> NodeServer list \<Rightarrow> client_event list \<Rightarrow> bool"
where
  "client_trace others propose k ps ss es \<longleftrightarrow> length es = length ps \<and> length ss = Suc (length ps) \<and>
    (\<forall>i < length ps. client_serves others propose (k + i) (ps ! i) (ss ! i) (es ! i) (ss ! Suc i))"

lemma client_trace_Nil: "client_trace others propose k [] [s] []"
  by (simp add: client_trace_def)

lemma client_trace_Cons:
  assumes "client_serves others propose k p s e (hd ss)" and "client_trace others propose (Suc k) ps ss es"
  shows "client_trace others propose k (p # ps) (s # ss) (e # es)"
proof -
  have "hd ss = ss ! 0" using assms(2) by (cases ss) (simp_all add: client_trace_def)
  then show ?thesis using assms by (auto simp: client_trace_def nth_Cons split: nat.split)
qed

lemma Record_window: "0 < maxLen lt \<Longrightarrow> \<exists>lt'. Record d lt = Some lt' \<and> maxLen lt' = maxLen lt"
  by (cases "samples lt") (auto simp: Record_def)

lemma client_loop_answers:
  assumes "all_fit rs" and "concat r = frames rs @ rest" and "dead_end rest" and "window_ok s"
    and others: "\<And>k s. window_ok s \<Longrightarrow> window_ok (others k s)"
    and serving: "\<And>k p s. window_ok s \<Longrightarrow> window_ok (snd (snd (propose k p s)))"
  shows "\<exists>es ss. handleClientConn_loop others propose (\<lambda>_. True) k r s = Some (es, last ss) \<and>
    hd ss = s \<and> client_trace others propose k (map snd rs) ss es"
  using assms(1-4)
proof (induction rs arbitrary: k r s)
  case Nil
  obtain err bs where "decode_bytes (concat r) = (Inl err, bs)"
    using Nil.prems(2,3) by (auto simp: dead_end_def next_rec_def split: prod.splits sum.splits)
  then obtain r' where "DecodeFrame r = (Inl err, r')" by (rule DecodeFrame_of_bytes)
  then show ?case
    by (intro exI [of _ "[]"] exI [of _ "[s]"]) (simp add: handleClientConn_loop.simps client_trace_Nil)
next
  case (Cons x rs)
  obtain f r' where d: "DecodeFrame r = (Inr f, r')" and f: "Payload f = snd x" and r': "concat r' = frames rs @ rest"
  proof -
    have "decode_bytes (concat r) = (Inr \<lparr>Magic = MagicByte, Length = word_of_nat (length (snd x)), Offset = fst x,
        CRC32 = checksum_ieee (snd x), Payload = snd x\<rparr>, frames rs @ rest)"
      using Cons.prems(1,2) by (simp add: rec_bytes_def rec_fits_def decode_frame_bytes)
    then show thesis by (rule DecodeFrame_of_bytes) (rule that, auto)
  qed
  let ?s = "others k s"
  have w: "window_ok ?s" using Cons.prems(4) by (rule others)
  have fit: "all_fit rs" using Cons.prems(1) by simp
  have more: ?case
    if loop: "\<And>es ss. handleClientConn_loop others propose (\<lambda>_. True) (Suc k) r' s2 = Some (es, ss) \<Longrightarrow>
        handleClientConn_loop others propose (\<lambda>_. True) k r s = Some (e # es, ss)"
      and step: "client_serves others propose k (snd x) s e s2" and w2: "window_ok s2" for e s2
  proof -
    obtain es ss where run: "handleClientConn_loop others propose (\<lambda>_. True) (Suc k) r' s2 = Some (es, last ss)" "hd ss = s2"
      and trace: "client_trace others propose (Suc k) (map snd rs) ss es"
      using Cons.IH [OF fit r' Cons.prems(3) w2] by blast
    have "last (s # ss) = last ss" using trace by (cases ss) (simp_all add: client_trace_def)
    moreover have "client_trace others propose k (map snd (x # rs)) (s # ss) (e # es)"
      using client_trace_Cons [OF _ trace] step run(2) by simp
    ultimately show ?case using loop [OF run(1)] by (intro exI [of _ "e # es"] exI [of _ "s # ss"]) simp
  qed
  show ?case
  proof (cases "role (raftNode ?s) = Leader")
    case False
    show ?thesis
    proof (rule more)
      show "client_serves others propose k (snd x) s
          (Redirected (encoded 0 (bytes_of (''ERR_NOT_LEADER:'' @ leaderID (raftNode ?s))))) ?s"
        using False by (simp add: client_serves_def)
    qed (use d False w in \<open>subst handleClientConn_loop.simps, simp_all add: handleClientConn_frame_def GetState_def\<close>)
  next
    case True
    obtain result durMs s1 where p: "propose k (snd x) ?s = (result, durMs, s1)" by (metis prod_cases3)
    have w1: "window_ok s1" using serving [OF w, of k "snd x"] p by simp
    then obtain lt where lt: "Record durMs (latencyTracker s1) = Some lt" "maxLen lt = maxLen (latencyTracker s1)"
      using Record_window by (metis window_ok_def)
    let ?b = "case result of Inl err \<Rightarrow> encoded 0 (bytes_of (''ERR_PROPOSE:'' @ raft_error_text err)) | Inr i \<Rightarrow> encoded i (bytes_of ''OK'')"
    have reply: "client_reply result durMs s1 = Some (?b, s1\<lparr>latencyTracker := lt\<rparr>)"
      using lt(1) by (simp add: client_reply_def)
    show ?thesis
    proof (rule more)
      show "client_serves others propose k (snd x) s (Proposed (snd x) ?b) (s1\<lparr>latencyTracker := lt\<rparr>)"
        using True p lt(1) by (simp add: client_serves_def)
      show "window_ok (s1\<lparr>latencyTracker := lt\<rparr>)" using w1 lt(2) by (simp add: window_ok_def)
    qed (use d f True p reply in \<open>subst handleClientConn_loop.simps, simp add: handleClientConn_frame_def GetState_def\<close>)
  qed
qed

lemma client_conn_answers:
  assumes "all_fit rs" and "concat r = frames rs @ rest" and "dead_end rest" and "window_ok s"
    and others: "\<And>k s. window_ok s \<Longrightarrow> window_ok (others k s)"
    and serving: "\<And>k p s. window_ok s \<Longrightarrow> window_ok (snd (snd (propose k p s)))"
  shows "\<exists>es ss. handleClientConn others propose (\<lambda>_. True) r s = Some (es, (last ss)\<lparr>tcpClients := tcpClients (last ss) - 1\<rparr>) \<and>
    hd ss = s \<and> client_trace others propose 0 (map snd rs) ss es"
proof -
  obtain es ss where "handleClientConn_loop others propose (\<lambda>_. True) 0 r s = Some (es, last ss)" "hd ss = s"
    "client_trace others propose 0 (map snd rs) ss es"
    using client_loop_answers [of rs r rest s others propose 0, OF assms] by blast
  then show ?thesis by (intro exI [of _ es] exI [of _ ss]) (simp add: handleClientConn_def)
qed

text \<open>C14. A client connection answers every frame, in order: a stream that starts with the frames of some
  payloads, in any fragmentation, gets one reply for each. The states between the answers are those
  the server really goes through, from the first to the one the handler leaves: a frame that is
  looked at while the node does not lead is redirected to its leader and nothing is proposed, one
  that is looked at while it leads is proposed, its time recorded, and answered with the result. The
  connection ends at the first bytes that are no frame, whatever other goroutines do.\<close>

theorem client_answers_in_order:
  assumes "all_fit rs" and "concat r = frames rs @ rest" and "dead_end rest" and "window_ok s"
    and "\<forall>k s. window_ok s \<longrightarrow> window_ok (others k s)"
    and "\<forall>k p s. window_ok s \<longrightarrow> window_ok (snd (snd (propose k p s)))"
  shows "\<exists>es ss. handleClientConn others propose (\<lambda>_. True) r s = Some (es, (last ss)\<lparr>tcpClients := tcpClients (last ss) - 1\<rparr>) \<and>
    length es = length rs \<and> length ss = Suc (length rs) \<and> hd ss = s \<and>
    (\<forall>i < length rs. client_serves others propose i (snd (rs ! i)) (ss ! i) (es ! i) (ss ! Suc i))"
  using client_conn_answers [OF assms(1-4), of others propose] assms(5,6) by (auto simp: client_trace_def)

text \<open>A leader that commits the first of two payloads and has stepped down before the second is read.\<close>

definition example_others :: "nat \<Rightarrow> NodeServer \<Rightarrow> NodeServer" where
  "example_others k s = (if k = 1 then s\<lparr>raftNode := (raftNode s)\<lparr>role := Follower, leaderID := ''2''\<rparr>\<rparr> else s)"

lemma client_answers_in_order_witness:
  "\<forall>w. \<exists>s'. handleClientConn example_others (\<lambda>_ _ s. (Inr 1, 2, s)) (\<lambda>_. True) [frames [(0, [7]), (0, [])] @ [1]] (leading_server w) =
      Some ([Proposed [7] (encoded 1 (bytes_of ''OK'')), Redirected (encoded 0 (bytes_of ''ERR_NOT_LEADER:2''))], s') \<and>
      role (raftNode s') = Follower \<and> samples (latencyTracker s') = [2]"
proof
  fix w
  let ?propose = "\<lambda>_ _ s. (Inr 1, 2, s)" and ?rs = "[(0, [7]), (0, [])] :: logrec list"
  have "window_ok (leading_server w)" by (simp add: window_ok_def leading_server_def example_server_def NewLatencyTracker_def)
  moreover have "dead_end [1]" by (rule dead_end_magic) (simp add: MagicByte_def)
  moreover have "all_fit ?rs" by (simp add: rec_fits_def MaxPayloadSize_def)
  moreover have "concat [frames ?rs @ [1]] = frames ?rs @ [1]" by simp
  moreover have "\<forall>k s. window_ok s \<longrightarrow> window_ok (example_others k s)" by (simp add: example_others_def window_ok_def)
  moreover have "\<forall>k p s. window_ok s \<longrightarrow> window_ok (snd (snd (?propose k p s)))" by simp
  ultimately obtain es ss where run: "handleClientConn example_others ?propose (\<lambda>_. True) [frames ?rs @ [1]] (leading_server w) =
        Some (es, (last ss)\<lparr>tcpClients := tcpClients (last ss) - 1\<rparr>)"
      and len: "length es = length ?rs" "length ss = Suc (length ?rs)" "hd ss = leading_server w"
      and each: "\<forall>i < length ?rs. client_serves example_others ?propose i (snd (?rs ! i)) (ss ! i) (es ! i) (ss ! Suc i)"
    using client_answers_in_order [of ?rs "[frames ?rs @ [1]]" "[1]" "leading_server w" example_others ?propose] by blast
  obtain s1 s2 where ss: "ss = [leading_server w, s1, s2]" using len(2,3) by (auto simp: length_Suc_conv)
  obtain e1 e2 where es: "es = [e1, e2]" using len(1) by (auto simp: length_Suc_conv)
  have "client_serves example_others ?propose 0 [7] (leading_server w) e1 s1" and "client_serves example_others ?propose 1 [] s1 e2 s2"
    using each [rule_format, of 0] each [rule_format, of 1] by (simp_all add: ss es)
  then have "e1 = Proposed [7] (encoded 1 (bytes_of ''OK''))" "e2 = Redirected (encoded 0 (bytes_of ''ERR_NOT_LEADER:2''))"
    "role (raftNode s2) = Follower" "samples (latencyTracker s2) = [2]"
    by (auto simp: client_serves_def example_others_def leading_server_def example_server_def example_node_eq Record_def NewLatencyTracker_def)
  then show "\<exists>s'. handleClientConn example_others ?propose (\<lambda>_. True) [frames ?rs @ [1]] (leading_server w) =
      Some ([Proposed [7] (encoded 1 (bytes_of ''OK'')), Redirected (encoded 0 (bytes_of ''ERR_NOT_LEADER:2''))], s') \<and>
      role (raftNode s') = Follower \<and> samples (latencyTracker s') = [2]"
    using run by (simp add: es ss)
qed

section \<open>The HTTP interface as text\<close>

text \<open>The body of a produce request: the payload is the string of the field, as bytes. \<open>err\<close> is the
  text of a decoding error.\<close>

definition produce_of_json :: "json \<Rightarrow> string option" where
  "produce_of_json v = decode_struct [(''payload'', string_field (\<lambda>s _. s))] v ''''"

definition produce_body :: "(byte list \<Rightarrow> string) \<Rightarrow> byte list \<Rightarrow> string + byte list" where
  "produce_body err bs =
    (case Decode produce_of_json (text_of bs) of None \<Rightarrow> Inl (err bs) | Some (payload, _) \<Rightarrow> Inr (bytes_of payload))"

text \<open>The answer of a consume request, a map with its keys in order.\<close>

definition consume_body :: "u64 \<Rightarrow> byte list \<Rightarrow> byte list" where
  "consume_body offset data =
    bytes_of (Encode (JObj [(''offset'', uint_json offset), (''payload'', JStr (text_of data))]))"

text \<open>A client that reads the payload of such an answer.\<close>

definition consumed_payload :: "byte list \<Rightarrow> byte list option" where
  "consumed_payload bs = map_option (bytes_of \<circ> fst) (Decode produce_of_json (text_of bs))"

text \<open>
  The routes of \<open>runHTTPServer\<close> behind the CORS middleware, for a clean path: what the handler does
  at once. Producing goes on with \<open>Propose\<close>, killing with \<open>Node_Stop\<close>.
\<close>

datatype http_action =
    Respond http_response NodeServer
  | ProposePayload "byte list"
  | StopNode http_response
  | UpgradeSocket

definition serve_http ::
  "(byte list \<Rightarrow> string) \<Rightarrow> int \<Rightarrow> string \<Rightarrow> http_request \<Rightarrow> NodeServer \<Rightarrow> OS \<Rightarrow> http_action option"
where
  "serve_http err now path r s os =
    (case corsMiddleware r of
       Some resp \<Rightarrow> Some (Respond resp s)
     | None \<Rightarrow>
         (if path = ''/api/status'' then Some (Respond (handleHTTPStatus now s) s)
          else if path = ''/api/produce'' then
            Some (case handleHTTPProduce (produce_body err) r of Inl resp \<Rightarrow> Respond resp s | Inr p \<Rightarrow> ProposePayload p)
          else if path = ''/api/consume'' then map_option (\<lambda>resp. Respond resp s) (handleHTTPConsume r s os)
          else if path = ''/api/snapshot/trigger'' then
            map_option (\<lambda>(resp, s). Respond resp s) (handleHTTPSnapshotTrigger now r s)
          else if path = ''/api/workload/start'' then Some (Respond (handleHTTPWorkloadStart r s) s)
          else if path = ''/api/chaos/kill'' then Some (StopNode (Response 200 Terminating))
          else if path = ''/api/chaos/partition'' then
            Some (case handleHTTPChaosPartition r s of (resp, s) \<Rightarrow> Respond resp s)
          else if path = ''/api/chaos/latency'' then
            Some (case handleHTTPChaosLatency r s of (resp, s) \<Rightarrow> Respond resp s)
          else if path = ''/ws'' then Some UpgradeSocket
          else Some (Respond (Response 404 (HttpError ''404 page not found'')) s)))"

subsection \<open>What a consumer reads\<close>

text \<open>What a string literal is read as is always valid UTF-8.\<close>

lemma utf8_rune: "decode_rune s = Some (x, n) \<Longrightarrow> utf8 (take n s @ t) \<longleftrightarrow> utf8 t"
  using decode_rune_take [of s x n t] decode_rune_length [of s x n] by (subst utf8.simps) auto

lemma utf8_append: "utf8 s \<Longrightarrow> utf8 (s @ t) \<longleftrightarrow> utf8 t"
proof (induction s rule: utf8.induct)
  case (1 s)
  show ?case
  proof (cases "s = []")
    case False
    then obtain x n where d: "decode_rune s = Some (x, n)" "utf8 (drop n s)"
      using 1(2) by (subst (asm) utf8.simps) (auto split: option.splits)
    have "utf8 (take n s @ (drop n s @ t)) \<longleftrightarrow> utf8 (drop n s @ t)" by (rule utf8_rune [OF d(1)])
    moreover have "take n s @ (drop n s @ t) = s @ t" by (simp flip: append_assoc)
    ultimately show ?thesis using 1(1) [OF d(1) refl d(2)] by simp
  qed simp
qed

definition scalar :: "nat \<Rightarrow> bool" where
  "scalar x \<longleftrightarrow> x < 1114112 \<and> \<not> surrogate x"

lemma utf8_encode_rune:
  assumes "scalar x"
  shows "utf8 (encode_rune x)"
proof -
  have "decode_rune (encode_rune x) = Some (x, length (encode_rune x))"
  proof -
    consider "x < 128" | "128 \<le> x" "x < 2048" | "2048 \<le> x" "x < 65536" | "65536 \<le> x" by linarith
    then show ?thesis
    proof cases
      case 1
      then show ?thesis by (simp add: encode_rune_def decode_rune.simps)
    next
      case 2
      then have "x div 64 < 32" "2 \<le> x div 64" by simp_all
      then show ?thesis using 2 by (simp add: encode_rune_def decode_rune.simps decode_2_def cont_def)
    next
      case 3
      have k: "x div 4096 < 16" "x = (x div 4096 * 64 + x div 64 mod 64) * 64 + x mod 64"
        using 3 by (simp_all add: div_4096)
      have "x div 4096 = 0 \<longrightarrow> 32 \<le> x div 64 mod 64" "x div 4096 = 13 \<longrightarrow> x div 64 mod 64 \<le> 31"
        using 3 assms k(2) by (auto simp: scalar_def surrogate_def)
      moreover have "x mod 64 \<le> 63" "x div 64 mod 64 \<le> 63" "x div 4096 = 0 \<longrightarrow> x div 64 \<le> 63"
        by (simp_all, linarith)
      ultimately show ?thesis using 3 k by (simp add: encode_rune_def decode_rune.simps decode_3_def cont_def)
    next
      case 4
      have k: "x div 262144 < 5" using assms by (auto simp: scalar_def)
      have "x = ((x div 262144 * 64 + x div 4096 mod 64) * 64 + x div 64 mod 64) * 64 + x mod 64"
        by (simp add: div_4096 div_262144)
      note k = k this
      have "x div 262144 = 0 \<longrightarrow> 16 \<le> x div 4096 mod 64" "x div 262144 = 4 \<longrightarrow> x div 4096 mod 64 \<le> 15"
        using 4 assms k(2) by (auto simp: scalar_def)
      moreover have "x mod 64 \<le> 63" "x div 64 mod 64 \<le> 63" "x div 4096 mod 64 \<le> 63" "x div 262144 = 0 \<longrightarrow> x div 4096 \<le> 63"
        by (simp_all, linarith)
      ultimately show ?thesis using 4 k by (simp add: encode_rune_def decode_rune.simps decode_4_def cont_def)
    qed
  qed
  then have "decode_rune (encode_rune x) = Some (x, length (encode_rune x))" .
  from utf8_rune [OF this, of "[]"] show ?thesis by simp
qed

lemma hex_val_less: "hex_val e = Some v \<Longrightarrow> v < 16"
  by (auto simp: hex_val_def split: if_splits)

lemma hex4_less: "hex4 s = Some (x, r) \<Longrightarrow> x < 65536"
proof (cases s rule: hex4.cases)
  case (1 a b c d s')
  assume "hex4 s = Some (x, r)"
  then obtain w y z u where v: "hex_val a = Some w" "hex_val b = Some y" "hex_val c = Some z" "hex_val d = Some u"
      and x: "x = ((w * 16 + y) * 16 + z) * 16 + u"
    using 1 by (auto split: option.splits)
  show ?thesis using v [THEN hex_val_less] x by simp
qed simp_all

lemma unescape_utf8: "unescape s = Some (out, rest) \<Longrightarrow> utf8 out"
proof (cases s)
  case (Cons c t)
  assume u: "unescape s = Some (out, rest)"
  have replacement: "utf8 (encode_rune 65533)" by (rule utf8_encode_rune) (simp add: scalar_def surrogate_def)
  have "utf8 out" if v: "unescape_u t = Some (out, rest)"
  proof -
    obtain x q where q: "hex4 t = Some (x, q)" using v by (cases "hex4 t") (auto simp: unescape_u_def)
    have pair: "utf8 (encode_rune ((x - 55296) * 1024 + (y - 56320) + 65536))"
      if "surrogate x" "x < 56320" "56320 \<le> y" "y < 57344" for y
      using that by (intro utf8_encode_rune) (auto simp: scalar_def surrogate_def)
    have "utf8 (encode_rune x)" if "\<not> surrogate x"
      using that hex4_less [OF q] by (intro utf8_encode_rune) (simp add: scalar_def)
    then show ?thesis
      using v q replacement pair by (auto simp: unescape_u_def split: if_splits list.splits option.splits)
  qed
  then show ?thesis
  proof (cases "c = CHR ''u''")
    case False
    then obtain f where f: "\<And>t. unescape (c # t) = map_option (\<lambda>x. ([x], t)) f" by (rule unescape_simple) blast
    have "code y < 128" if "unescape (c # t) = Some ([y], t)" for y
      using that False by (auto simp: quote_char_def backslash_def split: if_splits)
    then show ?thesis using u f [of t] Cons by (auto simp del: unescape.simps)
  qed (use u Cons in \<open>simp only: unescape_u_Cons\<close>)
qed simp

lemma parse_string_utf8: "parse_string s = Some (t, r) \<Longrightarrow> utf8 t"
proof (induction s arbitrary: t r rule: parse_string.induct)
  case (1 s)
  show ?case
  proof (cases s)
    case (Cons c cs)
    have replacement: "utf8 (encode_rune 65533)" by (rule utf8_encode_rune) (simp add: scalar_def surrogate_def)
    consider "c = quote_char" "t = []"
      | out rest w where "c \<noteq> quote_char" "c = backslash" "unescape cs = Some (out, rest)" "parse_string rest = Some (w, r)" "t = out @ w"
      | w where "c \<noteq> quote_char" "c \<noteq> backslash" "\<not> code c < 32" "decode_rune s = None" "parse_string cs = Some (w, r)"
          "t = encode_rune 65533 @ w"
      | x n w where "c \<noteq> quote_char" "c \<noteq> backslash" "\<not> code c < 32" "decode_rune s = Some (x, n)"
          "parse_string (drop n s) = Some (w, r)" "t = take n s @ w"
      using 1(4) by (subst (asm) parse_string.simps) (auto simp: Cons split: if_splits option.splits)
    then show ?thesis
    proof cases
      case 2
      then show ?thesis using 1(1) [OF Cons 2(1,2,3) refl 2(4)] unescape_utf8 [OF 2(3)] by (simp add: utf8_append)
    next
      case 3
      then show ?thesis using 1(2) [OF Cons 3(1,2,3,4,5)] replacement by (simp add: utf8_append)
    next
      case 4
      then show ?thesis using 1(3) [OF Cons 4(1,2,3,4) refl 4(5)] utf8_rune [OF 4(4)] by simp
    qed simp
  qed (use 1(4) in \<open>simp add: parse_string.simps\<close>)
qed

lemma utf8_sanitize: "utf8 (sanitize s)"
proof (induction s rule: sanitize.induct)
  case (1 s)
  have replacement: "utf8 (encode_rune 65533)" by (rule utf8_encode_rune) (simp add: scalar_def surrogate_def)
  show ?case
  proof (cases s)
    case (Cons c cs)
    show ?thesis
    proof (cases "decode_rune s")
      case None
      then show ?thesis using 1(1) [OF Cons None] replacement by (simp add: sanitize.simps [of "c # cs"] Cons utf8_append)
    next
      case (Some p)
      obtain x n where p: "p = (x, n)" by fastforce
      note d = Some [unfolded p]
      have "utf8 (sanitize (drop n s))" by (rule 1(2) [OF Cons d refl])
      then show ?thesis using d utf8_rune [OF d, of "sanitize (drop n s)"] by (subst sanitize.simps) (simp add: Cons)
    qed
  qed (simp add: sanitize.simps)
qed

lemma sanitize_iff: "sanitize s = s \<longleftrightarrow> utf8 s"
  using utf8_sanitize [of s] sanitize_utf8 [of s] by auto

lemma parse_value_quoted: "parse_value (Suc m) d (quoted s @ r) = Some (JStr (sanitize s), r)"
  using parse_escape_sanitize [of s r] by (simp add: parse_value.simps quoted_def)

lemma parse_consume:
  "parse_json (json_text (JObj [(''offset'', uint_json n), (''payload'', JStr s)]) @ r) =
    Some (JObj [(''offset'', uint_json n), (''payload'', JStr (sanitize s))], r)"
proof -
  let ?t = "json_text (JObj [(''offset'', uint_json n), (''payload'', JStr s)])"
  have len: "8 \<le> length ?t" by (simp add: quoted_def uint_json_def)
  obtain m where m: "2 * length (?t @ r) + 1 = Suc (Suc (Suc (Suc m)))"
    using len by (intro that [of "2 * length (?t @ r) - 3"]) simp
  have shape: "?t @ r = CHR ''{'' # quoted ''offset'' @ CHR '':'' # decimal (unat n) @ CHR '','' # quoted ''payload'' @ CHR '':'' #
      quoted s @ CHR ''}'' # r"
    by (simp add: uint_json_def)
  have "number_end (CHR '','' # t)" for t by (simp add: number_end_def is_digit_def)
  then have num: "parse_value (Suc (Suc m)) 9999 (decimal (unat n) @ CHR '','' # t) = Some (JNum (decimal (unat n)), CHR '','' # t)" for t
    by (rule parse_value_num)
  have pay: "parse_members (Suc (Suc m)) 9999 (quoted ''payload'' @ CHR '':'' # quoted s @ CHR ''}'' # r) =
      Some ([(''payload'', JStr (sanitize s))], r)"
    by (subst parse_members_more [OF _ parse_value_quoted]) (simp_all add: more_members_def)
  have "parse_members (Suc (Suc (Suc m))) 9999 (quoted ''offset'' @ CHR '':'' # decimal (unat n) @ CHR '','' # quoted ''payload'' @ CHR '':'' #
      quoted s @ CHR ''}'' # r) = Some ([(''offset'', JNum (decimal (unat n))), (''payload'', JStr (sanitize s))], r)"
    by (subst parse_members_more [OF _ num]) (simp_all add: more_members_def pay)
  moreover have "eat (CHR ''}'') (quoted ''offset'' @ t) = None" for t
    by (simp add: quoted_def) (simp add: quote_char_def)
  ultimately show ?thesis
    unfolding parse_json_def m unfolding shape
    by (subst parse_value.simps) (simp add: quote_char_def maxNestingDepth_def uint_json_def)
qed

lemma bytes_of_text_of [simp]: "bytes_of (text_of bs) = bs"
  by (induction bs) (simp_all add: bytes_of_def text_of_def unat_byte)

lemma bytes_of_inj: "bytes_of s = bytes_of t \<longleftrightarrow> s = t"
  by (metis text_of_bytes_of)

lemma consumed_payload_body: "consumed_payload (consume_body offset data) = Some (bytes_of (sanitize (text_of data)))"
proof -
  have "Decode produce_of_json (json_text (JObj [(''offset'', uint_json offset), (''payload'', JStr (text_of data))]) @ [CHR 0x0A]) =
      Some (sanitize (text_of data), [CHR 0x0A])"
    unfolding Decode_def parse_consume
    by (simp add: produce_of_json_def decode_struct_def find_field_def string_field_def)
  then show ?thesis unfolding consumed_payload_def consume_body_def Encode_def text_of_bytes_of by simp
qed

lemma produce_body_sends:
  "utf8 s \<Longrightarrow> produce_body err (bytes_of (json_text (JObj [(''payload'', JStr s)]))) = Inr (bytes_of s)"
  using parse_json_text [of "JObj [(''payload'', JStr s)]" "[]"]
  by (simp add: produce_body_def Decode_def number_end_def maxNestingDepth_def produce_of_json_def decode_struct_def
      find_field_def string_field_def del: json_text.simps)

text \<open>The strings of a JSON value that was read are valid UTF-8, and so is a payload taken from it.\<close>

lemma parse_value_utf8: "parse_value n d s = Some (JStr t, r) \<Longrightarrow> utf8 t"
  by (cases n) (auto simp: parse_value.simps dest: parse_string_utf8 split: list.splits if_splits option.splits)

lemma parse_members_utf8: "parse_members n d s = Some (ms, r) \<Longrightarrow> (k, JStr t) \<in> set ms \<Longrightarrow> utf8 t"
proof (induction n arbitrary: s ms)
  case (Suc n)
  obtain q1 v q2 ms' where "Option.bind (eat (CHR '':'') q1) (parse_value n d) = Some (v, q2)"
    and "\<exists>k. ms = (k, v) # ms'" and "ms' = [] \<or> (\<exists>q3. parse_members n d q3 = Some (ms', r))"
    using Suc.prems(1) by (auto simp: parse_members.simps split: option.splits) blast+
  then show ?case
    using Suc.IH Suc.prems(2) by (auto simp: bind_eq_Some_conv dest: parse_value_utf8)
qed (simp add: parse_members.simps)

lemma parse_object_utf8: "parse_value n d s = Some (JObj ms, r) \<Longrightarrow> (k, JStr t) \<in> set ms \<Longrightarrow> utf8 t"
  by (cases n) (auto simp: parse_value.simps dest: parse_members_utf8 split: list.splits if_splits option.splits)

lemma set_string_utf8:
  assumes "\<And>k t. (k, JStr t) \<in> set ms \<Longrightarrow> utf8 t" and "utf8 p"
    and "set_fields [(name, string_field (\<lambda>s _. s))] ms p = Some q"
  shows "utf8 q"
  using assms
proof (induction ms arbitrary: p)
  case (Cons m ms)
  have "utf8 p'" if "string_field (\<lambda>s _. s) (snd m) p = Some p'" for p'
    using that Cons.prems(1) [of "fst m"] Cons.prems(2) by (auto simp: string_field_def split: json.splits) (metis prod.collapse)
  then show ?case
    using Cons by (cases m) (auto simp: find_field_def bind_eq_Some_conv split: option.splits if_splits)
qed simp

lemma produce_body_utf8: "produce_body err bs = Inr p \<Longrightarrow> utf8 (text_of p)"
proof -
  assume "produce_body err bs = Inr p"
  then obtain q v r where p: "p = bytes_of q" and v: "parse_json (text_of bs) = Some (v, r)" and q: "produce_of_json v = Some q"
    by (auto simp: produce_body_def Decode_def split: option.splits)
  have "utf8 q"
  proof (cases v)
    case (JObj ms)
    then show ?thesis
      using set_string_utf8 [of ms "[]" "''payload''" q] parse_object_utf8 v q
      by (auto simp: parse_json_def produce_of_json_def decode_struct_def)
  qed (use q in \<open>simp_all add: produce_of_json_def decode_struct_def\<close>)
  then show ?thesis by (simp add: p text_of_bytes_of)
qed

text \<open>C39. What a consumer reads over HTTP: it gets the payload stored at the offset with every byte that
  is no part of valid UTF-8 replaced, since the handler puts \<open>string(data)\<close> into a JSON string, so the
  payload itself exactly when that is valid UTF-8. Whatever body a produce request has, a payload
  that is taken from it is valid UTF-8 and comes back as it was taken, and every such string can be
  posted; the binary protocol takes any bytes, which then come back changed.\<close>

theorem consume_returns_utf8_payloads:
  assumes "WAL_ReadAt offset (wal s) os = Some (Inr data)" and "ParseUint (req_query r ''offset'') = Some offset"
  shows "handleHTTPConsume r s os = Some (Response 200 (Consumed offset data)) \<and>
    consumed_payload (consume_body offset data) = Some (bytes_of (sanitize (text_of data))) \<and>
    (bytes_of (sanitize (text_of data)) = data \<longleftrightarrow> utf8 (text_of data)) \<and>
    (\<forall>bs p. produce_body err bs = Inr p \<longrightarrow> utf8 (text_of p) \<and> consumed_payload (consume_body offset p) = Some p) \<and>
    (\<forall>t. utf8 t \<longrightarrow> produce_body err (bytes_of (json_text (JObj [(''payload'', JStr t)]))) = Inr (bytes_of t))"
proof -
  have same: "bytes_of (sanitize (text_of data)) = data \<longleftrightarrow> utf8 (text_of data)" for data
    by (metis bytes_of_text_of text_of_bytes_of sanitize_iff)
  then show ?thesis using assms produce_body_sends produce_body_utf8 [of err]
    by (simp add: handleHTTPConsume_def consumed_payload_body)
qed

text \<open>A log with one record that is no UTF-8, as a client of the binary protocol can produce it.\<close>

lemma consume_returns_utf8_payloads_witness:
  "\<exists>w os. WAL_ReadAt 0 w os = Some (Inr [255]) \<and>
    handleHTTPConsume (consume_request ''0'') (example_server w) os = Some (Response 200 (Consumed 0 [255])) \<and>
    consumed_payload (consume_body 0 [255]) = Some [239, 191, 189]"
proof -
  have cfg: "cfg_ok small_cfg" and dir: "wal_dir empty_os (DataDir small_cfg) []"
    by (simp_all add: cfg_ok_def small_cfg_def size_ok_def max_frame_def wal_dir_def log_bases_def empty_os_def)
  obtain w os where w: "wal_rel w os [] []" "wal_cfg w = small_cfg"
    by (rule OpenWAL_fresh [OF no_faults_faultless cfg dir])
  then have ok: "wal_ok w os []" by (auto simp: wal_ok_def)
  obtain w1 os1 where "wal_ok w1 os1 [[255]]"
    using wal_step_ok [OF no_faults_faultless ok, of "OpAppend [255]"] w(2) by (auto simp: op_fits_def small_cfg_def)
  then have read: "WAL_ReadAt 0 w1 os1 = Some (Inr [255])" using wal_ok_ReadAt [of w1 os1 "[[255]]" 0] by simp
  have parsed: "ParseUint (req_query (consume_request ''0'') ''offset'') = Some 0"
    by (simp add: consume_request_def ParseUint_def digit_val_def)
  have "bytes_of (sanitize (text_of [255])) = [239, 191, 189]"
    by (simp add: text_of_def sanitize.simps decode_rune.simps encode_rune_def bytes_of_def chr_def)
  moreover have "WAL_ReadAt 0 (wal (example_server w1)) os1 = Some (Inr [255])" using read by (simp add: example_server_def)
  note consume_returns_utf8_payloads [OF this parsed]
  ultimately show ?thesis using read by (intro exI [of _ w1] exI [of _ os1]) simp
qed

section \<open>The load generator\<close>

text \<open>
  A worker of \<open>handleHTTPWorkloadStart\<close>: the frames it writes on its connection. \<open>ts i\<close> is the clock
  at message \<open>i\<close>, \<open>writes i\<close> and \<open>replied i\<close> say whether the write works and whether a frame comes back.
\<close>

definition workload_payload :: "nat \<Rightarrow> nat \<Rightarrow> int \<Rightarrow> byte list" where
  "workload_payload worker i ts = bytes_of (CHR ''{'' # quoted ''worker'' @ CHR '':'' # Sprintf_d (int worker) @
     CHR '','' # quoted ''seq'' @ CHR '':'' # Sprintf_d (int i) @
     CHR '','' # quoted ''ts'' @ CHR '':'' # Sprintf_d ts @ ''}'')"

fun workload_messages :: "nat \<Rightarrow> (nat \<Rightarrow> int) \<Rightarrow> (nat \<Rightarrow> bool) \<Rightarrow> (nat \<Rightarrow> bool) \<Rightarrow> nat list \<Rightarrow> byte list list" where
  "workload_messages worker ts writes replied [] = []"
| "workload_messages worker ts writes replied (i # is) =
    (case EncodeFrame 0 (workload_payload worker i (ts i)) of
       Inl err \<Rightarrow> []
     | Inr frame \<Rightarrow>
         (if \<not> writes i then []
          else if \<not> replied i then [frame]
          else frame # workload_messages worker ts writes replied is))"

definition workload_worker ::
  "bool \<Rightarrow> (nat \<Rightarrow> int) \<Rightarrow> (nat \<Rightarrow> bool) \<Rightarrow> (nat \<Rightarrow> bool) \<Rightarrow> nat \<Rightarrow> nat \<Rightarrow> byte list list" where
  "workload_worker dialed ts writes replied msgs worker =
    (if dialed then workload_messages worker ts writes replied [0..<msgs] else [])"

text \<open>All the workers of a request, each with its own connection.\<close>

definition workload_frames ::
  "(nat \<Rightarrow> bool) \<Rightarrow> (nat \<Rightarrow> nat \<Rightarrow> int) \<Rightarrow> (nat \<Rightarrow> nat \<Rightarrow> bool) \<Rightarrow> (nat \<Rightarrow> nat \<Rightarrow> bool) \<Rightarrow> http_request \<Rightarrow> byte list list list" where
  "workload_frames dialed ts writes replied r =
    (let conns = workload_param (req_query r ''conns'') 20 3;
         msgs = workload_param (req_query r ''messages'') 100 15
     in map (\<lambda>c. workload_worker (dialed c) (ts c) (writes c) (replied c) (nat msgs) c) [0..<nat conns])"

lemma workload_param_bounds: "0 < dflt \<Longrightarrow> dflt \<le> most \<Longrightarrow> 0 < workload_param s most dflt \<and> workload_param s most dflt \<le> most"
  by (auto simp: workload_param_def split: option.splits)

lemma Sprintf_d_int64: "- (2 ^ 63) \<le> n \<Longrightarrow> n < 2 ^ 63 \<Longrightarrow> length (Sprintf_d n) \<le> 20"
proof -
  assume "- (2 ^ 63) \<le> n" and "n < 2 ^ 63"
  then have "nat (- n) < 10 ^ 19" "nat n < 10 ^ 20" by simp_all
  then have "length (decimal (nat (- n))) \<le> 19" "length (decimal (nat n)) \<le> 20" by (simp_all only: length_decimal)
  then show ?thesis by (simp add: Sprintf_d_def)
qed

lemma workload_payload_fits:
  assumes "worker < 20" "i < 100" "- (2 ^ 63) \<le> ts" "ts < 2 ^ 63"
  shows "payload_fits (workload_payload worker i ts)"
proof -
  have "length (escape ''worker'') = 6" "length (escape ''seq'') = 3" "length (escape ''ts'') = 2" by code_simp+
  then show ?thesis
    using Sprintf_d_int64 [of "int worker"] Sprintf_d_int64 [of "int i"] Sprintf_d_int64 [OF assms(3,4)] assms(1,2)
    by (simp add: workload_payload_def MaxPayloadSize_def bytes_of_def quoted_def)
qed

lemma workload_messages_frames:
  assumes "worker < 20" "\<forall>i \<in> set is. i < 100" "\<forall>i. - (2 ^ 63) \<le> ts i \<and> ts i < 2 ^ 63"
  shows "\<exists>n \<le> length is. workload_messages worker ts writes replied is =
    map (\<lambda>i. rec_bytes (0, workload_payload worker i (ts i))) (take n is) \<and>
    ((\<forall>i. writes i \<and> replied i) \<longrightarrow> n = length is)"
  using assms(2)
proof (induction "is")
  case (Cons i js)
  have fits: "EncodeFrame 0 (workload_payload worker i (ts i)) = Inr (rec_bytes (0, workload_payload worker i (ts i)))"
    using workload_payload_fits [OF assms(1), of i "ts i"] assms(3) Cons.prems by (simp add: EncodeFrame_fits rec_bytes_def)
  obtain n where n: "n \<le> length js" "workload_messages worker ts writes replied js =
      map (\<lambda>i. rec_bytes (0, workload_payload worker i (ts i))) (take n js)"
      "(\<forall>i. writes i \<and> replied i) \<longrightarrow> n = length js"
    using Cons by auto
  consider "\<not> writes i" | "writes i" "\<not> replied i" | "writes i" "replied i" by blast
  then show ?case
  proof cases
    case 1
    then show ?thesis using fits by (intro exI [of _ 0]) auto
  next
    case 2
    then show ?thesis using fits by (intro exI [of _ 1]) auto
  next
    case 3
    then show ?thesis using fits n by (intro exI [of _ "Suc n"]) simp
  qed
qed simp

text \<open>
  What the handler reads from a peer that speaks plain TCP, as the workers do: its bytes, unless
  \<open>runClientTCPServer\<close> has put the listener behind TLS, where the first record that is no handshake
  ends every read with an error.
\<close>

definition plain_peer :: "NodeServer \<Rightarrow> reader \<Rightarrow> reader" where
  "plain_peer s r = (if serverTLS s then [] else r)"

text \<open>C40. What the load generator gets served: whatever the query says there are at most 20 connections
  with at most 100 messages each. A worker writes whole frames, the first messages of its numbering,
  and all that the query asks for when every write works and every reply comes. A server without TLS
  takes each of them in order, proposing it or redirecting by the role it has at that moment; a
  server with TLS, whose client port speaks TLS only, takes none.\<close>

theorem workload_is_served:
  assumes "\<forall>c i. - (2 ^ 63) \<le> ts c i \<and> ts c i < 2 ^ 63"
    and "window_ok s" and "\<forall>k s. window_ok s \<longrightarrow> window_ok (others k s)"
    and "\<forall>k p s. window_ok s \<longrightarrow> window_ok (snd (snd (propose k p s)))"
  shows "length (workload_frames dialed ts writes replied r) \<in> {1..20} \<and>
    (\<forall>c < length (workload_frames dialed ts writes replied r). \<exists>n \<le> 100. \<exists>es ss.
      workload_frames dialed ts writes replied r ! c = map (\<lambda>i. rec_bytes (0, workload_payload c i (ts c i))) [0..<n] \<and>
      (dialed c \<and> (\<forall>i. writes c i \<and> replied c i) \<longrightarrow> int n = workload_param (req_query r ''messages'') 100 15) \<and>
      handleClientConn others propose (\<lambda>_. True) (plain_peer s (workload_frames dialed ts writes replied r ! c)) s =
        Some (es, (last ss)\<lparr>tcpClients := tcpClients (last ss) - 1\<rparr>) \<and>
      hd ss = s \<and>
      (if serverTLS s then es = [] \<and> ss = [s]
       else client_trace others propose 0 (map (\<lambda>i. workload_payload c i (ts c i)) [0..<n]) ss es))"
proof -
  define conns where "conns = workload_param (req_query r ''conns'') 20 3"
  define msgs where "msgs = workload_param (req_query r ''messages'') 100 15"
  have bounds: "0 < conns" "conns \<le> 20" "msgs \<le> 100" "0 < msgs"
    unfolding conns_def msgs_def using workload_param_bounds by simp_all
  have frames: "workload_frames dialed ts writes replied r =
      map (\<lambda>c. workload_worker (dialed c) (ts c) (writes c) (replied c) (nat msgs) c) [0..<nat conns]"
    by (simp add: workload_frames_def conns_def msgs_def)
  have "\<exists>n \<le> 100. \<exists>es ss. fs = map (\<lambda>i. rec_bytes (0, workload_payload c i (ts c i))) [0..<n] \<and>
      (dialed c \<and> (\<forall>i. writes c i \<and> replied c i) \<longrightarrow> int n = msgs) \<and>
      handleClientConn others propose (\<lambda>_. True) (plain_peer s fs) s = Some (es, (last ss)\<lparr>tcpClients := tcpClients (last ss) - 1\<rparr>) \<and>
      hd ss = s \<and>
      (if serverTLS s then es = [] \<and> ss = [s]
       else client_trace others propose 0 (map (\<lambda>i. workload_payload c i (ts c i)) [0..<n]) ss es)"
    if c: "c < nat conns" and fs: "fs = workload_worker (dialed c) (ts c) (writes c) (replied c) (nat msgs) c" for c fs
  proof -
    have c20: "c < 20" using c bounds by linarith
    obtain n where n: "n \<le> 100" "fs = map (\<lambda>i. rec_bytes (0, workload_payload c i (ts c i))) [0..<n]"
      "dialed c \<and> (\<forall>i. writes c i \<and> replied c i) \<longrightarrow> int n = msgs"
    proof (cases "dialed c")
      case True
      have "\<forall>i \<in> set [0..<nat msgs]. i < 100" using bounds by auto
      then obtain m where "m \<le> length [0..<nat msgs]"
          "workload_messages c (ts c) (writes c) (replied c) [0..<nat msgs] =
             map (\<lambda>i. rec_bytes (0, workload_payload c i (ts c i))) (take m [0..<nat msgs])"
          "(\<forall>i. writes c i \<and> replied c i) \<longrightarrow> m = length [0..<nat msgs]"
        using workload_messages_frames [OF c20, of "[0..<nat msgs]" "ts c" "writes c" "replied c"] assms(1) by blast
      then show thesis using bounds True fs that [of m] by (simp add: take_upt workload_worker_def)
    qed (use fs that [of 0] in \<open>simp add: workload_worker_def\<close>)
    have served: "\<exists>es ss. handleClientConn others propose (\<lambda>_. True) q s = Some (es, (last ss)\<lparr>tcpClients := tcpClients (last ss) - 1\<rparr>) \<and>
        hd ss = s \<and> client_trace others propose 0 (map (\<lambda>i. workload_payload c i (ts c i)) [0..<k]) ss es"
      if k: "k \<le> 100" and q: "q = map (\<lambda>i. rec_bytes (0, workload_payload c i (ts c i))) [0..<k]" for q k
    proof -
      define rs where "rs = map (\<lambda>i. (0 :: u64, workload_payload c i (ts c i))) [0..<k]"
      have "all_fit rs"
        using workload_payload_fits [OF c20] assms(1) k by (auto simp: rs_def all_fit_def rec_fits_def)
      moreover have "concat q = frames rs @ []" by (simp add: q rs_def frames_def comp_def)
      ultimately show ?thesis
        using client_conn_answers [of rs q "[]" s others propose] assms(2-4) by (simp add: rs_def comp_def)
    qed
    show ?thesis
    proof (cases "serverTLS s")
      case True
      then show ?thesis using served [of 0 "[]"] n
        by (intro exI [of _ n] exI [of _ "[]"] exI [of _ "[s]"]) (auto simp: plain_peer_def client_trace_def length_Suc_conv)
    next
      case False
      then show ?thesis using served [OF n(1,2)] n by (auto simp: plain_peer_def)
    qed
  qed
  then show ?thesis using bounds by (auto simp: frames msgs_def)
qed

text \<open>A leader without TLS serves three workers of fifteen messages each.\<close>

lemma workload_is_served_witness:
  "\<forall>w. length (workload_frames (\<lambda>_. True) (\<lambda>_ _. 0) (\<lambda>_ _. True) (\<lambda>_ _. True) (consume_request ''0'')) = 3 \<and>
    (\<exists>es s'. handleClientConn (\<lambda>_ s. s) (\<lambda>_ _ s. (Inr 1, 2, s)) (\<lambda>_. True)
        (plain_peer (leading_server w) (workload_frames (\<lambda>_. True) (\<lambda>_ _. 0) (\<lambda>_ _. True) (\<lambda>_ _. True) (consume_request ''0'') ! 2))
        (leading_server w) = Some (es, s') \<and>
      length es = 15 \<and> es ! 0 = Proposed (workload_payload 2 0 0) (encoded 1 (bytes_of ''OK'')))"
proof
  fix w
  let ?fs = "workload_frames (\<lambda>_. True) (\<lambda>_ _. 0) (\<lambda>_ _. True) (\<lambda>_ _. True) (consume_request ''0'')"
  have "window_ok (leading_server w)" by (simp add: window_ok_def leading_server_def example_server_def NewLatencyTracker_def)
  then have served: "\<forall>c < length ?fs. \<exists>n \<le> 100. \<exists>es ss.
      ?fs ! c = map (\<lambda>i. rec_bytes (0, workload_payload c i 0)) [0..<n] \<and>
      (True \<and> (\<forall>i :: nat. True \<and> True) \<longrightarrow> int n = workload_param (req_query (consume_request ''0'') ''messages'') 100 15) \<and>
      handleClientConn (\<lambda>_ s. s) (\<lambda>_ _ s. (Inr 1, 2, s)) (\<lambda>_. True) (plain_peer (leading_server w) (?fs ! c)) (leading_server w) =
        Some (es, (last ss)\<lparr>tcpClients := tcpClients (last ss) - 1\<rparr>) \<and>
      hd ss = leading_server w \<and>
      (if serverTLS (leading_server w) then es = [] \<and> ss = [leading_server w]
       else client_trace (\<lambda>_ s. s) (\<lambda>_ _ s. (Inr 1, 2, s)) 0 (map (\<lambda>i. workload_payload c i 0) [0..<n]) ss es)"
    using workload_is_served [of "\<lambda>_ _. 0" "leading_server w" "\<lambda>_ s. s" "\<lambda>_ _ s. (Inr 1, 2, s)"
      "\<lambda>_. True" "\<lambda>_ _. True" "\<lambda>_ _. True" "consume_request ''0''"] by simp
  have "Atoi [] = None" by (simp add: Atoi_def)
  then have three: "length ?fs = 3" and fifteen: "workload_param (req_query (consume_request ''0'') ''messages'') 100 15 = 15"
    by (simp_all add: workload_frames_def workload_param_def consume_request_def)
  have no_tls: "\<not> serverTLS (leading_server w)" by (simp add: leading_server_def example_server_def)
  obtain n es ss where n: "int n = 15" "hd ss = leading_server w"
    and run: "handleClientConn (\<lambda>_ s. s) (\<lambda>_ _ s. (Inr 1, 2, s)) (\<lambda>_. True) (plain_peer (leading_server w) (?fs ! 2)) (leading_server w) =
        Some (es, (last ss)\<lparr>tcpClients := tcpClients (last ss) - 1\<rparr>)"
    and trace: "client_trace (\<lambda>_ s. s) (\<lambda>_ _ s. (Inr 1, 2, s)) 0 (map (\<lambda>i. workload_payload 2 i 0) [0..<n]) ss es"
    using served [rule_format, of 2] no_tls three fifteen by auto
  have "n = 15" using n(1) by simp
  moreover have "ss ! 0 = leading_server w" using n(2) trace by (cases ss) (simp_all add: client_trace_def)
  ultimately have "length es = 15" "client_serves (\<lambda>_ s. s) (\<lambda>_ _ s. (Inr 1, 2, s)) 0 (workload_payload 2 0 0) (leading_server w) (es ! 0) (ss ! 1)"
    using trace by (auto simp: client_trace_def dest: spec [of _ 0])
  moreover from this(2) have "es ! 0 = Proposed (workload_payload 2 0 0) (encoded 1 (bytes_of ''OK''))"
    by (simp add: client_serves_def leading_server_def example_server_def example_node_eq)
  ultimately show "length ?fs = 3 \<and> (\<exists>es s'. handleClientConn (\<lambda>_ s. s) (\<lambda>_ _ s. (Inr 1, 2, s)) (\<lambda>_. True)
        (plain_peer (leading_server w) (?fs ! 2)) (leading_server w) = Some (es, s') \<and>
      length es = 15 \<and> es ! 0 = Proposed (workload_payload 2 0 0) (encoded 1 (bytes_of ''OK'')))"
    using run three by blast
qed

end
