(* ===== verification/WebSockets.thy ===== *)
theory WebSockets
  imports Prelude
begin

text \<open>
  The web sockets of \<open>cmd/node/main.go\<close>: the handler of each socket (\<open>handleWS\<close>) and the broadcast
  of telemetry (\<open>runTelemetryBroadcastLoop\<close>), as steps of goroutines that share the set of sockets
  under \<open>wsClientsMu\<close>. A write is two steps, its start and its end, since it takes time and the
  socket library does not serialise writers: it panics when two goroutines write to a socket at once.
\<close>

section \<open>Goroutines\<close>

text \<open>Where the handler of a socket is: before the upgrade, before and after the registration, in the
  write of the first message, in the read loop, after a failed read, and back from \<open>handleWS\<close>.\<close>

datatype handler = Connecting | Upgraded | Registered | Greeting | ReadLoop | Leaving | Returned

text \<open>The broadcast goroutine waits for its ticker, or holds the mutex with the sockets it has still to
  visit and the one it is writing to. A handler holds the mutex for a single step.\<close>

datatype 'ws broadcast = Waiting | Holding "'ws set" "'ws option"

record 'ws hub =
  wsClients :: "'ws set"
  handlers :: "'ws \<Rightarrow> handler"
  broadcaster :: "'ws broadcast"

definition no_sockets :: "'ws hub" where
  "no_sockets = \<lparr>wsClients = {}, handlers = (\<lambda>_. Connecting), broadcaster = Waiting\<rparr>"

abbreviation move :: "'ws \<Rightarrow> handler \<Rightarrow> 'ws hub \<Rightarrow> 'ws hub" where
  "move w p h \<equiv> h\<lparr>handlers := (handlers h)(w := p)\<rparr>"

inductive handleWS_step :: "'ws hub \<Rightarrow> 'ws hub \<Rightarrow> bool" where
  upgrade: "handlers h w = Connecting \<Longrightarrow> handleWS_step h (move w Upgraded h)"
| upgrade_fails: "handlers h w = Connecting \<Longrightarrow> handleWS_step h (move w Returned h)"
| register: "handlers h w = Upgraded \<Longrightarrow> broadcaster h = Waiting \<Longrightarrow>
    handleWS_step h (move w Registered (h\<lparr>wsClients := insert w (wsClients h)\<rparr>))"
| greet: "handlers h w = Registered \<Longrightarrow> handleWS_step h (move w Greeting h)"
| greeted: "handlers h w = Greeting \<Longrightarrow> handleWS_step h (move w ReadLoop h)"
| read_fails: "handlers h w = ReadLoop \<Longrightarrow> handleWS_step h (move w Leaving h)"
| unregister: "handlers h w = Leaving \<Longrightarrow> broadcaster h = Waiting \<Longrightarrow>
    handleWS_step h (move w Returned (h\<lparr>wsClients := wsClients h - {w}\<rparr>))"

inductive runTelemetryBroadcastLoop_step :: "'ws hub \<Rightarrow> 'ws hub \<Rightarrow> bool" where
  tick: "broadcaster h = Waiting \<Longrightarrow> wsClients h \<noteq> {} \<Longrightarrow>
    runTelemetryBroadcastLoop_step h (h\<lparr>broadcaster := Holding (wsClients h) None\<rparr>)"
| write_starts: "broadcaster h = Holding todo None \<Longrightarrow> w \<in> todo \<Longrightarrow>
    runTelemetryBroadcastLoop_step h (h\<lparr>broadcaster := Holding (todo - {w}) (Some w)\<rparr>)"
| write_ends: "broadcaster h = Holding todo (Some w) \<Longrightarrow>
    runTelemetryBroadcastLoop_step h (h\<lparr>broadcaster := Holding todo None\<rparr>)"
| write_fails: "broadcaster h = Holding todo (Some w) \<Longrightarrow>
    runTelemetryBroadcastLoop_step h (h\<lparr>wsClients := wsClients h - {w}, broadcaster := Holding todo None\<rparr>)"
| unlock: "broadcaster h = Holding {} None \<Longrightarrow> runTelemetryBroadcastLoop_step h (h\<lparr>broadcaster := Waiting\<rparr>)"

inductive ws_step :: "'ws hub \<Rightarrow> 'ws hub \<Rightarrow> bool" where
  handler: "handleWS_step h h' \<Longrightarrow> ws_step h h'"
| broadcast: "runTelemetryBroadcastLoop_step h h' \<Longrightarrow> ws_step h h'"

inductive_cases handleWS_stepE: "handleWS_step h h'"
inductive_cases runTelemetryBroadcastLoop_stepE: "runTelemetryBroadcastLoop_step h h'"

abbreviation ws_reach :: "'ws hub \<Rightarrow> bool" where
  "ws_reach \<equiv> ws_step\<^sup>*\<^sup>* no_sockets"

section \<open>Who writes to a socket\<close>

definition broadcast_writes :: "'ws hub \<Rightarrow> 'ws \<Rightarrow> bool" where
  "broadcast_writes h w \<longleftrightarrow> (\<exists>todo. broadcaster h = Holding todo (Some w))"

definition handler_writes :: "'ws hub \<Rightarrow> 'ws \<Rightarrow> bool" where
  "handler_writes h w \<longleftrightarrow> handlers h w = Greeting"

text \<open>A socket between its registration and the return of its handler.\<close>

definition serving :: "'ws hub \<Rightarrow> 'ws \<Rightarrow> bool" where
  "serving h w \<longleftrightarrow> handlers h w \<in> {Registered, Greeting, ReadLoop, Leaving}"

definition hub_inv :: "'ws hub \<Rightarrow> bool" where
  "hub_inv h \<longleftrightarrow> (\<forall>w \<in> wsClients h. serving h w) \<and>
    (\<forall>todo cur. broadcaster h = Holding todo cur \<longrightarrow> todo \<subseteq> wsClients h \<and> set_option cur \<subseteq> wsClients h - todo)"

lemma handleWS_step_inv: "handleWS_step h h' \<Longrightarrow> hub_inv h \<Longrightarrow> hub_inv h'"
  by (erule handleWS_stepE) (auto simp: hub_inv_def serving_def)

lemma runTelemetryBroadcastLoop_step_inv: "runTelemetryBroadcastLoop_step h h' \<Longrightarrow> hub_inv h \<Longrightarrow> hub_inv h'"
  by (erule runTelemetryBroadcastLoop_stepE) (auto simp: hub_inv_def serving_def)

lemma ws_reach_inv: "ws_reach h \<Longrightarrow> hub_inv h"
proof (induction rule: rtranclp_induct)
  case base
  show ?case by (simp add: hub_inv_def no_sockets_def)
next
  case (step h h')
  then show ?case by (auto elim!: ws_step.cases dest: handleWS_step_inv runTelemetryBroadcastLoop_step_inv)
qed

text \<open>The broadcast reaches a registered socket while its handler is about to write the first message.\<close>

lemma greeting_overlap:
  assumes "broadcaster h = Waiting" and "w \<in> wsClients h" and "handlers h w = Registered"
  shows "\<exists>h'. ws_step\<^sup>*\<^sup>* h h' \<and> broadcast_writes h' w \<and> handler_writes h' w"
proof -
  let ?h1 = "h\<lparr>broadcaster := Holding (wsClients h) None\<rparr>"
  let ?h2 = "?h1\<lparr>broadcaster := Holding (wsClients h - {w}) (Some w)\<rparr>"
  have "ws_step h ?h1" using assms by (intro ws_step.broadcast tick) auto
  moreover have "ws_step ?h1 ?h2" using assms by (intro ws_step.broadcast write_starts) auto
  moreover have "ws_step ?h2 (move w Greeting ?h2)" using assms by (intro ws_step.handler greet) simp
  ultimately have "ws_step\<^sup>*\<^sup>* h (move w Greeting ?h2)"
    by (meson converse_rtranclp_into_rtranclp r_into_rtranclp)
  then show ?thesis by (intro exI [of _ "move w Greeting ?h2"]) (simp add: broadcast_writes_def handler_writes_def)
qed

text \<open>C38. The two writers of a socket: the broadcast writes only to sockets whose handler has registered them
  and has not returned, so never to one its handler has closed; and it excludes the handler from
  nothing but the set. Whenever a new socket is registered, the broadcast can be writing to it
  while the handler writes the first message, which the handler does without the mutex.\<close>

theorem broadcast_meets_greeting:
  assumes "ws_reach h"
  shows "(\<forall>w. broadcast_writes h w \<longrightarrow> w \<in> wsClients h \<and> serving h w) \<and>
    (\<forall>w v. broadcast_writes h w \<and> broadcast_writes h v \<longrightarrow> v = w) \<and>
    (\<forall>w. broadcaster h = Waiting \<and> w \<in> wsClients h \<and> handlers h w = Registered \<longrightarrow>
      (\<exists>h'. ws_reach h' \<and> broadcast_writes h' w \<and> handler_writes h' w))"
proof (intro conjI allI impI)
  fix w
  assume w: "broadcast_writes h w"
  show "w \<in> wsClients h" using ws_reach_inv [OF assms] w by (auto simp: hub_inv_def broadcast_writes_def)
  then show "serving h w" using ws_reach_inv [OF assms] by (simp add: hub_inv_def)
next
  fix w v
  assume "broadcast_writes h w \<and> broadcast_writes h v"
  then show "v = w" by (auto simp: broadcast_writes_def)
next
  fix w
  assume "broadcaster h = Waiting \<and> w \<in> wsClients h \<and> handlers h w = Registered"
  then show "\<exists>h'. ws_reach h' \<and> broadcast_writes h' w \<and> handler_writes h' w"
    using greeting_overlap [of h w] rtranclp_trans [OF assms] by blast
qed

text \<open>It happens to the first socket of a node.\<close>

lemma broadcast_meets_greeting_witness: "\<exists>h. ws_reach h \<and> broadcast_writes h (1 :: nat) \<and> handler_writes h 1"
proof -
  let ?h1 = "move 1 Upgraded no_sockets :: nat hub"
  let ?h2 = "move 1 Registered (?h1\<lparr>wsClients := insert 1 (wsClients ?h1)\<rparr>)"
  have "ws_step no_sockets ?h1" by (intro ws_step.handler upgrade) (simp add: no_sockets_def)
  moreover have "ws_step ?h1 ?h2" by (intro ws_step.handler register) (simp_all add: no_sockets_def)
  ultimately have "ws_reach ?h2" by (meson converse_rtranclp_into_rtranclp r_into_rtranclp)
  from broadcast_meets_greeting [OF this] show ?thesis by (simp add: no_sockets_def)
qed

end
