(* ===== verification/Tls.thy ===== *)
theory Tls
  imports NodeServer JsonPrefix
begin

text \<open>
  The certificates of \<open>network/tls_cert.go\<close> and the TLS set up of a node. Cryptography is symbolic:
  a key pair is the number that was drawn for it, a signature is the key that made it, and the DER
  and PEM bytes of a certificate stand for the certificate. The random source and the clock are
  arguments, read at positions that each operation advances. Of \<open>crypto/x509\<close> and \<open>crypto/tls\<close> the
  model has what this code uses: the errors of \<open>CreateCertificate\<close>, the verification of a
  certificate by a pool without intermediates, host names, and a handshake with both sides checked.
\<close>

section \<open>Internet addresses\<close>

text \<open>\<open>net.ParseIP\<close>: the sixteen bytes of an address. A dotted quad has no leading zeros.\<close>

definition octet :: "string \<Rightarrow> byte option" where
  "octet s = (if s = [] \<or> 1 < length s \<and> hd s = CHR ''0'' then None
     else case parse_digits 0 s of Some v \<Rightarrow> (if v \<le> 255 then Some (word_of_nat v) else None) | None \<Rightarrow> None)"

definition parseIPv4 :: "string \<Rightarrow> byte list option" where
  "parseIPv4 s = (let fs = map octet (split_at (CHR ''.'') s)
     in if length fs = 4 \<and> None \<notin> set fs then Some (map the fs) else None)"

text \<open>\<open>n\<close> groups may follow, \<open>ip\<close> holds the bytes so far and \<open>ellipsis\<close> the place of a double colon.\<close>

fun parseIPv6_loop :: "nat \<Rightarrow> byte list \<Rightarrow> nat option \<Rightarrow> string \<Rightarrow> (byte list \<times> nat option) option" where
  "parseIPv6_loop 0 ip ellipsis s = (if s = [] then Some (ip, ellipsis) else None)"
| "parseIPv6_loop (Suc n) ip ellipsis s =
    (let ds = takeWhile (\<lambda>c. hex_val c \<noteq> None) s;
         rest = drop (length ds) s;
         acc = foldl (\<lambda>a c. a * 16 + the (hex_val c)) 0 ds;
         ip' = ip @ [word_of_nat (acc div 256), word_of_nat (acc mod 256)]
     in if ds = [] \<or> 4 < length ds then None
        else case rest of
          [] \<Rightarrow> Some (ip', ellipsis)
        | c # t \<Rightarrow>
            (if c = CHR ''.'' then
               (if (ellipsis = None \<and> length ip \<noteq> 12) \<or> 16 < length ip + 4 then None
                else map_option (\<lambda>bs. (ip @ bs, ellipsis)) (parseIPv4 s))
             else if c \<noteq> CHR '':'' \<or> t = [] then None
             else if hd t = CHR '':'' then
               (if ellipsis \<noteq> None then None
                else if tl t = [] then Some (ip', Some (length ip'))
                else parseIPv6_loop n ip' (Some (length ip')) (tl t))
             else parseIPv6_loop n ip' ellipsis t))"

definition parseIPv6 :: "string \<Rightarrow> byte list option" where
  "parseIPv6 s =
    (if s = ''::'' then Some (replicate 16 0)
     else case (if take 2 s = ''::'' then parseIPv6_loop 8 [] (Some 0) (drop 2 s) else parseIPv6_loop 8 [] None s) of
         None \<Rightarrow> None
       | Some (ip, ellipsis) \<Rightarrow>
           (case ellipsis of
              None \<Rightarrow> (if length ip < 16 then None else Some ip)
            | Some e \<Rightarrow> (if length ip < 16 then Some (take e ip @ replicate (16 - length ip) 0 @ drop e ip) else None)))"

definition ParseIP :: "string \<Rightarrow> byte list option" where
  "ParseIP s =
    (if CHR ''%'' \<in> set s then None
     else case dropWhile (\<lambda>c. c \<noteq> CHR ''.'' \<and> c \<noteq> CHR '':'') s of
         [] \<Rightarrow> None
       | c # t \<Rightarrow>
           (if c = CHR ''.'' then map_option (\<lambda>bs. replicate 10 0 @ [255, 255] @ bs) (parseIPv4 s)
            else parseIPv6 s))"

lemma ParseIP_hosts:
  "ParseIP ''127.0.0.1'' = Some [0, 0, 0, 0, 0, 0, 0, 0, 0, 0, 255, 255, 127, 0, 0, 1]"
  "ParseIP ''::1'' = Some [0, 0, 0, 0, 0, 0, 0, 0, 0, 0, 0, 0, 0, 0, 0, 1]"
  "ParseIP ''localhost'' = None"
  by code_simp+

section \<open>Keys and certificates\<close>

datatype private_key = PrivateKey nat
datatype public_key = PublicKey nat

fun Public :: "private_key \<Rightarrow> public_key" where
  "Public (PrivateKey n) = PublicKey n"

record pkix_name =
  Organization :: "string list"
  CommonName :: string
  Country :: "string list"
  Province :: "string list"
  Locality :: "string list"
  StreetAddress :: "string list"

datatype key_usage = KeyUsageCertSign | KeyUsageCRLSign | KeyUsageDigitalSignature | KeyUsageKeyEncipherment
datatype ext_key_usage = ExtKeyUsageServerAuth | ExtKeyUsageClientAuth

text \<open>A certificate or the template of one; a template has no key and no issuer.\<close>

record x509 =
  SerialNumber :: nat
  Subject :: pkix_name
  NotBefore :: int
  NotAfter :: int
  KeyUsage :: "key_usage list"
  ExtKeyUsage :: "ext_key_usage list"
  BasicConstraintsValid :: bool
  IsCA :: bool
  MaxPathLenZero :: bool
  IPAddresses :: "byte list list"
  DNSNames :: "string list"
  x_PublicKey :: "public_key option"
  Issuer :: "pkix_name option"
  SignedBy :: "public_key option"

datatype pem_block = CERTIFICATE x509 | RSA_PRIVATE_KEY private_key

datatype tls_error =
    RandFailed | InvalidUTF8 | InvalidIA5String string | ParentKeyMismatch | KeyPairMismatch
  | NoCACertificate | RootCAFailed tls_error | NodeCertFailed string tls_error

definition GenerateKey :: "(nat \<Rightarrow> nat option) \<Rightarrow> nat \<Rightarrow> tls_error + private_key" where
  "GenerateKey rand p = (case rand p of None \<Rightarrow> Inl RandFailed | Some n \<Rightarrow> Inr (PrivateKey n))"

definition rand_Int :: "(nat \<Rightarrow> nat option) \<Rightarrow> nat \<Rightarrow> nat \<Rightarrow> tls_error + nat" where
  "rand_Int rand limit p = (case rand p of None \<Rightarrow> Inl RandFailed | Some n \<Rightarrow> Inr (n mod limit))"

text \<open>Times are nanoseconds; a certificate holds whole seconds.\<close>

abbreviation Second :: int where "Second \<equiv> 1000000000"

definition whole_second :: "int \<Rightarrow> int" where
  "whole_second t = t div Second * Second"

definition ascii :: "string \<Rightarrow> bool" where
  "ascii s \<longleftrightarrow> (\<forall>c \<in> set s. (of_char c :: nat) < 128)"

definition CreateCertificate :: "x509 \<Rightarrow> x509 \<Rightarrow> public_key \<Rightarrow> private_key \<Rightarrow> tls_error + x509" where
  "CreateCertificate template parent pub priv =
    (if \<not> utf8 (CommonName (Subject template)) then Inl InvalidUTF8
     else case filter (\<lambda>h. \<not> ascii h) (DNSNames template) of
         h # _ \<Rightarrow> Inl (InvalidIA5String h)
       | [] \<Rightarrow>
           (if x_PublicKey parent \<noteq> None \<and> x_PublicKey parent \<noteq> Some (Public priv) then Inl ParentKeyMismatch
            else Inr (template\<lparr>NotBefore := whole_second (NotBefore template), NotAfter := whole_second (NotAfter template),
              x_PublicKey := Some pub, Issuer := Some (Subject parent), SignedBy := Some (Public priv)\<rparr>)))"

text \<open>The certificate of a root, with its key and the PEM form of both. The positions \<open>p\<close> to \<open>p + 3\<close>
  are the key, the serial number and two readings of the clock.\<close>

definition GenerateCA ::
  "(nat \<Rightarrow> nat option) \<Rightarrow> (nat \<Rightarrow> int) \<Rightarrow> string \<Rightarrow> nat \<Rightarrow> tls_error + x509 \<times> private_key \<times> pem_block list \<times> pem_block list" where
  "GenerateCA rand clock commonName p =
    (case GenerateKey rand p of
       Inl err \<Rightarrow> Inl err
     | Inr privKey \<Rightarrow>
         (case rand_Int rand (2 ^ 128) (p + 1) of
            Inl err \<Rightarrow> Inl err
          | Inr serialNumber \<Rightarrow>
              (let template = \<lparr>SerialNumber = serialNumber,
                     Subject = \<lparr>Organization = [''Aegis Distributed Systems''], CommonName = commonName, Country = [''US''],
                       Province = [''CA''], Locality = [''San Francisco''], StreetAddress = [''Consensus Way'']\<rparr>,
                     NotBefore = clock (p + 2) - 3600 * Second, NotAfter = clock (p + 3) + 365 * 24 * 3600 * Second,
                     KeyUsage = [KeyUsageCertSign, KeyUsageCRLSign, KeyUsageDigitalSignature], ExtKeyUsage = [],
                     BasicConstraintsValid = True, IsCA = True, MaxPathLenZero = True, IPAddresses = [], DNSNames = [],
                     x_PublicKey = None, Issuer = None, SignedBy = None\<rparr>
               in case CreateCertificate template template (Public privKey) privKey of
                    Inl err \<Rightarrow> Inl err
                  | Inr cert \<Rightarrow> Inr (cert, privKey, [CERTIFICATE cert], [RSA_PRIVATE_KEY privKey]))))"

fun add_hosts :: "x509 \<Rightarrow> string list \<Rightarrow> x509" where
  "add_hosts template [] = template"
| "add_hosts template (h # hs) =
    add_hosts (case ParseIP h of
        Some ip \<Rightarrow> template\<lparr>IPAddresses := IPAddresses template @ [ip]\<rparr>
      | None \<Rightarrow> template\<lparr>DNSNames := DNSNames template @ [h]\<rparr>) hs"

record tls_certificate =
  Leaf :: x509
  tc_PrivateKey :: private_key

definition X509KeyPair :: "x509 \<Rightarrow> private_key \<Rightarrow> tls_error + tls_certificate" where
  "X509KeyPair cert key =
    (if x_PublicKey cert = Some (Public key) then Inr \<lparr>Leaf = cert, tc_PrivateKey = key\<rparr> else Inl KeyPairMismatch)"

definition GenerateNodeCert ::
  "(nat \<Rightarrow> nat option) \<Rightarrow> (nat \<Rightarrow> int) \<Rightarrow> x509 \<Rightarrow> private_key \<Rightarrow> string \<Rightarrow> string list \<Rightarrow> nat \<Rightarrow>
   tls_error + tls_certificate \<times> pem_block list \<times> pem_block list" where
  "GenerateNodeCert rand clock caCert caKey commonName hosts p =
    (case GenerateKey rand p of
       Inl err \<Rightarrow> Inl err
     | Inr privKey \<Rightarrow>
         (case rand_Int rand (2 ^ 128) (p + 1) of
            Inl err \<Rightarrow> Inl err
          | Inr serialNumber \<Rightarrow>
              (let template = add_hosts \<lparr>SerialNumber = serialNumber,
                     Subject = \<lparr>Organization = [''Aegis Distributed Systems''], CommonName = commonName, Country = [],
                       Province = [], Locality = [], StreetAddress = []\<rparr>,
                     NotBefore = clock (p + 2) - 3600 * Second, NotAfter = clock (p + 3) + 365 * 24 * 3600 * Second,
                     KeyUsage = [KeyUsageDigitalSignature, KeyUsageKeyEncipherment],
                     ExtKeyUsage = [ExtKeyUsageServerAuth, ExtKeyUsageClientAuth],
                     BasicConstraintsValid = False, IsCA = False, MaxPathLenZero = False, IPAddresses = [], DNSNames = [],
                     x_PublicKey = None, Issuer = None, SignedBy = None\<rparr> hosts
               in case CreateCertificate template caCert (Public privKey) caKey of
                    Inl err \<Rightarrow> Inl err
                  | Inr cert \<Rightarrow>
                      (case X509KeyPair cert privKey of
                         Inl err \<Rightarrow> Inl err
                       | Inr tlsCert \<Rightarrow> Inr (tlsCert, [CERTIFICATE cert], [RSA_PRIVATE_KEY privKey])))))"

record TLSBundle =
  CACertPEM :: "pem_block list"
  CAKeyPEM :: "pem_block list"
  NodeCertPEM :: "string \<rightharpoonup> pem_block list"
  NodeKeyPEM :: "string \<rightharpoonup> pem_block list"
  NodeTLS :: "string \<rightharpoonup> tls_certificate"

definition defaultHosts :: "string list" where
  "defaultHosts = [''127.0.0.1'', ''localhost'', ''::1'']"

fun cluster_certs ::
  "(nat \<Rightarrow> nat option) \<Rightarrow> (nat \<Rightarrow> int) \<Rightarrow> x509 \<Rightarrow> private_key \<Rightarrow> nat \<Rightarrow> string list \<Rightarrow> TLSBundle \<Rightarrow> tls_error + TLSBundle" where
  "cluster_certs rand clock caCert caKey p [] bundle = Inr bundle"
| "cluster_certs rand clock caCert caKey p (nodeID # ids) bundle =
    (case GenerateNodeCert rand clock caCert caKey (''aegis-node-'' @ nodeID) (defaultHosts @ [''node-'' @ nodeID, nodeID]) p of
       Inl err \<Rightarrow> Inl (NodeCertFailed nodeID err)
     | Inr (cert, certPEM, keyPEM) \<Rightarrow>
         cluster_certs rand clock caCert caKey (p + 4) ids
           (bundle\<lparr>NodeCertPEM := (NodeCertPEM bundle)(nodeID \<mapsto> certPEM), NodeKeyPEM := (NodeKeyPEM bundle)(nodeID \<mapsto> keyPEM),
              NodeTLS := (NodeTLS bundle)(nodeID \<mapsto> cert)\<rparr>))"

definition GenerateClusterCerts :: "(nat \<Rightarrow> nat option) \<Rightarrow> (nat \<Rightarrow> int) \<Rightarrow> string list \<Rightarrow> nat \<Rightarrow> tls_error + TLSBundle" where
  "GenerateClusterCerts rand clock nodeIDs p =
    (case GenerateCA rand clock ''Aegis Cluster Root CA'' p of
       Inl err \<Rightarrow> Inl (RootCAFailed err)
     | Inr (caCert, caKey, caCertPEM, caKeyPEM) \<Rightarrow>
         cluster_certs rand clock caCert caKey (p + 4) nodeIDs
           \<lparr>CACertPEM = caCertPEM, CAKeyPEM = caKeyPEM, NodeCertPEM = Map.empty, NodeKeyPEM = Map.empty, NodeTLS = Map.empty\<rparr>)"

section \<open>Configurations\<close>

datatype client_auth = NoClientCert | RequireAndVerifyClientCert

record tls_config =
  Certificates :: "tls_certificate list"
  ClientCAs :: "x509 list"
  RootCAs :: "x509 list"
  ClientAuth :: client_auth
  MinVersion :: nat
  ServerName :: string

definition VersionTLS13 :: nat where "VersionTLS13 = 0x0304"

fun pem_certificates :: "pem_block list \<Rightarrow> x509 list" where
  "pem_certificates [] = []"
| "pem_certificates (CERTIFICATE c # bs) = c # pem_certificates bs"
| "pem_certificates (RSA_PRIVATE_KEY k # bs) = pem_certificates bs"

definition CreateServerTLSConfig :: "tls_certificate \<Rightarrow> pem_block list \<Rightarrow> tls_error + tls_config" where
  "CreateServerTLSConfig cert caCertPEM =
    (let caPool = pem_certificates caCertPEM in
     if caPool = [] then Inl NoCACertificate
     else Inr \<lparr>Certificates = [cert], ClientCAs = caPool, RootCAs = [], ClientAuth = RequireAndVerifyClientCert,
       MinVersion = VersionTLS13, ServerName = ''''\<rparr>)"

definition CreateClientTLSConfig :: "tls_certificate \<Rightarrow> pem_block list \<Rightarrow> string \<Rightarrow> tls_error + tls_config" where
  "CreateClientTLSConfig cert caCertPEM serverName =
    (let caPool = pem_certificates caCertPEM in
     if caPool = [] then Inl NoCACertificate
     else
       (let cfg = \<lparr>Certificates = [cert], ClientCAs = [], RootCAs = caPool, ClientAuth = NoClientCert,
              MinVersion = VersionTLS13, ServerName = ''''\<rparr>
        in Inr (if serverName \<noteq> '''' \<and> ParseIP serverName = None then cfg\<lparr>ServerName := serverName\<rparr> else cfg)))"


section \<open>Verification and the handshake\<close>

definition valid_at :: "int \<Rightarrow> x509 \<Rightarrow> bool" where
  "valid_at t c \<longleftrightarrow> NotBefore c \<le> t \<and> t \<le> NotAfter c"

definition issued_by :: "x509 \<Rightarrow> x509 \<Rightarrow> bool" where
  "issued_by r c \<longleftrightarrow> Issuer c = Some (Subject r) \<and> x_PublicKey r \<noteq> None \<and> SignedBy c = x_PublicKey r \<and>
     KeyUsageCertSign \<in> set (KeyUsage r) \<and> BasicConstraintsValid r \<and> IsCA r"

definition verify_chain :: "x509 list \<Rightarrow> ext_key_usage \<Rightarrow> int \<Rightarrow> x509 \<Rightarrow> bool" where
  "verify_chain pool usage t c \<longleftrightarrow> valid_at t c \<and> (ExtKeyUsage c = [] \<or> usage \<in> set (ExtKeyUsage c)) \<and>
     (c \<in> set pool \<or> (\<exists>r \<in> set pool. issued_by r c \<and> valid_at t r))"

definition lower :: "char \<Rightarrow> char" where
  "lower c = (if 65 \<le> code c \<and> code c \<le> 90 then char_of (code c + 32) else c)"

definition matchHostnames :: "string \<Rightarrow> string \<Rightarrow> bool" where
  "matchHostnames pattern host =
    (let host = (if host \<noteq> [] \<and> last host = CHR ''.'' then butlast host else host);
         ps = split_at (CHR ''.'') (map lower pattern);
         hs = split_at (CHR ''.'') (map lower host)
     in pattern \<noteq> [] \<and> host \<noteq> [] \<and> length ps = length hs \<and> (hd ps = ''*'' \<or> hd ps = hd hs) \<and> tl ps = tl hs)"

definition VerifyHostname :: "string \<Rightarrow> x509 \<Rightarrow> bool" where
  "VerifyHostname h c =
    (case ParseIP h of
       Some ip \<Rightarrow> ip \<in> set (IPAddresses c)
     | None \<Rightarrow> (\<exists>name \<in> set (DNSNames c). matchHostnames name h))"

text \<open>A side proves that it has the key of the certificate it presents.\<close>

definition presents :: "tls_certificate \<Rightarrow> bool" where
  "presents c \<longleftrightarrow> x_PublicKey (Leaf c) = Some (Public (tc_PrivateKey c))"

text \<open>Both sides of a connection to \<open>host\<close> at time \<open>t\<close> are content; the dialer takes the name of the
  server from the address when the configuration has none.\<close>

definition handshake :: "tls_config \<Rightarrow> tls_config \<Rightarrow> string \<Rightarrow> int \<Rightarrow> bool" where
  "handshake server client host t \<longleftrightarrow>
    MinVersion server \<le> VersionTLS13 \<and> MinVersion client \<le> VersionTLS13 \<and>
    (case Certificates server of
       [] \<Rightarrow> False
     | sc # _ \<Rightarrow> presents sc \<and> verify_chain (RootCAs client) ExtKeyUsageServerAuth t (Leaf sc) \<and>
         VerifyHostname (if ServerName client = '''' then host else ServerName client) (Leaf sc)) \<and>
    (case ClientAuth server of
       NoClientCert \<Rightarrow> True
     | RequireAndVerifyClientCert \<Rightarrow>
         (case Certificates client of
            [] \<Rightarrow> False
          | cc # _ \<Rightarrow> presents cc \<and> verify_chain (ClientCAs server) ExtKeyUsageClientAuth t (Leaf cc)))"

subsection \<open>What is generated\<close>

lemma whole_second_bounds: "whole_second t \<le> t" "t - Second < whole_second t"
proof -
  have "t = whole_second t + t mod Second" "t mod Second \<ge> 0" "t mod Second < Second"
    unfolding whole_second_def by simp_all
  then show "whole_second t \<le> t" "t - Second < whole_second t" by linarith+
qed

lemma add_hosts_names:
  "add_hosts c hs = c\<lparr>IPAddresses := IPAddresses c @ List.map_filter ParseIP hs,
     DNSNames := DNSNames c @ filter (\<lambda>h. ParseIP h = None) hs\<rparr>"
  by (induction hs arbitrary: c) (simp_all add: List.map_filter_simps split: option.split)

lemma CreateCertificate_Inr:
  assumes "CreateCertificate template parent pub priv = Inr c"
  shows "c = template\<lparr>NotBefore := whole_second (NotBefore template), NotAfter := whole_second (NotAfter template),
      x_PublicKey := Some pub, Issuer := Some (Subject parent), SignedBy := Some (Public priv)\<rparr>"
  using assms by (auto simp: CreateCertificate_def split: if_splits list.splits)

text \<open>The period of a certificate whose times were read between \<open>T0\<close> and \<open>T1\<close>.\<close>

definition lasts :: "int \<Rightarrow> int \<Rightarrow> x509 \<Rightarrow> bool" where
  "lasts T0 T1 c \<longleftrightarrow> NotBefore c \<le> T1 - 3600 * Second \<and> T0 + 365 * 24 * 3600 * Second - Second < NotAfter c"

lemma lasts_clock:
  assumes "\<forall>q. T0 \<le> clock q \<and> clock q \<le> T1"
    and "NotBefore c = whole_second (clock i - 3600 * Second)" "NotAfter c = whole_second (clock j + 365 * 24 * 3600 * Second)"
  shows "lasts T0 T1 c"
  using assms(2,3) assms(1) [rule_format, of i] assms(1) [rule_format, of j] whole_second_bounds(1) [of "clock i - 3600 * Second"]
    whole_second_bounds(2) [of "clock j + 365 * 24 * 3600 * Second"] by (simp only: lasts_def) linarith

definition root_ok :: "int \<Rightarrow> int \<Rightarrow> private_key \<Rightarrow> x509 \<Rightarrow> bool" where
  "root_ok T0 T1 k c \<longleftrightarrow> lasts T0 T1 c \<and> x_PublicKey c = Some (Public k) \<and> KeyUsageCertSign \<in> set (KeyUsage c) \<and>
     BasicConstraintsValid c \<and> IsCA c"

lemma GenerateCA_Inr:
  assumes "GenerateCA rand clock cn p = Inr (ca, k, caPEM, keyPEM)" and "\<forall>q. T0 \<le> clock q \<and> clock q \<le> T1"
  shows "root_ok T0 T1 k ca \<and> caPEM = [CERTIFICATE ca] \<and> rand p = Some (case k of PrivateKey n \<Rightarrow> n)"
proof -
  obtain n m where "rand p = Some n" "rand (p + 1) = Some m"
    using assms(1) by (auto simp: GenerateCA_def GenerateKey_def rand_Int_def split: option.splits)
  then show ?thesis
    using assms(1)
    by (auto intro: lasts_clock [OF assms(2), of _ "p + 2" "p + 3"]
        simp: GenerateCA_def GenerateKey_def rand_Int_def Let_def root_ok_def split: sum.splits dest!: CreateCertificate_Inr)
qed

definition node_ok :: "int \<Rightarrow> int \<Rightarrow> x509 \<Rightarrow> private_key \<Rightarrow> tls_certificate \<Rightarrow> bool" where
  "node_ok T0 T1 ca k c \<longleftrightarrow> lasts T0 T1 (Leaf c) \<and> presents c \<and> Issuer (Leaf c) = Some (Subject ca) \<and>
     SignedBy (Leaf c) = Some (Public k) \<and> \<not> IsCA (Leaf c) \<and>
     ExtKeyUsage (Leaf c) = [ExtKeyUsageServerAuth, ExtKeyUsageClientAuth] \<and>
     (\<forall>h \<in> set defaultHosts. VerifyHostname h (Leaf c))"

lemma GenerateNodeCert_Inr:
  assumes "GenerateNodeCert rand clock ca k cn (defaultHosts @ hs) p = Inr (c, cp, kp)" and "\<forall>q. T0 \<le> clock q \<and> clock q \<le> T1"
  shows "node_ok T0 T1 ca k c"
proof -
  obtain n m where draws: "rand p = Some n" "rand (p + 1) = Some m"
    using assms(1) by (auto simp: GenerateNodeCert_def GenerateKey_def rand_Int_def split: option.splits)
  have "VerifyHostname h c" if "h \<in> set defaultHosts"
    "IPAddresses c = List.map_filter ParseIP (defaultHosts @ hs)" "DNSNames c = filter (\<lambda>h. ParseIP h = None) (defaultHosts @ hs)"
    for c :: x509 and h
  proof -
    have "matchHostnames ''localhost'' ''localhost''" by code_simp
    then show ?thesis
      using that by (auto simp: VerifyHostname_def defaultHosts_def ParseIP_hosts List.map_filter_simps)
  qed
  then show ?thesis
    using assms(1) draws
    by (auto intro: lasts_clock [OF assms(2), of _ "p + 2" "p + 3"]
        simp: GenerateNodeCert_def GenerateKey_def rand_Int_def Let_def node_ok_def presents_def add_hosts_names
        X509KeyPair_def split: sum.splits if_splits dest!: CreateCertificate_Inr)
qed

lemma cluster_certs_Inr:
  assumes "cluster_certs rand clock ca k p ids b = Inr b'" and "\<forall>q. T0 \<le> clock q \<and> clock q \<le> T1"
    and "\<forall>i c. NodeTLS b i = Some c \<longrightarrow> node_ok T0 T1 ca k c"
  shows "CACertPEM b' = CACertPEM b \<and> dom (NodeTLS b') = dom (NodeTLS b) \<union> set ids \<and>
    (\<forall>i c. NodeTLS b' i = Some c \<longrightarrow> node_ok T0 T1 ca k c)"
  using assms(1,3)
proof (induction ids arbitrary: p b)
  case (Cons i ids)
  obtain c cp kp where c: "GenerateNodeCert rand clock ca k (''aegis-node-'' @ i) (defaultHosts @ [''node-'' @ i, i]) p = Inr (c, cp, kp)"
    using Cons.prems(1) by (auto split: sum.splits)
  have ok: "node_ok T0 T1 ca k c" by (rule GenerateNodeCert_Inr [OF c assms(2)])
  let ?b = "b\<lparr>NodeCertPEM := (NodeCertPEM b)(i \<mapsto> cp), NodeKeyPEM := (NodeKeyPEM b)(i \<mapsto> kp), NodeTLS := (NodeTLS b)(i \<mapsto> c)\<rparr>"
  have "CACertPEM b' = CACertPEM ?b \<and> dom (NodeTLS b') = dom (NodeTLS ?b) \<union> set ids \<and>
      (\<forall>i c. NodeTLS b' i = Some c \<longrightarrow> node_ok T0 T1 ca k c)"
    by (rule Cons.IH [of "p + 4"]) (use Cons.prems c ok in auto)
  then show ?case by auto
qed simp

lemma GenerateClusterCerts_Inr:
  assumes "GenerateClusterCerts rand clock ids p = Inr b" and "\<forall>q. T0 \<le> clock q \<and> clock q \<le> T1"
  obtains ca n where "CACertPEM b = [CERTIFICATE ca]" and "root_ok T0 T1 (PrivateKey n) ca" and "rand p = Some n"
    and "dom (NodeTLS b) = set ids" and "\<And>i c. NodeTLS b i = Some c \<Longrightarrow> node_ok T0 T1 ca (PrivateKey n) c"
proof -
  obtain ca k cp kp where ca: "GenerateCA rand clock ''Aegis Cluster Root CA'' p = Inr (ca, k, cp, kp)"
    using assms(1) by (auto simp: GenerateClusterCerts_def split: sum.splits)
  obtain n where k: "k = PrivateKey n" by (cases k) auto
  let ?b = "\<lparr>CACertPEM = cp, CAKeyPEM = kp, NodeCertPEM = Map.empty, NodeKeyPEM = Map.empty, NodeTLS = Map.empty\<rparr>"
  have run: "cluster_certs rand clock ca k (p + 4) ids ?b = Inr b" using assms(1) ca by (simp add: GenerateClusterCerts_def)
  note made = cluster_certs_Inr [OF run assms(2), simplified]
  show thesis using that [of ca n] GenerateCA_Inr [OF ca assms(2)] made by (auto simp: k)
qed

subsection \<open>Generation succeeds\<close>

lemma ascii_default_hosts: "filter (\<lambda>h. \<not> ascii h) defaultHosts = []"
  by code_simp

lemma ascii_append [simp]: "ascii (s @ t) \<longleftrightarrow> ascii s \<and> ascii t"
  by (auto simp: ascii_def)

lemma GenerateNodeCert_ok:
  assumes "\<forall>q. rand q \<noteq> None" and "x_PublicKey ca = Some (Public k)" and "ascii nid" and "utf8 (''aegis-node-'' @ nid)"
  shows "\<exists>c cp kp. GenerateNodeCert rand clock ca k (''aegis-node-'' @ nid) (defaultHosts @ [''node-'' @ nid, nid]) p = Inr (c, cp, kp)"
proof -
  obtain n m where "rand p = Some n" "rand (p + 1) = Some m" using assms(1) by (metis not_None_eq)
  moreover have "filter (\<lambda>h. \<not> ascii h) (filter P (defaultHosts @ [''node-'' @ nid, nid])) = []" for P
  proof -
    have "ascii ''node-''" by code_simp
    then have "\<forall>h \<in> set (defaultHosts @ [''node-'' @ nid, nid]). ascii h"
      using assms(3) ascii_default_hosts by (auto simp: filter_empty_conv ascii_def)
    then show ?thesis by (auto simp: filter_empty_conv)
  qed
  ultimately show ?thesis
    using assms(2,4)
    by (simp add: GenerateNodeCert_def GenerateKey_def rand_Int_def Let_def add_hosts_names CreateCertificate_def X509KeyPair_def
        del: filter.simps filter_append)
qed

lemma cluster_certs_ok:
  assumes "\<forall>q. rand q \<noteq> None" and "x_PublicKey ca = Some (Public k)" and "\<forall>nid \<in> set ids. ascii nid \<and> utf8 (''aegis-node-'' @ nid)"
  shows "\<exists>b'. cluster_certs rand clock ca k p ids b = Inr b'"
  using assms(3)
proof (induction ids arbitrary: p b)
  case (Cons nid ids)
  then show ?case using GenerateNodeCert_ok [OF assms(1,2), of nid clock p] by (auto split: sum.splits)
qed simp

lemma GenerateClusterCerts_ok:
  assumes "\<forall>q. rand q \<noteq> None" and "\<forall>nid \<in> set ids. ascii nid \<and> utf8 (''aegis-node-'' @ nid)"
  shows "\<exists>b. GenerateClusterCerts rand clock ids p = Inr b"
proof -
  obtain n m where draws: "rand p = Some n" "rand (p + 1) = Some m" using assms(1) by (metis not_None_eq)
  have "utf8 ''Aegis Cluster Root CA''" by code_simp
  then obtain ca cp kp where ca: "GenerateCA rand clock ''Aegis Cluster Root CA'' p = Inr (ca, PrivateKey n, cp, kp)"
    and key: "x_PublicKey ca = Some (Public (PrivateKey n))"
    using draws by (simp add: GenerateCA_def GenerateKey_def rand_Int_def Let_def CreateCertificate_def)
  show ?thesis
    unfolding GenerateClusterCerts_def ca using cluster_certs_ok [OF assms(1) key assms(2)] by simp
qed

lemma node_names_ok: "nid \<in> {''1'', ''2'', ''3''} \<Longrightarrow> ascii nid" "nid \<in> {''1'', ''2'', ''3''} \<Longrightarrow> utf8 (''aegis-node-'' @ nid)"
proof -
  have "ascii ''1''" "ascii ''2''" "ascii ''3''" by code_simp+
  then show "nid \<in> {''1'', ''2'', ''3''} \<Longrightarrow> ascii nid" by blast
  have "utf8 (''aegis-node-'' @ ''1'')" "utf8 (''aegis-node-'' @ ''2'')" "utf8 (''aegis-node-'' @ ''3'')" by code_simp+
  then show "nid \<in> {''1'', ''2'', ''3''} \<Longrightarrow> utf8 (''aegis-node-'' @ nid)" by blast
qed

section \<open>Members of one bundle authenticate each other\<close>

lemma verify_node:
  assumes "root_ok T0 T1 k ca" and "node_ok T0 T1 ca k c" and "T1 - 3600 * Second \<le> t" and "t \<le> T0 + 365 * 24 * 3600 * Second - Second"
  shows "verify_chain [ca] usage t (Leaf c)"
  using assms by (cases usage) (auto simp: verify_chain_def valid_at_def issued_by_def root_ok_def node_ok_def lasts_def)

text \<open>C15. Certificates that were generated together authenticate: any two nodes of a bundle can connect in
  either direction, on every address of the local host, from an hour before the last reading of the
  clock to the year after the first. The configurations are the ones the code builds from the
  bundle, whatever address is given as the name of the server.\<close>

theorem cluster_members_authenticate:
  assumes "GenerateClusterCerts rand clock ids p = Inr b" and "a \<in> set ids" and "c \<in> set ids"
    and "\<forall>q. T0 \<le> clock q \<and> clock q \<le> T1"
    and "T1 - 3600 * Second \<le> t" and "t \<le> T0 + 365 * 24 * 3600 * Second - Second"
    and "host \<in> set defaultHosts" and "name \<in> insert '''' (set defaultHosts)"
  shows "\<exists>server client sc cc. NodeTLS b a = Some server \<and> NodeTLS b c = Some client \<and>
    CreateServerTLSConfig server (CACertPEM b) = Inr sc \<and> CreateClientTLSConfig client (CACertPEM b) name = Inr cc \<and>
    handshake sc cc host t"
proof -
  obtain ca n where ca: "CACertPEM b = [CERTIFICATE ca]" "root_ok T0 T1 (PrivateKey n) ca" "dom (NodeTLS b) = set ids"
    and nodes: "\<And>i c. NodeTLS b i = Some c \<Longrightarrow> node_ok T0 T1 ca (PrivateKey n) c"
    by (rule GenerateClusterCerts_Inr [OF assms(1,4)]) blast
  obtain server client where certs: "NodeTLS b a = Some server" "NodeTLS b c = Some client"
    using assms(2,3) ca(3) by blast
  have ok: "node_ok T0 T1 ca (PrivateKey n) server" "node_ok T0 T1 ca (PrivateKey n) client"
    using certs by (auto intro: nodes)
  obtain sc where sc: "CreateServerTLSConfig server (CACertPEM b) = Inr sc" "Certificates sc = [server]" "ClientCAs sc = [ca]"
    "MinVersion sc = VersionTLS13" "ClientAuth sc = RequireAndVerifyClientCert"
    by (simp add: CreateServerTLSConfig_def ca(1))
  obtain cc where cc: "CreateClientTLSConfig client (CACertPEM b) name = Inr cc" "Certificates cc = [client]" "RootCAs cc = [ca]"
    "MinVersion cc = VersionTLS13" "ServerName cc = '''' \<or> ServerName cc = ''localhost''"
    using assms(8) by (auto simp: CreateClientTLSConfig_def ca(1) ParseIP_hosts defaultHosts_def)
  have "VerifyHostname (if ServerName cc = '''' then host else ServerName cc) (Leaf server)"
    using ok(1) assms(7) cc(5) by (auto simp: node_ok_def defaultHosts_def)
  then have "handshake sc cc host t"
    using sc cc ok verify_node [OF ca(2) ok(1) assms(5,6)] verify_node [OF ca(2) ok(2) assms(5,6)]
    by (simp add: handshake_def node_ok_def)
  then show ?thesis using certs sc(1) cc(1) by blast
qed

lemma cluster_members_authenticate_witness:
  "\<exists>b server client sc cc. GenerateClusterCerts Some (\<lambda>_. 0) [''1'', ''2''] 0 = Inr b \<and>
    NodeTLS b ''1'' = Some server \<and> NodeTLS b ''2'' = Some client \<and>
    CreateServerTLSConfig server (CACertPEM b) = Inr sc \<and> CreateClientTLSConfig client (CACertPEM b) ''127.0.0.1'' = Inr cc \<and>
    handshake sc cc ''127.0.0.1'' 0"
proof -
  obtain b where b: "GenerateClusterCerts Some (\<lambda>_. 0) [''1'', ''2''] 0 = Inr b"
    using GenerateClusterCerts_ok [where ids = "[''1'', ''2'']" and rand = Some and clock = "\<lambda>_. 0" and p = 0] by (auto simp: node_names_ok)
  then show ?thesis
    using cluster_members_authenticate [OF b, of "''1''" "''2''" 0 0 0 "''127.0.0.1''" "''127.0.0.1''"] by (simp add: defaultHosts_def)
qed

section \<open>Anyone else is refused\<close>

lemma foreign_client_refused:
  assumes "CreateServerTLSConfig cert caCertPEM = Inr server"
    and "\<forall>c \<in> set (Certificates client). \<forall>ca \<in> set (pem_certificates caCertPEM).
      Leaf c \<noteq> ca \<and> (x_PublicKey ca = None \<or> SignedBy (Leaf c) \<noteq> x_PublicKey ca)"
  shows "\<not> handshake server client host t"
proof -
  have server: "ClientCAs server = pem_certificates caCertPEM" "ClientAuth server = RequireAndVerifyClientCert"
    using assms(1) by (auto simp: CreateServerTLSConfig_def Let_def split: if_splits)
  show ?thesis
  proof (cases "Certificates client")
    case Nil
    then show ?thesis using server by (simp add: handshake_def)
  next
    case (Cons c cs)
    then have foreign: "Leaf c \<noteq> ca \<and> (x_PublicKey ca = None \<or> SignedBy (Leaf c) \<noteq> x_PublicKey ca)"
      if "ca \<in> set (ClientCAs server)" for ca
      using assms(2) that server(1) by simp
    then have "\<not> verify_chain (ClientCAs server) ExtKeyUsageClientAuth t (Leaf c)"
      unfolding verify_chain_def issued_by_def by metis
    then show ?thesis using server(2) Cons by (simp add: handshake_def)
  qed
qed

text \<open>C16. A server refuses every client that its own authority has not certified: one without a
  certificate, and one whose certificates were signed with other keys, whatever names they carry.\<close>

theorem rogue_clients_refused:
  assumes "CreateServerTLSConfig cert caCertPEM = Inr server"
    and "\<forall>c \<in> set (Certificates client). \<forall>ca \<in> set (pem_certificates caCertPEM).
      Leaf c \<noteq> ca \<and> (x_PublicKey ca = None \<or> SignedBy (Leaf c) \<noteq> x_PublicKey ca)"
  shows "\<not> handshake server client host t"
  using assms by (rule foreign_client_refused)

lemma rogue_clients_refused_witness:
  "\<exists>ca b server client cc sc. GenerateClusterCerts Some (\<lambda>_. 0) [''1''] 0 = Inr ca \<and> GenerateClusterCerts Some (\<lambda>_. 0) [''1''] 1 = Inr b \<and>
    NodeTLS ca ''1'' = Some server \<and> NodeTLS b ''1'' = Some client \<and>
    CreateServerTLSConfig server (CACertPEM ca) = Inr sc \<and> CreateClientTLSConfig client (CACertPEM ca) '''' = Inr cc \<and>
    \<not> handshake sc cc ''127.0.0.1'' 0"
proof -
  obtain a b where a: "GenerateClusterCerts Some (\<lambda>_. 0) [''1''] 0 = Inr a" and b: "GenerateClusterCerts Some (\<lambda>_. 0) [''1''] 1 = Inr b"
    using GenerateClusterCerts_ok [where ids = "[''1'']" and rand = Some and clock = "\<lambda>_. 0" and p = 0] GenerateClusterCerts_ok [where ids = "[''1'']" and rand = Some and clock = "\<lambda>_. 0" and p = 1]
    by (auto simp: node_names_ok)
  obtain ca where ca: "CACertPEM a = [CERTIFICATE ca]" "x_PublicKey ca = Some (PublicKey 0)" "IsCA ca" "dom (NodeTLS a) = set [''1'']"
  proof (rule GenerateClusterCerts_Inr [OF a, of 0 0])
    fix ca n
    assume ca: "CACertPEM a = [CERTIFICATE ca]" "dom (NodeTLS a) = set [''1'']" and r: "root_ok 0 0 (PrivateKey n) ca" and "Some 0 = Some n"
    then have "n = 0" by simp
    then have "root_ok 0 0 (PrivateKey 0) ca" using r by (rule subst)
    then have "x_PublicKey ca = Some (PublicKey 0)" "IsCA ca" by (simp_all add: root_ok_def)
    then show thesis using ca by (intro that)
  qed simp
  have "''1'' \<in> dom (NodeTLS a)" unfolding ca(4) by simp
  then obtain server where server: "NodeTLS a ''1'' = Some server" by (meson domD)
  obtain client where client: "NodeTLS b ''1'' = Some client" "SignedBy (Leaf client) = Some (PublicKey 1)" "\<not> IsCA (Leaf client)"
  proof (rule GenerateClusterCerts_Inr [OF b, of 0 0])
    fix cb n
    assume "Some 1 = Some n" and d: "dom (NodeTLS b) = set [''1'']" and node: "\<And>i c. NodeTLS b i = Some c \<Longrightarrow> node_ok 0 0 cb (PrivateKey n) c"
    then obtain c where "NodeTLS b ''1'' = Some c" "n = 1" by (metis domD list.set_intros(1) option.inject)
    moreover from this have "node_ok 0 0 cb (PrivateKey n) c" by (intro node)
    then have "SignedBy (Leaf c) = Some (Public (PrivateKey n))" "\<not> IsCA (Leaf c)" unfolding node_ok_def by blast+
    ultimately show thesis by (intro that [of c]) simp_all
  qed simp
  obtain sc where sc: "CreateServerTLSConfig server (CACertPEM a) = Inr sc" by (simp add: CreateServerTLSConfig_def ca(1))
  obtain cc where cc: "CreateClientTLSConfig client (CACertPEM a) '''' = Inr cc" "Certificates cc = [client]"
    by (simp add: CreateClientTLSConfig_def Let_def ca(1))
  have "\<not> handshake sc cc ''127.0.0.1'' 0"
    by (rule rogue_clients_refused [OF sc]) (use ca client cc in auto)
  then show ?thesis using a b server client(1) sc cc(1) by blast
qed

section \<open>The node's set up\<close>

text \<open>The configurations in \<open>NewNodeServer\<close>: an error of any step leaves the node without them.\<close>

fun ignore_error :: "tls_error + tls_config \<Rightarrow> tls_config option" where
  "ignore_error (Inl err) = None"
| "ignore_error (Inr config) = Some config"

definition setup_tls ::
  "(nat \<Rightarrow> nat option) \<Rightarrow> (nat \<Rightarrow> int) \<Rightarrow> nat \<Rightarrow> bool \<Rightarrow> string \<Rightarrow> tls_config option \<times> tls_config option" where
  "setup_tls rand clock p enableTLS nid =
    (if \<not> enableTLS then (None, None)
     else case GenerateClusterCerts rand clock [''1'', ''2'', ''3''] p of
         Inl err \<Rightarrow> (None, None)
       | Inr bundle \<Rightarrow>
           (case NodeTLS bundle nid of
              None \<Rightarrow> (None, None)
            | Some nodeCert \<Rightarrow>
                (ignore_error (CreateServerTLSConfig nodeCert (CACertPEM bundle)),
                 ignore_error (CreateClientTLSConfig nodeCert (CACertPEM bundle) ''127.0.0.1''))))"

lemma setup_tls_Some:
  assumes "fst (setup_tls rand clock p enableTLS nid) = Some server" and "\<forall>q. T0 \<le> clock q \<and> clock q \<le> T1"
  obtains ca n c client where "rand p = Some n" and "root_ok T0 T1 (PrivateKey n) ca" and "node_ok T0 T1 ca (PrivateKey n) c"
    and "CreateServerTLSConfig c [CERTIFICATE ca] = Inr server" and "snd (setup_tls rand clock p enableTLS nid) = Some client"
    and "CreateClientTLSConfig c [CERTIFICATE ca] ''127.0.0.1'' = Inr client"
proof -
  obtain b c where b: "GenerateClusterCerts rand clock [''1'', ''2'', ''3''] p = Inr b" "enableTLS" and c: "NodeTLS b nid = Some c"
    using assms(1) by (auto simp: setup_tls_def split: if_splits sum.splits option.splits)
  obtain ca n where ca: "CACertPEM b = [CERTIFICATE ca]" "root_ok T0 T1 (PrivateKey n) ca" "rand p = Some n"
    and node: "node_ok T0 T1 ca (PrivateKey n) c"
    by (rule GenerateClusterCerts_Inr [OF b(1) assms(2)]) (use c in blast)
  obtain client where client: "CreateClientTLSConfig c [CERTIFICATE ca] ''127.0.0.1'' = Inr client"
    by (simp add: CreateClientTLSConfig_def Let_def)
  obtain server' where server: "CreateServerTLSConfig c [CERTIFICATE ca] = Inr server'" by (simp add: CreateServerTLSConfig_def)
  show thesis using that [OF ca(3,2) node, of client] assms(1) b c ca(1) client server by (simp add: setup_tls_def)
qed

lemma setup_tls_iff:
  assumes "\<forall>q. rand q \<noteq> None" and "\<forall>q. T0 \<le> clock q \<and> clock q \<le> T1"
  shows "fst (setup_tls rand clock p enableTLS nid) \<noteq> None \<longleftrightarrow> enableTLS \<and> nid \<in> {''1'', ''2'', ''3''}"
proof -
  obtain b where b: "GenerateClusterCerts rand clock [''1'', ''2'', ''3''] p = Inr b"
    using GenerateClusterCerts_ok [OF assms(1), where ids = "[''1'', ''2'', ''3'']" and clock = clock and p = p] node_names_ok by auto
  obtain ca where ca: "CACertPEM b = [CERTIFICATE ca]" and "dom (NodeTLS b) = set [''1'', ''2'', ''3'']"
    by (rule GenerateClusterCerts_Inr [OF b assms(2)])
  then have "NodeTLS b nid \<noteq> None \<longleftrightarrow> nid \<in> {''1'', ''2'', ''3''}" by (metis domIff list.set)
  moreover have "fst (setup_tls rand clock p enableTLS nid) \<noteq> None \<longleftrightarrow> enableTLS \<and> NodeTLS b nid \<noteq> None"
    by (cases "NodeTLS b nid") (simp_all add: setup_tls_def b ca CreateServerTLSConfig_def)
  ultimately show ?thesis by simp
qed

lemma NewNodeServer_tls:
  assumes "NewNodeServer sys unmarshal certs listen now nid cPort pPort hPort dir addrs enableTLS os = Some (Inr s, os')"
  shows "serverTLS s = (enableTLS \<and> certs nid) \<and> clientTLS s = serverTLS s \<and>
    listen (''127.0.0.1:'' @ Sprintf_d pPort) (serverTLS s) = None"
proof -
  obtain r os1 where r: "OpenWAL sys (DefaultConfig dir) os = Some (r, os1)"
    using assms by (cases "OpenWAL sys (DefaultConfig dir) os") (auto simp: NewNodeServer_def)
  obtain q os2 where q: "NewCoordinator sys unmarshal dir (5 * 1000000000) os1 = (q, os2)" by fastforce
  show ?thesis
    using assms r q
    by (cases r; cases q) (auto simp: NewNodeServer_def Let_def bind_eq_Some_conv split: option.splits prod.splits)
qed

text \<open>C17. A cluster of TLS nodes cannot form: every node process makes an authority of its own, so a node's
  certificate was signed with a key that no other node trusts. Whatever two nodes drew, unless they
  drew the same key, neither can connect to the other, at any address and any time.\<close>

theorem tls_nodes_never_connect:
  assumes "setup_tls rand1 clock1 p enable1 id1 = (Some server1, client1)" and "setup_tls rand2 clock2 q enable2 id2 = (Some server2, Some client2)"
    and "rand1 p \<noteq> rand2 q"
    and "\<forall>i. A1 \<le> clock1 i \<and> clock1 i \<le> B1" and "\<forall>i. A2 \<le> clock2 i \<and> clock2 i \<le> B2"
  shows "\<not> handshake server1 client2 host t \<and> client1 \<noteq> None \<and> \<not> handshake server2 (the client1) host t"
proof -
  have first: "fst (setup_tls rand1 clock1 p enable1 id1) = Some server1" "fst (setup_tls rand2 clock2 q enable2 id2) = Some server2"
    using assms(1,2) by simp_all
  obtain ca1 n1 c1 cl1 where one: "rand1 p = Some n1" "root_ok A1 B1 (PrivateKey n1) ca1" "node_ok A1 B1 ca1 (PrivateKey n1) c1"
    "CreateServerTLSConfig c1 [CERTIFICATE ca1] = Inr server1" "client1 = Some cl1"
    "CreateClientTLSConfig c1 [CERTIFICATE ca1] ''127.0.0.1'' = Inr cl1"
    by (rule setup_tls_Some [OF first(1) assms(4)]) (use assms(1) in auto)
  obtain ca2 n2 c2 where two: "rand2 q = Some n2" "root_ok A2 B2 (PrivateKey n2) ca2" "node_ok A2 B2 ca2 (PrivateKey n2) c2"
    "CreateServerTLSConfig c2 [CERTIFICATE ca2] = Inr server2" "CreateClientTLSConfig c2 [CERTIFICATE ca2] ''127.0.0.1'' = Inr client2"
    by (rule setup_tls_Some [OF first(2) assms(5)]) (use assms(2) in auto)
  have "n1 \<noteq> n2" using assms(3) one(1) two(1) by simp
  have certs: "Certificates cl1 = [c1]" "Certificates client2 = [c2]"
    using one(6) two(5) by (auto simp: CreateClientTLSConfig_def ParseIP_hosts)
  have "\<not> handshake server1 client2 host t"
    by (rule foreign_client_refused [OF one(4)]) (use certs one(2) two(3) \<open>n1 \<noteq> n2\<close> in \<open>auto simp: root_ok_def node_ok_def\<close>)
  moreover have "\<not> handshake server2 cl1 host t"
    by (rule foreign_client_refused [OF two(4)]) (use certs two(2) one(3) \<open>n1 \<noteq> n2\<close> in \<open>auto simp: root_ok_def node_ok_def\<close>)
  ultimately show ?thesis using one(5) by simp
qed

lemma tls_nodes_never_connect_witness:
  "\<exists>server1 client1 server2 client2. setup_tls Some (\<lambda>_. 0) 0 True ''1'' = (Some server1, Some client1) \<and>
    setup_tls Some (\<lambda>_. 0) 1 True ''2'' = (Some server2, Some client2) \<and>
    \<not> handshake server1 client2 ''127.0.0.1'' 0 \<and> \<not> handshake server2 client1 ''127.0.0.1'' 0"
proof -
  have ex: "\<exists>server client. setup_tls Some (\<lambda>_. 0) k True nid = (Some server, Some client)" if "nid \<in> {''1'', ''2'', ''3''}" for k nid
  proof -
    have "fst (setup_tls Some (\<lambda>_. 0) k True nid) \<noteq> None"
      by (rule setup_tls_iff [THEN iffD2, of Some 0 "\<lambda>_. 0" 0]) (use that in simp_all)
    then obtain server where server: "fst (setup_tls Some (\<lambda>_. 0) k True nid) = Some server" by blast
    obtain client where "snd (setup_tls Some (\<lambda>_. 0) k True nid) = Some client"
      by (rule setup_tls_Some [OF server, of 0 0]) auto
    then show ?thesis using server by (metis prod.collapse)
  qed
  obtain server1 client1 server2 client2 where s: "setup_tls Some (\<lambda>_. 0) 0 True ''1'' = (Some server1, Some client1)"
    "setup_tls Some (\<lambda>_. 0) 1 True ''2'' = (Some server2, Some client2)"
    using ex [of "''1''" 0] ex [of "''2''" 1] by auto
  have "Some 0 \<noteq> Some (1 :: nat)" by simp
  from tls_nodes_never_connect [OF s this, of 0 0 0 0 "''127.0.0.1''" 0] show ?thesis using s by auto
qed

text \<open>C37. The TLS switch protects only the nodes named 1, 2 and 3: with it, over a working random source, a
  server is started with TLS exactly for these ids. Every other node starts without an error, and
  listens to its peers in plain text.\<close>

theorem tls_switch_is_dropped:
  assumes "NewNodeServer sys unmarshal (\<lambda>i. fst (setup_tls rand clock p True i) \<noteq> None) listen now nid cPort pPort hPort dir addrs True os =
      Some (Inr s, os')"
    and "\<forall>q. rand q \<noteq> None" and "\<forall>q. T0 \<le> clock q \<and> clock q \<le> T1"
  shows "(serverTLS s \<longleftrightarrow> nid \<in> {''1'', ''2'', ''3''}) \<and> clientTLS s = serverTLS s \<and>
    listen (''127.0.0.1:'' @ Sprintf_d pPort) (nid \<in> {''1'', ''2'', ''3''}) = None"
proof -
  have "serverTLS s \<longleftrightarrow> nid \<in> {''1'', ''2'', ''3''}"
    using NewNodeServer_tls [OF assms(1)] setup_tls_iff [OF assms(2,3), of p True nid] by simp
  then show ?thesis using NewNodeServer_tls [OF assms(1)] by metis
qed

lemma tls_switch_is_dropped_witness:
  "\<exists>s os'. NewNodeServer faultless (\<lambda>_. None) (\<lambda>i. fst (setup_tls Some (\<lambda>_. 0) 0 True i) \<noteq> None) (\<lambda>_ _. None) 0 ''4'' 8004 9004 10004
      ''d'' [''b''] True one_record = Some (Inr s, os') \<and> \<not> serverTLS s"
proof -
  obtain s os' where s: "NewNodeServer faultless (\<lambda>_. None) (\<lambda>i. fst (setup_tls Some (\<lambda>_. 0) 0 True i) \<noteq> None) (\<lambda>_ _. None) 0 ''4'' 8004 9004 10004
      ''d'' [''b''] True one_record = Some (Inr s, os')"
    by (rule one_record_server)
  then show ?thesis using tls_switch_is_dropped [OF s, of 0 0] by simp
qed

end
