(* ===== verification/NodeMain.thy ===== *)
theory NodeMain
  imports NodeStreams WebSockets Tls
begin

text \<open>
  The program of \<open>cmd/node/main.go\<close> from its flags to its end: what it is started with, what its
  goroutines do to the log until a signal comes, and the shutdown. Parsing of the command line
  (package \<open>flag\<close>) is the environment: a value of the record below.
\<close>

section \<open>The flags\<close>

record flags =
  idFlag :: string
  clientPortFlag :: int
  peerPortFlag :: int
  httpPortFlag :: int
  peersFlag :: string
  dataDirFlag :: string
  enableTLSFlag :: bool

definition no_flags :: flags where
  "no_flags = \<lparr>idFlag = ''1'', clientPortFlag = 8001, peerPortFlag = 9001, httpPortFlag = 10001, peersFlag = '''',
     dataDirFlag = '''', enableTLSFlag = False\<rparr>"

definition data_dir :: "flags \<Rightarrow> string" where
  "data_dir f = (if dataDirFlag f = '''' then ''./data/node-'' @ idFlag f else dataDirFlag f)"

definition main_start ::
  "sys \<Rightarrow> unmarshal \<Rightarrow> (string \<Rightarrow> bool) \<Rightarrow> (string \<Rightarrow> bool \<Rightarrow> string option) \<Rightarrow> int \<Rightarrow> flags \<Rightarrow> OS \<Rightarrow>
   ((server_error + NodeServer) \<times> OS) option" where
  "main_start sys unmarshal certs listen now f =
    NewNodeServer sys unmarshal certs listen now (idFlag f) (clientPortFlag f) (peerPortFlag f) (httpPortFlag f) (data_dir f)
      (parse_peers (peersFlag f)) (enableTLSFlag f)"

section \<open>Until the signal\<close>

text \<open>
  What the goroutines that \<open>Start\<close> launches do, seen from the disk: a pass of the applier, or steps
  of the others. Those change the server in any way (\<open>t\<close> is the server after them) but the log,
  which only the applier appends to, and the file of the coordinator: no handler commits offsets,
  and the eviction loop changes the groups alone.
\<close>

datatype node_event = ApplierPass | OtherSteps NodeServer

fun node_run :: "sys \<Rightarrow> node_event list \<Rightarrow> NodeServer \<Rightarrow> OS \<Rightarrow> (NodeServer \<times> OS) option" where
  "node_run sys [] s os = Some (s, os)"
| "node_run sys (ApplierPass # evs) s os = do { (s, os) \<leftarrow> node_apply sys s os; node_run sys evs s os }"
| "node_run sys (OtherSteps t # evs) s os =
    node_run sys evs (t\<lparr>wal := wal s, coord := (coord s)\<lparr>groups := groups (coord t)\<rparr>\<rparr>) os"

text \<open>The entries the passes hand over, which Raft alone decides.\<close>

fun committed :: "node_event list \<Rightarrow> RaftNode \<Rightarrow> LogEntry list option" where
  "committed [] rn = Some []"
| "committed (ApplierPass # evs) rn = do {
     (rn, es) \<leftarrow> runApplierLoop_step rn;
     rest \<leftarrow> committed evs rn;
     Some (es @ rest)
   }"
| "committed (OtherSteps t # evs) rn = committed evs (raftNode t)"

text \<open>\<open>main\<close>: an error of the start ends the process at once; a signal ends it after \<open>Stop\<close>.\<close>

definition main_run ::
  "sys \<Rightarrow> unmarshal \<Rightarrow> (string \<Rightarrow> bool) \<Rightarrow> (string \<Rightarrow> bool \<Rightarrow> string option) \<Rightarrow> int \<Rightarrow> flags \<Rightarrow> node_event list \<Rightarrow> OS \<Rightarrow>
   ((server_error + NodeServer) \<times> OS) option" where
  "main_run sys unmarshal certs listen now f evs os = do {
     (r, os) \<leftarrow> main_start sys unmarshal certs listen now f os;
     case r of
       Inl e \<Rightarrow> Some (Inl e, os)
     | Inr s \<Rightarrow> do {
         (s, os) \<leftarrow> node_run sys evs s os;
         (s, os) \<leftarrow> Node_Stop sys s os;
         Some (Inr s, os)
       }
   }"

section \<open>What is committed is there at the next start\<close>

text \<open>The file of the coordinator does not disturb the log.\<close>

lemma wal_rel_frame:
  assumes "wal_rel w os cl ac" and "fds_extend os os'"
    and "dirents os' = add_entry (offset_path (DataDir (wal_cfg w))) (dirents os)"
    and other: "\<And>q. q \<noteq> offset_path (DataDir (wal_cfg w)) \<Longrightarrow> files os' q = files os q"
  shows "wal_rel w os' cl ac"
proof -
  let ?dir = "DataDir (wal_cfg w)"
  have paths: "log_path ?dir b \<noteq> offset_path ?dir" "index_path ?dir b \<noteq> offset_path ?dir" for b
    using length_Sprintf_020d by (auto simp: offset_path_def log_path_def index_path_def dest: arg_cong [of _ _ length])
  have same: "files os' (log_path ?dir b) = files os (log_path ?dir b)" "files os' (index_path ?dir b) = files os (index_path ?dir b)" for b
    using other [OF paths(1)] other [OF paths(2)] by simp_all
  have "wal_dir os ?dir bs \<Longrightarrow> wal_dir os' ?dir bs" for bs
    using paths same
    by (auto simp: wal_dir_def log_bases_def assms(3) add_entry_def offset_path_def HasSuffix_def)
  moreover have "holds (wal_cfg w) os s b rs \<Longrightarrow> holds (wal_cfg w) os' s b rs" for s b rs
    using holds_same [OF _ assms(2)] same by blast
  ultimately show ?thesis using assms(1) by (simp add: wal_rel_def)
qed

lemma NewCoordinator_frame:
  assumes "NewCoordinator sys unmarshal dir timeout os = (Inr c, os')"
  shows "fds_extend os os' \<and> dirents os' = add_entry (offset_path dir) (dirents os) \<and>
    (\<forall>q. q \<noteq> offset_path dir \<longrightarrow> files os' q = files os q) \<and> offsetWriter c = \<lparr>wr_buf = [], wr_err = None\<rparr> \<and> \<not> stopped c"
  using assms
  by (auto simp: NewCoordinator_def OpenFile_def recoverOffsets_def do_call_def Let_def fds_extend_def
      split: option.splits prod.splits sum.splits if_splits)

lemma Coordinator_Close_idle:
  assumes "offsetWriter c = \<lparr>wr_buf = [], wr_err = None\<rparr>" and "\<not> stopped c"
  shows "\<exists>err c' os'. Coordinator_Close sys c os = Some (err, c', os') \<and> files os' = files os \<and> dirents os' = dirents os"
  using assms by (auto simp: Coordinator_Close_def bufio_Flush_def File_Close_def do_call_def split: prod.splits)

lemma NewNodeServer_stored:
  assumes "no_faults sys" and "wal_stored os (DefaultConfig dir) cl ac"
    and "NewNodeServer sys unmarshal certs listen now nid cPort pPort hPort dir addrs tls os = Some (Inr s, os')"
  shows "wal_rel (wal s) os' cl ac \<and> wal_cfg (wal s) = DefaultConfig dir \<and>
    offsetWriter (coord s) = \<lparr>wr_buf = [], wr_err = None\<rparr> \<and> \<not> stopped (coord s)"
proof -
  have cfg: "cfg_ok (DefaultConfig dir)" by (simp add: cfg_ok_def DefaultConfig_def size_ok_def max_frame_def)
  obtain w os1 where w: "OpenWAL sys (DefaultConfig dir) os = Some (Inr w, os1)" "wal_rel w os1 cl ac" "wal_cfg w = DefaultConfig dir"
    by (rule OpenWAL_stored [OF assms(1) cfg assms(2)])
  obtain q os2 where co_run: "NewCoordinator sys unmarshal dir (5 * 1000000000) os1 = (q, os2)" by fastforce
  then obtain c where q: "q = Inr c" using assms(3) w(1) by (cases q) (auto simp: NewNodeServer_def)
  then have s: "wal s = w" "coord s = c" "os' = os2"
    using assms(3) w(1) co_run by (auto simp: NewNodeServer_def Let_def bind_eq_Some_conv split: option.splits)
  have dir: "DataDir (wal_cfg w) = dir" unfolding w(3) by (simp add: DefaultConfig_def)
  note frame = NewCoordinator_frame [OF co_run [unfolded q]]
  have "wal_rel w os2 cl ac" by (rule wal_rel_frame [OF w(2)]) (use frame dir in auto)
  then show ?thesis using frame w(3) s by simp
qed

lemma node_run_ok:
  assumes sys: "no_faults sys"
  shows "committed evs (raftNode s) = Some es \<Longrightarrow> wal_ok (wal s) os recs \<Longrightarrow>
    \<forall>e \<in> set es. \<exists>p. e_Data e = Some p \<and> op_fits (wal_cfg (wal s)) (OpAppend p) \<Longrightarrow> length recs + length es < 2 ^ 63 \<Longrightarrow>
    \<exists>s' os'. node_run sys evs s os = Some (s', os') \<and> wal_ok (wal s') os' (recs @ map (\<lambda>e. the (e_Data e)) es) \<and>
      wal_cfg (wal s') = wal_cfg (wal s) \<and> offsetWriter (coord s') = offsetWriter (coord s) \<and> stopped (coord s') = stopped (coord s)"
proof (induction evs arbitrary: s os recs es)
  case (Cons ev evs)
  show ?case
  proof (cases ev)
    case (OtherSteps t)
    let ?s = "t\<lparr>wal := wal s, coord := (coord s)\<lparr>groups := groups (coord t)\<rparr>\<rparr>"
    show ?thesis using Cons.IH [of ?s es os recs] Cons.prems by (simp add: OtherSteps)
  next
    case ApplierPass
    obtain rn es1 es2 where pass: "runApplierLoop_step (raftNode s) = Some (rn, es1)" "committed evs rn = Some es2" "es = es1 @ es2"
      using Cons.prems(1) by (auto simp: ApplierPass bind_eq_Some_conv)
    obtain w1 os1 where w1: "commit_entries sys es1 (wal s, os) = Some (w1, os1)" "wal_ok w1 os1 (recs @ map (\<lambda>e. the (e_Data e)) es1)"
      "wal_cfg w1 = wal_cfg (wal s)"
      using commit_entries_ok [OF sys Cons.prems(2), of es1] Cons.prems(3,4) by (auto simp: pass(3))
    let ?s = "s\<lparr>raftNode := rn, wal := w1\<rparr>"
    have "\<exists>s' os'. node_run sys evs ?s os1 = Some (s', os') \<and>
        wal_ok (wal s') os' ((recs @ map (\<lambda>e. the (e_Data e)) es1) @ map (\<lambda>e. the (e_Data e)) es2) \<and>
        wal_cfg (wal s') = wal_cfg (wal ?s) \<and> offsetWriter (coord s') = offsetWriter (coord ?s) \<and> stopped (coord s') = stopped (coord ?s)"
      by (rule Cons.IH) (use pass w1 Cons.prems(3,4) in auto)
    then show ?thesis using pass w1 by (auto simp: ApplierPass node_apply_def)
  qed
qed simp

text \<open>The payloads a closed log holds on disk.\<close>

definition stored_records :: "OS \<Rightarrow> StorageConfig \<Rightarrow> byte list list \<Rightarrow> bool" where
  "stored_records os config recs \<longleftrightarrow> (\<exists>cl ac. wal_stored os config cl ac \<and> recs = map snd (concat cl @ ac))"

text \<open>C8. What was committed outlives the process: a node that is started over a directory with the records
  \<open>recs\<close>, whose applier then hands over the entries \<open>es\<close> in any number of passes, between any steps of
  its other goroutines, and which is then stopped by a signal, leaves a directory that the next
  start opens as the log of \<open>recs\<close> followed by the payloads of \<open>es\<close>: it counts them all and reads
  each at its place, and no other.\<close>

theorem stopped_node_keeps_log:
  assumes "no_faults sys" and "stored_records os (DefaultConfig (data_dir f)) recs"
    and "main_start sys unmarshal certs listen now f os = Some (Inr s, os1)"
    and "committed evs (raftNode s) = Some es"
    and "\<forall>e \<in> set es. \<exists>p. e_Data e = Some p \<and> op_fits (DefaultConfig (data_dir f)) (OpAppend p)"
    and "length recs + length es < 2 ^ 63" and "kept = recs @ map (\<lambda>e. the (e_Data e)) es"
  shows "\<exists>s' os' w os''. main_run sys unmarshal certs listen now f evs os = Some (Inr s', os') \<and>
    OpenWAL sys (DefaultConfig (data_dir f)) os' = Some (Inr w, os'') \<and> unat (LatestOffset w) = length kept \<and>
    (\<forall>i. WAL_ReadAt i w os'' = Some (if unat i < length kept then Inr (kept ! unat i) else Inl ErrOffsetNotFound))"
proof -
  let ?cfg = "DefaultConfig (data_dir f)"
  obtain cl ac where stored: "wal_stored os ?cfg cl ac" and recs: "recs = map snd (concat cl @ ac)"
    using assms(2) by (auto simp: stored_records_def)
  have started: "wal_rel (wal s) os1 cl ac" "wal_cfg (wal s) = ?cfg" "offsetWriter (coord s) = \<lparr>wr_buf = [], wr_err = None\<rparr>"
    "\<not> stopped (coord s)"
    using NewNodeServer_stored [OF assms(1) stored assms(3) [unfolded main_start_def]] by auto
  then have ok: "wal_ok (wal s) os1 recs" by (auto simp: wal_ok_def recs)
  obtain s2 os2 where run: "node_run sys evs s os1 = Some (s2, os2)" and ok2: "wal_ok (wal s2) os2 kept" "wal_cfg (wal s2) = ?cfg"
    and co: "offsetWriter (coord s2) = \<lparr>wr_buf = [], wr_err = None\<rparr>" "\<not> stopped (coord s2)"
    using node_run_ok [OF assms(1,4) ok] assms(5,6) started by (auto simp: assms(7))
  obtain cl2 ac2 where rel2: "wal_rel (wal s2) os2 cl2 ac2" and shape: "kept = map snd (concat cl2 @ ac2)"
    using ok2(1) by (auto simp: wal_ok_def)
  obtain err w3 os3 where close: "WAL_Close sys (wal s2) os2 = (err, w3, os3)" by (metis prod_cases3)
  have "wal_stored os3 ?cfg cl2 ac2" using wal_rel_Close [OF rel2 close] ok2(2) by simp
  moreover obtain err2 c4 os4 where co_close: "Coordinator_Close sys (coord s2) os3 = Some (err2, c4, os4)"
    "files os4 = files os3" "dirents os4 = dirents os3"
    using Coordinator_Close_idle [OF co] by blast
  ultimately have stored4: "wal_stored os4 ?cfg cl2 ac2"
    by (simp add: wal_stored_def stored_def file_bytes_def wal_dir_def log_bases_def)
  have "cfg_ok ?cfg" by (simp add: cfg_ok_def DefaultConfig_def size_ok_def max_frame_def)
  from OpenWAL_stored [OF assms(1) this stored4]
  obtain w os5 where w: "OpenWAL sys ?cfg os4 = Some (Inr w, os5)" "wal_rel w os5 cl2 ac2" by metis
  then have ok5: "wal_ok w os5 kept" using shape by (auto simp: wal_ok_def)
  have "length kept < 2 ^ 63" using assms(6) by (simp add: assms(7))
  then have "unat (word_of_nat (length kept) :: u64) = length kept" by (rule unat_of_nat63)
  moreover have "LatestOffset w = word_of_nat (length kept)"
    using w(2) shape by (simp add: LatestOffset_def wal_rel_def)
  ultimately have "unat (LatestOffset w) = length kept" by simp
  moreover have "main_run sys unmarshal certs listen now f evs os = Some (Inr (s2\<lparr>raftNode := Stop (raftNode s2), wal := w3, coord := c4\<rparr>), os4)"
    using assms(3) run close co_close(1) by (simp add: main_run_def Node_Stop_def Let_def)
  ultimately show ?thesis using w(1) wal_ok_ReadAt [OF ok5] by blast
qed

text \<open>One run of a node with one record: the leader's first entry is committed and applied.\<close>

lemma stopped_node_keeps_log_witness:
  "\<exists>w0 s' os' w os''. main_run faultless (\<lambda>_. None) (\<lambda>_. False) (\<lambda>_ _. None) 0 (no_flags\<lparr>dataDirFlag := ''d''\<rparr>)
      [OtherSteps (example_server w0), ApplierPass] one_record = Some (Inr s', os') \<and>
    OpenWAL faultless (DefaultConfig ''d'') os' = Some (Inr w, os'') \<and> unat (LatestOffset w) = 2 \<and>
    WAL_ReadAt 1 w os'' = Some (Inr [7])"
proof -
  let ?f = "no_flags\<lparr>dataDirFlag := ''d''\<rparr>" and ?new = "\<lparr>e_Index = 1, e_Term = 1, e_Data = Some [7]\<rparr>"
  obtain s os1 where s: "main_start faultless (\<lambda>_. None) (\<lambda>_. False) (\<lambda>_ _. None) 0 ?f one_record = Some (Inr s, os1)"
    unfolding main_start_def by (rule one_record_server) (simp add: data_dir_def)
  have dir: "data_dir ?f = ''d''" by (simp add: data_dir_def)
  have "stored_records one_record (DefaultConfig (data_dir ?f)) [[7]]"
    unfolding stored_records_def dir using one_record_stored by (intro exI [of _ "[]"] exI [of _ "[(0, [7])]"]) simp
  moreover have "committed [OtherSteps (example_server w0), ApplierPass] (raftNode s) = Some [?new]" for w0
    by (simp add: example_server_def example_node_eq example_config_def runApplierLoop_step_def apply_pass.simps log_at_def)
  moreover have "op_fits (DefaultConfig (data_dir ?f)) (OpAppend [7])" by (simp add: op_fits_def DefaultConfig_def MaxPayloadSize_def)
  ultimately show ?thesis
    using stopped_node_keeps_log [OF no_faults_faultless _ s, of "[[7]]" "[OtherSteps (example_server (wal s)), ApplierPass]" "[?new]" "[[7], [7]]"]
    unfolding dir by (intro exI [of _ "wal s"]) force
qed

end
