(* ===== verification/Spec2Isabelle.thy ===== *)
theory Spec2Isabelle
  imports Prelude Wire RaftState RaftHandlers RaftLeader RaftVoting RaftCluster RaftSpec
    RaftLogSim RaftSim RaftRefine RaftSafety RaftRuns
    Mmap SparseIndex Records Decimal Segment WAL WalFaults Consumer Latency NodeServer
    JsonText JsonCodec JsonPrefix JsonGlue Transport ConsumerJson
    NodeStreams WebSockets Tls NodeMain
begin

text \<open>
  Verification development for Aegis (KhorosLog), a distributed commit log written in Go.

  \<^bold>\<open>The program.\<close> A node (\<open>cmd/node/main.go\<close>) puts four parts together. Clients send frames of
  the binary protocol (\<open>network/binary_protocol.go\<close>) or HTTP requests; the node proposes their
  payloads to Raft (\<open>raft/consensus.go\<close>), whose RPCs travel over \<open>raft/tcp_transport.go\<close>; entries
  that Raft commits go to the write-ahead log (\<open>storage/wal_segment.go\<close>), which keeps them as
  frames in memory-mapped segments (\<open>storage/mmap_windows.go\<close>) with a sparse offset index
  (\<open>storage/index.go\<close>); consumers read by offset and keep their positions in the group
  coordinator (\<open>consumer/group_coordinator.go\<close>). With TLS on, a node generates its certificates
  itself (\<open>network/tls_cert.go\<close>). Browsers watch the nodes over web sockets.

  \<^bold>\<open>Theories.\<close>
  \<^item> \<open>Prelude\<close>: Go's integers and slices, facts about words and lists, and the interface
    \<open>simulation\<close> of a refinement.
  \<^item> \<open>Wire\<close>: \<open>EncodeFrame\<close>, \<open>DecodeFrame\<close>, \<open>WriteFrame\<close>, the reader they run on and the CRC.
    Round trip, soundness of decoding, independence of fragmentation, detection of corruption.
  \<^item> \<open>RaftState\<close>: the messages, the state and the log accessors of a Raft node; the invariant of
    its log (\<open>log_wf\<close>). \<open>RaftHandlers\<close>: the three RPC handlers, \<open>TakeSnapshot\<close> and the applier,
    with the entry loop shown equal to a merge of logs. \<open>RaftLeader\<close>: timer, pre-vote, election,
    broadcast, the goroutines that handle replies, the commit rule, \<open>Propose\<close>.
  \<^item> \<open>RaftVoting\<close>: all steps of one node, one vote per term (interface \<open>vote_keeper\<close>).
    \<open>RaftCluster\<close>: the nodes and the RPC goroutines between them as an interleaving of their
    locked sections; the network loses, delays and repeats calls. Election safety by an invariant
    and the interface \<open>quorum_system\<close>.
  \<^item> \<open>RaftSpec\<close>: the abstract replicated log (terms, whole logs, for each term the log of its
    leader) with its invariant and its safety. \<open>RaftLogSim\<close>, \<open>RaftSim\<close>, \<open>RaftRefine\<close>: the code
    refines it, first for the compacted log of a node, then for each operation of a node, then
    for the cluster with everything in flight. \<open>RaftSafety\<close>: state machine safety, leader
    completeness and log matching of the code, and a concrete run that commits. \<open>RaftRuns\<close>: what
    goes wrong over whole runs (interface \<open>member_order\<close>): entries below a snapshot ahead of the
    applier are never applied, and a cluster of one never commits.
  \<^item> \<open>Mmap\<close>, \<open>SparseIndex\<close>: mapped files and the index, over a model of the files and handles.
    \<open>Records\<close>: a file as frames and a rest (interface \<open>frame_codec\<close>). \<open>Decimal\<close>: printing and
    parsing of numbers. \<open>Segment\<close>: one segment with its recovery. \<open>WAL\<close>: the whole log, shown to
    refine a list of payloads over any sequence of operations and restarts. \<open>WalFaults\<close>: the same
    when any of the system calls fail.
  \<^item> \<open>Consumer\<close>: groups, assignment, heartbeats, eviction and durable offsets. \<open>Latency\<close>: the
    window of latencies and its percentiles. \<open>NodeServer\<close>: the composition of the parts, the state
    machine, the answers to a client and the HTTP handlers.
  \<^item> \<open>JsonText\<close>, \<open>JsonCodec\<close>, \<open>JsonPrefix\<close>, \<open>JsonGlue\<close>: what the program uses of \<open>encoding/json\<close>: runes and
    escapes, a parser and a printer of values, struct fields, base64; the round trip of every
    value, and the same in a stream (interfaces \<open>json_codec\<close> and \<open>json_message\<close>). A string that is
    no UTF-8 is sanitized. A text cut short is refused, and so is a line on which an object follows
    another that was cut short.
  \<^item> \<open>Transport\<close>: the RPC messages as JSON, the connection handler and the three calls of the TCP
    transport; a delivered call is the step of \<open>RaftCluster\<close> that serves it, and a message cut
    short is none. \<open>ConsumerJson\<close>: the lines of the coordinator's file, a committed offset
    through them, and one that is lost behind a torn line.
  \<^item> \<open>NodeStreams\<close>: the loop of a client connection (every frame is answered, in order, by the role
    of the node at that moment), HTTP routes and bodies, the load generator. \<open>WebSockets\<close>: the socket handlers and the broadcast as a step
    relation, with its invariant. \<open>Tls\<close>: certificates and configurations over symbolic
    cryptography; who can connect to whom. \<open>NodeMain\<close>: flags, \<open>main\<close>, and that what is committed
    is read after the next start.

  \<^bold>\<open>How the code is rendered.\<close> A struct is a record and a method a function of the state that
  returns it updated; code under one lock is one step, and concurrency is the interleaving of
  such steps. A run-time panic is \<open>None\<close>, an error a value. \<open>uint64\<close> and \<open>uint32\<close> are words;
  \<open>int(x)\<close> of a word is \<open>sint\<close>. The clock, random numbers, file system faults (\<open>sys\<close>, one answer
  for each call), the text of a time stamp, listeners, and of a connection whether it opens, whether
  a write works and which bytes come back, are arguments; what is assumed of them is a hypothesis
  by name (\<open>no_faults\<close>, \<open>time_ok\<close>). What other goroutines do while a handler waits is an argument
  too. Cryptography is symbolic: a key pair is the number drawn for it and a signature the key
  that made it.

  \<^bold>\<open>Bounds.\<close> Log positions stay below \<open>2 ^ 63\<close>, so that \<open>int(index)\<close> is not negative (\<open>log_wf\<close>,
  \<open>roomy\<close>): no slice is longer. Segments are within the sizes the 32-bit positions allow
  (\<open>size_ok\<close>). An election does not wrap the term. \<open>float64\<close> samples are rationals. The recovery
  loop is a partial function; that it ends is proved. The JSON parser runs on a fuel of twice the
  length of the text, plus one, which is always enough (\<open>parse_fuel\<close>), and refuses values nested deeper than
  \<open>maxNestingDepth\<close>, as Go does. All other loops are total.

  \<^bold>\<open>What the theorems rest on.\<close> The theorems on the cluster are about members that are created
  once, from the same initial commit index, and are not restarted; \<open>RaftVoting\<close> shows that they
  fail otherwise, since neither term nor vote is stored. Some theorems state a defect, as the
  code has it: a leader without peers never commits; a snapshot or a restart makes the applier
  skip entries; a reopened index is full; records that recovery gave up come back; a commit
  after a torn line is lost; evicted members keep their partitions; a producer is answered an
  offset one too high; nodes with TLS trust no other node, and those not named 1, 2 or 3 have no
  TLS; a web socket has two writers; payloads that are no UTF-8 are not read back over HTTP; a
  node with TLS serves none of its own load.

  \<^bold>\<open>Not modelled.\<close> Time-outs other than as an outcome of a call, log lines and HTTP headers, the
  parsing of the command line, the numbers inside cryptography and the bytes of a certificate,
  and the benchmarks. The Win32 calls are modelled by which of them fail, and a mapped view by
  the bytes of its file. A restart in the middle of a run is modelled for the log and the
  coordinator, not for the cluster.
\<close>

end
